(* ===== verification/Rust_Base.thy ===== *)
theory Rust_Base
  imports Main "HOL-Library.Word" "HOL-Library.Monad_Syntax"
begin

unbundle bit_operations_syntax

text \<open>
  The prelude of the development: the machine integers of the Rust sources as word types, the
  parts of the Rust core library that several crates use (\<open>std::alloc::Layout\<close>, checked and
  saturating arithmetic, the byte-slice writer, big-endian bytes) and the generic lemmas on
  lists, options and words that the component theories share.

  Conventions of the whole library.
  \<^item> \<open>u8\<close>, \<open>u16\<close>, \<open>u32\<close>, \<open>u64\<close> are the words of that width. A \<open>usize\<close> that
    is only compared and indexed with is a \<open>nat\<close>, and where the source checks it for overflow
    the bound \<open>usize_max\<close> of a 64-bit target is written out; an atomic \<open>usize\<close> counter,
    which wraps, is a \<open>u64\<close>.
  \<^item> A fallible Rust function returns \<open>'e + 'a\<close>, \<open>Inl\<close> for \<open>Err\<close>.
  \<^item> A stateful one takes the state and returns the new state beside its result. Where the code can
    panic (\<open>assert!\<close>, \<open>expect\<close>, \<open>unreachable!\<close>, an index out of range) or would read
    outside an array through a raw pointer, the model's result is an \<open>option\<close> and \<open>None\<close>
    is that outcome; the component theories prove it away under their invariants.
\<close>

section \<open>Types and collections\<close>

type_synonym u8 = "8 word"
type_synonym u16 = "16 word"
type_synonym u32 = "32 word"
type_synonym u64 = "64 word"
type_synonym bytes = "u8 list"

text \<open>Facts that state how an operation acts on the abstract view of a component.\<close>

named_theorems refine_simps "what an operation does to a component's abstraction"

text \<open>Word and layout arithmetic shared by the proofs.\<close>

named_theorems word_facts "bounds and round trips of packed words"

section \<open>Words\<close>

lemma unat_u8_less [word_facts]: "unat (x :: u8) < 256"
  using unsigned_less [of x] by simp

lemma unat_u16_less [word_facts]: "unat (x :: u16) < 65536"
  using unsigned_less [of x] by simp

lemma unat_u32_less [word_facts]: "unat (x :: u32) < 4294967296"
  using unsigned_less [of x] by simp

lemma unat_u64_less [word_facts]: "unat (x :: u64) < 18446744073709551616"
  using unsigned_less [of x] by simp

lemma unat_of_nat_less [word_facts]:
  "n < 2 ^ LENGTH('a) \<Longrightarrow> unat (of_nat n :: 'a::len word) = n"
  by (simp add: unat_of_nat take_bit_nat_eq_self)

lemma unat_of_nat_u32: "n < 2 ^ 32 \<Longrightarrow> unat (of_nat n :: u32) = n"
  by (rule unat_of_nat_less) simp

lemma unat_of_nat_u64: "n < 2 ^ 64 \<Longrightarrow> unat (of_nat n :: u64) = n"
  by (rule unat_of_nat_less) simp

lemma mask_32 [word_facts]: "(0xFFFFFFFF :: 64 word) = mask 32"
  by (simp add: mask_eq_exp_minus_1)

lemma unat_max_u32 [simp]: "unat (- 1 :: u32) = 4294967295"
  by (simp add: unsigned_minus_1_eq_mask mask_eq_exp_minus_1)

lemma unat_max_u64 [simp]: "unat (- 1 :: u64) = 18446744073709551615"
  by (simp add: unsigned_minus_1_eq_mask mask_eq_exp_minus_1)

lemma unat_neq_max_less: "(x :: u32) \<noteq> - 1 \<longleftrightarrow> unat x < 4294967295"
proof
  assume "x \<noteq> - 1"
  then have "unat x \<noteq> 4294967295"
    using unat_max_u32 word_unat_eq_iff by metis
  then show "unat x < 4294967295"
    using unat_u32_less [of x] by simp
qed auto

section \<open>Indexing\<close>

text \<open>Reading an array through a pointer or an index: \<open>None\<close> outside the array.\<close>

definition index_opt :: "'a list \<Rightarrow> nat \<Rightarrow> 'a option" where
  "index_opt xs i = (if i < length xs then Some (xs ! i) else None)"

definition update_opt :: "'a list \<Rightarrow> nat \<Rightarrow> 'a \<Rightarrow> 'a list option" where
  "update_opt xs i v = (if i < length xs then Some (xs[i := v]) else None)"

lemma index_opt_simps [simp]:
  "i < length xs \<Longrightarrow> index_opt xs i = Some (xs ! i)"
  "length xs \<le> i \<Longrightarrow> index_opt xs i = None"
  by (simp_all add: index_opt_def)

lemma update_opt_simps [simp]:
  "i < length xs \<Longrightarrow> update_opt xs i v = Some (xs[i := v])"
  "length xs \<le> i \<Longrightarrow> update_opt xs i v = None"
  by (simp_all add: update_opt_def)

lemma index_opt_eq_Some [simp]: "index_opt xs i = Some v \<longleftrightarrow> i < length xs \<and> xs ! i = v"
  by (auto simp: index_opt_def)

lemma update_opt_eq_Some [simp]:
  "update_opt xs i v = Some ys \<longleftrightarrow> i < length xs \<and> ys = xs[i := v]"
  by (auto simp: update_opt_def)

lemma length_filter_update:
  "i < length xs \<Longrightarrow>
     length (filter P (xs[i := v])) + (if P (xs ! i) then 1 else 0) =
     length (filter P xs) + (if P v then 1 else 0)"
proof -
  assume i: "i < length xs"
  then have "filter P xs = filter P (take i xs @ xs ! i # drop (Suc i) xs)"
    by (simp add: id_take_nth_drop [symmetric])
  with i show ?thesis
    by (simp add: upd_conv_take_nth_drop)
qed

section \<open>usize\<close>

definition usize_max :: nat where
  "usize_max = 2 ^ 64 - 1"

definition isize_max :: nat where
  "isize_max = 2 ^ 63 - 1"

definition checked_add_usize :: "nat \<Rightarrow> nat \<Rightarrow> nat option" where
  "checked_add_usize a b = (if a + b \<le> usize_max then Some (a + b) else None)"

definition checked_mul_usize :: "nat \<Rightarrow> nat \<Rightarrow> nat option" where
  "checked_mul_usize a b = (if a * b \<le> usize_max then Some (a * b) else None)"

definition saturating_add_u64 :: "u64 \<Rightarrow> u64 \<Rightarrow> u64" where
  "saturating_add_u64 a b = (if unat a + unat b < 2 ^ 64 then a + b else - 1)"

definition saturating_sub_u64 :: "u64 \<Rightarrow> u64 \<Rightarrow> u64" where
  "saturating_sub_u64 a b = (if b \<le> a then a - b else 0)"

lemma checked_add_usize_Some:
  "checked_add_usize a b = Some c \<longleftrightarrow> c = a + b \<and> a + b \<le> usize_max"
  by (auto simp: checked_add_usize_def)

lemma checked_mul_usize_Some:
  "checked_mul_usize a b = Some c \<longleftrightarrow> c = a * b \<and> a * b \<le> usize_max"
  by (auto simp: checked_mul_usize_def)

lemma saturating_add_u64_one:
  "a \<noteq> - 1 \<Longrightarrow> saturating_add_u64 a 1 = a + 1 \<and> unat (a + 1) = Suc (unat a)"
proof -
  assume "a \<noteq> - 1"
  then have "1 + a \<noteq> 0"
    by (metis add.commute add_eq_0_iff)
  then have "unat (1 + a) = Suc (unat a)"
    by (rule unatSuc)
  then show ?thesis
    using unat_u64_less [of "1 + a"] by (simp add: saturating_add_u64_def add.commute)
qed

lemma unat_saturating_sub_u64: "unat (saturating_sub_u64 a b) = unat a - unat b"
  by (auto simp: saturating_sub_u64_def unat_sub word_le_nat_alt)

section \<open>std::alloc::Layout\<close>

text \<open>
  A layout is a size and an alignment. \<open>None\<close> stands for \<open>LayoutError\<close>: a size that, rounded
  up to the alignment, exceeds \<open>isize::MAX\<close>.
\<close>

record layout =
  lsize :: nat
  lalign :: nat

definition is_power_of_two :: "nat \<Rightarrow> bool" where
  "is_power_of_two n = (\<exists>k \<in> set [0..<64]. n = 2 ^ k)"

definition max_size_for_align :: "nat \<Rightarrow> nat" where
  "max_size_for_align a = isize_max + 1 - a"

definition round_up :: "nat \<Rightarrow> nat \<Rightarrow> nat" where
  "round_up n a = (n + a - 1) div a * a"

definition layout_from_size_align :: "nat \<Rightarrow> nat \<Rightarrow> layout option" where
  "layout_from_size_align sz align =
     (if \<not> is_power_of_two align \<or> max_size_for_align align < sz then None
      else Some \<lparr>lsize = sz, lalign = align\<rparr>)"

definition layout_array :: "nat \<Rightarrow> nat \<Rightarrow> nat \<Rightarrow> layout option" where
  "layout_array elem_size elem_align n =
     (if elem_size \<noteq> 0 \<and> max_size_for_align elem_align div elem_size < n then None
      else Some \<lparr>lsize = elem_size * n, lalign = elem_align\<rparr>)"

definition layout_extend :: "layout \<Rightarrow> layout \<Rightarrow> (layout \<times> nat) option" where
  "layout_extend l nxt =
     (let new_align = max (lalign l) (lalign nxt);
          offset = round_up (lsize l) (lalign nxt)
      in do {
        new_size \<leftarrow> checked_add_usize offset (lsize nxt);
        l' \<leftarrow> layout_from_size_align new_size new_align;
        Some (l', offset)
      })"

definition pad_to_align :: "layout \<Rightarrow> layout" where
  "pad_to_align l = l\<lparr>lsize := round_up (lsize l) (lalign l)\<rparr>"

lemma is_power_of_two_pow: "k < 64 \<Longrightarrow> is_power_of_two (2 ^ k)"
  by (auto simp: is_power_of_two_def)

lemma is_power_of_two_8 [simp]: "is_power_of_two 8"
  using is_power_of_two_pow [of 3] by simp

lemma is_power_of_two_64 [simp]: "is_power_of_two 64"
  using is_power_of_two_pow [of 6] by simp

lemmas layout_defs = layout_array_def layout_extend_def layout_from_size_align_def
  pad_to_align_def round_up_def max_size_for_align_def checked_add_usize_def checked_mul_usize_def
  usize_max_def isize_max_def

lemma round_up_ge: "0 < a \<Longrightarrow> n \<le> round_up n a"
proof -
  assume a: "0 < a"
  have "round_up n a = n + a - 1 - (n + a - 1) mod a"
    by (simp add: round_up_def minus_mod_eq_div_mult [symmetric])
  moreover have "(n + a - 1) mod a < a"
    using a by simp
  ultimately show ?thesis
    using a by linarith
qed

lemma round_up_dvd: "a dvd round_up n a"
  by (simp add: round_up_def)

lemma layout_extend_Some:
  assumes "layout_extend l nxt = Some (l', off)" and "0 < lalign nxt"
  shows "lsize l \<le> off" "lalign nxt dvd off" "lsize l' = off + lsize nxt"
    "lalign l' = max (lalign l) (lalign nxt)"
  using assms round_up_ge [of "lalign nxt" "lsize l"] round_up_dvd
  by (auto simp: layout_extend_def Let_def checked_add_usize_def layout_from_size_align_def
      split: if_splits Option.bind_splits)

section \<open>Byte slices\<close>

text \<open>
  A cursor \<open>&mut [u8]\<close> used as a writer: the bytes written so far and the room left.
  \<open>write_all\<close> copies what fits and fails when something is left over, so a failed call leaves no
  room.
\<close>

record slice_writer =
  sw_out :: bytes
  sw_room :: nat

definition slice_writer_new :: "nat \<Rightarrow> slice_writer" where
  "slice_writer_new n = \<lparr>sw_out = [], sw_room = n\<rparr>"

definition slice_write_all :: "slice_writer \<Rightarrow> bytes \<Rightarrow> slice_writer + slice_writer" where
  "slice_write_all w bs =
     (if length bs \<le> sw_room w
      then Inr \<lparr>sw_out = sw_out w @ bs, sw_room = sw_room w - length bs\<rparr>
      else Inl \<lparr>sw_out = sw_out w @ take (sw_room w) bs, sw_room = 0\<rparr>)"

text \<open>A run of writes, each followed by \<open>?\<close>.\<close>

fun slice_write_each :: "slice_writer \<Rightarrow> bytes list \<Rightarrow> slice_writer + slice_writer" where
  "slice_write_each w [] = Inr w"
| "slice_write_each w (bs # bss) =
     (case slice_write_all w bs of Inl w' \<Rightarrow> Inl w' | Inr w' \<Rightarrow> slice_write_each w' bss)"

lemma slice_write_each_fits:
  "length (concat bss) \<le> sw_room w \<Longrightarrow>
     slice_write_each w bss = Inr \<lparr>sw_out = sw_out w @ concat bss, sw_room = sw_room w - length (concat bss)\<rparr>"
  by (induction bss arbitrary: w) (auto simp: slice_write_all_def)

text \<open>\<open>copy_from_slice\<close> into \<open>dst[start .. start + len]\<close>.\<close>

definition copy_at :: "bytes \<Rightarrow> nat \<Rightarrow> bytes \<Rightarrow> bytes" where
  "copy_at dst start src = take start dst @ src @ drop (start + length src) dst"

lemma length_copy_at [simp]:
  "start + length src \<le> length dst \<Longrightarrow> length (copy_at dst start src) = length dst"
  by (simp add: copy_at_def)

lemma take_copy_at_before [simp]:
  "n \<le> start \<Longrightarrow> start + length src \<le> length dst \<Longrightarrow>
     take n (copy_at dst start src) = take n dst"
  by (simp add: copy_at_def min_def)

lemma copy_at_read [simp]:
  "start + length src \<le> length dst \<Longrightarrow>
     take (length src) (drop start (copy_at dst start src)) = src"
  by (simp add: copy_at_def)

section \<open>Results\<close>

text \<open>\<open>Result::map_err\<close> and the \<open>?\<close> operator.\<close>

definition map_err :: "('e \<Rightarrow> 'f) \<Rightarrow> 'e + 'a \<Rightarrow> 'f + 'a" where
  "map_err f r = (case r of Inl e \<Rightarrow> Inl (f e) | Inr a \<Rightarrow> Inr a)"

definition try_bind :: "'e + 'a \<Rightarrow> ('a \<Rightarrow> 'e + 'b) \<Rightarrow> 'e + 'b" where
  "try_bind r k = (case r of Inl e \<Rightarrow> Inl e | Inr a \<Rightarrow> k a)"

definition ok_or :: "'e \<Rightarrow> 'a option \<Rightarrow> 'e + 'a" where
  "ok_or e x = (case x of None \<Rightarrow> Inl e | Some a \<Rightarrow> Inr a)"

lemma map_err_simps [simp]:
  "map_err f (Inl e) = Inl (f e)" "map_err f (Inr a) = Inr a"
  by (simp_all add: map_err_def)

lemma try_bind_simps [simp]:
  "try_bind (Inl e) k = Inl e" "try_bind (Inr a) k = k a"
  by (simp_all add: try_bind_def)

lemma ok_or_simps [simp]: "ok_or e None = Inl e" "ok_or e (Some a) = Inr a"
  by (simp_all add: ok_or_def)

lemma try_bind_eq_Inr: "try_bind r k = Inr b \<longleftrightarrow> (\<exists>a. r = Inr a \<and> k a = Inr b)"
  by (cases r) auto

lemma map_err_eq_Inr [simp]: "map_err f r = Inr a \<longleftrightarrow> r = Inr a"
  by (cases r) auto

lemma ok_or_eq_Inr [simp]: "ok_or e x = Inr a \<longleftrightarrow> x = Some a"
  by (cases x) auto

section \<open>State machines\<close>

text \<open>
  A \<open>state_machine!\<close> block is its table: for each state the inputs it takes and the states they lead to. The
  machine refuses every other input.
\<close>

definition fsm_next :: "('s \<times> ('i \<times> 's) list) list \<Rightarrow> 's \<Rightarrow> 'i \<Rightarrow> 's option" where
  "fsm_next table state input = do { row \<leftarrow> map_of table state; map_of row input }"

end
