(* ===== verification/Treiber_Stack.thy ===== *)
theory Treiber_Stack
  imports Rust_Base
begin

text \<open>
  The fixed-size Treiber stack of \<^verbatim>\<open>src/lockfree/src/lib.rs\<close>, the free list of the page pool, the
  issuance permits and the control slots. The header's head word packs the top index and a 32-bit
  tag; \<open>ts_next\<close> is the shared \<open>next\<close> array.

  Here every operation runs alone: its compare-and-exchange sees the word it loaded and succeeds at
  the first turn of the loop. \<open>Treiber_Concurrent\<close> splits the same operations into their atomic
  accesses and interleaves them. Shown here: each operation refines pop and push on a list
  (\<open>stack_rep\<close>), which is the interface \<open>freelist\<close> the page pool builds on.
\<close>

section \<open>Model\<close>

datatype stack_error = Empty | Full

record treiber_stack =
  ts_head :: u64
  ts_capacity :: nat
  ts_len :: u64
  ts_next :: "u32 list"

record stack_layout =
  sl_layout :: layout
  sl_next_offset :: nat

text \<open>\<open>TreiberStackHeader\<close> is three 8-byte words under \<open>repr(C)\<close>, an \<open>AtomicU32\<close> four bytes.\<close>

definition treiber_stack_layout :: "nat \<Rightarrow> stack_layout option" where
  "treiber_stack_layout capacity = do {
     next_arr \<leftarrow> layout_array 4 4 capacity;
     (combined, next_offset) \<leftarrow> layout_extend \<lparr>lsize = 24, lalign = 8\<rparr> next_arr;
     Some \<lparr>sl_layout = pad_to_align combined, sl_next_offset = next_offset\<rparr>
   }"

definition stack_none :: u32 where
  "stack_none = - 1"

definition pack_head :: "u32 \<Rightarrow> u32 \<Rightarrow> u64" where
  "pack_head idx tag = push_bit 32 (ucast tag) OR ucast idx"

definition unpack_head :: "u64 \<Rightarrow> u32 \<times> u32" where
  "unpack_head w = (ucast (w AND 0xFFFFFFFF), ucast (drop_bit 32 w))"

text \<open>The two initialisers assert that the capacity fits 32 bits.\<close>

definition stack_init_in_place :: "nat \<Rightarrow> treiber_stack option" where
  "stack_init_in_place capacity =
     (if capacity \<le> 2 ^ 32 - 1
      then Some \<lparr>ts_head = pack_head (if capacity = 0 then stack_none else of_nat (capacity - 1)) 0,
                 ts_capacity = capacity,
                 ts_len = of_nat capacity,
                 ts_next = map (\<lambda>i. if i = 0 then stack_none else of_nat i - 1) [0..<capacity]\<rparr>
      else None)"

definition stack_init_empty_in_place :: "nat \<Rightarrow> treiber_stack option" where
  "stack_init_empty_in_place capacity =
     (if capacity \<le> 2 ^ 32 - 1
      then Some \<lparr>ts_head = pack_head stack_none 0, ts_capacity = capacity, ts_len = 0,
                 ts_next = replicate capacity stack_none\<rparr>
      else None)"

definition stack_allocate :: "treiber_stack \<Rightarrow> (treiber_stack \<times> (stack_error + u32)) option" where
  "stack_allocate s =
     (case unpack_head (ts_head s) of (idx, tag) \<Rightarrow>
        if idx = stack_none then Some (s, Inl Empty)
        else do {
          nxt \<leftarrow> index_opt (ts_next s) (unat idx);
          Some (s\<lparr>ts_head := pack_head nxt (tag + 1), ts_len := ts_len s - 1\<rparr>, Inr idx)
        })"

definition stack_release ::
  "treiber_stack \<Rightarrow> u32 \<Rightarrow> (treiber_stack \<times> (stack_error + unit)) option" where
  "stack_release s val =
     (if ts_capacity s \<le> unat val then Some (s, Inl Full)
      else if ts_capacity s \<le> unat (ts_len s) then Some (s, Inl Full)
      else (case unpack_head (ts_head s) of (idx, tag) \<Rightarrow> do {
        nx \<leftarrow> update_opt (ts_next s) (unat val) idx;
        Some (s\<lparr>ts_next := nx, ts_head := pack_head val (tag + 1), ts_len := ts_len s + 1\<rparr>, Inr ())
      }))"

definition stack_reset_empty :: "treiber_stack \<Rightarrow> treiber_stack" where
  "stack_reset_empty s =
     (case unpack_head (ts_head s) of (_, tag) \<Rightarrow>
        s\<lparr>ts_head := pack_head stack_none (tag + 1), ts_len := 0\<rparr>)"

section \<open>The head word\<close>

lemma high_bit_u32: "\<not> bit (i :: u32) (32 + n)"
  by (auto dest: bit_imp_le_length)

lemma unpack_pack_head [simp]: "unpack_head (pack_head i t) = (i, t)"
  unfolding unpack_head_def pack_head_def mask_32
  by (auto intro!: bit_word_eqI simp: bit_simps high_bit_u32)

lemma pack_unpack_head: "pack_head (fst (unpack_head w)) (snd (unpack_head w)) = w"
  unfolding unpack_head_def pack_head_def mask_32
  by (auto intro!: bit_word_eqI simp: bit_simps)

lemma pack_head_inject [simp]: "pack_head i t = pack_head j u \<longleftrightarrow> i = j \<and> t = u"
  by (metis unpack_pack_head prod.inject)

section \<open>The linked list in the next array\<close>

fun chain :: "u32 list \<Rightarrow> u32 \<Rightarrow> u32 list \<Rightarrow> bool" where
  "chain nx i [] \<longleftrightarrow> i = stack_none"
| "chain nx i (x # xs) \<longleftrightarrow> i = x \<and> unat x < length nx \<and> chain nx (nx ! unat x) xs"

lemma chain_in_range: "chain nx i xs \<Longrightarrow> x \<in> set xs \<Longrightarrow> unat x < length nx"
  by (induction nx i xs rule: chain.induct) auto

lemma chain_update: "v \<notin> set xs \<Longrightarrow> chain (nx[unat v := j]) i xs \<longleftrightarrow> chain nx i xs"
  by (induction nx i xs rule: chain.induct) (auto simp: nth_list_update word_unat_eq_iff)

lemma chain_unique: "chain nx i xs \<Longrightarrow> chain nx i ys \<Longrightarrow> length nx < 2 ^ 32 \<Longrightarrow> xs = ys"
proof (induction nx i xs arbitrary: ys rule: chain.induct)
  case (1 nx i)
  then show ?case
    by (cases ys) (auto simp: stack_none_def)
next
  case (2 nx i x xs)
  then show ?case
    by (cases ys) (auto simp: stack_none_def)
qed

definition stack_rep :: "treiber_stack \<Rightarrow> u32 list \<Rightarrow> bool" where
  "stack_rep s xs \<longleftrightarrow>
     length (ts_next s) = ts_capacity s \<and> ts_capacity s < 2 ^ 32 \<and> distinct xs \<and>
     chain (ts_next s) (fst (unpack_head (ts_head s))) xs \<and>
     ts_len s = of_nat (length xs)"

lemma stack_rep_in_range: "stack_rep s xs \<Longrightarrow> x \<in> set xs \<Longrightarrow> unat x < ts_capacity s"
  by (auto simp: stack_rep_def dest: chain_in_range)

lemma distinct_u32_length:
  assumes "distinct xs" and "\<And>x. x \<in> set xs \<Longrightarrow> unat x < n"
  shows "length (xs :: u32 list) \<le> n"
proof -
  have "distinct (map unat xs)"
    using assms(1) by (simp add: distinct_map inj_on_def word_unat_eq_iff)
  then have "length xs = card (set (map unat xs))"
    by (metis distinct_card length_map)
  also have "\<dots> \<le> card {..<n}"
    by (rule card_mono) (auto dest: assms(2))
  finally show ?thesis by simp
qed

lemma distinct_u32_length_less:
  assumes "distinct xs" and "\<And>x. x \<in> set xs \<Longrightarrow> unat x < n" and "v \<notin> set xs" and "unat v < n"
  shows "length (xs :: u32 list) < n"
proof -
  have "length (v # xs) \<le> n"
    by (rule distinct_u32_length) (use assms in auto)
  then show ?thesis by simp
qed

section \<open>The free-list interface\<close>

text \<open>
  What a client of the stack relies on: popping returns the top, pushing an index that is in range
  and not on the list succeeds, and an index out of range is refused.
\<close>

locale freelist =
  fixes alloc :: "'s \<Rightarrow> ('s \<times> (stack_error + u32)) option"
    and rel :: "'s \<Rightarrow> u32 \<Rightarrow> ('s \<times> (stack_error + unit)) option"
    and rep :: "'s \<Rightarrow> u32 list \<Rightarrow> bool"
    and cap :: "'s \<Rightarrow> nat"
  assumes alloc_empty: "rep s [] \<Longrightarrow> alloc s = Some (s, Inl Empty)"
    and alloc_top: "rep s (x # xs) \<Longrightarrow>
          \<exists>s'. alloc s = Some (s', Inr x) \<and> rep s' xs \<and> cap s' = cap s"
    and rel_push: "rep s xs \<Longrightarrow> v \<notin> set xs \<Longrightarrow> unat v < cap s \<Longrightarrow>
          \<exists>s'. rel s v = Some (s', Inr ()) \<and> rep s' (v # xs) \<and> cap s' = cap s"
    and rel_range: "cap s \<le> unat v \<Longrightarrow> rel s v = Some (s, Inl Full)"
    and rep_distinct: "rep s xs \<Longrightarrow> distinct xs"
    and rep_range: "rep s xs \<Longrightarrow> x \<in> set xs \<Longrightarrow> unat x < cap s"
begin

text \<open>Popping \<open>n\<close> times, and giving a list of indices back.\<close>

fun drain :: "nat \<Rightarrow> 's \<Rightarrow> (u32 list \<times> 's) option" where
  "drain 0 s = Some ([], s)"
| "drain (Suc n) s = (case alloc s of
      None \<Rightarrow> None
    | Some (s', Inl _) \<Rightarrow> None
    | Some (s', Inr x) \<Rightarrow> (case drain n s' of None \<Rightarrow> None | Some (ys, s'') \<Rightarrow> Some (x # ys, s'')))"

fun refill :: "u32 list \<Rightarrow> 's \<Rightarrow> 's option" where
  "refill [] s = Some s"
| "refill (v # vs) s = (case rel s v of
      Some (s', Inr _) \<Rightarrow> refill vs s'
    | _ \<Rightarrow> None)"

lemma drain_take:
  assumes "rep s xs" and "n \<le> length xs"
  shows "\<exists>s'. drain n s = Some (take n xs, s') \<and> rep s' (drop n xs) \<and> cap s' = cap s"
  using assms
proof (induction n arbitrary: s xs)
  case 0
  then show ?case by simp
next
  case (Suc n)
  then obtain x ys where xs: "xs = x # ys" by (cases xs) auto
  from alloc_top Suc.prems xs obtain s1
    where s1: "alloc s = Some (s1, Inr x)" "rep s1 ys" "cap s1 = cap s" by metis
  from Suc.IH [OF s1(2)] Suc.prems xs obtain s2
    where "drain n s1 = Some (take n ys, s2)" "rep s2 (drop n ys)" "cap s2 = cap s1" by auto
  with s1 xs show ?case by auto
qed

lemma refill_rev:
  assumes "rep s xs" and "distinct (vs @ xs)" and "\<forall>v \<in> set vs. unat v < cap s"
  shows "\<exists>s'. refill vs s = Some s' \<and> rep s' (rev vs @ xs) \<and> cap s' = cap s"
  using assms
proof (induction vs arbitrary: s xs)
  case Nil
  then show ?case by simp
next
  case (Cons v vs)
  from rel_push [OF Cons.prems(1), of v] Cons.prems obtain s1
    where s1: "rel s v = Some (s1, Inr ())" "rep s1 (v # xs)" "cap s1 = cap s" by auto
  from Cons.IH [OF s1(2)] Cons.prems s1(3) obtain s2
    where "refill vs s1 = Some s2" "rep s2 (rev vs @ v # xs)" "cap s2 = cap s1" by auto
  with s1 show ?case by auto
qed

text \<open>Taking \<open>n\<close> indices and giving them back in reverse order restores the list.\<close>

lemma drain_refill:
  assumes "rep s xs" and "n \<le> length xs"
  shows "\<exists>s1 s2. drain n s = Some (take n xs, s1) \<and>
           refill (rev (take n xs)) s1 = Some s2 \<and> rep s2 xs"
proof -
  from drain_take [OF assms] obtain s1
    where s1: "drain n s = Some (take n xs, s1)" "rep s1 (drop n xs)" "cap s1 = cap s" by blast
  have d: "distinct (rev (take n xs) @ drop n xs)"
    using rep_distinct [OF assms(1)]
    by (metis append_take_drop_id distinct_append distinct_rev set_rev)
  have r: "\<forall>v \<in> set (rev (take n xs)). unat v < cap s1"
    using rep_range [OF assms(1)] s1(3) by (auto dest: in_set_takeD)
  from refill_rev [OF s1(2) d r] obtain s2
    where "refill (rev (take n xs)) s1 = Some s2" "rep s2 xs" by auto
  with s1(1) show ?thesis by blast
qed

end

lemma stack_allocate_empty: "stack_rep s [] \<Longrightarrow> stack_allocate s = Some (s, Inl Empty)"
  by (auto simp: stack_rep_def stack_allocate_def split: prod.splits)

lemma stack_allocate_top:
  assumes "stack_rep s (x # xs)"
  shows "\<exists>s'. stack_allocate s = Some (s', Inr x) \<and> stack_rep s' xs \<and> ts_capacity s' = ts_capacity s"
proof -
  obtain tag where h: "unpack_head (ts_head s) = (x, tag)"
    using assms by (cases "unpack_head (ts_head s)") (auto simp: stack_rep_def)
  have "unat x < ts_capacity s"
    using stack_rep_in_range [OF assms] by simp
  moreover then have "x \<noteq> stack_none"
    using assms by (auto simp: stack_rep_def stack_none_def)
  ultimately show ?thesis
    using assms h by (auto simp: stack_rep_def stack_allocate_def)
qed

lemma stack_release_push:
  assumes "stack_rep s xs" and "v \<notin> set xs" and "unat v < ts_capacity s"
  shows "\<exists>s'. stack_release s v = Some (s', Inr ()) \<and> stack_rep s' (v # xs) \<and>
           ts_capacity s' = ts_capacity s"
proof -
  obtain idx tag where h: "unpack_head (ts_head s) = (idx, tag)" by fastforce
  have "length xs < ts_capacity s"
    using distinct_u32_length_less [of xs "ts_capacity s" v] stack_rep_in_range [OF assms(1)] assms
    by (auto simp: stack_rep_def)
  moreover then have "unat (ts_len s) = length xs"
    using assms(1) by (simp add: stack_rep_def unat_of_nat_less)
  ultimately show ?thesis
    using assms h by (auto simp: stack_rep_def stack_release_def chain_update add.commute)
qed

interpretation ts: freelist stack_allocate stack_release stack_rep ts_capacity
proof (unfold_locales, goal_cases)
  case 1 then show ?case by (rule stack_allocate_empty)
next
  case 2 then show ?case by (rule stack_allocate_top)
next
  case 3 then show ?case by (rule stack_release_push)
next
  case 4 then show ?case by (simp add: stack_release_def)
next
  case 5 then show ?case by (simp add: stack_rep_def)
next
  case 6 then show ?case by (rule stack_rep_in_range)
qed

section \<open>Initialisation\<close>

text \<open>Slot \<open>i\<close> of the initial array points at \<open>i - 1\<close>, so the list counts down to 0.\<close>

definition below :: "nat \<Rightarrow> u32" where
  "below i = (if i = 0 then stack_none else of_nat i - 1)"

lemma below_Suc [simp]: "below (Suc k) = of_nat k"
  by (simp add: below_def)

lemma chain_descending:
  assumes "k \<le> n" and "n < 2 ^ 32"
  shows "chain (map below [0..<n]) (below k) (rev (map of_nat [0..<k]))"
  using assms(1)
proof (induction k)
  case 0
  then show ?case by (simp add: below_def)
next
  case (Suc k)
  then have "unat (of_nat k :: u32) = k"
    using assms(2) by (intro unat_of_nat_u32) simp
  with Suc show ?case by simp
qed

lemma inj_on_of_nat_u32: "n < 2 ^ 32 \<Longrightarrow> inj_on (of_nat :: nat \<Rightarrow> u32) {0..<n}"
proof (rule inj_onI)
  fix x y
  assume n: "n < 2 ^ 32" and b: "x \<in> {0..<n}" "y \<in> {0..<n}"
    and eq: "(of_nat x :: u32) = of_nat y"
  have "unat (of_nat x :: u32) = x" "unat (of_nat y :: u32) = y"
    by (rule unat_of_nat_u32; use b n in simp)+
  with eq show "x = y" by metis
qed

lemma stack_init_rep [refine_simps]:
  assumes "n < 2 ^ 32"
  shows "\<exists>s. stack_init_in_place n = Some s \<and> ts_capacity s = n \<and>
           stack_rep s (rev (map of_nat [0..<n]))"
proof -
  have head: "(if n = 0 then stack_none else of_nat (n - 1)) = below n"
    by (cases n) (simp_all add: below_def)
  have nxt: "map (\<lambda>i. if i = 0 then stack_none else of_nat i - 1) [0..<n] = map below [0..<n]"
    by (simp add: below_def)
  have dist: "distinct (map (of_nat :: nat \<Rightarrow> u32) [0..<n])"
    using inj_on_of_nat_u32 [OF assms] by (simp add: distinct_map)
  have le: "n \<le> 2 ^ 32 - 1"
    using assms by simp
  show ?thesis
    unfolding stack_init_in_place_def head nxt if_P [OF le] stack_rep_def
    using chain_descending [of n n] assms dist by simp
qed

end
