(* ===== verification/Treiber_Concurrent.thy ===== *)
theory Treiber_Concurrent
  imports Treiber_Stack
begin

text \<open>
  The operations of \<^verbatim>\<open>src/lockfree/src/lib.rs\<close> split into their atomic accesses and interleaved. Each
  thread has a program counter; one step of a thread is one load, store, compare-and-exchange or
  fetch-and-add of \<open>TreiberStack::allocate\<close> or \<open>release\<close>. Threads also hand indices to each
  other, as the page pool's clients do with descriptors. Accesses are sequentially consistent: the
  reorderings the \<open>Relaxed\<close> accesses would allow are not modelled.

  \<open>cs_ver\<close> is a ghost counter of the successful exchanges, and a thread that has loaded the head
  remembers its value. The 32-bit tag of the head is that counter modulo \<open>2 ^ 32\<close>, so an exchange
  is safe only while no thread sleeps through \<open>2 ^ 32\<close> of them: \<open>no_tag_wrap\<close>, a hypothesis of the
  statement on ownership and part of \<open>creach\<close>. The statements on ranges and on failed exchanges need it not.

  Shown: while no tag comes round, every interleaving keeps the list well formed and no index is held twice or
  held and free at once; under every interleaving each load and store stays inside the array, and a failed exchange
  means that the exchange of another thread has succeeded since the load; and an owner can be refused with \<open>Full\<close>
  although the stack has room, because the length counter can pass below zero.
\<close>

section \<open>Model\<close>

datatype pc =
    Pc_Idle
  | Alloc_load                    \<comment> \<open>before the load of the head\<close>
  | Alloc_next u64 nat            \<comment> \<open>before the load of \<open>next[idx]\<close>\<close>
  | Alloc_cas u64 u32 nat         \<comment> \<open>before the exchange\<close>
  | Alloc_len u32                 \<comment> \<open>before \<open>len.fetch_sub\<close>\<close>
  | Rel_check u32                 \<comment> \<open>before the load of \<open>len\<close>\<close>
  | Rel_load u32                  \<comment> \<open>before the load of the head\<close>
  | Rel_store u32 u64 nat         \<comment> \<open>before the store to \<open>next[val]\<close>\<close>
  | Rel_cas u32 u64 nat           \<comment> \<open>before the exchange\<close>
  | Rel_len                       \<comment> \<open>before \<open>len.fetch_add\<close>\<close>
  | Rel_full u32                  \<comment> \<open>\<open>Err(Full)\<close> about to be returned\<close>

record cstate =
  cs_stack :: treiber_stack
  cs_pc :: "nat \<Rightarrow> pc"
  cs_own :: "nat \<Rightarrow> u32 set"
  cs_ver :: nat

datatype cmd = Do_alloc | Do_release u32 | Do_handoff u32 nat | Run

definition set_pc :: "nat \<Rightarrow> pc \<Rightarrow> cstate \<Rightarrow> cstate" where
  "set_pc t p c = c\<lparr>cs_pc := (cs_pc c)(t := p)\<rparr>"

definition set_own :: "nat \<Rightarrow> u32 set \<Rightarrow> cstate \<Rightarrow> cstate" where
  "set_own t o' c = c\<lparr>cs_own := (cs_own c)(t := o')\<rparr>"

text \<open>An idle thread starts an operation on an index it owns, or hands one over.\<close>

fun idle_step :: "nat \<Rightarrow> cmd \<Rightarrow> cstate \<Rightarrow> cstate option" where
  "idle_step t Do_alloc c = Some (set_pc t Alloc_load c)"
| "idle_step t (Do_release v) c =
     (if v \<in> cs_own c t
      then Some (set_pc t (Rel_check v) (set_own t (cs_own c t - {v}) c)) else None)"
| "idle_step t (Do_handoff v u) c =
     (if v \<in> cs_own c t \<and> u \<noteq> t
      then Some (set_own u (insert v (cs_own c u)) (set_own t (cs_own c t - {v}) c)) else None)"
| "idle_step t Run c = None"

text \<open>The steps of \<open>TreiberStack::allocate\<close>.\<close>

fun alloc_step :: "nat \<Rightarrow> pc \<Rightarrow> cstate \<Rightarrow> cstate option" where
  "alloc_step t Alloc_load c =
     (let cur = ts_head (cs_stack c)
      in if fst (unpack_head cur) = stack_none then Some (set_pc t Pc_Idle c)
         else Some (set_pc t (Alloc_next cur (cs_ver c)) c))"
| "alloc_step t (Alloc_next cur v) c = do {
     n \<leftarrow> index_opt (ts_next (cs_stack c)) (unat (fst (unpack_head cur)));
     Some (set_pc t (Alloc_cas cur n v) c)
   }"
| "alloc_step t (Alloc_cas cur n v) c =
     (if ts_head (cs_stack c) = cur
      then Some (set_pc t (Alloc_len (fst (unpack_head cur)))
             (c\<lparr>cs_stack := (cs_stack c)\<lparr>ts_head := pack_head n (snd (unpack_head cur) + 1)\<rparr>,
                cs_ver := Suc (cs_ver c)\<rparr>))
      else Some (set_pc t Alloc_load c))"
| "alloc_step t (Alloc_len x) c =
     Some (set_pc t Pc_Idle (set_own t (insert x (cs_own c t))
       (c\<lparr>cs_stack := (cs_stack c)\<lparr>ts_len := ts_len (cs_stack c) - 1\<rparr>\<rparr>)))"
| "alloc_step t _ c = None"

text \<open>The steps of \<open>TreiberStack::release\<close>.\<close>

fun release_step :: "nat \<Rightarrow> pc \<Rightarrow> cstate \<Rightarrow> cstate option" where
  "release_step t (Rel_check val) c =
     (if ts_capacity (cs_stack c) \<le> unat val \<or>
         ts_capacity (cs_stack c) \<le> unat (ts_len (cs_stack c))
      then Some (set_pc t (Rel_full val) c) else Some (set_pc t (Rel_load val) c))"
| "release_step t (Rel_load val) c =
     Some (set_pc t (Rel_store val (ts_head (cs_stack c)) (cs_ver c)) c)"
| "release_step t (Rel_store val cur v) c = do {
     nx \<leftarrow> update_opt (ts_next (cs_stack c)) (unat val) (fst (unpack_head cur));
     Some (set_pc t (Rel_cas val cur v) (c\<lparr>cs_stack := (cs_stack c)\<lparr>ts_next := nx\<rparr>\<rparr>))
   }"
| "release_step t (Rel_cas val cur v) c =
     (if ts_head (cs_stack c) = cur
      then Some (set_pc t Rel_len
             (c\<lparr>cs_stack := (cs_stack c)\<lparr>ts_head := pack_head val (snd (unpack_head cur) + 1)\<rparr>,
                cs_ver := Suc (cs_ver c)\<rparr>))
      else Some (set_pc t (Rel_load val) c))"
| "release_step t Rel_len c =
     Some (set_pc t Pc_Idle
       (c\<lparr>cs_stack := (cs_stack c)\<lparr>ts_len := ts_len (cs_stack c) + 1\<rparr>\<rparr>))"
| "release_step t (Rel_full val) c =
     Some (set_pc t Pc_Idle (set_own t (insert val (cs_own c t)) c))"
| "release_step t _ c = None"

definition thread_step :: "nat \<Rightarrow> cmd \<Rightarrow> cstate \<Rightarrow> cstate option" where
  "thread_step t cmd c =
     (case cs_pc c t of
        Pc_Idle \<Rightarrow> idle_step t cmd c
      | Alloc_load \<Rightarrow> alloc_step t Alloc_load c
      | Alloc_next cur v \<Rightarrow> alloc_step t (Alloc_next cur v) c
      | Alloc_cas cur n v \<Rightarrow> alloc_step t (Alloc_cas cur n v) c
      | Alloc_len x \<Rightarrow> alloc_step t (Alloc_len x) c
      | p \<Rightarrow> release_step t p c)"

definition cinit :: "treiber_stack \<Rightarrow> cstate" where
  "cinit s = \<lparr>cs_stack = s, cs_pc = (\<lambda>_. Pc_Idle), cs_own = (\<lambda>_. {}), cs_ver = 0\<rparr>"

text \<open>The ghost value a thread remembers, if it is inside a load-exchange window.\<close>

fun pc_ver :: "pc \<Rightarrow> nat option" where
  "pc_ver (Alloc_next _ v) = Some v"
| "pc_ver (Alloc_cas _ _ v) = Some v"
| "pc_ver (Rel_store _ _ v) = Some v"
| "pc_ver (Rel_cas _ _ v) = Some v"
| "pc_ver _ = None"

definition no_tag_wrap :: "cstate \<Rightarrow> bool" where
  "no_tag_wrap c \<longleftrightarrow> (\<forall>t v. pc_ver (cs_pc c t) = Some v \<longrightarrow> cs_ver c < v + 2 ^ 32)"

inductive creach :: "nat \<Rightarrow> cstate \<Rightarrow> bool" for cap :: nat where
  creach_init: "stack_init_in_place cap = Some s \<Longrightarrow> creach cap (cinit s)"
| creach_step: "creach cap c \<Longrightarrow> no_tag_wrap c \<Longrightarrow> thread_step t cmd c = Some c' \<Longrightarrow> creach cap c'"

text \<open>Runs of a given schedule, to exhibit reachable states.\<close>

fun crun :: "(nat \<times> cmd) list \<Rightarrow> cstate \<Rightarrow> cstate option" where
  "crun [] c = Some c"
| "crun ((t, cmd) # cs) c = (case thread_step t cmd c of None \<Rightarrow> None | Some c' \<Rightarrow> crun cs c')"

section \<open>Invariant\<close>

text \<open>The indices a thread holds: those it owns and the one inside its operation.\<close>

fun pc_holds :: "pc \<Rightarrow> u32 set" where
  "pc_holds (Alloc_len x) = {x}"
| "pc_holds (Rel_check v) = {v}"
| "pc_holds (Rel_load v) = {v}"
| "pc_holds (Rel_store v _ _) = {v}"
| "pc_holds (Rel_cas v _ _) = {v}"
| "pc_holds (Rel_full v) = {v}"
| "pc_holds _ = {}"

definition held :: "cstate \<Rightarrow> nat \<Rightarrow> u32 set" where
  "held c t = cs_own c t \<union> pc_holds (cs_pc c t)"

definition seen_ok :: "cstate \<Rightarrow> u64 \<Rightarrow> nat \<Rightarrow> bool" where
  "seen_ok c cur v \<longleftrightarrow> v \<le> cs_ver c \<and> snd (unpack_head cur) = of_nat v \<and>
     (v = cs_ver c \<longrightarrow> cur = ts_head (cs_stack c))"

fun pc_ok :: "cstate \<Rightarrow> pc \<Rightarrow> bool" where
  "pc_ok c (Alloc_next cur v) \<longleftrightarrow>
     seen_ok c cur v \<and> unat (fst (unpack_head cur)) < ts_capacity (cs_stack c)"
| "pc_ok c (Alloc_cas cur n v) \<longleftrightarrow>
     seen_ok c cur v \<and> unat (fst (unpack_head cur)) < ts_capacity (cs_stack c) \<and>
     (v = cs_ver c \<longrightarrow> n = ts_next (cs_stack c) ! unat (fst (unpack_head cur)))"
| "pc_ok c (Rel_store val cur v) \<longleftrightarrow> seen_ok c cur v"
| "pc_ok c (Rel_cas val cur v) \<longleftrightarrow>
     seen_ok c cur v \<and> ts_next (cs_stack c) ! unat val = fst (unpack_head cur)"
| "pc_ok c _ \<longleftrightarrow> True"

definition cstack_ok :: "nat \<Rightarrow> cstate \<Rightarrow> u32 list \<Rightarrow> bool" where
  "cstack_ok cap c xs \<longleftrightarrow>
     ts_capacity (cs_stack c) = cap \<and> length (ts_next (cs_stack c)) = cap \<and> cap < 2 ^ 32 \<and>
     distinct xs \<and> chain (ts_next (cs_stack c)) (fst (unpack_head (ts_head (cs_stack c)))) xs \<and>
     snd (unpack_head (ts_head (cs_stack c))) = of_nat (cs_ver c)"

definition owners_ok :: "nat \<Rightarrow> cstate \<Rightarrow> u32 list \<Rightarrow> bool" where
  "owners_ok cap c xs \<longleftrightarrow>
     (\<forall>t v. v \<in> held c t \<longrightarrow> v \<notin> set xs) \<and>
     (\<forall>t v. v \<in> cs_own c t \<longrightarrow> v \<notin> pc_holds (cs_pc c t)) \<and>
     (\<forall>t u v. v \<in> held c t \<longrightarrow> v \<in> held c u \<longrightarrow> t = u) \<and>
     (\<forall>v. unat v < cap \<longleftrightarrow> v \<in> set xs \<or> (\<exists>t. v \<in> held c t))"

definition cinv :: "nat \<Rightarrow> cstate \<Rightarrow> u32 list \<Rightarrow> bool" where
  "cinv cap c xs \<longleftrightarrow> cstack_ok cap c xs \<and> owners_ok cap c xs \<and> (\<forall>t. pc_ok c (cs_pc c t))"

section \<open>Steps that touch only the thread's own state\<close>

lemma cstate_set_simps [simp]:
  "cs_stack (set_pc t p c) = cs_stack c" "cs_ver (set_pc t p c) = cs_ver c"
  "cs_own (set_pc t p c) = cs_own c" "cs_pc (set_pc t p c) = (cs_pc c)(t := p)"
  "cs_stack (set_own t o' c) = cs_stack c" "cs_ver (set_own t o' c) = cs_ver c"
  "cs_own (set_own t o' c) = (cs_own c)(t := o')" "cs_pc (set_own t o' c) = cs_pc c"
  by (simp_all add: set_pc_def set_own_def)

lemma seen_ok_cong:
  "cs_stack c' = cs_stack c \<Longrightarrow> cs_ver c' = cs_ver c \<Longrightarrow> seen_ok c' cur v = seen_ok c cur v"
  by (simp add: seen_ok_def)

lemma pc_ok_cong:
  "cs_stack c' = cs_stack c \<Longrightarrow> cs_ver c' = cs_ver c \<Longrightarrow> pc_ok c' p = pc_ok c p"
  by (cases p) (auto simp: seen_ok_def)

lemma cstack_ok_cong:
  "cs_stack c' = cs_stack c \<Longrightarrow> cs_ver c' = cs_ver c \<Longrightarrow> cstack_ok cap c' xs = cstack_ok cap c xs"
  by (simp add: cstack_ok_def)

lemma set_own_same [simp]: "set_own t (cs_own c t) c = c"
  by (simp add: set_own_def)

lemma owners_ok_local:
  assumes "owners_ok cap c xs" and "o' \<union> pc_holds p = held c t" and "o' \<inter> pc_holds p = {}"
  shows "owners_ok cap (set_pc t p (set_own t o' c)) xs"
proof -
  have "held (set_pc t p (set_own t o' c)) = held c"
    using assms(2) by (auto simp: held_def fun_eq_iff)
  with assms(1,3) show ?thesis
    by (auto simp: owners_ok_def)
qed

lemma cinv_local:
  assumes "cinv cap c xs" and "o' \<union> pc_holds p = held c t" and "o' \<inter> pc_holds p = {}"
    and "pc_ok c p"
  shows "cinv cap (set_pc t p (set_own t o' c)) xs"
  using assms owners_ok_local [OF _ assms(2,3), of cap xs]
    pc_ok_cong [of "set_pc t p (set_own t o' c)" c]
    cstack_ok_cong [of "set_pc t p (set_own t o' c)" c]
  by (auto simp: cinv_def)

lemma held_in_range: "owners_ok cap c xs \<Longrightarrow> v \<in> held c t \<Longrightarrow> unat v < cap \<and> v \<notin> set xs"
  unfolding owners_ok_def by blast

lemma held_unique: "owners_ok cap c xs \<Longrightarrow> v \<in> held c t \<Longrightarrow> v \<in> held c u \<Longrightarrow> t = u"
  unfolding owners_ok_def by blast

lemma own_not_in_operation: "owners_ok cap c xs \<Longrightarrow> v \<in> pc_holds (cs_pc c t) \<Longrightarrow> v \<notin> cs_own c t"
  unfolding owners_ok_def by blast

lemma cinv_pc:
  assumes "cinv cap c xs" and "pc_holds p = pc_holds (cs_pc c t)" and "pc_ok c p"
  shows "cinv cap (set_pc t p c) xs"
proof -
  have "owners_ok cap c xs"
    using assms(1) by (simp add: cinv_def)
  then have "cs_own c t \<inter> pc_holds p = {}"
    using own_not_in_operation [of cap c xs _ t] assms(2) by auto
  moreover have "cs_own c t \<union> pc_holds p = held c t"
    using assms(2) by (simp add: held_def)
  ultimately show ?thesis
    using cinv_local [OF assms(1), of "cs_own c t" p t] assms(3) by simp
qed

lemma cinv_handoff:
  assumes "cinv cap c xs" and "v \<in> cs_own c t" and "u \<noteq> t" and "cs_pc c t = Pc_Idle"
  shows "cinv cap (set_own u (insert v (cs_own c u)) (set_own t (cs_own c t - {v}) c)) xs"
proof -
  define c' where "c' = set_own u (insert v (cs_own c u)) (set_own t (cs_own c t - {v}) c)"
  have h: "held c' w = (if w = u then insert v (held c u) else if w = t then held c t - {v} else held c w)"
    for w using assms(3,4) by (auto simp: held_def c'_def)
  have own: "owners_ok cap c xs"
    using assms(1) by (simp add: cinv_def)
  have vt: "v \<in> held c t" using assms(2) by (simp add: held_def)
  then have vu: "v \<notin> held c w" if "w \<noteq> t" for w
    using held_unique [OF own] that by blast
  have "owners_ok cap c' xs"
    unfolding owners_ok_def
  proof (intro conjI allI impI)
    fix w x assume "x \<in> held c' w"
    then show "x \<notin> set xs"
      using held_in_range [OF own] vt by (auto simp: h split: if_splits)
  next
    fix w x assume "x \<in> cs_own c' w"
    then show "x \<notin> pc_holds (cs_pc c' w)"
      using own_not_in_operation [OF own] vu [OF assms(3)]
      by (auto simp: c'_def held_def split: if_splits)
  next
    fix w w' x assume "x \<in> held c' w" "x \<in> held c' w'"
    then show "w = w'"
      using held_unique [OF own] vt assms(3) by (auto simp: h split: if_splits)
  next
    fix x
    have "(\<exists>w. x \<in> held c' w) \<longleftrightarrow> (\<exists>w. x \<in> held c w)"
    proof (cases "x = v")
      case True
      then show ?thesis using vt h [of u] by auto
    next
      case False
      then have "x \<in> held c' w \<longleftrightarrow> x \<in> held c w" for w
        by (auto simp: h)
      then show ?thesis by simp
    qed
    with own show "unat x < cap \<longleftrightarrow> x \<in> set xs \<or> (\<exists>w. x \<in> held c' w)"
      by (simp add: owners_ok_def)
  qed
  with assms(1) show ?thesis
    using pc_ok_cong [of c' c] cstack_ok_cong [of c' c] by (simp add: cinv_def c'_def)
qed

lemma cinv_len:
  assumes "cinv cap c xs"
  shows "cinv cap (c\<lparr>cs_stack := (cs_stack c)\<lparr>ts_len := n\<rparr>\<rparr>) xs"
proof -
  have "pc_ok (c\<lparr>cs_stack := (cs_stack c)\<lparr>ts_len := n\<rparr>\<rparr>) p = pc_ok c p" for p
    by (cases p) (auto simp: seen_ok_def)
  with assms show ?thesis
    by (simp add: cinv_def cstack_ok_def owners_ok_def held_def)
qed

section \<open>Steps on the list\<close>

lemma of_nat_u32_eq_imp:
  assumes "(of_nat v :: u32) = of_nat w" and "v \<le> w" and "w < v + 2 ^ 32"
  shows "v = w"
proof -
  have "of_nat (w - v) = (0 :: u32)"
    using assms(1,2) by (simp add: of_nat_diff)
  moreover have "w - v < 2 ^ 32"
    using assms(2,3) by linarith
  ultimately have "w - v = 0"
    using unat_of_nat_u32 [of "w - v"] by (metis unat_0)
  with assms(2) show ?thesis by simp
qed

lemma fresh_exchange:
  assumes "cinv cap c xs" and "no_tag_wrap c" and "pc_ver (cs_pc c t) = Some v"
    and "seen_ok c (ts_head (cs_stack c)) v"
  shows "v = cs_ver c"
proof (rule of_nat_u32_eq_imp)
  show "(of_nat v :: u32) = of_nat (cs_ver c)"
    using assms(1,4) by (simp add: seen_ok_def cinv_def cstack_ok_def)
  show "v \<le> cs_ver c" using assms(4) by (simp add: seen_ok_def)
  show "cs_ver c < v + 2 ^ 32" using assms(2,3) unfolding no_tag_wrap_def by blast
qed

lemma pc_ok_bump:
  assumes "pc_ok c p" and "ts_capacity s' = ts_capacity (cs_stack c)"
    and "ts_next s' = ts_next (cs_stack c)"
  shows "pc_ok (c\<lparr>cs_stack := s', cs_ver := Suc (cs_ver c)\<rparr>) p"
  using assms by (cases p) (auto simp: seen_ok_def)

lemma cinv_pop:
  assumes inv: "cinv cap c xs" and pc: "cs_pc c t = Alloc_cas cur n v"
    and cas: "ts_head (cs_stack c) = cur" and wrap: "no_tag_wrap c"
  shows "\<exists>ys. xs = fst (unpack_head cur) # ys \<and>
    cinv cap (set_pc t (Alloc_len (fst (unpack_head cur)))
      (c\<lparr>cs_stack := (cs_stack c)\<lparr>ts_head := pack_head n (snd (unpack_head cur) + 1)\<rparr>,
         cs_ver := Suc (cs_ver c)\<rparr>)) ys"
proof -
  let ?x = "fst (unpack_head cur)"
  from inv have ok: "pc_ok c (Alloc_cas cur n v)" and st: "cstack_ok cap c xs"
    and own: "owners_ok cap c xs" unfolding cinv_def using pc by metis+
  have v: "v = cs_ver c"
    by (rule fresh_exchange [OF inv wrap, of t]) (use pc ok cas in auto)
  have n: "n = ts_next (cs_stack c) ! unat ?x" and x: "unat ?x < cap"
    using ok v st by (auto simp: cstack_ok_def)
  have "?x \<noteq> stack_none"
    using x st by (auto simp: cstack_ok_def stack_none_def)
  then obtain ys where xs: "xs = ?x # ys"
    using st cas by (cases xs) (auto simp: cstack_ok_def)
  define c1 where "c1 = c\<lparr>cs_stack := (cs_stack c)\<lparr>ts_head := pack_head n (snd (unpack_head cur) + 1)\<rparr>,
      cs_ver := Suc (cs_ver c)\<rparr>"
  define c' where "c' = set_pc t (Alloc_len ?x) c1"
  have "cstack_ok cap c' ys"
    using st cas n unfolding xs by (auto simp: cstack_ok_def c'_def c1_def)
  moreover have h: "held c' w = (if w = t then insert ?x (held c t) else held c w)" for w
    using pc by (auto simp: held_def c'_def c1_def)
  have "owners_ok cap c' ys"
  proof -
    have xh: "?x \<notin> held c w" for w
      using held_in_range [OF own] unfolding xs by auto
    show ?thesis
      unfolding owners_ok_def
    proof (intro conjI allI impI)
      fix w y assume "y \<in> held c' w"
      then show "y \<notin> set ys"
        using held_in_range [OF own] st unfolding xs
        by (auto simp: h cstack_ok_def split: if_splits)
    next
      fix w y assume "y \<in> cs_own c' w"
      then show "y \<notin> pc_holds (cs_pc c' w)"
        using own_not_in_operation [OF own] xh by (auto simp: c'_def c1_def held_def)
    next
      fix w w' y assume "y \<in> held c' w" "y \<in> held c' w'"
      then show "w = w'"
        using held_unique [OF own] xh by (auto simp: h split: if_splits)
    next
      fix y
      have "(\<exists>w. y \<in> held c' w) \<longleftrightarrow> y = ?x \<or> (\<exists>w. y \<in> held c w)"
        by (auto simp: h)
      with own show "unat y < cap \<longleftrightarrow> y \<in> set ys \<or> (\<exists>w. y \<in> held c' w)"
        unfolding owners_ok_def by (subst (asm) xs) auto
    qed
  qed
  moreover have "pc_ok c' (cs_pc c' w)" for w
  proof -
    have "pc_ok c (cs_pc c w)"
      using inv by (simp add: cinv_def)
    then have "pc_ok c1 (cs_pc c w)"
      unfolding c1_def by (rule pc_ok_bump) simp_all
    then show ?thesis
      using pc_ok_cong [of c' c1] by (auto simp: c'_def c1_def)
  qed
  ultimately show ?thesis
    using xs unfolding cinv_def c'_def c1_def by blast
qed

lemma cinv_push:
  assumes inv: "cinv cap c xs" and pc: "cs_pc c t = Rel_cas val cur v"
    and cas: "ts_head (cs_stack c) = cur" and wrap: "no_tag_wrap c"
  shows "cinv cap (set_pc t Rel_len
      (c\<lparr>cs_stack := (cs_stack c)\<lparr>ts_head := pack_head val (snd (unpack_head cur) + 1)\<rparr>,
         cs_ver := Suc (cs_ver c)\<rparr>)) (val # xs)"
proof -
  from inv have ok: "pc_ok c (Rel_cas val cur v)" and st: "cstack_ok cap c xs"
    and own: "owners_ok cap c xs" unfolding cinv_def using pc by metis+
  have vh: "val \<in> held c t" by (simp add: held_def pc)
  with own have val: "unat val < cap" "val \<notin> set xs"
    by (auto dest: held_in_range)
  define c1 where "c1 = c\<lparr>cs_stack := (cs_stack c)\<lparr>ts_head := pack_head val (snd (unpack_head cur) + 1)\<rparr>,
      cs_ver := Suc (cs_ver c)\<rparr>"
  define c' where "c' = set_pc t Rel_len c1"
  have "cstack_ok cap c' (val # xs)"
    using st cas ok val by (auto simp: cstack_ok_def c'_def c1_def)
  moreover have "owners_ok cap c' (val # xs)"
  proof -
    have own_t: "val \<notin> cs_own c t" "pc_holds (cs_pc c t) = {val}"
      using own_not_in_operation [OF own, of val t] pc by auto
    have h: "held c' w = (if w = t then held c t - {val} else held c w)" for w
      using own_t by (auto simp: held_def c'_def c1_def)
    have vu: "val \<notin> held c w" if "w \<noteq> t" for w
      using held_unique [OF own vh] that by blast
    show ?thesis
      unfolding owners_ok_def
    proof (intro conjI allI impI)
      fix w y assume "y \<in> held c' w"
      then show "y \<notin> set (val # xs)"
        using held_in_range [OF own] vu by (auto simp: h split: if_splits)
    next
      fix w y assume "y \<in> cs_own c' w"
      then show "y \<notin> pc_holds (cs_pc c' w)"
        using own_not_in_operation [OF own] by (auto simp: c'_def c1_def)
    next
      fix w w' y assume "y \<in> held c' w" "y \<in> held c' w'"
      then show "w = w'"
        using held_unique [OF own] by (auto simp: h split: if_splits)
    next
      fix y
      have "y = val \<or> (\<exists>w. y \<in> held c' w) \<longleftrightarrow> (\<exists>w. y \<in> held c w)"
        using vh by (auto simp: h)
      with own show "unat y < cap \<longleftrightarrow> y \<in> set (val # xs) \<or> (\<exists>w. y \<in> held c' w)"
        unfolding owners_ok_def by auto
    qed
  qed
  moreover have "pc_ok c' (cs_pc c' w)" for w
  proof -
    have "pc_ok c (cs_pc c w)"
      using inv by (simp add: cinv_def)
    then have "pc_ok c1 (cs_pc c w)"
      unfolding c1_def by (rule pc_ok_bump) simp_all
    then show ?thesis
      using pc_ok_cong [of c' c1] by (auto simp: c'_def c1_def)
  qed
  ultimately show ?thesis
    by (simp add: cinv_def c'_def c1_def)
qed

lemma chain_head_in: "chain nx i xs \<Longrightarrow> i \<noteq> stack_none \<Longrightarrow> i \<in> set xs"
  by (cases xs) auto

lemma cinv_store:
  assumes inv: "cinv cap c xs" and pc: "cs_pc c t = Rel_store val cur v"
  shows "unat val < length (ts_next (cs_stack c))"
    and "cinv cap (set_pc t (Rel_cas val cur v) (c\<lparr>cs_stack := (cs_stack c)
      \<lparr>ts_next := (ts_next (cs_stack c))[unat val := fst (unpack_head cur)]\<rparr>\<rparr>)) xs"
proof -
  from inv have ok: "pc_ok c (Rel_store val cur v)" and st: "cstack_ok cap c xs"
    and own: "owners_ok cap c xs" unfolding cinv_def using pc by metis+
  have vh: "val \<in> held c t" by (simp add: held_def pc)
  with own have val: "unat val < cap" "val \<notin> set xs"
    by (auto dest: held_in_range)
  with st show len: "unat val < length (ts_next (cs_stack c))"
    by (simp add: cstack_ok_def)
  define c1 where "c1 = c\<lparr>cs_stack := (cs_stack c)
      \<lparr>ts_next := (ts_next (cs_stack c))[unat val := fst (unpack_head cur)]\<rparr>\<rparr>"
  define c' where "c' = set_pc t (Rel_cas val cur v) c1"
  have "cstack_ok cap c' xs"
    using st val by (auto simp: cstack_ok_def c'_def c1_def chain_update)
  moreover have "owners_ok cap c' xs"
  proof -
    have "held c' = held c"
      using pc by (auto simp: held_def c'_def c1_def fun_eq_iff)
    moreover have "cs_own c' = cs_own c" "pc_holds (cs_pc c' w) = pc_holds (cs_pc c w)" for w
      using pc by (auto simp: c'_def c1_def)
    ultimately show ?thesis
      using own by (simp add: owners_ok_def)
  qed
  moreover have "pc_ok c' (cs_pc c' w)" for w
  proof (cases "w = t")
    case True
    with ok len show ?thesis by (simp add: c'_def c1_def seen_ok_def)
  next
    case False
    have okw: "pc_ok c (cs_pc c w)"
      using inv by (simp add: cinv_def)
    have nv: "val \<notin> held c w"
      using held_unique [OF own vh] False by blast
    have hd: "fst (unpack_head (ts_head (cs_stack c))) \<noteq> val"
      if "unat (fst (unpack_head (ts_head (cs_stack c)))) < cap"
    proof -
      have "fst (unpack_head (ts_head (cs_stack c))) \<noteq> stack_none"
        using that st by (auto simp: cstack_ok_def stack_none_def)
      then have "fst (unpack_head (ts_head (cs_stack c))) \<in> set xs"
        using st by (intro chain_head_in [of "ts_next (cs_stack c)"]) (simp_all add: cstack_ok_def)
      with val(2) show ?thesis by metis
    qed
    have cap: "ts_capacity (cs_stack c) = cap"
      using st by (simp add: cstack_ok_def)
    show ?thesis
    proof (cases "cs_pc c w")
      case (Alloc_cas cur' n' v')
      have "unat (fst (unpack_head cur')) \<noteq> unat val" if "v' = cs_ver c"
        using okw Alloc_cas hd that cap by (auto simp: seen_ok_def simp flip: word_unat_eq_iff)
      with okw Alloc_cas False show ?thesis
        by (auto simp: c'_def c1_def seen_ok_def)
    next
      case (Rel_cas val' cur' v')
      with nv have "unat val' \<noteq> unat val"
        by (auto simp: held_def simp flip: word_unat_eq_iff)
      with okw Rel_cas False show ?thesis
        by (auto simp: c'_def c1_def seen_ok_def)
    qed (use okw False in \<open>auto simp: c'_def c1_def seen_ok_def\<close>)
  qed
  ultimately show "cinv cap (set_pc t (Rel_cas val cur v) (c\<lparr>cs_stack := (cs_stack c)
      \<lparr>ts_next := (ts_next (cs_stack c))[unat val := fst (unpack_head cur)]\<rparr>\<rparr>)) xs"
    by (simp add: cinv_def c'_def c1_def)
qed

section \<open>Every step keeps the invariant\<close>

lemma seen_ok_now: "cinv cap c xs \<Longrightarrow> seen_ok c (ts_head (cs_stack c)) (cs_ver c)"
  by (simp add: seen_ok_def cinv_def cstack_ok_def)

lemma idle_step_cinv:
  assumes "cinv cap c xs" and "cs_pc c t = Pc_Idle" and "idle_step t cmd c = Some c'"
  shows "cinv cap c' xs"
proof (cases cmd)
  case Do_alloc
  with assms cinv_pc [OF assms(1), of Alloc_load t] show ?thesis by auto
next
  case (Do_release v)
  with assms have v: "v \<in> cs_own c t"
    and c': "c' = set_pc t (Rel_check v) (set_own t (cs_own c t - {v}) c)"
    by (auto split: if_splits)
  show ?thesis unfolding c'
    by (rule cinv_local [OF assms(1)]) (use v assms(2) in \<open>auto simp: held_def\<close>)
next
  case (Do_handoff v u)
  with assms cinv_handoff [OF assms(1), of v t u] show ?thesis by (auto split: if_splits)
next
  case Run
  with assms show ?thesis by simp
qed

lemma alloc_step_cinv:
  assumes inv: "cinv cap c xs" and pc: "cs_pc c t = p" and wrap: "no_tag_wrap c"
    and step: "alloc_step t p c = Some c'"
  shows "\<exists>ys. cinv cap c' ys"
proof (cases p)
  case Alloc_load
  let ?h = "ts_head (cs_stack c)"
  show ?thesis
  proof (cases "fst (unpack_head ?h) = stack_none")
    case True
    have "cinv cap (set_pc t Pc_Idle c) xs"
      by (rule cinv_pc [OF inv]) (simp_all add: pc Alloc_load)
    moreover have "c' = set_pc t Pc_Idle c"
      using step True by (simp add: Alloc_load)
    ultimately show ?thesis by blast
  next
    case False
    have ch: "chain (ts_next (cs_stack c)) (fst (unpack_head ?h)) xs"
      and len: "length (ts_next (cs_stack c)) = ts_capacity (cs_stack c)"
      using inv by (simp_all add: cinv_def cstack_ok_def)
    have "unat (fst (unpack_head ?h)) < ts_capacity (cs_stack c)"
      using chain_in_range [OF ch chain_head_in [OF ch False]] len by simp
    then have "cinv cap (set_pc t (Alloc_next ?h (cs_ver c)) c) xs"
      by (intro cinv_pc [OF inv]) (simp_all add: pc Alloc_load seen_ok_now [OF inv])
    moreover have "c' = set_pc t (Alloc_next ?h (cs_ver c)) c"
      using step False by (simp add: Alloc_load)
    ultimately show ?thesis by blast
  qed
next
  case (Alloc_next cur v)
  let ?n = "ts_next (cs_stack c) ! unat (fst (unpack_head cur))"
  have "pc_ok c (Alloc_next cur v)"
    using inv pc Alloc_next unfolding cinv_def by metis
  then have "cinv cap (set_pc t (Alloc_cas cur ?n v) c) xs"
    by (intro cinv_pc [OF inv]) (simp_all add: pc Alloc_next)
  moreover have "c' = set_pc t (Alloc_cas cur ?n v) c"
    using step by (auto simp: Alloc_next split: Option.bind_splits)
  ultimately show ?thesis by blast
next
  case (Alloc_cas cur n v)
  show ?thesis
  proof (cases "ts_head (cs_stack c) = cur")
    case True
    have "cs_pc c t = Alloc_cas cur n v" using pc Alloc_cas by simp
    from cinv_pop [OF inv this True wrap] step True show ?thesis
      by (simp add: Alloc_cas) blast
  next
    case False
    have "cinv cap (set_pc t Alloc_load c) xs"
      by (rule cinv_pc [OF inv]) (simp_all add: pc Alloc_cas)
    moreover have "c' = set_pc t Alloc_load c"
      using step False by (simp add: Alloc_cas)
    ultimately show ?thesis by blast
  qed
next
  case (Alloc_len x)
  let ?c1 = "c\<lparr>cs_stack := (cs_stack c)\<lparr>ts_len := ts_len (cs_stack c) - 1\<rparr>\<rparr>"
  have "x \<notin> cs_own c t"
    using inv own_not_in_operation [of cap c xs x t] pc Alloc_len by (simp add: cinv_def)
  then have "cinv cap (set_pc t Pc_Idle (set_own t (insert x (cs_own c t)) ?c1)) xs"
    by (intro cinv_local [OF cinv_len [OF inv]]) (auto simp: held_def pc Alloc_len)
  moreover have "c' = set_pc t Pc_Idle (set_own t (insert x (cs_own c t)) ?c1)"
    using step by (simp add: Alloc_len)
  ultimately show ?thesis by blast
qed (use step in simp_all)

lemma release_step_cinv:
  assumes inv: "cinv cap c xs" and pc: "cs_pc c t = p" and wrap: "no_tag_wrap c"
    and step: "release_step t p c = Some c'"
  shows "\<exists>ys. cinv cap c' ys"
proof (cases p)
  case (Rel_check val)
  have "cinv cap (set_pc t (Rel_full val) c) xs" "cinv cap (set_pc t (Rel_load val) c) xs"
    by (rule cinv_pc [OF inv]; simp add: pc Rel_check)+
  moreover have "c' = set_pc t (Rel_full val) c \<or> c' = set_pc t (Rel_load val) c"
    using step by (simp add: Rel_check split: if_splits)
  ultimately show ?thesis by blast
next
  case (Rel_load val)
  have "cinv cap (set_pc t (Rel_store val (ts_head (cs_stack c)) (cs_ver c)) c) xs"
    by (rule cinv_pc [OF inv]) (simp_all add: pc Rel_load seen_ok_now [OF inv])
  moreover have "c' = set_pc t (Rel_store val (ts_head (cs_stack c)) (cs_ver c)) c"
    using step by (simp add: Rel_load)
  ultimately show ?thesis by blast
next
  case (Rel_store val cur v)
  have "cs_pc c t = Rel_store val cur v" using pc Rel_store by simp
  from cinv_store [OF inv this] step show ?thesis
    by (simp add: Rel_store) blast
next
  case (Rel_cas val cur v)
  show ?thesis
  proof (cases "ts_head (cs_stack c) = cur")
    case True
    have "cs_pc c t = Rel_cas val cur v" using pc Rel_cas by simp
    from cinv_push [OF inv this True wrap] step True show ?thesis
      by (simp add: Rel_cas) blast
  next
    case False
    have "cinv cap (set_pc t (Rel_load val) c) xs"
      by (rule cinv_pc [OF inv]) (simp_all add: pc Rel_cas)
    moreover have "c' = set_pc t (Rel_load val) c"
      using step False by (simp add: Rel_cas)
    ultimately show ?thesis by blast
  qed
next
  case Rel_len
  let ?c1 = "c\<lparr>cs_stack := (cs_stack c)\<lparr>ts_len := ts_len (cs_stack c) + 1\<rparr>\<rparr>"
  have "cinv cap (set_pc t Pc_Idle ?c1) xs"
    by (rule cinv_pc [OF cinv_len [OF inv]]) (simp_all add: pc Rel_len)
  moreover have "c' = set_pc t Pc_Idle ?c1"
    using step by (simp add: Rel_len)
  ultimately show ?thesis by blast
next
  case (Rel_full val)
  have "val \<notin> cs_own c t"
    using inv own_not_in_operation [of cap c xs val t] pc Rel_full by (simp add: cinv_def)
  then have "cinv cap (set_pc t Pc_Idle (set_own t (insert val (cs_own c t)) c)) xs"
    by (intro cinv_local [OF inv]) (auto simp: held_def pc Rel_full)
  moreover have "c' = set_pc t Pc_Idle (set_own t (insert val (cs_own c t)) c)"
    using step by (simp add: Rel_full)
  ultimately show ?thesis by blast
qed (use step in simp_all)

lemma thread_step_cinv:
  assumes "cinv cap c xs" and "no_tag_wrap c" and "thread_step t cmd c = Some c'"
  shows "\<exists>ys. cinv cap c' ys"
proof (cases "cs_pc c t")
  case Pc_Idle
  with assms idle_step_cinv [OF assms(1) Pc_Idle] show ?thesis
    by (auto simp: thread_step_def)
qed (use assms alloc_step_cinv [OF assms(1) _ assms(2)] release_step_cinv [OF assms(1) _ assms(2)]
    in \<open>auto simp: thread_step_def simp del: alloc_step.simps release_step.simps\<close>)

lemma cinit_cinv:
  assumes "stack_init_in_place cap = Some s"
  shows "cinv cap (cinit s) (rev (map of_nat [0..<cap]))"
proof -
  have cap: "cap < 2 ^ 32"
    using assms by (auto simp: stack_init_in_place_def split: if_splits)
  from stack_init_rep [OF cap] assms have rep: "stack_rep s (rev (map of_nat [0..<cap]))"
    and c: "ts_capacity s = cap" by auto
  have tag: "snd (unpack_head (ts_head s)) = 0"
    using assms by (auto simp: stack_init_in_place_def split: if_splits)
  have "x \<in> (of_nat :: nat \<Rightarrow> u32) ` {0..<cap} \<longleftrightarrow> unat x < cap" for x
  proof
    assume "x \<in> (of_nat :: nat \<Rightarrow> u32) ` {0..<cap}"
    then obtain k where "k < cap" "x = of_nat k" by auto
    with cap unat_of_nat_u32 [of k] show "unat x < cap" by simp
  next
    assume "unat x < cap"
    then show "x \<in> of_nat ` {0..<cap}"
      by (intro image_eqI [of _ _ "unat x"]) auto
  qed
  with rep c tag cap show ?thesis
    by (simp add: cinv_def cstack_ok_def owners_ok_def cinit_def stack_rep_def held_def)
qed

lemma creach_cinv: "creach cap c \<Longrightarrow> \<exists>xs. cinv cap c xs"
proof (induction rule: creach.induct)
  case (creach_init s)
  then show ?case using cinit_cinv by blast
next
  case (creach_step c t cmd c')
  then show ?case using thread_step_cinv by blast
qed

section \<open>Schedules\<close>

lemma few_exchanges_no_wrap: "cs_ver c < 2 ^ 32 \<Longrightarrow> no_tag_wrap c"
  by (simp add: no_tag_wrap_def)

lemma idle_step_ver: "idle_step t cmd c = Some c' \<Longrightarrow> cs_ver c' = cs_ver c"
  by (cases cmd) (auto split: if_splits)

lemma alloc_step_ver: "alloc_step t p c = Some c' \<Longrightarrow> cs_ver c' \<le> Suc (cs_ver c)"
  by (cases p) (auto simp: Let_def split: if_splits Option.bind_splits)

lemma release_step_ver: "release_step t p c = Some c' \<Longrightarrow> cs_ver c' \<le> Suc (cs_ver c)"
  by (cases p) (auto split: if_splits Option.bind_splits)

lemma thread_step_ver: "thread_step t cmd c = Some c' \<Longrightarrow> cs_ver c' \<le> Suc (cs_ver c)"
  by (auto simp: thread_step_def split: pc.splits
      simp del: idle_step.simps alloc_step.simps release_step.simps
      dest: idle_step_ver alloc_step_ver release_step_ver)

lemma crun_creach:
  assumes "creach cap c" and "cs_ver c + length cs \<le> 2 ^ 32" and "crun cs c = Some c'"
  shows "creach cap c'"
  using assms
proof (induction cs arbitrary: c)
  case Nil
  then show ?case by simp
next
  case (Cons x cs)
  obtain t cmd where x: "x = (t, cmd)" by fastforce
  with Cons.prems obtain c1 where c1: "thread_step t cmd c = Some c1" "crun cs c1 = Some c'"
    by (auto split: option.splits)
  have "creach cap c1"
    using creach_step [OF Cons.prems(1) few_exchanges_no_wrap c1(1)] Cons.prems(2) by simp
  then show ?case
    by (rule Cons.IH) (use thread_step_ver [OF c1(1)] Cons.prems(2) c1(2) in simp_all)
qed

lemma short_run_no_wrap:
  assumes "crun (take k cs) c = Some d" and "cs_ver c = 0" and "length cs < 2 ^ 32"
  shows "no_tag_wrap d"
proof -
  have "cs_ver d \<le> cs_ver c + length xs" if "crun xs c = Some d" for xs and c d :: cstate
    using that
  proof (induction xs arbitrary: c)
    case (Cons x xs)
    then obtain c1 where "thread_step (fst x) (snd x) c = Some c1" "crun xs c1 = Some d"
      by (cases x) (auto split: option.splits)
    with Cons.IH thread_step_ver show ?case by fastforce
  qed simp
  from this [OF assms(1)] assms(2,3) show ?thesis by (intro few_exchanges_no_wrap) simp
qed

lemma fresh_run_creach:
  assumes "creach cap c" and "crun cs c = Some c'" and "\<And>k d. crun (take k cs) c = Some d \<Longrightarrow> no_tag_wrap d"
  shows "creach cap c'"
  using assms
proof (induction cs arbitrary: c)
  case (Cons x cs)
  obtain t cmd where x: "x = (t, cmd)" by fastforce
  with Cons.prems(2) obtain c1 where c1: "thread_step t cmd c = Some c1" "crun cs c1 = Some c'"
    by (auto split: option.splits)
  have "no_tag_wrap c" using Cons.prems(3) [of 0] by simp
  then have "creach cap c1" by (rule creach_step [OF Cons.prems(1) _ c1(1)])
  then show ?case
  proof (rule Cons.IH [OF _ c1(2)])
    show "no_tag_wrap d" if "crun (take k cs) c1 = Some d" for k d
      using Cons.prems(3) [of "Suc k" d] that x c1(1) by simp
  qed
qed simp

section \<open>Indices in range\<close>

text \<open>What holds of the indices whatever the tags do.\<close>

definition index_ok :: "nat \<Rightarrow> u32 \<Rightarrow> bool" where
  "index_ok cap x \<longleftrightarrow> x = stack_none \<or> unat x < cap"

fun pc_in_range :: "nat \<Rightarrow> pc \<Rightarrow> bool" where
  "pc_in_range cap (Alloc_next cur v) \<longleftrightarrow> unat (fst (unpack_head cur)) < cap"
| "pc_in_range cap (Alloc_cas cur n v) \<longleftrightarrow> unat (fst (unpack_head cur)) < cap \<and> index_ok cap n"
| "pc_in_range cap (Alloc_len x) \<longleftrightarrow> unat x < cap"
| "pc_in_range cap (Rel_check val) \<longleftrightarrow> unat val < cap"
| "pc_in_range cap (Rel_load val) \<longleftrightarrow> unat val < cap"
| "pc_in_range cap (Rel_store val cur v) \<longleftrightarrow> unat val < cap \<and> index_ok cap (fst (unpack_head cur))"
| "pc_in_range cap (Rel_cas val cur v) \<longleftrightarrow> unat val < cap"
| "pc_in_range cap (Rel_full val) \<longleftrightarrow> unat val < cap"
| "pc_in_range cap _ \<longleftrightarrow> True"

definition in_range :: "nat \<Rightarrow> cstate \<Rightarrow> bool" where
  "in_range cap c \<longleftrightarrow> length (ts_next (cs_stack c)) = cap \<and> index_ok cap (fst (unpack_head (ts_head (cs_stack c)))) \<and>
     (\<forall>x \<in> set (ts_next (cs_stack c)). index_ok cap x) \<and> (\<forall>t. pc_in_range cap (cs_pc c t)) \<and>
     (\<forall>t. \<forall>v \<in> cs_own c t. unat v < cap)"

lemma in_range_pc: "in_range cap c \<Longrightarrow> pc_in_range cap p \<Longrightarrow> in_range cap (set_pc t p c)"
  by (simp add: in_range_def)

lemma in_range_own: "in_range cap c \<Longrightarrow> \<forall>v \<in> o'. unat v < cap \<Longrightarrow> in_range cap (set_own t o' c)"
  by (simp add: in_range_def)

lemma in_range_stack:
  "in_range cap c \<Longrightarrow> length (ts_next s) = cap \<Longrightarrow> index_ok cap (fst (unpack_head (ts_head s))) \<Longrightarrow>
     \<forall>x \<in> set (ts_next s). index_ok cap x \<Longrightarrow> in_range cap (c\<lparr>cs_stack := s, cs_ver := v\<rparr>)"
  "in_range cap c \<Longrightarrow> length (ts_next s) = cap \<Longrightarrow> index_ok cap (fst (unpack_head (ts_head s))) \<Longrightarrow>
     \<forall>x \<in> set (ts_next s). index_ok cap x \<Longrightarrow> in_range cap (c\<lparr>cs_stack := s\<rparr>)"
  by (simp_all add: in_range_def)

lemma in_rangeD:
  assumes "in_range cap c"
  shows "length (ts_next (cs_stack c)) = cap" "index_ok cap (fst (unpack_head (ts_head (cs_stack c))))"
    "\<forall>x \<in> set (ts_next (cs_stack c)). index_ok cap x" "pc_in_range cap (cs_pc c t)" "v \<in> cs_own c t \<Longrightarrow> unat v < cap"
  using assms by (auto simp: in_range_def)

lemma idle_step_in_range: "in_range cap c \<Longrightarrow> idle_step t cmd c = Some c' \<Longrightarrow> in_range cap c'"
  by (cases cmd) (auto intro!: in_range_pc in_range_own dest: in_rangeD(5) split: if_splits)

lemma alloc_step_in_range:
  assumes "in_range cap c" and "pc_in_range cap p" and "alloc_step t p c = Some c'"
  shows "in_range cap c'"
  using assms in_rangeD(1-3) [OF assms(1)]
  by (cases p) (auto simp: Let_def index_ok_def intro!: in_range_pc in_range_own in_range_stack dest: in_rangeD(5)
      split: if_splits Option.bind_splits)

lemma release_step_in_range:
  assumes "in_range cap c" and "pc_in_range cap p" and "release_step t p c = Some c'"
  shows "in_range cap c'"
  using assms in_rangeD(1-3) [OF assms(1)]
  by (cases p) (auto simp: index_ok_def intro!: in_range_pc in_range_own in_range_stack dest: in_rangeD(5)
      dest!: set_update_subset_insert [THEN subsetD] split: if_splits Option.bind_splits)

lemma thread_step_in_range:
  assumes "in_range cap c" and "thread_step t cmd c = Some c'"
  shows "in_range cap c'"
proof -
  note pc = in_rangeD(4) [OF assms(1), of t]
  show ?thesis
    using assms(2) pc idle_step_in_range [OF assms(1)] alloc_step_in_range [OF assms(1)] release_step_in_range [OF assms(1)]
    by (cases "cs_pc c t")
      (auto simp: thread_step_def simp del: alloc_step.simps release_step.simps idle_step.simps pc_in_range.simps)
qed

lemma crun_in_range: "in_range cap c \<Longrightarrow> crun cs c = Some c' \<Longrightarrow> in_range cap c'"
proof (induction cs arbitrary: c)
  case (Cons x cs)
  then show ?case by (cases x) (auto split: option.splits dest: thread_step_in_range)
qed simp

lemma cinit_in_range:
  assumes "stack_init_in_place cap = Some s"
  shows "in_range cap (cinit s)"
proof -
  obtain xs where inv: "cinv cap (cinit s) xs" using cinit_cinv [OF assms] ..
  then have "chain (ts_next s) (fst (unpack_head (ts_head s))) xs" "length (ts_next s) = cap"
    by (simp_all add: cinv_def cstack_ok_def cinit_def)
  moreover have cap: "cap < 2 ^ 32" using inv by (simp add: cinv_def cstack_ok_def)
  have "unat (of_nat i - 1 :: u32) < cap" if "0 < i" "i < cap" for i
  proof -
    have eq: "(of_nat i - 1 :: u32) = of_nat (i - 1)" using that(1) by (simp add: of_nat_diff)
    have "unat (of_nat (i - 1) :: u32) = i - 1" by (rule unat_of_nat_u32) (use that(2) cap in linarith)
    with that(2) show ?thesis unfolding eq by linarith
  qed
  then have "index_ok cap x" if "x \<in> set (ts_next s)" for x
    using that assms by (auto simp: stack_init_in_place_def index_ok_def split: if_splits)
  ultimately show ?thesis
    using chain_head_in [of "ts_next s" _ xs] chain_in_range [of "ts_next s" _ xs]
    by (auto simp: in_range_def cinit_def index_ok_def)
qed

section \<open>Exchanges\<close>

fun at_exchange :: "pc \<Rightarrow> bool" where
  "at_exchange (Alloc_cas _ _ _) \<longleftrightarrow> True"
| "at_exchange (Rel_cas _ _ _) \<longleftrightarrow> True"
| "at_exchange _ \<longleftrightarrow> False"

text \<open>Before the last access of an operation whose exchange has succeeded.\<close>

fun after_exchange :: "pc \<Rightarrow> bool" where
  "after_exchange (Alloc_len _) \<longleftrightarrow> True"
| "after_exchange Rel_len \<longleftrightarrow> True"
| "after_exchange _ \<longleftrightarrow> False"

text \<open>The head a thread has loaded.\<close>

fun pc_head :: "pc \<Rightarrow> u64 option" where
  "pc_head (Alloc_next cur _) = Some cur"
| "pc_head (Alloc_cas cur _ _) = Some cur"
| "pc_head (Rel_store _ cur _) = Some cur"
| "pc_head (Rel_cas _ cur _) = Some cur"
| "pc_head _ = None"

lemma thread_step_pc: "thread_step u cmd c = Some c' \<Longrightarrow> u \<noteq> t \<Longrightarrow> cs_pc c' t = cs_pc c t"
  by (cases "cs_pc c u"; cases cmd) (auto simp: thread_step_def Let_def split: if_splits Option.bind_splits)

lemma thread_step_head:
  assumes "thread_step u cmd c = Some c'" and "ts_head (cs_stack c') \<noteq> ts_head (cs_stack c)"
  shows "at_exchange (cs_pc c u) \<and> after_exchange (cs_pc c' u)"
  using assms by (cases "cs_pc c u"; cases cmd) (auto simp: thread_step_def Let_def split: if_splits Option.bind_splits)

lemma head_changed:
  assumes "crun cs c = Some c'" and "ts_head (cs_stack c') \<noteq> ts_head (cs_stack c)"
  shows "\<exists>as u cmd bs d d'. cs = as @ (u, cmd) # bs \<and> crun as c = Some d \<and> at_exchange (cs_pc d u) \<and>
    thread_step u cmd d = Some d' \<and> after_exchange (cs_pc d' u)"
  using assms
proof (induction cs arbitrary: c)
  case (Cons x cs)
  obtain u cmd where x: "x = (u, cmd)" by fastforce
  with Cons.prems(1) obtain c1 where c1: "thread_step u cmd c = Some c1" "crun cs c1 = Some c'"
    by (auto split: option.splits)
  show ?case
  proof (cases "ts_head (cs_stack c1) = ts_head (cs_stack c)")
    case True
    with Cons.IH [OF c1(2)] Cons.prems(2) obtain as v cmd' bs d d' where
      "cs = as @ (v, cmd') # bs" "crun as c1 = Some d" "at_exchange (cs_pc d v)" "thread_step v cmd' d = Some d'"
      "after_exchange (cs_pc d' v)" by metis
    then show ?thesis using x c1(1)
      by (intro exI [of _ "x # as"] exI [of _ v] exI [of _ cmd'] exI [of _ bs] exI [of _ d] exI [of _ d']) simp
  next
    case False
    with thread_step_head [OF c1(1)] x c1(1) show ?thesis
      by (intro exI [of _ "[]"] exI [of _ u] exI [of _ cmd] exI [of _ cs] exI [of _ c] exI [of _ c1]) simp
  qed
qed simp

lemma other_threads_pc: "crun cs c = Some c' \<Longrightarrow> \<forall>x \<in> set cs. fst x \<noteq> t \<Longrightarrow> cs_pc c' t = cs_pc c t"
proof (induction cs arbitrary: c)
  case (Cons x cs)
  then show ?case by (cases x) (auto split: option.splits dest: thread_step_pc)
qed simp

text \<open>The one access between the load and the exchange keeps the head a thread has loaded.\<close>

lemma window_head:
  assumes "crun cs c = Some c'" and "length (filter (\<lambda>x. fst x = t) cs) = 1" and "\<not> at_exchange (cs_pc c t)"
    and "at_exchange (cs_pc c' t)"
  shows "pc_head (cs_pc c' t) = pc_head (cs_pc c t) \<and> cs_pc c t \<noteq> Pc_Idle"
  using assms
proof (induction cs arbitrary: c)
  case (Cons x cs)
  obtain u cmd where x: "x = (u, cmd)" by fastforce
  with Cons.prems(1) obtain c1 where c1: "thread_step u cmd c = Some c1" "crun cs c1 = Some c'"
    by (auto split: option.splits)
  show ?case
  proof (cases "u = t")
    case True
    with Cons.prems(2) x have "\<forall>y \<in> set cs. fst y \<noteq> t" by (simp add: filter_empty_conv)
    with other_threads_pc [OF c1(2)] have "cs_pc c' t = cs_pc c1 t" by blast
    with Cons.prems(3,4) c1(1) True show ?thesis
      by (cases "cs_pc c t"; cases cmd) (auto simp: thread_step_def Let_def split: if_splits Option.bind_splits)
  next
    case False
    with Cons.IH [OF c1(2)] Cons.prems x thread_step_pc [OF c1(1) False] show ?thesis by simp
  qed
qed simp

text \<open>The stack of capacity two, written out.\<close>

definition stack2 :: treiber_stack where
  "stack2 = \<lparr>ts_head = pack_head 1 0, ts_capacity = 2, ts_len = 2, ts_next = [stack_none, 0]\<rparr>"

lemma stack2_init: "stack_init_in_place 2 = Some stack2"
  by (simp add: stack_init_in_place_def stack2_def upt_rec)

lemma crun_stack2:
  "length cs \<le> 2 ^ 32 \<Longrightarrow> crun cs (cinit stack2) = Some c \<Longrightarrow> creach 2 c"
  by (rule crun_creach [OF creach_init [OF stack2_init]]) (simp_all add: cinit_def)

section \<open>Properties\<close>

text \<open>C1: As long as no thread sleeps through \<open>2 ^ 32\<close> exchanges between its load of the head and its own exchange (the
  32-bit tag of the head would come round, and the exchange succeed on a stale word), every interleaving of the
  accesses of \<open>allocate\<close> and \<open>release\<close> (and of handing indices from thread to thread), over sequentially
  consistent memory, keeps the indices below the capacity partitioned: each is on the linked list, once, or held by
  exactly one thread. So no two threads ever obtain the same page slot.\<close>

theorem treiber_exclusive_ownership:
  assumes "stack_init_in_place cap = Some s" and "crun cs (cinit s) = Some c"
    and "\<forall>k d. crun (take k cs) (cinit s) = Some d \<longrightarrow> no_tag_wrap d"
  shows "\<exists>xs. distinct xs \<and>
    chain (ts_next (cs_stack c)) (fst (unpack_head (ts_head (cs_stack c)))) xs \<and>
    (\<forall>v. unat v < cap \<longleftrightarrow> v \<in> set xs \<or> (\<exists>t. v \<in> held c t)) \<and>
    (\<forall>t v. v \<in> held c t \<longrightarrow> v \<notin> set xs) \<and>
    (\<forall>t u v. v \<in> held c t \<longrightarrow> v \<in> held c u \<longrightarrow> t = u)"
proof -
  have "creach cap c" using fresh_run_creach [OF creach_init [OF assms(1)] assms(2)] assms(3) by blast
  from creach_cinv [OF this] obtain xs where "cinv cap c xs" ..
  then show ?thesis
    by (intro exI [of _ xs]) (simp add: cinv_def cstack_ok_def owners_ok_def)
qed

theorem treiber_exclusive_ownership_witness:
  "\<exists>cs c. crun cs (cinit stack2) = Some c \<and> held c 0 = {1} \<and> held c 7 = {0} \<and>
     (\<forall>t u v. v \<in> held c t \<longrightarrow> v \<in> held c u \<longrightarrow> t = u)"
proof -
  let ?cs = "[(0 :: nat, Do_alloc), (7, Do_alloc), (0, Run), (7, Run), (0, Run), (7, Run),
    (0, Run), (7, Run), (7, Run), (7, Run), (7, Run), (0, Run), (7, Run)]"
  obtain c where run: "crun ?cs (cinit stack2) = Some c" and h: "held c 0 = {1}" "held c 7 = {0}"
    by (simp add: cinit_def thread_step_def stack_none_def stack2_def Let_def held_def)
  have "\<forall>k d. crun (take k ?cs) (cinit stack2) = Some d \<longrightarrow> no_tag_wrap d"
    by (intro allI impI, erule short_run_no_wrap) (simp_all add: cinit_def)
  from treiber_exclusive_ownership [OF stack2_init run this] run h show ?thesis by blast
qed

text \<open>C2: Every load and store of the two loops stays inside the \<open>next\<close> array, also when the index
  read from the head is stale and also when the tag has come round: after every interleaving, an operation that has
  started can take its next step.\<close>

theorem treiber_never_out_of_range:
  assumes "stack_init_in_place cap = Some s" and "crun cs (cinit s) = Some c" and "cs_pc c t \<noteq> Pc_Idle"
  shows "\<exists>c'. thread_step t Run c = Some c'"
proof -
  have inv: "in_range cap c" by (rule crun_in_range [OF cinit_in_range [OF assms(1)] assms(2)])
  then have ok: "pc_in_range cap (cs_pc c t)" and len: "length (ts_next (cs_stack c)) = cap"
    by (simp_all add: in_range_def)
  with assms(3) show ?thesis by (cases "cs_pc c t") (auto simp: thread_step_def Let_def)
qed

theorem treiber_never_out_of_range_witness:
  "\<exists>cs c cur v c'. crun cs (cinit stack2) = Some c \<and> cs_pc c 0 = Alloc_next cur v \<and> v < cs_ver c \<and>
     thread_step 0 Run c = Some c'"
proof -
  let ?cs = "[(0 :: nat, Do_alloc), (0, Run), (7, Do_alloc), (7, Run), (7, Run), (7, Run)]"
  obtain c where run: "crun ?cs (cinit stack2) = Some c"
    and pc: "cs_pc c 0 = Alloc_next (pack_head 1 0) 0" "0 < cs_ver c"
    by (simp add: cinit_def thread_step_def stack_none_def stack2_def Let_def)
  have "\<exists>c'. thread_step 0 Run c = Some c'"
    by (rule treiber_never_out_of_range [OF stack2_init run]) (simp add: pc)
  with run pc show ?thesis by blast
qed

text \<open>C3: The loops are lock-free. Take any run in which a thread loads the head, then takes the one access
  between that load and its exchange while the other threads do what they like, and then finds its exchange
  failed and goes back to the load. Then in between the exchange of another thread has succeeded and has brought
  that thread to the last access of its operation.\<close>

theorem treiber_failed_exchange_progress:
  assumes "cs_pc c t = Alloc_load \<or> cs_pc c t = Rel_load val" and "thread_step t Run c = Some c1"
    and "crun cs c1 = Some c2" and "length (filter (\<lambda>x. fst x = t) cs) = 1" and "at_exchange (cs_pc c2 t)"
    and "thread_step t Run c2 = Some c3" and "cs_pc c3 t = Alloc_load \<or> cs_pc c3 t = Rel_load val"
  shows "\<exists>as u cmd bs d d'. cs = as @ (u, cmd) # bs \<and> u \<noteq> t \<and> crun as c1 = Some d \<and> at_exchange (cs_pc d u) \<and>
    thread_step u cmd d = Some d' \<and> after_exchange (cs_pc d' u)"
proof -
  let ?h = "\<lambda>c. ts_head (cs_stack c)"
  have ne: "cs_pc c1 t \<noteq> Pc_Idle \<longrightarrow> pc_head (cs_pc c1 t) = Some (?h c1)" "\<not> at_exchange (cs_pc c1 t)"
    using assms(1,2) by (auto simp: thread_step_def Let_def split: if_splits)
  have failed: "pc_head (cs_pc c2 t) \<noteq> Some (?h c2)"
    using assms(5-7) by (cases "cs_pc c2 t") (auto simp: thread_step_def split: if_splits)
  have seen: "pc_head (cs_pc c2 t) = pc_head (cs_pc c1 t) \<and> cs_pc c1 t \<noteq> Pc_Idle"
    using window_head [OF assms(3,4) ne(2) assms(5)] by simp
  with failed ne(1) have "?h c2 \<noteq> ?h c1" by auto
  from head_changed [OF assms(3) this] obtain as u cmd bs d d' where
    x: "cs = as @ (u, cmd) # bs" "crun as c1 = Some d" "at_exchange (cs_pc d u)"
      "thread_step u cmd d = Some d'" "after_exchange (cs_pc d' u)" by blast
  have "u \<noteq> t"
  proof
    assume "u = t"
    with x(1) assms(4) have "\<forall>y \<in> set as. fst y \<noteq> t" by (auto simp: filter_empty_conv)
    from other_threads_pc [OF x(2) this] ne(2) x(3) \<open>u = t\<close> show False by simp
  qed
  with x show ?thesis by blast
qed

theorem treiber_failed_exchange_progress_witness:
  "\<exists>cs c1 c2 as u cmd bs d d'. crun cs c1 = Some c2 \<and> cs = as @ (u, cmd) # bs \<and> u \<noteq> 0 \<and> crun as c1 = Some d \<and>
     at_exchange (cs_pc d u) \<and> thread_step u cmd d = Some d' \<and> after_exchange (cs_pc d' u)"
proof -
  let ?cs = "[(0 :: nat, Run), (7, Do_alloc), (7, Run), (7, Run), (7, Run)]"
  obtain c where c: "thread_step 0 Do_alloc (cinit stack2) = Some c" "cs_pc c 0 = Alloc_load"
    by (simp add: cinit_def thread_step_def)
  obtain c1 where c1: "thread_step 0 Run c = Some c1"
    using c by (auto simp: cinit_def thread_step_def stack_none_def stack2_def Let_def)
  obtain c2 where c2: "crun ?cs c1 = Some c2" "at_exchange (cs_pc c2 0)"
    using c c1 by (auto simp: cinit_def thread_step_def stack_none_def stack2_def Let_def)
  obtain c3 where c3: "thread_step 0 Run c2 = Some c3" "cs_pc c3 0 = Alloc_load"
    using c c1 c2 by (auto simp: cinit_def thread_step_def stack_none_def stack2_def Let_def)
  have "length (filter (\<lambda>x. fst x = 0) ?cs) = 1" by simp
  from treiber_failed_exchange_progress [OF disjI1 [OF c(2)] c1 c2(1) this c2(2) c3(1) disjI1 [OF c3(2)]] c2(1)
  show ?thesis by blast
qed

text \<open>C4: \<open>release\<close> can refuse an owner with \<open>Full\<close> while the list is empty: between another
  thread's push and its \<open>fetch_add\<close>, a third thread can pop that element and its \<open>fetch_sub\<close>
  takes the length counter from zero to \<open>usize::MAX\<close>, which the capacity check reads as full.\<close>

theorem treiber_release_spuriously_full:
  "\<exists>c. creach 2 c \<and> cs_pc c 2 = Rel_full 1 \<and> ts_len (cs_stack c) = - 1 \<and>
     chain (ts_next (cs_stack c)) (fst (unpack_head (ts_head (cs_stack c)))) []"
proof -
  let ?cs = "[(0 :: nat, Do_alloc), (0, Run), (0, Run), (0, Run), (0, Run),
    (0, Do_alloc), (0, Run), (0, Run), (0, Run), (0, Run), (0, Do_handoff 1 2),
    (0, Do_release 0), (0, Run), (0, Run), (0, Run), (0, Run),
    (1, Do_alloc), (1, Run), (1, Run), (1, Run), (1, Run), (2, Do_release 1), (2, Run)]"
  obtain c where run: "crun ?cs (cinit stack2) = Some c" and pc: "cs_pc c 2 = Rel_full 1"
    "ts_len (cs_stack c) = - 1" "fst (unpack_head (ts_head (cs_stack c))) = stack_none"
    by (simp add: cinit_def thread_step_def stack_none_def stack2_def Let_def)
  have "creach 2 c" by (rule crun_stack2 [OF _ run]) simp
  with pc show ?thesis by auto
qed

end
