(* ===== verification/Rmp.thy ===== *)
theory Rmp
  imports Rust_Base
begin

text \<open>
  The MessagePack codec. The headers on the wire and in the pages are written with the crate
  \<^verbatim>\<open>rmp\<close>, which is not part of the repository, so its readers and writers are a parameter
  \<open>rmp\<close> of the codecs and \<open>rmp_ok\<close> states what its documentation promises and the codecs rely on:
  a writer of a fixed-width integer emits a marker and the bytes of the integer, whatever the value;
  the reader of that width accepts exactly these bytes; an array length below 16 takes one byte, and
  the reader of an array length also accepts the longer forms.

  \<open>msgpack\<close> is a codec that has these properties, after the MessagePack specification.
\<close>

section \<open>The parameter\<close>

record rmp =
  w_array_len :: "u32 \<Rightarrow> bytes"
  w_u8 :: "u8 \<Rightarrow> bytes"
  w_u16 :: "u16 \<Rightarrow> bytes"
  w_u32 :: "u32 \<Rightarrow> bytes"
  w_u64 :: "u64 \<Rightarrow> bytes"
  r_array_len :: "bytes \<Rightarrow> (u32 \<times> bytes) option"
  r_u8 :: "bytes \<Rightarrow> (u8 \<times> bytes) option"
  r_u16 :: "bytes \<Rightarrow> (u16 \<times> bytes) option"
  r_u32 :: "bytes \<Rightarrow> (u32 \<times> bytes) option"
  r_u64 :: "bytes \<Rightarrow> (u64 \<times> bytes) option"

text \<open>A writer of exactly \<open>n\<close> bytes and the reader that accepts exactly what it writes.\<close>

definition fixed_width :: "nat \<Rightarrow> ('v \<Rightarrow> bytes) \<Rightarrow> (bytes \<Rightarrow> ('v \<times> bytes) option) \<Rightarrow> bool" where
  "fixed_width n w r \<longleftrightarrow> (\<forall>v. length (w v) = n) \<and> (\<forall>v rest. r (w v @ rest) = Some (v, rest)) \<and>
     (\<forall>bs v rest. r bs = Some (v, rest) \<longrightarrow> bs = w v @ rest)"

definition array_len_ok :: "(u32 \<Rightarrow> bytes) \<Rightarrow> (bytes \<Rightarrow> (u32 \<times> bytes) option) \<Rightarrow> bool" where
  "array_len_ok w r \<longleftrightarrow> (\<forall>n < 16. length (w n) = 1 \<and> (\<forall>rest. r (w n @ rest) = Some (n, rest))) \<and>
     (\<forall>bs n rest. r bs = Some (n, rest) \<longrightarrow> bs = w n @ rest \<or> length rest + 3 \<le> length bs)"

definition rmp_ok :: "rmp \<Rightarrow> bool" where
  "rmp_ok M \<longleftrightarrow> array_len_ok (w_array_len M) (r_array_len M) \<and>
     fixed_width 2 (w_u8 M) (r_u8 M) \<and> fixed_width 3 (w_u16 M) (r_u16 M) \<and>
     fixed_width 5 (w_u32 M) (r_u32 M) \<and> fixed_width 9 (w_u64 M) (r_u64 M)"

lemma rmp_ok_write:
  assumes "rmp_ok M"
  shows "n < 16 \<Longrightarrow> length (w_array_len M n) = 1" "length (w_u8 M a) = 2" "length (w_u16 M b) = 3"
    "length (w_u32 M c) = 5" "length (w_u64 M d) = 9"
  using assms by (simp_all add: rmp_ok_def fixed_width_def array_len_ok_def)

lemma rmp_ok_read:
  assumes "rmp_ok M"
  shows "n < 16 \<Longrightarrow> r_array_len M (w_array_len M n @ rest) = Some (n, rest)"
    "r_u8 M (w_u8 M a @ rest) = Some (a, rest)" "r_u16 M (w_u16 M b @ rest) = Some (b, rest)"
    "r_u32 M (w_u32 M c @ rest) = Some (c, rest)" "r_u64 M (w_u64 M d @ rest) = Some (d, rest)"
  using assms by (simp_all add: rmp_ok_def fixed_width_def array_len_ok_def)

lemma rmp_ok_read_end:
  assumes "rmp_ok M"
  shows "r_u32 M (w_u32 M c) = Some (c, [])" "r_u64 M (w_u64 M d) = Some (d, [])"
  using rmp_ok_read [OF assms, where rest = "[]"] by simp_all

lemma rmp_ok_inv:
  assumes "rmp_ok M"
  shows "r_u8 M bs = Some (a, rest) \<Longrightarrow> bs = w_u8 M a @ rest"
    "r_u16 M bs = Some (b, rest) \<Longrightarrow> bs = w_u16 M b @ rest"
    "r_u32 M bs = Some (c, rest) \<Longrightarrow> bs = w_u32 M c @ rest"
    "r_u64 M bs = Some (d, rest) \<Longrightarrow> bs = w_u64 M d @ rest"
    "r_array_len M bs = Some (n, rest) \<Longrightarrow> bs = w_array_len M n @ rest \<or> length rest + 3 \<le> length bs"
  using assms unfolding rmp_ok_def fixed_width_def array_len_ok_def by auto

section \<open>A codec after the MessagePack specification\<close>

fun be_encode :: "nat \<Rightarrow> nat \<Rightarrow> bytes" where
  "be_encode 0 x = []"
| "be_encode (Suc n) x = be_encode n (x div 256) @ [of_nat (x mod 256)]"

definition be_decode :: "bytes \<Rightarrow> nat" where
  "be_decode bs = foldl (\<lambda>a b. a * 256 + unat b) 0 bs"

lemma be_decode_snoc [simp]: "be_decode (bs @ [b]) = be_decode bs * 256 + unat b"
  by (simp add: be_decode_def)

lemma length_be_encode [simp]: "length (be_encode n x) = n"
  by (induction n arbitrary: x) simp_all

lemma be_decode_encode: "x < 256 ^ n \<Longrightarrow> be_decode (be_encode n x) = x"
proof (induction n arbitrary: x)
  case 0
  then show ?case by (simp add: be_decode_def)
next
  case (Suc n)
  have "x div 256 < 256 ^ n"
    using Suc.prems by (simp add: less_mult_imp_div_less mult.commute)
  moreover have "unat (of_nat (x mod 256) :: u8) = x mod 256"
    by (rule unat_of_nat_less) simp
  ultimately show ?case
    using Suc.IH by simp
qed

lemma be_encode_decode: "length bs = n \<Longrightarrow> be_encode n (be_decode bs) = bs \<and> be_decode bs < 256 ^ n"
proof (induction n arbitrary: bs)
  case 0
  then show ?case by (simp add: be_decode_def)
next
  case (Suc n)
  then obtain cs b where bs: "bs = cs @ [b]" "length cs = n"
    by (metis length_Suc_conv_rev)
  have b: "unat b < 256" using unat_u8_less [of b] by simp
  from Suc.IH [OF bs(2)] have ih: "be_encode n (be_decode cs) = cs" "be_decode cs < 256 ^ n" by simp_all
  have "(be_decode cs * 256 + unat b) div 256 = be_decode cs" "(be_decode cs * 256 + unat b) mod 256 = unat b"
    using b by simp_all
  moreover have "(of_nat (unat b) :: u8) = b" by simp
  ultimately have "be_encode (Suc n) (be_decode bs) = bs"
    by (simp only: bs(1) be_decode_snoc be_encode.simps ih(1))
  moreover have "be_decode cs * 256 + unat b < 256 ^ n * 256"
    using ih(2) b by linarith
  ultimately show ?case
    by (simp add: bs(1) mult.commute)
qed

definition marked_write :: "u8 \<Rightarrow> nat \<Rightarrow> ('a :: len) word \<Rightarrow> bytes" where
  "marked_write m n v = m # be_encode n (unat v)"

definition marked_read :: "u8 \<Rightarrow> nat \<Rightarrow> bytes \<Rightarrow> (('a :: len) word \<times> bytes) option" where
  "marked_read m n bs = (case bs of [] \<Rightarrow> None
     | b # rest \<Rightarrow> if b = m \<and> n \<le> length rest
                   then Some (of_nat (be_decode (take n rest)), drop n rest) else None)"

lemma marked_fixed_width:
  assumes "256 ^ n = (2 :: nat) ^ LENGTH('a :: len)" and "k = Suc n"
  shows "fixed_width k (marked_write m n :: 'a word \<Rightarrow> bytes) (marked_read m n)"
proof -
  have "(of_nat (be_decode (be_encode n (unat v))) :: 'a word) = v" for v :: "'a word"
    using be_decode_encode [of "unat v" n] assms by (simp add: unsigned_less)
  moreover have "be_encode n (unat (of_nat (be_decode bs) :: 'a word)) = bs" if "length bs = n" for bs
    using be_encode_decode [OF that] assms by (simp add: unat_of_nat_less)
  ultimately show ?thesis
    using assms(2) by (auto simp: fixed_width_def marked_write_def marked_read_def split: list.splits if_splits)
qed

definition array_write :: "u32 \<Rightarrow> bytes" where
  "array_write n = (if n < 16 then [of_nat (0x90 + unat n)]
     else if n < 65536 then marked_write 0xdc 2 n else marked_write 0xdd 4 n)"

definition array_read :: "bytes \<Rightarrow> (u32 \<times> bytes) option" where
  "array_read bs = (case bs of [] \<Rightarrow> None
     | b # rest \<Rightarrow> if 0x90 \<le> unat b \<and> unat b < 0xa0 then Some (of_nat (unat b - 0x90), rest)
                   else if b = 0xdc then marked_read 0xdc 2 bs
                   else marked_read 0xdd 4 bs)"

definition msgpack :: rmp where
  "msgpack = \<lparr>w_array_len = array_write, w_u8 = marked_write 0xcc 1, w_u16 = marked_write 0xcd 2,
     w_u32 = marked_write 0xce 4, w_u64 = marked_write 0xcf 8,
     r_array_len = array_read, r_u8 = marked_read 0xcc 1, r_u16 = marked_read 0xcd 2,
     r_u32 = marked_read 0xce 4, r_u64 = marked_read 0xcf 8\<rparr>"

lemma array_read_small: "n < 16 \<Longrightarrow> array_read (array_write n @ rest) = Some (n, rest)"
proof -
  assume n: "n < 16"
  then have k: "unat n < 16" by (simp add: word_less_nat_alt)
  then have "unat (of_nat (0x90 + unat n) :: u8) = 0x90 + unat n"
    by (intro unat_of_nat_less) simp
  with n k show ?thesis
    by (simp add: array_write_def array_read_def del: of_nat_add)
qed

lemma array_read_form:
  assumes "array_read bs = Some (n, rest)"
  shows "bs = array_write n @ rest \<or> length rest + 3 \<le> length bs"
proof (cases bs)
  case Nil
  with assms show ?thesis by (simp add: array_read_def)
next
  case (Cons b cs)
  show ?thesis
  proof (cases "0x90 \<le> unat b \<and> unat b < 0xa0")
    case True
    then have n: "n = of_nat (unat b - 0x90)" and cs: "rest = cs"
      using assms Cons by (simp_all add: array_read_def)
    have u: "unat n = unat b - 0x90"
      unfolding n by (rule unat_of_nat_less) (use True in auto)
    then have "n < 16" using True by (auto simp: word_less_nat_alt)
    moreover have "of_nat (0x90 + unat n) = b"
      using u True by (simp del: of_nat_add)
    ultimately show ?thesis
      using Cons cs by (simp add: array_write_def del: of_nat_add)
  next
    case False
    with assms Cons show ?thesis
      by (auto simp: array_read_def marked_read_def split: if_splits)
  qed
qed

lemma msgpack_ok: "rmp_ok msgpack"
proof -
  have "length (array_write n) = 1" if "n < 16" for n
    using that by (simp add: array_write_def)
  then have "array_len_ok array_write array_read"
    unfolding array_len_ok_def using array_read_small array_read_form by metis
  moreover have "fixed_width 2 (marked_write 0xcc 1 :: u8 \<Rightarrow> bytes) (marked_read 0xcc 1)"
    "fixed_width 3 (marked_write 0xcd 2 :: u16 \<Rightarrow> bytes) (marked_read 0xcd 2)"
    "fixed_width 5 (marked_write 0xce 4 :: u32 \<Rightarrow> bytes) (marked_read 0xce 4)"
    "fixed_width 9 (marked_write 0xcf 8 :: u64 \<Rightarrow> bytes) (marked_read 0xcf 8)"
    by (rule marked_fixed_width; simp)+
  ultimately show ?thesis by (simp add: rmp_ok_def msgpack_def)
qed

end
