(* ===== verification/Plan_Wire.thy ===== *)
theory Plan_Wire
  imports Rmp
begin

text \<open>
  The values of the plan codec, \<^verbatim>\<open>src/page/plan_codec/src/lib.rs\<close>, and their bytes: the scan specifications that
  travel beside a logical plan, written to a sink field by field and read back from a byte source that may
  end too early.

  Three crates outside the repository are parameters. \<open>mpk\<close> is \<^verbatim>\<open>rmp\<close> with the errors of its readers,
  \<open>df\<close> is DataFusion with \<^verbatim>\<open>prost\<close>: how a plan, an expression or a schema becomes a protobuf message
  and back, and the bytes of a message. A DataFusion value the codec never looks into (an expression, a
  schema, a plan node) has type \<open>'d\<close>, a message type \<open>'m\<close>, an error of either crate type \<open>'e\<close>. A
  \<open>String\<close> is its bytes, a \<open>usize\<close> on the wire is a \<open>u64\<close> (a 64-bit target).
\<close>

section \<open>Strings\<close>

text \<open>\<open>String::from_utf8\<close>: the well-formed byte sequences of the Unicode standard.\<close>

definition utf8_cont :: "u8 \<Rightarrow> bool" where
  "utf8_cont b \<longleftrightarrow> 0x80 \<le> b \<and> b \<le> 0xbf"

definition utf8_second :: "u8 \<Rightarrow> u8 \<Rightarrow> bool" where
  "utf8_second a b \<longleftrightarrow> (if a = 0xe0 then 0xa0 \<le> b \<and> b \<le> 0xbf else if a = 0xed then 0x80 \<le> b \<and> b \<le> 0x9f
     else if a = 0xf0 then 0x90 \<le> b \<and> b \<le> 0xbf else if a = 0xf4 then 0x80 \<le> b \<and> b \<le> 0x8f
     else utf8_cont b)"

fun utf8_valid :: "bytes \<Rightarrow> bool" where
  "utf8_valid [] = True"
| "utf8_valid (a # bs) =
     (if a < 0x80 then utf8_valid bs
      else if 0xc2 \<le> a \<and> a \<le> 0xdf then (case bs of b # cs \<Rightarrow> utf8_cont b \<and> utf8_valid cs | _ \<Rightarrow> False)
      else if 0xe0 \<le> a \<and> a \<le> 0xef
        then (case bs of b # c # ds \<Rightarrow> utf8_second a b \<and> utf8_cont c \<and> utf8_valid ds | _ \<Rightarrow> False)
      else if 0xf0 \<le> a \<and> a \<le> 0xf4
        then (case bs of b # c # d # es \<Rightarrow> utf8_second a b \<and> utf8_cont c \<and> utf8_cont d \<and> utf8_valid es
              | _ \<Rightarrow> False)
      else False)"

section \<open>Parameters\<close>

text \<open>\<open>rmp::decode::ValueReadError\<close>.\<close>

datatype mp_error = Mp_InvalidMarkerRead | Mp_InvalidDataRead | Mp_TypeMismatch

record mpk =
  k_array_len :: "u32 \<Rightarrow> bytes"
  k_str :: "bytes \<Rightarrow> bytes"
  k_u8 :: "u8 \<Rightarrow> bytes"
  k_u32 :: "u32 \<Rightarrow> bytes"
  k_u64 :: "u64 \<Rightarrow> bytes"
  k_bool :: "bool \<Rightarrow> bytes"
  k_bin_len :: "u32 \<Rightarrow> bytes"
  g_array_len :: "bytes \<Rightarrow> mp_error + u32 \<times> bytes"
  g_str_len :: "bytes \<Rightarrow> mp_error + u32 \<times> bytes"
  g_u8 :: "bytes \<Rightarrow> mp_error + u8 \<times> bytes"
  g_u32 :: "bytes \<Rightarrow> mp_error + u32 \<times> bytes"
  g_u64 :: "bytes \<Rightarrow> mp_error + u64 \<times> bytes"
  g_bool :: "bytes \<Rightarrow> mp_error + bool \<times> bytes"
  g_bin_len :: "bytes \<Rightarrow> mp_error + u32 \<times> bytes"

record pg_relation =
  rel_schema :: "bytes option"
  rel_table :: bytes
  rel_aliases :: "bytes list"

record compiled_filter =
  cf_original_index :: u64
  cf_sql :: bytes

record 'd compiled_scan =
  cs_sql :: bytes
  cs_requested_limit :: "u64 option"
  cs_sql_limit :: "u64 option"
  cs_selected_columns :: "u64 list"
  cs_output_columns :: "u64 list"
  cs_filter_only_columns :: "u64 list"
  cs_residual_filter_columns :: "u64 list"
  cs_pushed_filters :: "compiled_filter list"
  cs_residual_filters :: "'d list"
  cs_all_filters_compiled :: bool
  cs_uses_dummy_projection :: bool

record fetch_hints =
  fh_planner_fetch_hint :: "u64 option"
  fh_local_row_cap :: "u64 option"

record 'd pg_scan_spec =
  sp_scan_id :: u64
  sp_table_oid :: u32
  sp_relation :: pg_relation
  sp_compiled_scan :: "'d compiled_scan"
  sp_fetch_hints :: fetch_hints
  sp_schema :: 'd

record 'd cte_ref =
  cte_id :: u64
  cte_name :: bytes
  cte_schema :: 'd
  cte_projection :: "u64 list option"
  cte_fetch :: "u64 option"

text \<open>
  A logical plan as the codec sees it: a \<open>PgScanNode\<close> leaf, a \<open>PgCteRefNode\<close> over its input, an extension node of
  another kind, or a node of DataFusion's own.
\<close>

datatype 'd lplan =
    Lp_Scan "'d pg_scan_spec"
  | Lp_Cte "'d cte_ref" "'d lplan"
  | Lp_Ext 'd "'d lplan list"
  | Lp_Node 'd "'d lplan list"

text \<open>A \<open>BTreeMap\<close> is its entries in the order of the keys.\<close>

fun btree_insert :: "'k :: linorder \<Rightarrow> 'v \<Rightarrow> ('k \<times> 'v) list \<Rightarrow> ('k \<times> 'v) list" where
  "btree_insert k v [] = [(k, v)]"
| "btree_insert k v ((k', v') # m) =
     (if k < k' then (k, v) # (k', v') # m else if k = k' then (k, v) # m else (k', v') # btree_insert k v m)"

datatype pb_kind = Pb_plan | Pb_expr | Pb_schema

text \<open>The texts of the errors the extension codecs hand to DataFusion, as \<open>DataFusionError::Plan\<close>.\<close>

datatype plan_msg =
    Perr_UnsupportedExtension
  | Perr_CteEncode
  | Perr_ScanInputs
  | Perr_ScanReference
  | Perr_MissingScanSpec u64
  | Perr_CteReference

text \<open>
  DataFusion and \<^verbatim>\<open>prost\<close>: plans, expressions and schemas to messages and back, and messages to bytes and
  back. The two conversions of a plan call back into the extension codec they are given.
\<close>

record ('d, 'm, 'e) df =
  df_plan_proto :: "('d lplan \<Rightarrow> 'e + bytes) \<Rightarrow> 'd lplan \<Rightarrow> 'e + 'm"
  df_expr_proto :: "'d \<Rightarrow> 'e + 'm"
  df_schema_proto :: "'d \<Rightarrow> 'e + 'm"
  df_plan_parse :: "(bytes \<Rightarrow> 'd lplan list \<Rightarrow> 'e + 'd lplan) \<Rightarrow> 'm \<Rightarrow> 'e + 'd lplan"
  df_expr_parse :: "'m \<Rightarrow> 'e + 'd"
  df_schema_parse :: "'m \<Rightarrow> 'e + 'd"
  df_schema_fields :: "'d \<Rightarrow> nat"
  df_plan_error :: "plan_msg \<Rightarrow> 'e"
  pb_encode :: "'m \<Rightarrow> bytes list"
  pb_encoded_len :: "'m \<Rightarrow> nat"
  pb_decode :: "pb_kind \<Rightarrow> bytes \<Rightarrow> 'e + 'm \<times> bytes"
  pb_underflow :: "'e \<Rightarrow> bool"

section \<open>Writing\<close>

datatype 'e plan_encode_error =
    Pee_EmptyOutputChunk
  | Pee_SessionFailed
  | Pee_TooManyScanSpecs nat
  | Pee_PayloadTooLarge nat
  | Pee_StateMachine
  | Pee_DataFusion 'e
  | Pee_MsgPack nat

text \<open>
  What a function that writes to a \<open>BufMut\<close> does: the slices it puts, one after another, up to an error. The
  sinks of the codec never run full.
\<close>

type_synonym 'e emit = "bytes list \<times> ('e plan_encode_error + unit)"

definition put :: "bytes \<Rightarrow> 'e emit" where
  "put bs = ([bs], Inr ())"

fun emits :: "'e emit list \<Rightarrow> 'e emit" where
  "emits [] = ([], Inr ())"
| "emits (x # xs) = (case snd x of
     Inl e \<Rightarrow> x
   | Inr _ \<Rightarrow> (fst x @ fst (emits xs), snd (emits xs)))"

definition emit_result :: "'e plan_encode_error + 'a \<Rightarrow> ('a \<Rightarrow> 'e emit) \<Rightarrow> 'e emit" where
  "emit_result r k = (case r of Inl e \<Rightarrow> ([], Inl e) | Inr a \<Rightarrow> k a)"

definition u32_try_from :: "nat \<Rightarrow> u32 option" where
  "u32_try_from n = (if n < 2 ^ 32 then Some (of_nat n) else None)"

definition write_optional_usize_to :: "mpk \<Rightarrow> u64 option \<Rightarrow> 'e emit" where
  "write_optional_usize_to K v = (case v of
     Some x \<Rightarrow> emits [put (k_bool K True), put (k_u64 K x)]
   | None \<Rightarrow> put (k_bool K False))"

definition write_optional_string_to :: "mpk \<Rightarrow> bytes option \<Rightarrow> 'e emit" where
  "write_optional_string_to K v = (case v of
     Some x \<Rightarrow> emits [put (k_bool K True), put (k_str K x)]
   | None \<Rightarrow> put (k_bool K False))"

definition write_array_of :: "mpk \<Rightarrow> (nat \<Rightarrow> 'e plan_encode_error) \<Rightarrow> 'e emit list \<Rightarrow> 'e emit" where
  "write_array_of K err xs =
     emits (emit_result (ok_or (err (length xs)) (u32_try_from (length xs))) (\<lambda>n. put (k_array_len K n)) # xs)"

definition write_usize_vec_to :: "mpk \<Rightarrow> u64 list \<Rightarrow> 'e emit" where
  "write_usize_vec_to K values = write_array_of K Pee_MsgPack (map (\<lambda>v. put (k_u64 K v)) values)"

definition write_optional_usize_vec_to :: "mpk \<Rightarrow> u64 list option \<Rightarrow> 'e emit" where
  "write_optional_usize_vec_to K values = (case values of
     Some vs \<Rightarrow> emits [put (k_bool K True), write_usize_vec_to K vs]
   | None \<Rightarrow> put (k_bool K False))"

definition write_bin_len_to :: "mpk \<Rightarrow> nat \<Rightarrow> 'e emit" where
  "write_bin_len_to K len =
     emit_result (ok_or (Pee_PayloadTooLarge len) (u32_try_from len)) (\<lambda>n. put (k_bin_len K n))"

definition write_protobuf_bin_to :: "mpk \<Rightarrow> ('d, 'm, 'e) df \<Rightarrow> 'm \<Rightarrow> 'e emit" where
  "write_protobuf_bin_to K D message =
     emits [write_bin_len_to K (pb_encoded_len D message), (pb_encode D message, Inr ())]"

definition encode_df_schema_into :: "mpk \<Rightarrow> ('d, 'm, 'e) df \<Rightarrow> 'd \<Rightarrow> 'e emit" where
  "encode_df_schema_into K D schema =
     emit_result (map_err Pee_DataFusion (df_schema_proto D schema)) (write_protobuf_bin_to K D)"

definition encode_residual_filters_into :: "mpk \<Rightarrow> ('d, 'm, 'e) df \<Rightarrow> 'd list \<Rightarrow> 'e emit" where
  "encode_residual_filters_into K D filters = write_array_of K Pee_MsgPack (map (\<lambda>f.
     emit_result (map_err Pee_DataFusion (df_expr_proto D f)) (write_protobuf_bin_to K D)) filters)"

definition pg_scan_pushed_filter_len :: u32 where "pg_scan_pushed_filter_len = 2"
definition pg_scan_fetch_hints_len :: u32 where "pg_scan_fetch_hints_len = 2"
definition pg_scan_relation_len :: u32 where "pg_scan_relation_len = 2"
definition pg_scan_compiled_scan_len :: u32 where "pg_scan_compiled_scan_len = 11"
definition pg_scan_spec_len :: u32 where "pg_scan_spec_len = 6"
definition pg_scan_spec_version :: u8 where "pg_scan_spec_version = 1"

definition encode_pushed_filters_into :: "mpk \<Rightarrow> compiled_filter list \<Rightarrow> 'e emit" where
  "encode_pushed_filters_into K filters = write_array_of K Pee_TooManyScanSpecs (map (\<lambda>f. emits
     [put (k_array_len K pg_scan_pushed_filter_len), put (k_u64 K (cf_original_index f)), put (k_str K (cf_sql f))])
     filters)"

definition encode_fetch_hints_into :: "mpk \<Rightarrow> fetch_hints \<Rightarrow> 'e emit" where
  "encode_fetch_hints_into K h = emits [put (k_array_len K pg_scan_fetch_hints_len),
     write_optional_usize_to K (fh_planner_fetch_hint h), write_optional_usize_to K (fh_local_row_cap h)]"

definition encode_compiled_scan_into :: "mpk \<Rightarrow> ('d, 'm, 'e) df \<Rightarrow> 'd compiled_scan \<Rightarrow> 'e emit" where
  "encode_compiled_scan_into K D s = emits [put (k_array_len K pg_scan_compiled_scan_len), put (k_str K (cs_sql s)),
     write_optional_usize_to K (cs_requested_limit s), write_optional_usize_to K (cs_sql_limit s),
     write_usize_vec_to K (cs_selected_columns s), write_usize_vec_to K (cs_output_columns s),
     write_usize_vec_to K (cs_filter_only_columns s), write_usize_vec_to K (cs_residual_filter_columns s),
     encode_pushed_filters_into K (cs_pushed_filters s), encode_residual_filters_into K D (cs_residual_filters s),
     put (k_bool K (cs_all_filters_compiled s)), put (k_bool K (cs_uses_dummy_projection s))]"

definition encode_pg_relation_into :: "mpk \<Rightarrow> pg_relation \<Rightarrow> 'e emit" where
  "encode_pg_relation_into K r = emits [put (k_array_len K pg_scan_relation_len),
     write_optional_string_to K (rel_schema r), put (k_str K (rel_table r))]"

definition encode_pg_scan_spec_into :: "mpk \<Rightarrow> ('d, 'm, 'e) df \<Rightarrow> 'd pg_scan_spec \<Rightarrow> 'e emit" where
  "encode_pg_scan_spec_into K D s = emits [put (k_array_len K pg_scan_spec_len), put (k_u8 K pg_scan_spec_version),
     put (k_u64 K (sp_scan_id s)), put (k_u32 K (sp_table_oid s)), encode_pg_relation_into K (sp_relation s),
     encode_compiled_scan_into K D (sp_compiled_scan s), encode_fetch_hints_into K (sp_fetch_hints s),
     encode_df_schema_into K D (sp_schema s)]"

section \<open>Reading\<close>

datatype mp_msg =
    Msg_Read mp_error
  | Msg_Truncated nat nat
  | Msg_ArrayLen u32 u32
  | Msg_InvalidUtf8
  | Msg_PlanMissing

datatype payload_msg = Pm_Len nat | Pm_Version u8 | Pm_Inputs nat

datatype 'e pb_msg = Pb_Decode 'e | Pb_Trailing nat

datatype decode_state =
    Dec_Start | Dec_Failed | Dec_EnvelopeArrayLen | Dec_Magic | Dec_Version | Dec_ScanSpecsArrayLen | Dec_ScanSpecs
  | Dec_LogicalPlanBinLen | Dec_LogicalPlanBin | Dec_BuildLogicalPlan | Dec_AwaitEof | Dec_Done

datatype 'e plan_decode_error =
    Pde_AlreadyFinished
  | Pde_SessionFailed decode_state "'e plan_decode_error"
  | Pde_UnexpectedEof decode_state nat
  | Pde_InvalidEnvelope u32 u32
  | Pde_InvalidMagic bytes
  | Pde_UnsupportedVersion u8
  | Pde_OrphanScanSpec u64
  | Pde_DuplicateScanId u64
  | Pde_InvalidScanPayload payload_msg
  | Pde_TrailingBytes nat
  | Pde_Protobuf "'e pb_msg"
  | Pde_DataFusion 'e
  | Pde_SchemaFields nat nat
  | Pde_StateMachine
  | Pde_MsgPack mp_msg

text \<open>
  The code classifies errors by their text; these are the errors whose text matches: a reader of
  \<^verbatim>\<open>rmp\<close> that ran out of bytes, a string or payload that is cut off, and a protobuf error that says so.
\<close>

fun is_incomplete_decode_error :: "('d, 'm, 'e) df \<Rightarrow> 'e plan_decode_error \<Rightarrow> bool" where
  "is_incomplete_decode_error D (Pde_MsgPack (Msg_Read e)) = (e \<noteq> Mp_TypeMismatch)"
| "is_incomplete_decode_error D (Pde_MsgPack (Msg_Truncated _ _)) = True"
| "is_incomplete_decode_error D (Pde_Protobuf (Pb_Decode e)) = pb_underflow D e"
| "is_incomplete_decode_error D _ = False"

type_synonym ('e, 'a) reader = "bytes \<Rightarrow> 'e plan_decode_error + 'a \<times> bytes"

definition rd_bind :: "('e, 'a) reader \<Rightarrow> ('a \<Rightarrow> ('e, 'b) reader) \<Rightarrow> ('e, 'b) reader" where
  "rd_bind g k bs = try_bind (g bs) (\<lambda>(a, rest). k a rest)"

definition rd_return :: "'a \<Rightarrow> ('e, 'a) reader" where
  "rd_return a bs = Inr (a, bs)"

definition rd_mp :: "(bytes \<Rightarrow> mp_error + 'a \<times> bytes) \<Rightarrow> ('e, 'a) reader" where
  "rd_mp g bs = map_err (Pde_MsgPack \<circ> Msg_Read) (g bs)"

definition expect_array_len_from :: "mpk \<Rightarrow> u32 \<Rightarrow> ('e, unit) reader" where
  "expect_array_len_from K expected = rd_bind (rd_mp (g_array_len K)) (\<lambda>actual.
     if actual \<noteq> expected then (\<lambda>_. Inl (Pde_MsgPack (Msg_ArrayLen expected actual))) else rd_return ())"

definition read_exact :: "nat \<Rightarrow> ('e, bytes) reader" where
  "read_exact n bs = (if length bs < n then Inl (Pde_MsgPack (Msg_Truncated n (length bs)))
     else Inr (take n bs, drop n bs))"

definition read_string_from :: "mpk \<Rightarrow> ('e, bytes) reader" where
  "read_string_from K = rd_bind (rd_mp (g_str_len K)) (\<lambda>len. rd_bind (read_exact (unat len)) (\<lambda>s.
     if utf8_valid s then rd_return s else (\<lambda>_. Inl (Pde_MsgPack Msg_InvalidUtf8))))"

definition read_optional_usize_from :: "mpk \<Rightarrow> ('e, u64 option) reader" where
  "read_optional_usize_from K = rd_bind (rd_mp (g_bool K)) (\<lambda>present.
     if present then rd_bind (rd_mp (g_u64 K)) (\<lambda>v. rd_return (Some v)) else rd_return None)"

definition read_optional_string_from :: "mpk \<Rightarrow> ('e, bytes option) reader" where
  "read_optional_string_from K = rd_bind (rd_mp (g_bool K)) (\<lambda>present.
     if present then rd_bind (read_string_from K) (\<lambda>v. rd_return (Some v)) else rd_return None)"

fun read_times :: "nat \<Rightarrow> ('e, 'a) reader \<Rightarrow> ('e, 'a list) reader" where
  "read_times 0 g = rd_return []"
| "read_times (Suc n) g = rd_bind g (\<lambda>x. rd_bind (read_times n g) (\<lambda>xs. rd_return (x # xs)))"

definition read_array_of :: "mpk \<Rightarrow> ('e, 'a) reader \<Rightarrow> ('e, 'a list) reader" where
  "read_array_of K g = rd_bind (rd_mp (g_array_len K)) (\<lambda>len. read_times (unat len) g)"

definition read_usize_vec_from :: "mpk \<Rightarrow> ('e, u64 list) reader" where
  "read_usize_vec_from K = read_array_of K (rd_mp (g_u64 K))"

definition read_optional_usize_vec_from :: "mpk \<Rightarrow> ('e, u64 list option) reader" where
  "read_optional_usize_vec_from K = rd_bind (rd_mp (g_bool K)) (\<lambda>present.
     if present then rd_bind (read_usize_vec_from K) (\<lambda>vs. rd_return (Some vs)) else rd_return None)"

definition pb_message :: "('d, 'm, 'e) df \<Rightarrow> pb_kind \<Rightarrow> bytes \<Rightarrow> 'e plan_decode_error + 'm" where
  "pb_message D kind payload =
     try_bind (map_err (Pde_Protobuf \<circ> Pb_Decode) (pb_decode D kind payload)) (\<lambda>(message, rest).
       if rest \<noteq> [] then Inl (Pde_Protobuf (Pb_Trailing (length rest))) else Inr message)"

definition read_protobuf_bin_from :: "mpk \<Rightarrow> ('d, 'm, 'e) df \<Rightarrow> pb_kind \<Rightarrow> ('e, 'm) reader" where
  "read_protobuf_bin_from K D kind = rd_bind (rd_mp (g_bin_len K)) (\<lambda>len. rd_bind (read_exact (unat len)) (\<lambda>payload.
     (\<lambda>rest. try_bind (pb_message D kind payload) (\<lambda>message. Inr (message, rest)))))"

definition decode_df_schema_from :: "mpk \<Rightarrow> ('d, 'm, 'e) df \<Rightarrow> ('e, 'd) reader" where
  "decode_df_schema_from K D = rd_bind (read_protobuf_bin_from K D Pb_schema) (\<lambda>message.
     (\<lambda>rest. try_bind (map_err Pde_DataFusion (df_schema_parse D message)) (\<lambda>schema. Inr (schema, rest))))"

definition decode_residual_filters_from :: "mpk \<Rightarrow> ('d, 'm, 'e) df \<Rightarrow> ('e, 'd list) reader" where
  "decode_residual_filters_from K D = read_array_of K (rd_bind (read_protobuf_bin_from K D Pb_expr) (\<lambda>message.
     (\<lambda>rest. try_bind (map_err Pde_DataFusion (df_expr_parse D message)) (\<lambda>expr. Inr (expr, rest)))))"

definition decode_pushed_filters_from :: "mpk \<Rightarrow> ('e, compiled_filter list) reader" where
  "decode_pushed_filters_from K = read_array_of K (
     rd_bind (expect_array_len_from K pg_scan_pushed_filter_len) (\<lambda>_.
     rd_bind (rd_mp (g_u64 K)) (\<lambda>original_index. rd_bind (read_string_from K) (\<lambda>sql.
     rd_return \<lparr>cf_original_index = original_index, cf_sql = sql\<rparr>))))"

definition decode_fetch_hints_from :: "mpk \<Rightarrow> ('e, fetch_hints) reader" where
  "decode_fetch_hints_from K = rd_bind (expect_array_len_from K pg_scan_fetch_hints_len) (\<lambda>_.
     rd_bind (read_optional_usize_from K) (\<lambda>a. rd_bind (read_optional_usize_from K) (\<lambda>b.
     rd_return \<lparr>fh_planner_fetch_hint = a, fh_local_row_cap = b\<rparr>)))"

definition decode_compiled_scan_from :: "mpk \<Rightarrow> ('d, 'm, 'e) df \<Rightarrow> ('e, 'd compiled_scan) reader" where
  "decode_compiled_scan_from K D = rd_bind (expect_array_len_from K pg_scan_compiled_scan_len) (\<lambda>_.
     rd_bind (read_string_from K) (\<lambda>sql.
     rd_bind (read_optional_usize_from K) (\<lambda>requested_limit. rd_bind (read_optional_usize_from K) (\<lambda>sql_limit.
     rd_bind (read_usize_vec_from K) (\<lambda>selected. rd_bind (read_usize_vec_from K) (\<lambda>outputs.
     rd_bind (read_usize_vec_from K) (\<lambda>filter_only. rd_bind (read_usize_vec_from K) (\<lambda>residual.
     rd_bind (decode_pushed_filters_from K) (\<lambda>pushed_filters.
     rd_bind (decode_residual_filters_from K D) (\<lambda>residual_filters.
     rd_bind (rd_mp (g_bool K)) (\<lambda>all_compiled. rd_bind (rd_mp (g_bool K)) (\<lambda>dummy.
     rd_return \<lparr>cs_sql = sql, cs_requested_limit = requested_limit, cs_sql_limit = sql_limit,
       cs_selected_columns = selected, cs_output_columns = outputs, cs_filter_only_columns = filter_only,
       cs_residual_filter_columns = residual, cs_pushed_filters = pushed_filters,
       cs_residual_filters = residual_filters, cs_all_filters_compiled = all_compiled,
       cs_uses_dummy_projection = dummy\<rparr>))))))))))))"

definition decode_pg_relation_from :: "mpk \<Rightarrow> ('e, pg_relation) reader" where
  "decode_pg_relation_from K = rd_bind (expect_array_len_from K pg_scan_relation_len) (\<lambda>_.
     rd_bind (read_optional_string_from K) (\<lambda>schema. rd_bind (read_string_from K) (\<lambda>table.
     rd_return \<lparr>rel_schema = schema, rel_table = table, rel_aliases = []\<rparr>)))"

definition scan_spec_try_new_with_schema ::
  "('d, 'm, 'e) df \<Rightarrow> u64 \<Rightarrow> u32 \<Rightarrow> pg_relation \<Rightarrow> 'd compiled_scan \<Rightarrow> fetch_hints \<Rightarrow> 'd \<Rightarrow>
     'e plan_decode_error + 'd pg_scan_spec" where
  "scan_spec_try_new_with_schema D scan_id table_oid relation scan hints schema =
     (let expected_len = length (cs_output_columns scan); actual_len = df_schema_fields D schema in
      if actual_len \<noteq> expected_len then Inl (Pde_SchemaFields actual_len expected_len)
      else Inr \<lparr>sp_scan_id = scan_id, sp_table_oid = table_oid, sp_relation = relation, sp_compiled_scan = scan,
                sp_fetch_hints = hints, sp_schema = schema\<rparr>)"

definition decode_pg_scan_spec_from :: "mpk \<Rightarrow> ('d, 'm, 'e) df \<Rightarrow> ('e, 'd pg_scan_spec) reader" where
  "decode_pg_scan_spec_from K D = rd_bind (expect_array_len_from K pg_scan_spec_len) (\<lambda>_.
     rd_bind (rd_mp (g_u8 K)) (\<lambda>version.
     if version \<noteq> pg_scan_spec_version then (\<lambda>_. Inl (Pde_InvalidScanPayload (Pm_Version version))) else
     rd_bind (rd_mp (g_u64 K)) (\<lambda>scan_id. rd_bind (rd_mp (g_u32 K)) (\<lambda>table_oid.
     rd_bind (decode_pg_relation_from K) (\<lambda>relation. rd_bind (decode_compiled_scan_from K D) (\<lambda>scan.
     rd_bind (decode_fetch_hints_from K) (\<lambda>hints. rd_bind (decode_df_schema_from K D) (\<lambda>schema.
     (\<lambda>rest. try_bind (scan_spec_try_new_with_schema D scan_id table_oid relation scan hints schema) (\<lambda>spec.
       Inr (spec, rest)))))))))))"

end
