(* ===== verification/Plan_Wire_Proofs.thy ===== *)
theory Plan_Wire_Proofs
  imports Plan_Wire
begin

text \<open>
  What the readers of the plan codec make of what its writers put: the value that was written when all its
  bytes are there, and an error that asks for more input when some are missing.
\<close>

section \<open>What the crates promise\<close>

text \<open>A reader takes exactly these bytes for this value, and calls anything shorter too short.\<close>

definition reads_as :: "(bytes \<Rightarrow> 'e + 'a \<times> bytes) \<Rightarrow> ('e \<Rightarrow> bool) \<Rightarrow> bytes \<Rightarrow> 'a \<Rightarrow> bool" where
  "reads_as g short b v \<longleftrightarrow> (\<forall>rest. g (b @ rest) = Inr (v, rest)) \<and>
     (\<forall>p s. b = p @ s \<longrightarrow> s \<noteq> [] \<longrightarrow> (\<exists>e. g p = Inl e \<and> short e))"

definition mp_short :: "mp_error \<Rightarrow> bool" where
  "mp_short e \<longleftrightarrow> e \<noteq> Mp_TypeMismatch"

text \<open>
  A \<open>rmp\<close> reader reads back what the writer of its type wrote; a string is a header and its bytes; the first byte of
  an array is one of the array markers, \<open>0x90\<close> to \<open>0x9f\<close>, \<open>0xdc\<close> and \<open>0xdd\<close>.
\<close>

definition mpk_ok :: "mpk \<Rightarrow> bool" where
  "mpk_ok K \<longleftrightarrow> (\<forall>v. reads_as (g_array_len K) mp_short (k_array_len K v) v) \<and>
     (\<forall>v. \<exists>b bs. k_array_len K v = b # bs \<and> 0x90 \<le> b) \<and>
     (\<forall>v. reads_as (g_u8 K) mp_short (k_u8 K v) v) \<and> (\<forall>v. reads_as (g_u32 K) mp_short (k_u32 K v) v) \<and>
     (\<forall>v. reads_as (g_u64 K) mp_short (k_u64 K v) v) \<and> (\<forall>v. reads_as (g_bool K) mp_short (k_bool K v) v) \<and>
     (\<forall>v. reads_as (g_bin_len K) mp_short (k_bin_len K v) v) \<and>
     (\<forall>s. length s < 2 ^ 32 \<longrightarrow>
        (\<exists>hd. k_str K s = hd @ s \<and> reads_as (g_str_len K) mp_short hd (of_nat (length s))))"

fun all_results :: "('e + 'a) list \<Rightarrow> 'e + 'a list" where
  "all_results [] = Inr []"
| "all_results (x # xs) = try_bind x (\<lambda>a. try_bind (all_results xs) (\<lambda>as. Inr (a # as)))"

lemma all_results_Inr: "all_results xs = Inr ys \<longleftrightarrow> xs = map Inr ys"
  by (induction xs arbitrary: ys) (auto simp: try_bind_eq_Inr Cons_eq_map_conv)

text \<open>
  What DataFusion does with a plan and the two extension codecs: an extension node becomes the bytes the one writes,
  and the other is given these bytes and the inputs rebuilt before; every other node comes back as it was.
\<close>

fun rebuild ::
  "('d lplan \<Rightarrow> 'e + bytes) \<Rightarrow> (bytes \<Rightarrow> 'd lplan list \<Rightarrow> 'e + 'd lplan) \<Rightarrow> 'd lplan \<Rightarrow> 'e + 'd lplan" where
  "rebuild enc dec (Lp_Scan s) = try_bind (enc (Lp_Scan s)) (\<lambda>b. dec b [])"
| "rebuild enc dec (Lp_Cte c p) =
     try_bind (rebuild enc dec p) (\<lambda>q. try_bind (enc (Lp_Cte c p)) (\<lambda>b. dec b [q]))"
| "rebuild enc dec (Lp_Ext d ps) =
     try_bind (all_results (map (rebuild enc dec) ps)) (\<lambda>qs. try_bind (enc (Lp_Ext d ps)) (\<lambda>b. dec b qs))"
| "rebuild enc dec (Lp_Node d ps) = try_bind (all_results (map (rebuild enc dec) ps)) (\<lambda>qs. Inr (Lp_Node d qs))"

text \<open>The extension nodes of a plan.\<close>

fun extensions :: "'d lplan \<Rightarrow> 'd lplan list" where
  "extensions (Lp_Scan s) = [Lp_Scan s]"
| "extensions (Lp_Cte c p) = Lp_Cte c p # extensions p"
| "extensions (Lp_Ext d ps) = Lp_Ext d ps # concat (map extensions ps)"
| "extensions (Lp_Node d ps) = concat (map extensions ps)"

definition df_ok :: "('d, 'm, 'e) df \<Rightarrow> bool" where
  "df_ok D \<longleftrightarrow> (\<forall>m. pb_encoded_len D m = length (concat (pb_encode D m))) \<and>
     (\<forall>x m. df_expr_proto D x = Inr m \<longrightarrow>
        pb_decode D Pb_expr (concat (pb_encode D m)) = Inr (m, []) \<and> df_expr_parse D m = Inr x) \<and>
     (\<forall>x m. df_schema_proto D x = Inr m \<longrightarrow>
        pb_decode D Pb_schema (concat (pb_encode D m)) = Inr (m, []) \<and> df_schema_parse D m = Inr x) \<and>
     (\<forall>enc p m. df_plan_proto D enc p = Inr m \<longrightarrow> pb_decode D Pb_plan (concat (pb_encode D m)) = Inr (m, []) \<and>
        (\<forall>x \<in> set (extensions p). \<exists>b. enc x = Inr b) \<and> (\<forall>dec. df_plan_parse D dec m = rebuild enc dec p))"

section \<open>Readers\<close>

lemma reads_as_bind:
  assumes g: "reads_as g short b v" and k: "reads_as (k v) short c w"
  shows "reads_as (rd_bind g k) short (b @ c) w"
proof -
  have g1: "g (b @ rest) = Inr (v, rest)" and k1: "k v (c @ rest) = Inr (w, rest)" for rest
    using g k unfolding reads_as_def by blast+
  show ?thesis
    unfolding reads_as_def
  proof (intro conjI allI impI)
    fix rest show "rd_bind g k ((b @ c) @ rest) = Inr (w, rest)"
      by (simp add: rd_bind_def g1 k1)
  next
    fix p s assume split: "b @ c = p @ s" and s: "s \<noteq> []"
    from split consider us where "b = p @ us" "us @ c = s" | us where "p = b @ us" "c = us @ s"
      unfolding append_eq_append_conv2 by blast
    then show "\<exists>e. rd_bind g k p = Inl e \<and> short e"
    proof cases
      case 1
      show ?thesis
      proof (cases "us = []")
        case True
        then have "g p = Inr (v, [])" using g1 [of "[]"] 1 by simp
        moreover obtain e where "k v [] = Inl e" "short e"
          using k 1 True s unfolding reads_as_def by (metis append_Nil)
        ultimately show ?thesis by (simp add: rd_bind_def)
      next
        case False
        with g 1 obtain e where "g p = Inl e" "short e" unfolding reads_as_def by blast
        then show ?thesis by (simp add: rd_bind_def)
      qed
    next
      case 2
      then obtain e where "k v us = Inl e" "short e" using k s unfolding reads_as_def by blast
      with 2 show ?thesis by (simp add: rd_bind_def g1)
    qed
  qed
qed

lemma reads_as_return: "reads_as (rd_return v) short [] v"
  by (simp add: reads_as_def rd_return_def)

lemma reads_as_mp:
  "reads_as g mp_short b v \<Longrightarrow> reads_as (rd_mp g) (is_incomplete_decode_error D) b v"
  by (fastforce simp: reads_as_def rd_mp_def mp_short_def)

lemma reads_as_exact: "reads_as (read_exact (length s)) (is_incomplete_decode_error D) s s"
  by (auto simp: reads_as_def read_exact_def)

text \<open>A reader that has read a message and only checks it.\<close>

lemma reads_as_pure: "x = Inr v \<Longrightarrow> reads_as (\<lambda>rest. try_bind x (\<lambda>a. Inr (a, rest))) short [] v"
  by (simp add: reads_as_def)

section \<open>What is written is read back\<close>

definition wire :: "('d, 'm, 'e) df \<Rightarrow> 'e emit \<Rightarrow> ('e, 'a) reader \<Rightarrow> 'a \<Rightarrow> bool" where
  "wire D x g v \<longleftrightarrow> (snd x = Inr () \<longrightarrow> reads_as g (is_incomplete_decode_error D) (concat (fst x)) v)"

declare emits.simps [simp del]

named_theorems wire_intros "a writer and the reader of its bytes"

lemma wire_Cons [wire_intros]:
  "wire D x g v \<Longrightarrow> wire D (emits xs) (k v) w \<Longrightarrow> wire D (emits (x # xs)) (rd_bind g k) w"
  by (auto simp: wire_def emits.simps intro: reads_as_bind split: sum.splits)

lemma wire_Nil [wire_intros]: "wire D (emits []) (rd_return v) v"
  by (simp add: wire_def emits.simps reads_as_return)

lemma wire_Nil_pure: "x = Inr v \<Longrightarrow> wire D (emits []) (\<lambda>rest. try_bind x (\<lambda>a. Inr (a, rest))) v"
  by (simp add: wire_def emits.simps reads_as_def)

lemma wire_put: "reads_as g mp_short b v \<Longrightarrow> wire D (put b) (rd_mp g) v"
  by (simp add: wire_def put_def reads_as_mp)

lemma wire_last:
  assumes "wire D x g v" and "\<And>rest. k v rest = Inr (w, rest)"
  shows "wire D x (rd_bind g k) w"
  unfolding wire_def
proof
  assume "snd x = Inr ()"
  then have "reads_as g (is_incomplete_decode_error D) (concat (fst x)) v" using assms(1) by (simp add: wire_def)
  moreover have "reads_as (k v) (is_incomplete_decode_error D) [] w" using assms(2) by (simp add: reads_as_def)
  ultimately show "reads_as (rd_bind g k) (is_incomplete_decode_error D) (concat (fst x)) w"
    using reads_as_bind by fastforce
qed

lemma wire_one: "wire D (emits [x]) g v = wire D x g v"
  by (cases "snd x") (auto simp: wire_def emits.simps)

lemma wire_emit_result: "(\<And>a. r = Inr a \<Longrightarrow> wire D (k a) g v) \<Longrightarrow> wire D (emit_result r k) g v"
  by (auto simp: wire_def emit_result_def split: sum.splits)

lemma wire_bool [wire_intros]: "mpk_ok K \<Longrightarrow> wire D (put (k_bool K b)) (rd_mp (g_bool K)) b"
  by (rule wire_put) (simp add: mpk_ok_def)

lemma wire_u8 [wire_intros]: "mpk_ok K \<Longrightarrow> wire D (put (k_u8 K b)) (rd_mp (g_u8 K)) b"
  by (rule wire_put) (simp add: mpk_ok_def)

lemma wire_u32 [wire_intros]: "mpk_ok K \<Longrightarrow> wire D (put (k_u32 K b)) (rd_mp (g_u32 K)) b"
  by (rule wire_put) (simp add: mpk_ok_def)

lemma wire_u64 [wire_intros]: "mpk_ok K \<Longrightarrow> wire D (put (k_u64 K b)) (rd_mp (g_u64 K)) b"
  by (rule wire_put) (simp add: mpk_ok_def)

lemma wire_array_len: "mpk_ok K \<Longrightarrow> wire D (put (k_array_len K b)) (rd_mp (g_array_len K)) b"
  by (rule wire_put) (simp add: mpk_ok_def)

lemma wire_bin_len: "mpk_ok K \<Longrightarrow> wire D (put (k_bin_len K b)) (rd_mp (g_bin_len K)) b"
  by (rule wire_put) (simp add: mpk_ok_def)

lemma wire_expect [wire_intros]:
  "mpk_ok K \<Longrightarrow> wire D (put (k_array_len K n)) (expect_array_len_from K n) ()"
  unfolding expect_array_len_from_def by (rule wire_last [OF wire_array_len]) (simp_all add: rd_return_def)

definition string_ok :: "bytes \<Rightarrow> bool" where
  "string_ok s \<longleftrightarrow> utf8_valid s \<and> length s < 2 ^ 32"

lemma wire_string [wire_intros]:
  assumes K: "mpk_ok K" and s: "string_ok s"
  shows "wire D (put (k_str K s)) (read_string_from K) s"
proof -
  from K s obtain hd where hd: "k_str K s = hd @ s" "reads_as (g_str_len K) mp_short hd (of_nat (length s))"
    by (auto simp: mpk_ok_def string_ok_def)
  have len: "unat (of_nat (length s) :: u32) = length s"
    using s by (intro unat_of_nat_u32) (simp add: string_ok_def)
  have "reads_as (rd_bind (read_exact (length s)) (\<lambda>s. if utf8_valid s then rd_return s
      else (\<lambda>_. Inl (Pde_MsgPack Msg_InvalidUtf8)))) (is_incomplete_decode_error D) (s @ []) s"
    by (rule reads_as_bind [OF reads_as_exact]) (use s in \<open>simp add: string_ok_def reads_as_return\<close>)
  with reads_as_mp [OF hd(2), where D = D] have
    "reads_as (read_string_from K) (is_incomplete_decode_error D) (hd @ s) s"
    unfolding read_string_from_def by (intro reads_as_bind [where v = "of_nat (length s)"]) (simp_all only: len append_Nil2)
  then show ?thesis by (simp add: wire_def put_def hd(1))
qed

lemma wire_optional_usize [wire_intros]:
  "mpk_ok K \<Longrightarrow> wire D (write_optional_usize_to K v) (read_optional_usize_from K) v"
  unfolding write_optional_usize_to_def read_optional_usize_from_def
  by (cases v) (auto intro!: wire_Cons wire_bool wire_last [OF wire_bool] wire_last [OF wire_u64]
      simp: wire_one rd_return_def)

lemma wire_optional_string [wire_intros]:
  "mpk_ok K \<Longrightarrow> (\<And>s. v = Some s \<Longrightarrow> string_ok s) \<Longrightarrow>
     wire D (write_optional_string_to K v) (read_optional_string_from K) v"
  unfolding write_optional_string_to_def read_optional_string_from_def
  by (cases v) (auto intro!: wire_Cons wire_bool wire_last [OF wire_bool] wire_last [OF wire_string]
      simp: wire_one rd_return_def)

lemma wire_times:
  "list_all2 (\<lambda>x v. wire D x g v) xs vs \<Longrightarrow> wire D (emits xs) (read_times (length vs) g) vs"
proof (induction rule: list_all2_induct)
  case Nil
  then show ?case by (simp add: wire_Nil)
next
  case (Cons x xs v vs)
  have "wire D (emits (x # xs)) (rd_bind g (\<lambda>x. rd_bind (read_times (length vs) g) (\<lambda>xs. rd_return (x # xs)))) (v # vs)"
    by (rule wire_Cons [OF Cons.hyps(1)]) (rule wire_last [OF Cons.IH], simp add: rd_return_def)
  then show ?case by simp
qed

lemma wire_array_of:
  assumes K: "mpk_ok K" and xs: "list_all2 (\<lambda>x v. wire D x g v) xs vs"
  shows "wire D (write_array_of K err xs) (read_array_of K g) vs"
proof (cases "length xs < 2 ^ 32")
  case True
  have "unat (of_nat (length xs) :: u32) = length vs"
    using unat_of_nat_u32 [OF True] xs by (simp add: list_all2_lengthD)
  with True show ?thesis
    unfolding write_array_of_def read_array_of_def
    by (auto simp: u32_try_from_def emit_result_def intro!: wire_Cons wire_array_len [OF K] wire_times xs)
next
  case False
  then show ?thesis by (simp add: write_array_of_def u32_try_from_def emit_result_def emits.simps wire_def)
qed

lemma wire_usize_vec [wire_intros]:
  "mpk_ok K \<Longrightarrow> wire D (write_usize_vec_to K vs) (read_usize_vec_from K) vs"
  unfolding write_usize_vec_to_def read_usize_vec_from_def
  by (rule wire_array_of) (auto simp: list_all2_conv_all_nth intro: wire_intros)

lemma wire_optional_usize_vec [wire_intros]:
  "mpk_ok K \<Longrightarrow> wire D (write_optional_usize_vec_to K v) (read_optional_usize_vec_from K) v"
  unfolding write_optional_usize_vec_to_def read_optional_usize_vec_from_def
  by (cases v) (auto intro!: wire_Cons wire_bool wire_last [OF wire_bool] wire_last [OF wire_usize_vec]
      simp: wire_one rd_return_def)

lemma wire_protobuf:
  assumes K: "mpk_ok K" and len: "pb_encoded_len D m = length (concat (pb_encode D m))"
    and dec: "pb_decode D kind (concat (pb_encode D m)) = Inr (m, [])"
  shows "wire D (write_protobuf_bin_to K D m) (read_protobuf_bin_from K D kind) m"
proof (cases "pb_encoded_len D m < 2 ^ 32")
  case True
  have n: "unat (of_nat (pb_encoded_len D m) :: u32) = length (concat (pb_encode D m))"
    using unat_of_nat_u32 [OF True] len by simp
  have "pb_message D kind (concat (pb_encode D m)) = Inr m" using dec by (simp add: pb_message_def)
  then have "reads_as (\<lambda>rest. try_bind (pb_message D kind (concat (pb_encode D m))) (\<lambda>message. Inr (message, rest)))
      (is_incomplete_decode_error D) [] m" by (rule reads_as_pure)
  from reads_as_bind [OF reads_as_exact [where D = D and s = "concat (pb_encode D m)"], where
      k = "\<lambda>payload rest. try_bind (pb_message D kind payload) (\<lambda>message. Inr (message, rest))", OF this]
  have "wire D (emits [(pb_encode D m, Inr ())]) (rd_bind (read_exact (unat (of_nat (pb_encoded_len D m) :: u32)))
      (\<lambda>payload rest. try_bind (pb_message D kind payload) (\<lambda>message. Inr (message, rest)))) m"
    by (simp add: wire_def emits.simps n)
  with True show ?thesis
    unfolding write_protobuf_bin_to_def read_protobuf_bin_from_def
    by (intro wire_Cons [where v = "of_nat (pb_encoded_len D m)"])
      (simp_all add: write_bin_len_to_def u32_try_from_def emit_result_def wire_bin_len [OF K])
next
  case False
  then show ?thesis
    by (simp add: write_protobuf_bin_to_def write_bin_len_to_def u32_try_from_def emit_result_def emits.simps wire_def)
qed

lemma wire_schema [wire_intros]:
  assumes K: "mpk_ok K" and D: "df_ok D"
  shows "wire D (encode_df_schema_into K D schema) (decode_df_schema_from K D) schema"
  unfolding encode_df_schema_into_def decode_df_schema_from_def
proof (rule wire_emit_result)
  fix m assume "map_err Pee_DataFusion (df_schema_proto D schema) = Inr m"
  then have "df_schema_proto D schema = Inr m" by (cases "df_schema_proto D schema") simp_all
  with D have "pb_encoded_len D m = length (concat (pb_encode D m))"
    "pb_decode D Pb_schema (concat (pb_encode D m)) = Inr (m, [])" "df_schema_parse D m = Inr schema"
    by (simp_all add: df_ok_def)
  then show "wire D (write_protobuf_bin_to K D m) (rd_bind (read_protobuf_bin_from K D Pb_schema) (\<lambda>message rest.
      try_bind (map_err Pde_DataFusion (df_schema_parse D message)) (\<lambda>schema. Inr (schema, rest)))) schema"
    by (intro wire_last [OF wire_protobuf [OF K]]) simp_all
qed

lemma wire_expr:
  assumes K: "mpk_ok K" and D: "df_ok D"
  shows "wire D (emit_result (map_err Pee_DataFusion (df_expr_proto D f)) (write_protobuf_bin_to K D))
    (rd_bind (read_protobuf_bin_from K D Pb_expr) (\<lambda>message rest.
      try_bind (map_err Pde_DataFusion (df_expr_parse D message)) (\<lambda>expr. Inr (expr, rest)))) f"
proof (rule wire_emit_result)
  fix m assume "map_err Pee_DataFusion (df_expr_proto D f) = Inr m"
  then have "df_expr_proto D f = Inr m" by (cases "df_expr_proto D f") simp_all
  with D have "pb_encoded_len D m = length (concat (pb_encode D m))"
    "pb_decode D Pb_expr (concat (pb_encode D m)) = Inr (m, [])" "df_expr_parse D m = Inr f"
    by (simp_all add: df_ok_def)
  then show "wire D (write_protobuf_bin_to K D m) (rd_bind (read_protobuf_bin_from K D Pb_expr) (\<lambda>message rest.
      try_bind (map_err Pde_DataFusion (df_expr_parse D message)) (\<lambda>expr. Inr (expr, rest)))) f"
    by (intro wire_last [OF wire_protobuf [OF K]]) simp_all
qed

lemma wire_residual_filters [wire_intros]:
  "mpk_ok K \<Longrightarrow> df_ok D \<Longrightarrow>
     wire D (encode_residual_filters_into K D fs) (decode_residual_filters_from K D) fs"
  unfolding encode_residual_filters_into_def decode_residual_filters_from_def
  by (rule wire_array_of) (auto simp: list_all2_conv_all_nth intro: wire_expr)

lemma wire_pushed_filter:
  assumes K: "mpk_ok K" and f: "string_ok (cf_sql f)"
  shows "wire D (emits [put (k_array_len K pg_scan_pushed_filter_len), put (k_u64 K (cf_original_index f)),
      put (k_str K (cf_sql f))])
    (rd_bind (expect_array_len_from K pg_scan_pushed_filter_len) (\<lambda>_. rd_bind (rd_mp (g_u64 K)) (\<lambda>original_index.
      rd_bind (read_string_from K) (\<lambda>sql. rd_return \<lparr>cf_original_index = original_index, cf_sql = sql\<rparr>)))) f"
proof -
  have "wire D (emits []) (rd_return \<lparr>cf_original_index = cf_original_index f, cf_sql = cf_sql f\<rparr>) f"
    using wire_Nil [of D f] by (cases f) simp
  then show ?thesis
    by (rule wire_Cons [OF wire_expect [OF K] wire_Cons [OF wire_u64 [OF K] wire_Cons [OF wire_string [OF K f]]]])
qed

lemma wire_pushed_filters [wire_intros]:
  "mpk_ok K \<Longrightarrow> \<forall>f \<in> set fs. string_ok (cf_sql f) \<Longrightarrow>
     wire D (encode_pushed_filters_into K fs) (decode_pushed_filters_from K) fs"
  unfolding encode_pushed_filters_into_def decode_pushed_filters_from_def
  by (rule wire_array_of) (auto simp: list_all2_conv_all_nth intro!: wire_pushed_filter)

lemma wire_fetch_hints [wire_intros]:
  assumes K: "mpk_ok K"
  shows "wire D (encode_fetch_hints_into K h) (decode_fetch_hints_from K) h"
proof -
  have "wire D (emits []) (rd_return \<lparr>fh_planner_fetch_hint = fh_planner_fetch_hint h,
      fh_local_row_cap = fh_local_row_cap h\<rparr>) h"
    using wire_Nil [of D h] by (cases h) simp
  then show ?thesis
    unfolding encode_fetch_hints_into_def decode_fetch_hints_from_def
    by (rule wire_Cons [OF wire_expect [OF K] wire_Cons [OF wire_optional_usize [OF K]
        wire_Cons [OF wire_optional_usize [OF K]]]])
qed

definition relation_ok :: "pg_relation \<Rightarrow> bool" where
  "relation_ok r \<longleftrightarrow> (\<forall>s. rel_schema r = Some s \<longrightarrow> string_ok s) \<and> string_ok (rel_table r)"

lemma wire_relation [wire_intros]:
  assumes K: "mpk_ok K" and r: "relation_ok r"
  shows "wire D (encode_pg_relation_into K r) (decode_pg_relation_from K) (r\<lparr>rel_aliases := []\<rparr>)"
proof -
  have "wire D (emits []) (rd_return \<lparr>rel_schema = rel_schema r, rel_table = rel_table r, rel_aliases = []\<rparr>)
      (r\<lparr>rel_aliases := []\<rparr>)"
    using wire_Nil [of D "r\<lparr>rel_aliases := []\<rparr>"] by (cases r) simp
  then show ?thesis
    unfolding encode_pg_relation_into_def decode_pg_relation_from_def
    using r by (intro wire_Cons [OF wire_expect [OF K] wire_Cons [OF wire_optional_string [OF K]
        wire_Cons [OF wire_string [OF K]]]]) (auto simp: relation_ok_def)
qed

definition scan_ok :: "'d compiled_scan \<Rightarrow> bool" where
  "scan_ok s \<longleftrightarrow> string_ok (cs_sql s) \<and> (\<forall>f \<in> set (cs_pushed_filters s). string_ok (cf_sql f))"

lemma wire_compiled_scan [wire_intros]:
  assumes K: "mpk_ok K" and D: "df_ok D" and s: "scan_ok s"
  shows "wire D (encode_compiled_scan_into K D s) (decode_compiled_scan_from K D) s"
proof -
  have fin: "wire D (emits []) (rd_return \<lparr>cs_sql = cs_sql s, cs_requested_limit = cs_requested_limit s,
      cs_sql_limit = cs_sql_limit s, cs_selected_columns = cs_selected_columns s,
      cs_output_columns = cs_output_columns s, cs_filter_only_columns = cs_filter_only_columns s,
      cs_residual_filter_columns = cs_residual_filter_columns s, cs_pushed_filters = cs_pushed_filters s,
      cs_residual_filters = cs_residual_filters s, cs_all_filters_compiled = cs_all_filters_compiled s,
      cs_uses_dummy_projection = cs_uses_dummy_projection s\<rparr>) s"
    using wire_Nil [of D s] by (cases s) simp
  have sql: "string_ok (cs_sql s)" and filters: "\<forall>f \<in> set (cs_pushed_filters s). string_ok (cf_sql f)"
    using s by (simp_all add: scan_ok_def)
  show ?thesis
    unfolding encode_compiled_scan_into_def decode_compiled_scan_from_def
    by (rule wire_Cons [OF wire_expect [OF K]], rule wire_Cons [OF wire_string [OF K sql]],
        (rule wire_Cons [OF wire_optional_usize [OF K]])+, (rule wire_Cons [OF wire_usize_vec [OF K]])+,
        rule wire_Cons [OF wire_pushed_filters [OF K filters]], rule wire_Cons [OF wire_residual_filters [OF K D]],
        (rule wire_Cons [OF wire_bool [OF K]])+, rule fin)
qed

section \<open>Scan specifications\<close>

text \<open>The table names of a relation's aliases do not travel.\<close>

definition wire_spec :: "'d pg_scan_spec \<Rightarrow> 'd pg_scan_spec" where
  "wire_spec s = s\<lparr>sp_relation := (sp_relation s)\<lparr>rel_aliases := []\<rparr>\<rparr>"

definition spec_ok :: "('d, 'm, 'e) df \<Rightarrow> 'd pg_scan_spec \<Rightarrow> bool" where
  "spec_ok D s \<longleftrightarrow> relation_ok (sp_relation s) \<and> scan_ok (sp_compiled_scan s) \<and>
     df_schema_fields D (sp_schema s) = length (cs_output_columns (sp_compiled_scan s))"

lemma wire_scan_spec [wire_intros]:
  assumes K: "mpk_ok K" and D: "df_ok D" and s: "spec_ok D s"
  shows "wire D (encode_pg_scan_spec_into K D s) (decode_pg_scan_spec_from K D) (wire_spec s)"
proof -
  have rel: "relation_ok (sp_relation s)" and scan: "scan_ok (sp_compiled_scan s)"
    using s by (simp_all add: spec_ok_def)
  have "scan_spec_try_new_with_schema D (sp_scan_id s) (sp_table_oid s) ((sp_relation s)\<lparr>rel_aliases := []\<rparr>)
      (sp_compiled_scan s) (sp_fetch_hints s) (sp_schema s) = Inr (wire_spec s)"
    using s by (cases s) (simp add: scan_spec_try_new_with_schema_def spec_ok_def wire_spec_def)
  note fin = wire_Nil_pure [OF this, where D = D]
  show ?thesis
    unfolding encode_pg_scan_spec_into_def decode_pg_scan_spec_from_def
    by (rule wire_Cons [OF wire_expect [OF K]], rule wire_Cons [OF wire_u8 [OF K]], simp only: simp_thms if_False,
        rule wire_Cons [OF wire_u64 [OF K]], rule wire_Cons [OF wire_u32 [OF K]],
        rule wire_Cons [OF wire_relation [OF K rel]], rule wire_Cons [OF wire_compiled_scan [OF K D scan]],
        rule wire_Cons [OF wire_fetch_hints [OF K]], rule wire_Cons [OF wire_schema [OF K D]], rule fin)
qed

end
