(* ===== verification/Plan_Extension.thy ===== *)
theory Plan_Extension
  imports Plan_Wire_Proofs
begin

text \<open>
  The extension codecs of \<^verbatim>\<open>src/page/plan_codec/src/lib.rs\<close>: what a \<open>PgScanNode\<close> and a \<open>PgCteRefNode\<close> become
  inside the protobuf plan (\<open>PgScanEncodeExtensionCodec\<close>) and how they are found again
  (\<open>PgScanDecodeExtensionCodec\<close>). A scan is its number only, a reference to a common table expression is a MsgPack
  array. The last section shows that a plan comes back with its scans taken from the table.
\<close>

section \<open>Payloads\<close>

definition pg_scan_id_payload_version :: u8 where "pg_scan_id_payload_version = 1"
definition pg_scan_id_payload_len :: nat where "pg_scan_id_payload_len = 9"
definition pg_cte_ref_payload_version :: u8 where "pg_cte_ref_payload_version = 2"
definition pg_cte_ref_payload_len :: u32 where "pg_cte_ref_payload_len = 6"

definition encode_scan_id_payload :: "u64 \<Rightarrow> bytes" where
  "encode_scan_id_payload scan_id = pg_scan_id_payload_version # be_encode 8 (unat scan_id)"

definition decode_scan_id_payload :: "bytes \<Rightarrow> 'e plan_decode_error + u64" where
  "decode_scan_id_payload buf =
     (if length buf \<noteq> pg_scan_id_payload_len then Inl (Pde_InvalidScanPayload (Pm_Len (length buf)))
      else let version = hd buf in
        if version \<noteq> pg_scan_id_payload_version then Inl (Pde_InvalidScanPayload (Pm_Version version))
        else Inr (of_nat (be_decode (tl buf))))"

definition encode_cte_ref_payload_inner :: "mpk \<Rightarrow> ('d, 'm, 'e) df \<Rightarrow> 'd cte_ref \<Rightarrow> 'e emit" where
  "encode_cte_ref_payload_inner K D c = emits [put (k_array_len K pg_cte_ref_payload_len),
     put (k_u8 K pg_cte_ref_payload_version), put (k_u64 K (cte_id c)), put (k_str K (cte_name c)),
     write_optional_usize_vec_to K (cte_projection c), write_optional_usize_to K (cte_fetch c),
     encode_df_schema_into K D (cte_schema c)]"

definition encode_cte_ref_payload :: "mpk \<Rightarrow> ('d, 'm, 'e) df \<Rightarrow> 'd cte_ref \<Rightarrow> 'e + bytes" where
  "encode_cte_ref_payload K D c = (case encode_cte_ref_payload_inner K D c of
     (_, Inl _) \<Rightarrow> Inl (df_plan_error D Perr_CteEncode)
   | (slices, Inr _) \<Rightarrow> Inr (concat slices))"

definition read_cte_ref :: "mpk \<Rightarrow> ('d, 'm, 'e) df \<Rightarrow> ('e, 'd cte_ref) reader" where
  "read_cte_ref K D = rd_bind (expect_array_len_from K pg_cte_ref_payload_len) (\<lambda>_.
     rd_bind (rd_mp (g_u8 K)) (\<lambda>version.
     if version \<noteq> pg_cte_ref_payload_version then (\<lambda>_. Inl (Pde_InvalidScanPayload (Pm_Version version))) else
     rd_bind (rd_mp (g_u64 K)) (\<lambda>cid. rd_bind (read_string_from K) (\<lambda>name.
     rd_bind (read_optional_usize_vec_from K) (\<lambda>projection. rd_bind (read_optional_usize_from K) (\<lambda>fetch.
     rd_bind (decode_df_schema_from K D) (\<lambda>schema.
     rd_return \<lparr>cte_id = cid, cte_name = name, cte_schema = schema, cte_projection = projection,
       cte_fetch = fetch\<rparr>)))))))"

definition decode_cte_ref_payload ::
  "mpk \<Rightarrow> ('d, 'm, 'e) df \<Rightarrow> bytes \<Rightarrow> 'd lplan list \<Rightarrow> 'e plan_decode_error + 'd lplan" where
  "decode_cte_ref_payload K D buf inputs = (case inputs of
     [input] \<Rightarrow> try_bind (read_cte_ref K D buf) (\<lambda>(c, rest).
       if rest \<noteq> [] then Inl (Pde_TrailingBytes (length rest)) else Inr (Lp_Cte c input))
   | _ \<Rightarrow> Inl (Pde_InvalidScanPayload (Pm_Inputs (length inputs))))"

section \<open>The extension codecs\<close>

definition try_encode :: "mpk \<Rightarrow> ('d, 'm, 'e) df \<Rightarrow> 'd lplan \<Rightarrow> 'e + bytes" where
  "try_encode K D node = (case node of
     Lp_Scan spec \<Rightarrow> Inr (encode_scan_id_payload (sp_scan_id spec))
   | Lp_Cte c _ \<Rightarrow> encode_cte_ref_payload K D c
   | _ \<Rightarrow> Inl (df_plan_error D Perr_UnsupportedExtension))"

definition try_decode ::
  "mpk \<Rightarrow> ('d, 'm, 'e) df \<Rightarrow> (u64 \<times> 'd pg_scan_spec) list \<Rightarrow> bytes \<Rightarrow> 'd lplan list \<Rightarrow> 'e + 'd lplan" where
  "try_decode K D specs buf inputs =
     (if length buf = pg_scan_id_payload_len \<and> index_opt buf 0 = Some pg_scan_id_payload_version then
        if inputs \<noteq> [] then Inl (df_plan_error D Perr_ScanInputs)
        else (case decode_scan_id_payload buf :: 'e plan_decode_error + u64 of
            Inl _ \<Rightarrow> Inl (df_plan_error D Perr_ScanReference)
          | Inr scan_id \<Rightarrow> (case map_of specs scan_id of
              None \<Rightarrow> Inl (df_plan_error D (Perr_MissingScanSpec scan_id))
            | Some spec \<Rightarrow> Inr (Lp_Scan spec)))
      else map_err (\<lambda>_. df_plan_error D Perr_CteReference) (decode_cte_ref_payload K D buf inputs))"

section \<open>What becomes of a plan\<close>

fun plan_scans :: "'d lplan \<Rightarrow> 'd pg_scan_spec list" where
  "plan_scans (Lp_Scan s) = [s]"
| "plan_scans (Lp_Cte _ p) = plan_scans p"
| "plan_scans (Lp_Ext _ ps) = concat (map plan_scans ps)"
| "plan_scans (Lp_Node _ ps) = concat (map plan_scans ps)"

text \<open>A decoded plan has, for each scan, the specification of the table with the scan's number.\<close>

fun resolve_scans :: "(u64 \<Rightarrow> 'd pg_scan_spec option) \<Rightarrow> 'd lplan \<Rightarrow> 'd lplan" where
  "resolve_scans specs (Lp_Scan s) = Lp_Scan (the (specs (sp_scan_id s)))"
| "resolve_scans specs (Lp_Cte c p) = Lp_Cte c (resolve_scans specs p)"
| "resolve_scans specs (Lp_Ext d ps) = Lp_Ext d (map (resolve_scans specs) ps)"
| "resolve_scans specs (Lp_Node d ps) = Lp_Node d (map (resolve_scans specs) ps)"

fun plan_names_ok :: "'d lplan \<Rightarrow> bool" where
  "plan_names_ok (Lp_Scan s) = True"
| "plan_names_ok (Lp_Cte c p) = (string_ok (cte_name c) \<and> plan_names_ok p)"
| "plan_names_ok (Lp_Ext d ps) = list_all plan_names_ok ps"
| "plan_names_ok (Lp_Node d ps) = list_all plan_names_ok ps"

lemma scan_id_payload: "decode_scan_id_payload (encode_scan_id_payload scan_id) = Inr scan_id"
proof -
  have "unat scan_id < 256 ^ 8" using unsigned_less [of scan_id] by simp
  then show ?thesis
    by (simp add: decode_scan_id_payload_def encode_scan_id_payload_def pg_scan_id_payload_len_def be_decode_encode)
qed

lemma try_decode_scan:
  "map_of specs scan_id = Some spec \<Longrightarrow>
     try_decode K D specs (encode_scan_id_payload scan_id) [] = Inr (Lp_Scan spec)"
  by (simp add: try_decode_def scan_id_payload)
    (simp add: encode_scan_id_payload_def pg_scan_id_payload_len_def index_opt_def)

lemma wire_cte_ref:
  assumes K: "mpk_ok K" and D: "df_ok D" and name: "string_ok (cte_name c)"
  shows "wire D (encode_cte_ref_payload_inner K D c) (read_cte_ref K D) c"
proof -
  have fin: "wire D (emits []) (rd_return \<lparr>cte_id = cte_id c, cte_name = cte_name c, cte_schema = cte_schema c,
      cte_projection = cte_projection c, cte_fetch = cte_fetch c\<rparr>) c"
    using wire_Nil [of D c] by (cases c) simp
  show ?thesis
    unfolding encode_cte_ref_payload_inner_def read_cte_ref_def
    by (rule wire_Cons [OF wire_expect [OF K]], rule wire_Cons [OF wire_u8 [OF K]], simp only: simp_thms if_False,
        rule wire_Cons [OF wire_u64 [OF K]], rule wire_Cons [OF wire_string [OF K name]],
        rule wire_Cons [OF wire_optional_usize_vec [OF K]], rule wire_Cons [OF wire_optional_usize [OF K]],
        rule wire_Cons [OF wire_schema [OF K D]], rule fin)
qed

text \<open>The array marker at its start tells a reference to a table expression from a scan number.\<close>

lemma try_decode_cte:
  assumes K: "mpk_ok K" and D: "df_ok D" and name: "string_ok (cte_name c)"
    and enc: "encode_cte_ref_payload K D c = Inr b"
  shows "try_decode K D specs b [p] = Inr (Lp_Cte c p)"
proof -
  obtain slices where s: "encode_cte_ref_payload_inner K D c = (slices, Inr ())" "b = concat slices"
    using enc by (auto simp: encode_cte_ref_payload_def split: prod.splits sum.splits)
  then have "reads_as (read_cte_ref K D) (is_incomplete_decode_error D) b c"
    using wire_cte_ref [OF K D name] by (simp add: wire_def)
  then have read: "read_cte_ref K D b = Inr (c, [])" unfolding reads_as_def by (metis append_Nil2)
  obtain m ms where m: "k_array_len K pg_cte_ref_payload_len = m # ms" "0x90 \<le> m"
    using K unfolding mpk_ok_def by blast
  have "slices = k_array_len K pg_cte_ref_payload_len # tl slices"
    using s(1) by (auto simp: encode_cte_ref_payload_inner_def emits.simps put_def split: sum.splits)
  then have "index_opt b 0 = Some m" using m(1) s(2) by (cases slices) (auto simp: index_opt_def)
  moreover have "m \<noteq> pg_scan_id_payload_version" using m(2) by (cases "m = 1") (simp_all add: pg_scan_id_payload_version_def word_le_nat_alt)
  ultimately show ?thesis by (simp add: try_decode_def decode_cte_ref_payload_def read)
qed

text \<open>
  A plan whose extension nodes can all be written comes back as it was, but for its scans: they have the
  specifications of the table.
\<close>

lemma rebuild_resolves:
  assumes K: "mpk_ok K" and D: "df_ok D" and "plan_names_ok p"
    and "\<forall>x \<in> set (extensions p). \<exists>b. try_encode K D x = Inr b"
    and "sp_scan_id ` set (plan_scans p) \<subseteq> dom (map_of specs)"
  shows "rebuild (try_encode K D) (try_decode K D specs) p = Inr (resolve_scans (map_of specs) p)"
  using assms(3-)
proof (induction p)
  case (Lp_Scan s)
  then show ?case by (auto simp: try_encode_def try_decode_scan)
next
  case (Lp_Cte c p)
  then obtain b where "encode_cte_ref_payload K D c = Inr b" by (auto simp: try_encode_def)
  with Lp_Cte try_decode_cte [OF K D] show ?case by (simp add: try_encode_def)
next
  case (Lp_Ext d ps)
  then show ?case by (simp add: try_encode_def)
next
  case (Lp_Node d ps)
  have "rebuild (try_encode K D) (try_decode K D specs) q = Inr (resolve_scans (map_of specs) q)" if q: "q \<in> set ps" for q
  proof (rule Lp_Node.IH [OF q])
    show "sp_scan_id ` set (plan_scans q) \<subseteq> dom (map_of specs)" using Lp_Node.prems(3) q by auto
  qed (use Lp_Node.prems(1,2) q in \<open>simp_all add: list_all_iff\<close>)
  then have "map (rebuild (try_encode K D) (try_decode K D specs)) ps = map Inr (map (resolve_scans (map_of specs)) ps)"
    by simp
  then show ?case by (simp only: rebuild.simps resolve_scans.simps all_results_Inr [THEN iffD2] try_bind_simps)
qed

end
