(* ===== verification/Byte_Source.thy ===== *)
theory Byte_Source
  imports Rmp
begin

text \<open>
  The readers of \<^verbatim>\<open>src/page/plan_codec/src/lib.rs\<close> take their bytes from a \<open>Buf\<close>: \<open>SegmentedSource\<close>, the bytes of a
  payload that arrived in several chunks, and \<open>LimitedSource\<close>, the next bytes of another source. The locale is the
  contract of the trait: a source is the list of the bytes it has still to give. \<open>None\<close> is a panic.
\<close>

section \<open>The sources\<close>

text \<open>\<open>SegmentedSource\<close>: the next contiguous bytes, and moving on by some of them.\<close>

record segmented_source =
  ss_segments :: "bytes list"
  ss_index :: nat
  ss_offset :: nat
  ss_remaining :: nat

definition segmented_new :: "bytes list \<Rightarrow> nat \<Rightarrow> segmented_source" where
  "segmented_new segments remaining =
     \<lparr>ss_segments = segments, ss_index = 0, ss_offset = 0, ss_remaining = remaining\<rparr>"

definition segmented_chunk :: "segmented_source \<Rightarrow> bytes option" where
  "segmented_chunk s = (if ss_remaining s = 0 then Some []
     else do { segment \<leftarrow> index_opt (ss_segments s) (ss_index s);
               if length segment < ss_offset s then None else Some (drop (ss_offset s) segment) })"

function segmented_walk :: "bytes list \<Rightarrow> nat \<Rightarrow> nat \<Rightarrow> nat \<Rightarrow> (nat \<times> nat) option" where
  "segmented_walk segments index offset cnt =
     (if cnt = 0 then Some (index, offset)
      else if length segments \<le> index then None
      else let available = length (segments ! index) - offset in
        if cnt < available then Some (index, offset + cnt)
        else segmented_walk segments (index + 1) 0 (cnt - available))"
  by pat_completeness auto
termination
  by (relation "measure (\<lambda>(segments, index, offset, cnt). length segments - index)") auto

declare segmented_walk.simps [simp del]

definition segmented_advance :: "segmented_source \<Rightarrow> nat \<Rightarrow> segmented_source option" where
  "segmented_advance s cnt =
     (if ss_remaining s < cnt then None
      else do { (index, offset) \<leftarrow> segmented_walk (ss_segments s) (ss_index s) (ss_offset s) cnt;
                Some (s\<lparr>ss_remaining := ss_remaining s - cnt, ss_index := index, ss_offset := offset\<rparr>) })"

text \<open>\<open>LimitedSource\<close>: the source it reads from and how many bytes are left of its share.\<close>

definition limited_remaining :: "('s \<Rightarrow> nat) \<Rightarrow> 's \<times> nat \<Rightarrow> nat" where
  "limited_remaining remaining = (\<lambda>(inner, left). min left (remaining inner))"

definition limited_chunk :: "('s \<Rightarrow> bytes option) \<Rightarrow> 's \<times> nat \<Rightarrow> bytes option" where
  "limited_chunk chunk = (\<lambda>(inner, left). do { c \<leftarrow> chunk inner; Some (take (min (length c) left) c) })"

definition limited_advance :: "('s \<Rightarrow> nat \<Rightarrow> 's option) \<Rightarrow> 's \<times> nat \<Rightarrow> nat \<Rightarrow> ('s \<times> nat) option" where
  "limited_advance advance = (\<lambda>(inner, left) cnt.
     if left < cnt then None else do { inner1 \<leftarrow> advance inner cnt; Some (inner1, left - cnt) })"

text \<open>\<open>Buf::copy_to_slice\<close>: chunk after chunk until the slice is full.\<close>

partial_function (option) copy_to_slice ::
  "('s \<Rightarrow> bytes option) \<Rightarrow> ('s \<Rightarrow> nat \<Rightarrow> 's option) \<Rightarrow> 's \<Rightarrow> nat \<Rightarrow> ('s \<times> bytes) option" where
  "copy_to_slice chunk advance s n =
     (if n = 0 then Some (s, [])
      else do {
        c \<leftarrow> chunk s;
        let cnt = min (length c) n;
        s1 \<leftarrow> advance s cnt;
        (s2, bs) \<leftarrow> copy_to_slice chunk advance s1 (n - cnt);
        Some (s2, take cnt c @ bs)
      })"

section \<open>The contract of a source\<close>

locale buf =
  fixes remaining :: "'s \<Rightarrow> nat" and chunk :: "'s \<Rightarrow> bytes option" and advance :: "'s \<Rightarrow> nat \<Rightarrow> 's option"
    and ok :: "'s \<Rightarrow> bool" and view :: "'s \<Rightarrow> bytes"
  assumes remaining_view: "ok s \<Longrightarrow> remaining s = length (view s)"
    and chunk_view: "ok s \<Longrightarrow> \<exists>c rest. chunk s = Some c \<and> view s = c @ rest \<and> (c = [] \<longrightarrow> view s = [])"
    and advance_view: "ok s \<Longrightarrow> n \<le> length (view s) \<Longrightarrow>
      \<exists>s1. advance s n = Some s1 \<and> ok s1 \<and> view s1 = drop n (view s)"
begin

lemma copy_to_slice_view:
  "ok s \<Longrightarrow> n \<le> length (view s) \<Longrightarrow>
     \<exists>s1. copy_to_slice chunk advance s n = Some (s1, take n (view s)) \<and> ok s1 \<and> view s1 = drop n (view s)"
proof (induction n arbitrary: s rule: less_induct)
  case (less n)
  show ?case
  proof (cases "n = 0")
    case True
    with less.prems show ?thesis by (subst copy_to_slice.simps) simp
  next
    case False
    from chunk_view [OF less.prems(1)] obtain c rest where c: "chunk s = Some c" "view s = c @ rest" "c = [] \<longrightarrow> view s = []"
      by blast
    let ?n = "min (length c) n"
    have "?n \<le> length (view s)" using less.prems(2) by (simp add: min.coboundedI2)
    from advance_view [OF less.prems(1) this] obtain s1 where s1: "advance s ?n = Some s1" "ok s1"
        "view s1 = drop ?n (view s)" by blast
    have "n - ?n < n" using False c less.prems(2) by (cases c) auto
    moreover have "n - ?n \<le> length (view s1)" using s1(3) less.prems(2) by simp
    ultimately obtain s2 where s2: "copy_to_slice chunk advance s1 (n - ?n) = Some (s2, take (n - ?n) (view s1))"
        "ok s2" "view s2 = drop (n - ?n) (view s1)" using less.IH s1(2) by blast
    have "copy_to_slice chunk advance s n = Some (s2, take ?n c @ take (n - ?n) (view s1))"
      using False c(1) s1(1) s2(1) by (subst copy_to_slice.simps) (simp add: Let_def)
    moreover have "take ?n c @ take (n - ?n) (view s1) = take n (view s)"
      using s1(3) c(2) by (simp add: min_def)
    moreover have "view s2 = drop n (view s)" using s2(3) s1(3) by (simp add: min_def)
    ultimately show ?thesis using s2(2) by auto
  qed
qed

lemma limited_buf:
  "buf (limited_remaining remaining) (limited_chunk chunk) (limited_advance advance)
     (\<lambda>(s, _). ok s) (\<lambda>(s, left). take left (view s))"
proof
  fix s :: "'s \<times> nat" assume "case s of (s, _) \<Rightarrow> ok s"
  then show "limited_remaining remaining s = length (case s of (s, left) \<Rightarrow> take left (view s))"
    by (cases s) (simp add: limited_remaining_def remaining_view)
next
  fix s :: "'s \<times> nat" assume ok: "case s of (s, _) \<Rightarrow> ok s"
  obtain i left where s: "s = (i, left)" by (cases s)
  with ok chunk_view [of i] obtain c rest where c: "chunk i = Some c" "view i = c @ rest" "c = [] \<longrightarrow> view i = []" by auto
  have "take left (view i) = take (min (length c) left) c @ take (left - length c) rest" using c(2) by (simp add: min_def)
  moreover have "take (min (length c) left) c = [] \<longrightarrow> take left (view i) = []" using c(2,3) by (cases c; cases left) auto
  ultimately show "\<exists>c rest. limited_chunk chunk s = Some c \<and> (case s of (s, left) \<Rightarrow> take left (view s)) = c @ rest \<and>
      (c = [] \<longrightarrow> (case s of (s, left) \<Rightarrow> take left (view s)) = [])"
    using c(1) s by (auto simp: limited_chunk_def)
next
  fix s :: "'s \<times> nat" and n assume ok: "case s of (s, _) \<Rightarrow> ok s"
    and n: "n \<le> length (case s of (s, left) \<Rightarrow> take left (view s))"
  obtain i left where s: "s = (i, left)" by (cases s)
  with ok n advance_view [of i n] obtain i1 where "advance i n = Some i1" "ok i1" "view i1 = drop n (view i)" by auto
  then show "\<exists>s1. limited_advance advance s n = Some s1 \<and> (case s1 of (s, _) \<Rightarrow> ok s) \<and>
      (case s1 of (s, left) \<Rightarrow> take left (view s)) = drop n (case s of (s, left) \<Rightarrow> take left (view s))"
    using s n by (auto simp: limited_advance_def drop_take)
qed

end

section \<open>The segments of a payload\<close>

text \<open>The bytes a segmented source has still to give.\<close>

definition segmented_bytes :: "segmented_source \<Rightarrow> bytes" where
  "segmented_bytes s = drop (ss_offset s) (concat (drop (ss_index s) (ss_segments s)))"

definition segmented_ok :: "segmented_source \<Rightarrow> bool" where
  "segmented_ok s \<longleftrightarrow> length (segmented_bytes s) = ss_remaining s \<and> [] \<notin> set (ss_segments s) \<and>
     (ss_index s < length (ss_segments s) \<longrightarrow> ss_offset s < length (ss_segments s ! ss_index s)) \<and>
     (length (ss_segments s) \<le> ss_index s \<longrightarrow> ss_offset s = 0)"

lemma segmented_walk_effect:
  assumes "[] \<notin> set segs" and "cnt \<le> length (drop off (concat (drop i segs)))"
    and "i < length segs \<longrightarrow> off < length (segs ! i)" and "length segs \<le> i \<longrightarrow> off = 0"
  shows "\<exists>i' off'. segmented_walk segs i off cnt = Some (i', off') \<and>
    drop off' (concat (drop i' segs)) = drop cnt (drop off (concat (drop i segs))) \<and>
    (i' < length segs \<longrightarrow> off' < length (segs ! i')) \<and> (length segs \<le> i' \<longrightarrow> off' = 0)"
  using assms
proof (induction segs i off cnt rule: segmented_walk.induct)
  case (1 segs i off cnt)
  show ?case
  proof (cases "cnt = 0")
    case True
    with 1 show ?thesis by (subst segmented_walk.simps) simp
  next
    case False
    then have i: "i < length segs" using 1(3) by (cases "length segs \<le> i") auto
    let ?av = "length (segs ! i) - off"
    have off: "off < length (segs ! i)" using 1(4) i by simp
    have cat: "drop off (concat (drop i segs)) = drop off (segs ! i) @ concat (drop (Suc i) segs)"
      using i off by (simp add: Cons_nth_drop_Suc [symmetric])
    show ?thesis
    proof (cases "cnt < ?av")
      case True
      then have "segmented_walk segs i off cnt = Some (i, off + cnt)"
        using False i by (subst segmented_walk.simps) simp
      moreover have "drop (off + cnt) (concat (drop i segs)) = drop cnt (drop off (concat (drop i segs)))"
        by (simp add: add.commute)
      ultimately show ?thesis using True i by auto
    next
      case ge: False
      have walk: "segmented_walk segs i off cnt = segmented_walk segs (i + 1) 0 (cnt - ?av)"
        using False ge i by (subst segmented_walk.simps) (simp add: Let_def)
      have "i + 1 < length segs \<longrightarrow> 0 < length (segs ! (i + 1))" using 1(2) nth_mem by fastforce
      moreover have "cnt - ?av \<le> length (concat (drop (Suc i) segs))"
        using 1(3) off unfolding cat by (simp only: length_append length_drop)
      ultimately obtain i' off' where
        "segmented_walk segs (i + 1) 0 (cnt - ?av) = Some (i', off')"
        "drop off' (concat (drop i' segs)) = drop (cnt - ?av) (concat (drop (Suc i) segs))"
        "i' < length segs \<longrightarrow> off' < length (segs ! i')" "length segs \<le> i' \<longrightarrow> off' = 0"
        using 1(1) [OF False _ refl ge] 1(2) i by (auto simp del: length_concat)
      moreover have "drop cnt (drop off (concat (drop i segs))) = drop (cnt - ?av) (concat (drop (Suc i) segs))"
        using ge by (simp only: cat drop_append) simp
      ultimately show ?thesis using walk by auto
    qed
  qed
qed

text \<open>The source refines a list of bytes: a chunk is a prefix, empty only at the end, and advancing drops bytes.\<close>

lemma segmented_chunk_prefix:
  assumes "segmented_ok s"
  shows "\<exists>c rest. segmented_chunk s = Some c \<and> segmented_bytes s = c @ rest \<and> (c = [] \<longrightarrow> ss_remaining s = 0)"
proof (cases "ss_remaining s = 0")
  case True
  then show ?thesis by (simp add: segmented_chunk_def)
next
  case False
  then have i: "ss_index s < length (ss_segments s)"
    using assms by (cases "length (ss_segments s) \<le> ss_index s") (auto simp: segmented_ok_def segmented_bytes_def)
  with assms have off: "ss_offset s < length (ss_segments s ! ss_index s)" by (simp add: segmented_ok_def)
  have "segmented_bytes s = drop (ss_offset s) (ss_segments s ! ss_index s) @
      concat (drop (Suc (ss_index s)) (ss_segments s))"
    using i off by (simp add: segmented_bytes_def Cons_nth_drop_Suc [symmetric])
  with False i off show ?thesis by (simp add: segmented_chunk_def)
qed

lemma segmented_advance_drop:
  assumes "segmented_ok s" and "cnt \<le> ss_remaining s"
  shows "\<exists>s'. segmented_advance s cnt = Some s' \<and> segmented_ok s' \<and> segmented_bytes s' = drop cnt (segmented_bytes s)"
proof -
  from segmented_walk_effect [of "ss_segments s" cnt "ss_offset s" "ss_index s"] assms obtain i off where
    w: "segmented_walk (ss_segments s) (ss_index s) (ss_offset s) cnt = Some (i, off)"
    "drop off (concat (drop i (ss_segments s))) = drop cnt (segmented_bytes s)"
    "i < length (ss_segments s) \<longrightarrow> off < length (ss_segments s ! i)" "length (ss_segments s) \<le> i \<longrightarrow> off = 0"
    by (auto simp: segmented_ok_def segmented_bytes_def)
  define s' where "s' = s\<lparr>ss_remaining := ss_remaining s - cnt, ss_index := i, ss_offset := off\<rparr>"
  have bytes: "segmented_bytes s' = drop cnt (segmented_bytes s)" using w(2) by (simp add: s'_def segmented_bytes_def)
  then have "segmented_ok s'"
    using assms w(3,4) unfolding segmented_ok_def bytes by (simp add: s'_def)
  with bytes w(1) assms(2) show ?thesis by (simp add: segmented_advance_def s'_def)
qed

lemma segmented_new_ok:
  "[] \<notin> set segs \<Longrightarrow> segmented_ok (segmented_new segs (length (concat segs))) \<and>
     segmented_bytes (segmented_new segs (length (concat segs))) = concat segs"
  by (cases segs) (auto simp: segmented_ok_def segmented_bytes_def segmented_new_def)


interpretation segmented: buf ss_remaining segmented_chunk segmented_advance segmented_ok segmented_bytes
proof
  fix s assume ok: "segmented_ok s"
  then show len: "ss_remaining s = length (segmented_bytes s)" by (simp add: segmented_ok_def)
  show "\<exists>c rest. segmented_chunk s = Some c \<and> segmented_bytes s = c @ rest \<and> (c = [] \<longrightarrow> segmented_bytes s = [])"
    using segmented_chunk_prefix [OF ok] len by auto
  fix n assume "n \<le> length (segmented_bytes s)"
  with segmented_advance_drop [OF ok] len
  show "\<exists>s1. segmented_advance s n = Some s1 \<and> segmented_ok s1 \<and> segmented_bytes s1 = drop n (segmented_bytes s)"
    by simp
qed

interpretation limited: buf "limited_remaining ss_remaining" "limited_chunk segmented_chunk"
  "limited_advance segmented_advance" "\<lambda>(s, _). segmented_ok s" "\<lambda>(s, left). take left (segmented_bytes s)"
  by (rule segmented.limited_buf)

text \<open>C27: A payload that arrived in any number of non-empty segments is read as if it were one piece: from a
  \<open>SegmentedSource\<close> over the segments, and from a \<open>LimitedSource\<close> over it, taking the next \<open>n\<close> bytes in chunks gives
  exactly the next \<open>n\<close> bytes of the concatenation, without a panic.\<close>

theorem segmented_source_contiguous:
  assumes "[] \<notin> set segs" and "n \<le> left" and "left \<le> length (concat segs)"
  shows "(\<exists>s. copy_to_slice segmented_chunk segmented_advance (segmented_new segs (length (concat segs))) n =
      Some (s, take n (concat segs)) \<and> ss_remaining s = length (concat segs) - n) \<and>
    (\<exists>s. copy_to_slice (limited_chunk segmented_chunk) (limited_advance segmented_advance)
      (segmented_new segs (length (concat segs)), left) n = Some (s, take n (concat segs)) \<and>
      limited_remaining ss_remaining s = left - n)"
proof -
  let ?s = "segmented_new segs (length (concat segs))"
  have ok: "segmented_ok ?s" and bytes: "segmented_bytes ?s = concat segs" using segmented_new_ok [OF assms(1)] by simp_all
  from segmented.copy_to_slice_view [OF ok, of n] assms(2,3) bytes obtain s where s:
    "copy_to_slice segmented_chunk segmented_advance ?s n = Some (s, take n (concat segs))" "segmented_ok s"
    "segmented_bytes s = drop n (concat segs)" by auto
  from limited.copy_to_slice_view [of "(?s, left)" n] ok assms(2,3) bytes obtain l where l:
    "copy_to_slice (limited_chunk segmented_chunk) (limited_advance segmented_advance) (?s, left) n =
       Some (l, take n (take left (concat segs)))"
    "case l of (s, _) \<Rightarrow> segmented_ok s"
    "(case l of (s, left) \<Rightarrow> take left (segmented_bytes s)) = drop n (take left (concat segs))" by auto
  have "ss_remaining s = length (concat segs) - n" using segmented.remaining_view [OF s(2)] s(3) by simp
  moreover have "limited_remaining ss_remaining l = left - n"
    using limited.remaining_view [OF l(2)] l(3) assms(3) by simp
  ultimately show ?thesis using s(1) l(1) assms(2) by (auto simp: min_def)
qed

theorem segmented_source_contiguous_witness:
  "(\<exists>s. copy_to_slice segmented_chunk segmented_advance (segmented_new [[1, 2], [3], [4, 5, 6 :: u8]] 6) 4 =
      Some (s, [1, 2, 3, 4]) \<and> ss_remaining s = 2) \<and>
    (\<exists>s. copy_to_slice (limited_chunk segmented_chunk) (limited_advance segmented_advance)
      (segmented_new [[1, 2], [3], [4, 5, 6 :: u8]] 6, 5) 4 = Some (s, [1, 2, 3, 4]) \<and>
      limited_remaining ss_remaining s = 1)"
  using segmented_source_contiguous [of "[[1, 2], [3], [4, 5, 6 :: u8]]" 4 5] by (simp add: numeral_eq_Suc)

end
