(* ===== verification/Plan_Codec.thy ===== *)
theory Plan_Codec
  imports Plan_Extension Byte_Source
begin

text \<open>
  The streaming sessions of \<^verbatim>\<open>src/page/plan_codec/src/lib.rs\<close> and their state machines, \<^verbatim>\<open>fsm.rs\<close>. The encoder
  fills slices of any size: it writes the current item again from its start each time and keeps the part that
  falls into the slice. The decoder takes chunks of any size and parses what it has. \<open>None\<close> is a panic (an
  \<open>expect\<close>, an index out of range); both loops are partial functions, so that a loop that did not end
  would be \<open>None\<close> too. A failed session remembers the state and the error, where the code keeps their texts.
\<close>

section \<open>Sinks and sources\<close>

text \<open>\<open>OverlapBufMut::observe_bytes\<close> on the slice, the bytes seen and the bytes written.\<close>

definition observe_bytes :: "nat \<Rightarrow> bytes \<times> nat \<times> nat \<Rightarrow> bytes \<Rightarrow> bytes \<times> nat \<times> nat" where
  "observe_bytes skip st src = (case st of (out, observed, written) \<Rightarrow>
     (let start = observed; stop = start + length src; window_start = skip; window_end = skip + length out in
      if stop \<le> window_start \<or> window_end \<le> start then (out, stop, written)
      else let copy_start = window_start - start; copy_end = min (length src) (window_end - start) in
        if copy_end \<le> copy_start then (out, stop, written)
        else let dst_start = max start window_start - window_start; len = copy_end - copy_start
             in (copy_at out dst_start (take len (drop copy_start src)), stop, written + len)))"

text \<open>\<open>CountingBufMut\<close> and \<open>encoded_len_with\<close>.\<close>

definition encoded_len_with :: "'e emit \<Rightarrow> 'e plan_encode_error + nat" where
  "encoded_len_with x = try_bind (snd x) (\<lambda>_. Inr (fold (\<lambda>src len. len + length src) (fst x) 0))"

section \<open>The encoder\<close>

datatype encode_state =
    Enc_Start | Enc_Failed | Enc_EnvelopeArrayLen | Enc_Magic | Enc_Version | Enc_ScanSpecsArrayLen | Enc_ScanSpecs
  | Enc_LogicalPlanBinLen | Enc_LogicalPlanBin | Enc_Done

datatype encode_event =
    Ev_Begin | Ev_Fail | Ev_AtomFinished | Ev_ScanSpecsStarted | Ev_ScanSpecFinished | Ev_ScanSpecsFinished
  | Ev_LogicalPlanFinished

definition encode_flow :: "(encode_state \<times> (encode_event \<times> encode_state) list) list" where
  "encode_flow =
    [(Enc_Start, [(Ev_Begin, Enc_EnvelopeArrayLen), (Ev_Fail, Enc_Failed)]),
     (Enc_EnvelopeArrayLen, [(Ev_AtomFinished, Enc_Magic), (Ev_Fail, Enc_Failed)]),
     (Enc_Magic, [(Ev_AtomFinished, Enc_Version), (Ev_Fail, Enc_Failed)]),
     (Enc_Version, [(Ev_AtomFinished, Enc_ScanSpecsArrayLen), (Ev_Fail, Enc_Failed)]),
     (Enc_ScanSpecsArrayLen, [(Ev_ScanSpecsStarted, Enc_ScanSpecs), (Ev_ScanSpecsFinished, Enc_LogicalPlanBinLen), (Ev_Fail, Enc_Failed)]),
     (Enc_ScanSpecs, [(Ev_ScanSpecFinished, Enc_ScanSpecs), (Ev_ScanSpecsFinished, Enc_LogicalPlanBinLen), (Ev_Fail, Enc_Failed)]),
     (Enc_LogicalPlanBinLen, [(Ev_AtomFinished, Enc_LogicalPlanBin), (Ev_Fail, Enc_Failed)]),
     (Enc_LogicalPlanBin, [(Ev_LogicalPlanFinished, Enc_Done), (Ev_Fail, Enc_Failed)])]"

datatype item_kind =
    Item_EnvelopeArrayLen | Item_Magic | Item_Version | Item_ScanSpecsArrayLen | Item_ScanSpec nat
  | Item_LogicalPlanBinLen | Item_LogicalPlanBin

record active_item =
  ai_kind :: item_kind
  ai_len :: nat
  ai_emitted :: nat

record ('d, 'm, 'e) encode_session =
  es_node :: 'm
  es_specs :: "'d pg_scan_spec list"
  es_spec_lens :: "nat list"
  es_plan_len :: nat
  es_state :: encode_state
  es_spec_index :: nat
  es_active :: "active_item option"
  es_finished :: bool
  es_failed :: "(encode_state \<times> 'e plan_encode_error) option"

definition plan_codec_magic :: bytes where "plan_codec_magic = [0x50, 0x46, 0x50, 0x4c]"
definition plan_codec_version :: u8 where "plan_codec_version = 1"
definition plan_codec_envelope_len :: u32 where "plan_codec_envelope_len = 4"

fun collect_pg_scan_specs :: "'d lplan \<Rightarrow> (u64 \<times> 'd pg_scan_spec) list \<Rightarrow> (u64 \<times> 'd pg_scan_spec) list" where
  "collect_pg_scan_specs (Lp_Scan spec) specs =
     (if map_of specs (sp_scan_id spec) = None then btree_insert (sp_scan_id spec) spec specs else specs)"
| "collect_pg_scan_specs (Lp_Cte _ input) specs = collect_pg_scan_specs input specs"
| "collect_pg_scan_specs (Lp_Ext _ inputs) specs = fold collect_pg_scan_specs inputs specs"
| "collect_pg_scan_specs (Lp_Node _ inputs) specs = fold collect_pg_scan_specs inputs specs"

definition encode_session_new ::
  "mpk \<Rightarrow> ('d, 'm, 'e) df \<Rightarrow> 'd lplan \<Rightarrow> 'e plan_encode_error + ('d, 'm, 'e) encode_session" where
  "encode_session_new K D plan =
     (let specs = map snd (collect_pg_scan_specs plan []) in
      try_bind (map_err Pee_DataFusion (df_plan_proto D (try_encode K D) plan)) (\<lambda>node.
      try_bind (all_results (map (\<lambda>spec. encoded_len_with (encode_pg_scan_spec_into K D spec)) specs)) (\<lambda>lens.
      Inr \<lparr>es_node = node, es_specs = specs, es_spec_lens = lens, es_plan_len = pb_encoded_len D node,
           es_state = Enc_Start, es_spec_index = 0, es_active = None, es_finished = False, es_failed = None\<rparr>)))"

text \<open>What an item writes: \<open>None\<close> for a specification that is not there.\<close>

definition item_emit ::
  "mpk \<Rightarrow> ('d, 'm, 'e) df \<Rightarrow> ('d, 'm, 'e) encode_session \<Rightarrow> item_kind \<Rightarrow> 'e emit option" where
  "item_emit K D s kind = (case kind of
     Item_EnvelopeArrayLen \<Rightarrow> Some (put (k_array_len K plan_codec_envelope_len))
   | Item_Magic \<Rightarrow> Some (put (k_str K plan_codec_magic))
   | Item_Version \<Rightarrow> Some (put (k_u8 K plan_codec_version))
   | Item_ScanSpecsArrayLen \<Rightarrow> Some (emit_result (ok_or (Pee_TooManyScanSpecs (length (es_specs s)))
       (u32_try_from (length (es_specs s)))) (\<lambda>n. put (k_array_len K n)))
   | Item_ScanSpec index \<Rightarrow> map_option (encode_pg_scan_spec_into K D) (index_opt (es_specs s) index)
   | Item_LogicalPlanBinLen \<Rightarrow> Some (write_bin_len_to K (es_plan_len s))
   | Item_LogicalPlanBin \<Rightarrow> Some (pb_encode D (es_node s), Inr ()))"

definition item_len ::
  "mpk \<Rightarrow> ('d, 'm, 'e) df \<Rightarrow> ('d, 'm, 'e) encode_session \<Rightarrow> item_kind \<Rightarrow> ('e plan_encode_error + nat) option" where
  "item_len K D s kind = (case kind of
     Item_ScanSpec index \<Rightarrow> map_option Inr (index_opt (es_spec_lens s) index)
   | Item_LogicalPlanBin \<Rightarrow> Some (Inr (es_plan_len s))
   | _ \<Rightarrow> map_option encoded_len_with (item_emit K D s kind))"

definition encode_item_range ::
  "mpk \<Rightarrow> ('d, 'm, 'e) df \<Rightarrow> ('d, 'm, 'e) encode_session \<Rightarrow> item_kind \<Rightarrow> nat \<Rightarrow> bytes \<Rightarrow>
     (bytes \<times> ('e plan_encode_error + nat)) option" where
  "encode_item_range K D s kind offset out = do {
     x \<leftarrow> item_emit K D s kind;
     let (out', observed, written) = foldl (observe_bytes offset) (out, 0, 0) (fst x);
     Some (out', try_bind (snd x) (\<lambda>_. Inr written))
   }"

definition current_encode_item_kind :: "('d, 'm, 'e) encode_session \<Rightarrow> item_kind option" where
  "current_encode_item_kind s = (case es_state s of
     Enc_EnvelopeArrayLen \<Rightarrow> Some Item_EnvelopeArrayLen
   | Enc_Magic \<Rightarrow> Some Item_Magic
   | Enc_Version \<Rightarrow> Some Item_Version
   | Enc_ScanSpecsArrayLen \<Rightarrow> Some Item_ScanSpecsArrayLen
   | Enc_ScanSpecs \<Rightarrow> Some (Item_ScanSpec (es_spec_index s))
   | Enc_LogicalPlanBinLen \<Rightarrow> Some Item_LogicalPlanBinLen
   | Enc_LogicalPlanBin \<Rightarrow> Some Item_LogicalPlanBin
   | _ \<Rightarrow> None)"

definition consume_encode_event ::
  "('d, 'm, 'e) encode_session \<Rightarrow> encode_event \<Rightarrow> ('d, 'm, 'e) encode_session \<times> ('e plan_encode_error + unit)" where
  "consume_encode_event s ev = (case fsm_next encode_flow (es_state s) ev of
     None \<Rightarrow> (s, Inl Pee_StateMachine)
   | Some st \<Rightarrow> (s\<lparr>es_state := st\<rparr>, Inr ()))"

text \<open>The loop of \<open>ensure_encode_state_ready\<close> goes round once more after \<open>Start\<close>.\<close>

definition ensure_encode_state_ready ::
  "mpk \<Rightarrow> ('d, 'm, 'e) df \<Rightarrow> ('d, 'm, 'e) encode_session \<Rightarrow>
     (('d, 'm, 'e) encode_session \<times> ('e plan_encode_error + unit)) option" where
  "ensure_encode_state_ready K D s0 =
     (let (s, begun) = (if es_state s0 = Enc_Start then consume_encode_event s0 Ev_Begin else (s0, Inr ())) in
      if begun \<noteq> Inr () then Some (s, begun)
      else if es_state s = Enc_Failed then Some (s\<lparr>es_active := None\<rparr>, Inr ())
      else if es_state s = Enc_Done then Some (s\<lparr>es_finished := True, es_active := None\<rparr>, Inr ())
      else if es_active s = None
        then do {
          kind \<leftarrow> current_encode_item_kind s;
          len \<leftarrow> item_len K D s kind;
          (case len of
             Inl e \<Rightarrow> Some (s, Inl e)
           | Inr n \<Rightarrow> Some (s\<lparr>es_active := Some \<lparr>ai_kind = kind, ai_len = n, ai_emitted = 0\<rparr>\<rparr>, Inr ()))
        }
      else Some (s, Inr ()))"

definition finish_active_item ::
  "('d, 'm, 'e) encode_session \<Rightarrow> (('d, 'm, 'e) encode_session \<times> ('e plan_encode_error + unit)) option" where
  "finish_active_item s0 = do {
     active \<leftarrow> es_active s0;
     let s = s0\<lparr>es_active := None\<rparr>;
     Some (case ai_kind active of
        Item_ScanSpecsArrayLen \<Rightarrow>
          consume_encode_event s (if es_spec_lens s = [] then Ev_ScanSpecsFinished else Ev_ScanSpecsStarted)
      | Item_ScanSpec _ \<Rightarrow>
          (let s1 = s\<lparr>es_spec_index := es_spec_index s + 1\<rparr> in
           consume_encode_event s1
             (if es_spec_index s1 = length (es_spec_lens s1) then Ev_ScanSpecsFinished else Ev_ScanSpecFinished))
      | Item_LogicalPlanBin \<Rightarrow>
          (case consume_encode_event s Ev_LogicalPlanFinished of
             (s1, Inr _) \<Rightarrow> (s1\<lparr>es_finished := (es_state s1 = Enc_Done)\<rparr>, Inr ())
           | (s1, Inl e) \<Rightarrow> (s1, Inl e))
      | _ \<Rightarrow> consume_encode_event s Ev_AtomFinished)
   }"

datatype encode_progress = Enc_NeedMoreOutput nat | Enc_Finished nat

partial_function (option) write_chunk_loop ::
  "mpk \<Rightarrow> ('d, 'm, 'e) df \<Rightarrow> ('d, 'm, 'e) encode_session \<Rightarrow> bytes \<Rightarrow> nat \<Rightarrow>
     (('d, 'm, 'e) encode_session \<times> bytes \<times> ('e plan_encode_error + encode_progress)) option" where
  "write_chunk_loop K D s out written =
     (case ensure_encode_state_ready K D s of
        None \<Rightarrow> None
      | Some (s1, ready) \<Rightarrow>
        (case ready of
           Inl e \<Rightarrow> Some (s1, out, Inl e)
         | Inr _ \<Rightarrow>
           if es_finished s1 then Some (s1, out, Inr (Enc_Finished written))
           else (case es_active s1 of
               None \<Rightarrow> None
             | Some item \<Rightarrow>
               (case encode_item_range K D s1 (ai_kind item) (ai_emitted item) (drop written out) of
                  None \<Rightarrow> None
                | Some (rest, ranged) \<Rightarrow>
                  (case ranged of
                     Inl e \<Rightarrow> Some (s1, take written out @ rest, Inl e)
                   | Inr copied \<Rightarrow>
                     (let out1 = take written out @ rest;
                          item1 = item\<lparr>ai_emitted := ai_emitted item + copied\<rparr>;
                          s2 = s1\<lparr>es_active := Some item1\<rparr>;
                          written1 = written + copied
                      in if ai_emitted item1 = ai_len item1
                         then (case finish_active_item s2 of
                             None \<Rightarrow> None
                           | Some (s3, fin) \<Rightarrow>
                             (case fin of
                                Inl e \<Rightarrow> Some (s3, out1, Inl e)
                              | Inr _ \<Rightarrow>
                                if es_finished s3 then Some (s3, out1, Inr (Enc_Finished written1))
                                else if written1 = length out then Some (s3, out1, Inr (Enc_NeedMoreOutput written1))
                                else write_chunk_loop K D s3 out1 written1))
                         else Some (s2, out1, Inr (Enc_NeedMoreOutput written1))))))))"

fun should_poison_encode_error :: "'e plan_encode_error \<Rightarrow> bool" where
  "should_poison_encode_error Pee_EmptyOutputChunk = False"
| "should_poison_encode_error Pee_SessionFailed = False"
| "should_poison_encode_error _ = True"

definition poison_encode ::
  "('d, 'm, 'e) encode_session \<Rightarrow> 'e plan_encode_error \<Rightarrow> ('d, 'm, 'e) encode_session" where
  "poison_encode s e =
     (if es_failed s \<noteq> None \<or> es_finished s then s
      else let s1 = s\<lparr>es_active := None, es_failed := Some (es_state s, e)\<rparr> in
        if es_state s1 \<noteq> Enc_Failed \<and> es_state s1 \<noteq> Enc_Done then fst (consume_encode_event s1 Ev_Fail) else s1)"

definition write_chunk ::
  "mpk \<Rightarrow> ('d, 'm, 'e) df \<Rightarrow> ('d, 'm, 'e) encode_session \<Rightarrow> bytes \<Rightarrow>
     (('d, 'm, 'e) encode_session \<times> bytes \<times> ('e plan_encode_error + encode_progress)) option" where
  "write_chunk K D s out =
     (if es_failed s \<noteq> None then Some (s, out, Inl Pee_SessionFailed)
      else if es_finished s then Some (s, out, Inr (Enc_Finished 0))
      else if out = [] then Some (s, out, Inl Pee_EmptyOutputChunk)
      else do {
        (s1, out1, res) \<leftarrow> write_chunk_loop K D s out 0;
        Some (case res of
           Inl e \<Rightarrow> (if should_poison_encode_error e then poison_encode s1 e else s1, out1, res)
         | Inr _ \<Rightarrow> (s1, out1, res))
      })"

section \<open>The decoder\<close>

datatype decode_event =
    Dv_Begin | Dv_Fail | Dv_Eof | Dv_AtomDecoded | Dv_ScanSpecsStarted | Dv_ScanSpecDecoded | Dv_ScanSpecsFinished
  | Dv_LogicalPlanDecoded | Dv_LogicalPlanBuilt

definition decode_flow :: "(decode_state \<times> (decode_event \<times> decode_state) list) list" where
  "decode_flow =
    [(Dec_Start, [(Dv_Begin, Dec_EnvelopeArrayLen), (Dv_Eof, Dec_Failed), (Dv_Fail, Dec_Failed)]),
     (Dec_EnvelopeArrayLen, [(Dv_AtomDecoded, Dec_Magic), (Dv_Eof, Dec_Failed), (Dv_Fail, Dec_Failed)]),
     (Dec_Magic, [(Dv_AtomDecoded, Dec_Version), (Dv_Eof, Dec_Failed), (Dv_Fail, Dec_Failed)]),
     (Dec_Version, [(Dv_AtomDecoded, Dec_ScanSpecsArrayLen), (Dv_Eof, Dec_Failed), (Dv_Fail, Dec_Failed)]),
     (Dec_ScanSpecsArrayLen, [(Dv_ScanSpecsStarted, Dec_ScanSpecs), (Dv_ScanSpecsFinished, Dec_LogicalPlanBinLen), (Dv_Eof, Dec_Failed), (Dv_Fail, Dec_Failed)]),
     (Dec_ScanSpecs, [(Dv_ScanSpecDecoded, Dec_ScanSpecs), (Dv_ScanSpecsFinished, Dec_LogicalPlanBinLen), (Dv_Eof, Dec_Failed), (Dv_Fail, Dec_Failed)]),
     (Dec_LogicalPlanBinLen, [(Dv_AtomDecoded, Dec_LogicalPlanBin), (Dv_Eof, Dec_Failed), (Dv_Fail, Dec_Failed)]),
     (Dec_LogicalPlanBin, [(Dv_LogicalPlanDecoded, Dec_BuildLogicalPlan), (Dv_Eof, Dec_Failed), (Dv_Fail, Dec_Failed)]),
     (Dec_BuildLogicalPlan, [(Dv_LogicalPlanBuilt, Dec_AwaitEof), (Dv_Eof, Dec_Failed), (Dv_Fail, Dec_Failed)]),
     (Dec_AwaitEof, [(Dv_Eof, Dec_Done), (Dv_Fail, Dec_Failed)])]"

record ('d, 'm, 'e) decode_session =
  ds_state :: decode_state
  ds_control_buf :: bytes
  ds_specs_remaining :: "nat option"
  ds_specs :: "(u64 \<times> 'd pg_scan_spec) list"
  ds_plan_len :: "nat option"
  ds_plan_received :: nat
  ds_plan_segments :: "bytes list"
  ds_node :: "'m option"
  ds_ready_plan :: "'d lplan option"
  ds_finished :: bool
  ds_failed :: "(decode_state \<times> 'e plan_decode_error) option"

definition decode_session_new :: "('d, 'm, 'e) decode_session" where
  "decode_session_new = \<lparr>ds_state = Dec_Start, ds_control_buf = [], ds_specs_remaining = None, ds_specs = [],
     ds_plan_len = None, ds_plan_received = 0, ds_plan_segments = [], ds_node = None, ds_ready_plan = None,
     ds_finished = False, ds_failed = None\<rparr>"

definition push_logical_plan_segment ::
  "('d, 'm, 'e) decode_session \<Rightarrow> bytes \<Rightarrow> ('d, 'm, 'e) decode_session" where
  "push_logical_plan_segment s bs = (if bs = [] then s
     else s\<lparr>ds_plan_received := ds_plan_received s + length bs, ds_plan_segments := ds_plan_segments s @ [bs]\<rparr>)"

definition drain_control ::
  "('d, 'm, 'e) decode_session \<Rightarrow> ('d, 'm, 'e) decode_session" where
  "drain_control s = (case ds_plan_len s of
     None \<Rightarrow> s
   | Some len \<Rightarrow>
       (let needed = len - ds_plan_received s; n = min needed (length (ds_control_buf s)) in
        if n = 0 then s
        else push_logical_plan_segment (s\<lparr>ds_control_buf := drop n (ds_control_buf s)\<rparr>) (take n (ds_control_buf s))))"

definition buffer_decode_chunk ::
  "('d, 'm, 'e) decode_session \<Rightarrow> bytes \<Rightarrow> ('d, 'm, 'e) decode_session" where
  "buffer_decode_chunk s0 chunk =
     (if chunk = [] then s0
      else if ds_state s0 = Dec_LogicalPlanBin \<and> ds_plan_len s0 \<noteq> None
        then (let s = drain_control s0;
                  needed = the (ds_plan_len s) - ds_plan_received s;
                  n = (if 0 < needed then min needed (length chunk) else 0);
                  s1 = (if 0 < needed then push_logical_plan_segment s (take n chunk) else s)
              in if n < length chunk then s1\<lparr>ds_control_buf := ds_control_buf s1 @ drop n chunk\<rparr> else s1)
      else s0\<lparr>ds_control_buf := ds_control_buf s0 @ chunk\<rparr>)"

datatype 'd decode_progress = Dec_NeedMoreInput | Dec_Finished "'d lplan"

definition decode_need_more ::
  "('d, 'm, 'e) decode_session \<Rightarrow> bool \<Rightarrow> 'e plan_decode_error + 'd decode_progress" where
  "decode_need_more s eof =
     (if eof then Inl (Pde_UnexpectedEof (ds_state s) (length (ds_control_buf s) + ds_plan_received s))
      else Inr Dec_NeedMoreInput)"

definition try_parse_prefix ::
  "('d, 'm, 'e) df \<Rightarrow> ('e, 'a) reader \<Rightarrow> bytes \<Rightarrow> 'e plan_decode_error + ('a \<times> nat) option" where
  "try_parse_prefix D parse buffer = (case parse buffer of
     Inr (v, rest) \<Rightarrow> Inr (Some (v, length buffer - length rest))
   | Inl e \<Rightarrow> if is_incomplete_decode_error D e then Inr None else Inl e)"

definition consume_decode_event ::
  "('d, 'm, 'e) decode_session \<Rightarrow> decode_event \<Rightarrow> ('d, 'm, 'e) decode_session \<times> ('e plan_decode_error + unit)" where
  "consume_decode_event s ev = (case fsm_next decode_flow (ds_state s) ev of
     None \<Rightarrow> (s, Inl Pde_StateMachine)
   | Some st \<Rightarrow> (s\<lparr>ds_state := st\<rparr>, Inr ()))"

fun collect_used_scan_ids :: "'d lplan \<Rightarrow> u64 list" where
  "collect_used_scan_ids (Lp_Scan spec) = [sp_scan_id spec]"
| "collect_used_scan_ids (Lp_Cte _ input) = collect_used_scan_ids input"
| "collect_used_scan_ids (Lp_Ext _ inputs) = concat (map collect_used_scan_ids inputs)"
| "collect_used_scan_ids (Lp_Node _ inputs) = concat (map collect_used_scan_ids inputs)"

definition validate_scan_spec_usage ::
  "'d lplan \<Rightarrow> (u64 \<times> 'd pg_scan_spec) list \<Rightarrow> 'e plan_decode_error + unit" where
  "validate_scan_spec_usage plan specs =
     (case filter (\<lambda>id. id \<notin> set (collect_used_scan_ids plan)) (map fst specs) of
        [] \<Rightarrow> Inr ()
      | scan_id # _ \<Rightarrow> Inl (Pde_OrphanScanSpec scan_id))"

definition build_decoded_plan ::
  "mpk \<Rightarrow> ('d, 'm, 'e) df \<Rightarrow> ('d, 'm, 'e) decode_session \<Rightarrow>
     ('d, 'm, 'e) decode_session \<times> ('e plan_decode_error + 'd lplan)" where
  "build_decoded_plan K D s = (case ds_node s of
     None \<Rightarrow> (s, Inl (Pde_MsgPack Msg_PlanMissing))
   | Some node \<Rightarrow> (s\<lparr>ds_node := None\<rparr>,
       try_bind (map_err Pde_DataFusion (df_plan_parse D (try_decode K D (ds_specs s)) node)) (\<lambda>plan.
       try_bind (validate_scan_spec_usage plan (ds_specs s)) (\<lambda>_. Inr plan))))"

text \<open>
  One pass of the loop of \<open>drive_decode\<close>: it goes round again, or returns a result.
\<close>

datatype ('s, 'r) pass = Again 's | Return 's 'r

type_synonym ('d, 'm, 'e) decode_pass =
  "(('d, 'm, 'e) decode_session, 'e plan_decode_error + 'd decode_progress) pass"

definition parse_atom ::
  "('d, 'm, 'e) df \<Rightarrow> bool \<Rightarrow> ('d, 'm, 'e) decode_session \<Rightarrow> ('e, 'a) reader \<Rightarrow>
     ('a \<Rightarrow> (('d, 'm, 'e) decode_session \<times> ('e plan_decode_error + decode_event)) option) \<Rightarrow>
     ('d, 'm, 'e) decode_pass option" where
  "parse_atom D eof s parse k = (case try_parse_prefix D parse (ds_control_buf s) of
     Inl e \<Rightarrow> Some (Return s (Inl e))
   | Inr None \<Rightarrow> Some (Return s (decode_need_more s eof))
   | Inr (Some (v, consumed)) \<Rightarrow> do {
       (s1, checked) \<leftarrow> k v;
       Some (case checked of
          Inl e \<Rightarrow> Return s1 (Inl e)
        | Inr ev \<Rightarrow>
            (case consume_decode_event (s1\<lparr>ds_control_buf := drop consumed (ds_control_buf s1)\<rparr>) ev of
               (s2, Inl e) \<Rightarrow> Return s2 (Inl e)
             | (s2, Inr _) \<Rightarrow> Again s2))
     })"

definition scan_spec_decoded ::
  "('d, 'm, 'e) decode_session \<Rightarrow> 'd pg_scan_spec \<Rightarrow>
     (('d, 'm, 'e) decode_session \<times> ('e plan_decode_error + decode_event)) option" where
  "scan_spec_decoded s spec =
     (let s1 = s\<lparr>ds_specs := btree_insert (sp_scan_id spec) spec (ds_specs s)\<rparr> in
      if map_of (ds_specs s) (sp_scan_id spec) \<noteq> None then Some (s1, Inl (Pde_DuplicateScanId (sp_scan_id spec)))
      else (case ds_specs_remaining s1 of
          None \<Rightarrow> None
        | Some 0 \<Rightarrow> None
        | Some (Suc n) \<Rightarrow> Some (s1\<lparr>ds_specs_remaining := Some n\<rparr>,
            Inr (if n = 0 then Dv_ScanSpecsFinished else Dv_ScanSpecDecoded))))"

definition decode_logical_plan_bin ::
  "('d, 'm, 'e) df \<Rightarrow> bool \<Rightarrow> ('d, 'm, 'e) decode_session \<Rightarrow> ('d, 'm, 'e) decode_pass option" where
  "decode_logical_plan_bin D eof s0 = do {
     len \<leftarrow> ds_plan_len s0;
     let s = drain_control s0;
     if ds_plan_received s < len then Some (Return s (decode_need_more s eof))
     else (case pb_message D Pb_plan (take len (concat (ds_plan_segments s))) of
         Inl e \<Rightarrow> Some (Return s (Inl e))
       | Inr node \<Rightarrow>
           Some (case consume_decode_event (s\<lparr>ds_node := Some node, ds_plan_len := None, ds_plan_received := 0,
                     ds_plan_segments := []\<rparr>) Dv_LogicalPlanDecoded of
               (s1, Inl e) \<Rightarrow> Return s1 (Inl e)
             | (s1, Inr _) \<Rightarrow> Again s1))
   }"

definition decode_build ::
  "mpk \<Rightarrow> ('d, 'm, 'e) df \<Rightarrow> ('d, 'm, 'e) decode_session \<Rightarrow> ('d, 'm, 'e) decode_pass" where
  "decode_build K D s = (case build_decoded_plan K D s of
     (s1, Inl e) \<Rightarrow> Return s1 (Inl e)
   | (s1, Inr plan) \<Rightarrow>
       if ds_control_buf s1 \<noteq> [] then Return s1 (Inl (Pde_TrailingBytes (length (ds_control_buf s1))))
       else (case consume_decode_event s1 Dv_LogicalPlanBuilt of
           (s2, Inl e) \<Rightarrow> Return s2 (Inl e)
         | (s2, Inr _) \<Rightarrow> Again (s2\<lparr>ds_ready_plan := Some plan\<rparr>)))"

definition decode_await_eof :: "bool \<Rightarrow> ('d, 'm, 'e) decode_session \<Rightarrow> ('d, 'm, 'e) decode_pass" where
  "decode_await_eof eof s =
     (if ds_control_buf s \<noteq> [] then Return s (Inl (Pde_TrailingBytes (length (ds_control_buf s))))
      else if eof then
        (case consume_decode_event s Dv_Eof of
           (s1, Inl e) \<Rightarrow> Return s1 (Inl e)
         | (s1, Inr _) \<Rightarrow>
             (case ds_ready_plan s1 of
                None \<Rightarrow> Return (s1\<lparr>ds_finished := True\<rparr>) (Inl (Pde_MsgPack Msg_PlanMissing))
              | Some plan \<Rightarrow> Return (s1\<lparr>ds_finished := True, ds_ready_plan := None\<rparr>) (Inr (Dec_Finished plan))))
      else Return s (Inr Dec_NeedMoreInput))"

definition drive_pass ::
  "mpk \<Rightarrow> ('d, 'm, 'e) df \<Rightarrow> bool \<Rightarrow> ('d, 'm, 'e) decode_session \<Rightarrow> ('d, 'm, 'e) decode_pass option" where
  "drive_pass K D eof s = (case ds_state s of
     Dec_Start \<Rightarrow> Some (case consume_decode_event s Dv_Begin of
         (s1, Inl e) \<Rightarrow> Return s1 (Inl e) | (s1, Inr _) \<Rightarrow> Again s1)
   | Dec_Failed \<Rightarrow> (case ds_failed s of
         None \<Rightarrow> None | Some (state, e) \<Rightarrow> Some (Return s (Inl (Pde_SessionFailed state e))))
   | Dec_EnvelopeArrayLen \<Rightarrow> parse_atom D eof s (rd_mp (g_array_len K)) (\<lambda>len.
         Some (s, if len \<noteq> plan_codec_envelope_len then Inl (Pde_InvalidEnvelope plan_codec_envelope_len len)
                  else Inr Dv_AtomDecoded))
   | Dec_Magic \<Rightarrow> parse_atom D eof s (read_string_from K) (\<lambda>magic.
         Some (s, if magic \<noteq> plan_codec_magic then Inl (Pde_InvalidMagic magic) else Inr Dv_AtomDecoded))
   | Dec_Version \<Rightarrow> parse_atom D eof s (rd_mp (g_u8 K)) (\<lambda>version.
         Some (s, if version \<noteq> plan_codec_version then Inl (Pde_UnsupportedVersion version) else Inr Dv_AtomDecoded))
   | Dec_ScanSpecsArrayLen \<Rightarrow> parse_atom D eof s (rd_mp (g_array_len K)) (\<lambda>len.
         Some (s\<lparr>ds_specs_remaining := Some (unat len)\<rparr>,
           Inr (if len = 0 then Dv_ScanSpecsFinished else Dv_ScanSpecsStarted)))
   | Dec_ScanSpecs \<Rightarrow> parse_atom D eof s (decode_pg_scan_spec_from K D) (scan_spec_decoded s)
   | Dec_LogicalPlanBinLen \<Rightarrow> parse_atom D eof s (rd_mp (g_bin_len K)) (\<lambda>len.
         Some (s\<lparr>ds_plan_len := Some (unat len)\<rparr>, Inr Dv_AtomDecoded))
   | Dec_LogicalPlanBin \<Rightarrow> decode_logical_plan_bin D eof s
   | Dec_BuildLogicalPlan \<Rightarrow> Some (decode_build K D s)
   | Dec_AwaitEof \<Rightarrow> Some (decode_await_eof eof s)
   | Dec_Done \<Rightarrow> Some (Return (s\<lparr>ds_finished := True\<rparr>) (Inl Pde_AlreadyFinished)))"

partial_function (option) drive_decode ::
  "mpk \<Rightarrow> ('d, 'm, 'e) df \<Rightarrow> bool \<Rightarrow> ('d, 'm, 'e) decode_session \<Rightarrow>
     (('d, 'm, 'e) decode_session \<times> ('e plan_decode_error + 'd decode_progress)) option" where
  "drive_decode K D eof s = (case drive_pass K D eof s of
     None \<Rightarrow> None
   | Some p \<Rightarrow> (case p of Return s1 res \<Rightarrow> Some (s1, res) | Again s1 \<Rightarrow> drive_decode K D eof s1))"

fun is_unexpected_eof :: "'e plan_decode_error \<Rightarrow> bool" where
  "is_unexpected_eof (Pde_UnexpectedEof _ _) = True"
| "is_unexpected_eof _ = False"

definition poison_decode ::
  "('d, 'm, 'e) decode_session \<Rightarrow> 'e plan_decode_error \<Rightarrow> ('d, 'm, 'e) decode_session" where
  "poison_decode s e =
     (if ds_failed s \<noteq> None \<or> ds_finished s then s
      else let s1 = s\<lparr>ds_failed := Some (ds_state s, e)\<rparr> in
        if ds_state s1 \<noteq> Dec_Failed \<and> ds_state s1 \<noteq> Dec_Done
        then fst (consume_decode_event s1 (if is_unexpected_eof e then Dv_Eof else Dv_Fail)) else s1)"

definition decode_guarded ::
  "mpk \<Rightarrow> ('d, 'm, 'e) df \<Rightarrow> bool \<Rightarrow> ('d, 'm, 'e) decode_session \<Rightarrow>
     (('d, 'm, 'e) decode_session \<times> ('e plan_decode_error + 'd decode_progress)) option" where
  "decode_guarded K D eof s = do {
     (s1, res) \<leftarrow> drive_decode K D eof s;
     Some (case res of Inl e \<Rightarrow> poison_decode s1 e | Inr _ \<Rightarrow> s1, res)
   }"

definition push_chunk ::
  "mpk \<Rightarrow> ('d, 'm, 'e) df \<Rightarrow> ('d, 'm, 'e) decode_session \<Rightarrow> bytes \<Rightarrow>
     (('d, 'm, 'e) decode_session \<times> ('e plan_decode_error + 'd decode_progress)) option" where
  "push_chunk K D s chunk = (case ds_failed s of
     Some (state, e) \<Rightarrow> Some (s, Inl (Pde_SessionFailed state e))
   | None \<Rightarrow>
       if ds_finished s then Some (s, Inl Pde_AlreadyFinished)
       else decode_guarded K D False (buffer_decode_chunk s chunk))"

definition finish_input ::
  "mpk \<Rightarrow> ('d, 'm, 'e) df \<Rightarrow> ('d, 'm, 'e) decode_session \<Rightarrow>
     (('d, 'm, 'e) decode_session \<times> ('e plan_decode_error + 'd decode_progress)) option" where
  "finish_input K D s = (case ds_failed s of
     Some (state, e) \<Rightarrow> Some (s, Inl (Pde_SessionFailed state e))
   | None \<Rightarrow>
       if ds_finished s then Some (s, Inl Pde_AlreadyFinished)
       else decode_guarded K D True s)"

end
