(* ===== verification/Issuance_Pool.thy ===== *)
theory Issuance_Pool
  imports Treiber_Stack
begin

text \<open>
  The shared pool of issuance permits, \<^verbatim>\<open>src/page/issuance/src/pool.rs\<close>: a second client of the
  lock-free stack. A permit is a number with one state byte; it limits how many pages a sender may have
  under way. As in the page pool, a region is the shared memory, a handle is a process's view of it, every
  operation runs alone, and \<open>None\<close> is a panic or an access outside the state array.
\<close>

section \<open>Types\<close>

definition issuance_magic :: u64 where "issuance_magic = 0x5049535355414E31"
definition issuance_version :: u32 where "issuance_version = 1"
definition state_free :: u8 where "state_free = 0"
definition state_leased :: u8 where "state_leased = 1"

datatype iss_config_error = Iss_ZeroPermitCount | Iss_LayoutOverflow

datatype iss_init_error =
    Iss_Init_InvalidConfig iss_config_error
  | Iss_Init_RegionTooSmall nat nat
  | Iss_Init_BadAlignment nat nat

datatype iss_attach_error =
    Iss_Attach_RegionTooSmall nat nat
  | Iss_Attach_BadAlignment nat nat
  | Iss_Attach_BadMagic u64 u64
  | Iss_Attach_UnsupportedVersion u32 u32
  | Iss_Attach_InvalidConfig iss_config_error
  | Iss_Attach_LayoutMismatch nat nat

datatype iss_acquire_error =
    Iss_Empty
  | Iss_Acquire_CorruptState u32 u8

datatype iss_release_error =
    Iss_BadPermitId u32 u32
  | Iss_DoubleFree u32
  | Iss_Release_CorruptState u32 u8
  | Iss_CorruptFreeList u32

text \<open>\<open>IssuanceConfig\<close> holds a \<open>NonZeroU32\<close>; the model's config is that number.\<close>

definition issuance_config_new :: "u32 \<Rightarrow> iss_config_error + u32" where
  "issuance_config_new permit_count =
     (if permit_count = 0 then Inl Iss_ZeroPermitCount else Inr permit_count)"

record iss_snapshot =
  is_permit_count :: u32
  is_free_permits :: u64
  is_leased_permits :: u64
  is_acquire_ok :: u64
  is_acquire_empty :: u64
  is_release_ok :: u64
  is_release_bad_id :: u64
  is_release_double_free :: u64

record iss_header =
  ih_magic :: u64
  ih_version :: u32
  ih_permit_count :: u32
  ih_instance_id :: u64
  ih_region_size :: u64

record iss_metrics =
  im_acquire_ok :: u64
  im_acquire_empty :: u64
  im_release_ok :: u64
  im_release_bad_id :: u64
  im_release_double_free :: u64
  im_leased_permits :: u64

definition iss_metrics_zeroed :: iss_metrics where
  "iss_metrics_zeroed = \<lparr>im_acquire_ok = 0, im_acquire_empty = 0, im_release_ok = 0,
     im_release_bad_id = 0, im_release_double_free = 0, im_leased_permits = 0\<rparr>"

record iss_region =
  ir_header :: iss_header
  ir_metrics :: iss_metrics
  ir_freelist :: treiber_stack
  ir_states :: "u8 list"

record iss_pool =
  ip_permit_count :: u32
  ip_instance_id :: u64

record permit_lease =
  il_pool :: iss_pool
  il_permit_id :: u32
  il_detached :: bool

record iss_layout =
  icl_region :: layout
  icl_metrics_offset :: nat
  icl_freelist_offset :: nat
  icl_states_offset :: nat
  icl_stack_layout :: stack_layout

section \<open>Layout, initialisation, attachment\<close>

definition iss_compute_layout :: "u32 \<Rightarrow> iss_config_error + iss_layout" where
  "iss_compute_layout cfg =
     try_bind (ok_or Iss_LayoutOverflow (treiber_stack_layout (unat cfg))) (\<lambda>stack_layout.
     try_bind (ok_or Iss_LayoutOverflow (layout_array 1 1 (unat cfg))) (\<lambda>states.
     try_bind (ok_or Iss_LayoutOverflow (layout_extend \<lparr>lsize = 32, lalign = 8\<rparr> \<lparr>lsize = 48, lalign = 8\<rparr>))
       (\<lambda>(region1, metrics_offset).
     try_bind (ok_or Iss_LayoutOverflow (layout_extend region1 (sl_layout stack_layout)))
       (\<lambda>(region2, freelist_offset).
     try_bind (ok_or Iss_LayoutOverflow (layout_extend region2 states)) (\<lambda>(region3, states_offset).
     Inr \<lparr>icl_region = pad_to_align region3, icl_metrics_offset = metrics_offset,
          icl_freelist_offset = freelist_offset, icl_states_offset = states_offset,
          icl_stack_layout = stack_layout\<rparr>)))))"

text \<open>The error carries whether the base was aligned, that is, whether the length was at fault.\<close>

definition iss_validate_region :: "nat \<Rightarrow> nat \<Rightarrow> nat \<Rightarrow> nat \<Rightarrow> (nat \<times> nat \<times> bool) + unit" where
  "iss_validate_region base len expected_align expected_size =
     (if base mod expected_align \<noteq> 0 then Inl (expected_align, base, False)
      else if len < expected_size then Inl (expected_size, len, True)
      else Inr ())"

definition next_instance_id :: "u64 \<Rightarrow> u64 \<Rightarrow> nat \<Rightarrow> u64" where
  "next_instance_id now salt base =
     (let mixed = (word_rotl 17 now XOR word_rotl 7 (of_nat base :: u64)) XOR salt
      in if mixed = 0 then 1 else mixed)"

definition iss_build_handle :: "iss_region \<Rightarrow> u32 \<Rightarrow> iss_pool" where
  "iss_build_handle r permit_count =
     \<lparr>ip_permit_count = permit_count, ip_instance_id = ih_instance_id (ir_header r)\<rparr>"

definition iss_init_in_place ::
  "nat \<Rightarrow> nat \<Rightarrow> u32 \<Rightarrow> u64 \<Rightarrow> (iss_init_error + iss_region \<times> iss_pool) option" where
  "iss_init_in_place base len cfg instance_id =
     (case iss_compute_layout cfg of
        Inl e \<Rightarrow> Some (Inl (Iss_Init_InvalidConfig e))
      | Inr computed \<Rightarrow>
        (case iss_validate_region base len (lalign (icl_region computed)) (lsize (icl_region computed)) of
           Inl (expected, actual, aligned) \<Rightarrow>
             Some (Inl (if aligned then Iss_Init_RegionTooSmall expected actual
                        else Iss_Init_BadAlignment expected actual))
         | Inr _ \<Rightarrow> do {
             freelist \<leftarrow> stack_init_in_place (unat cfg);
             let r = \<lparr>ir_header = \<lparr>ih_magic = issuance_magic, ih_version = issuance_version,
                        ih_permit_count = cfg, ih_instance_id = instance_id,
                        ih_region_size = of_nat (lsize (icl_region computed))\<rparr>,
                      ir_metrics = iss_metrics_zeroed, ir_freelist = freelist,
                      ir_states = replicate (unat cfg) state_free\<rparr>;
             Some (Inr (r, iss_build_handle r cfg))
           }))"

definition iss_attach :: "nat \<Rightarrow> nat \<Rightarrow> iss_region \<Rightarrow> iss_attach_error + iss_pool" where
  "iss_attach base len r =
     try_bind (map_err (\<lambda>(expected, actual, aligned). if aligned then Iss_Attach_RegionTooSmall expected actual
                          else Iss_Attach_BadAlignment expected actual)
                (iss_validate_region base len 8 32)) (\<lambda>_.
     let header = ir_header r in
     if ih_magic header \<noteq> issuance_magic then Inl (Iss_Attach_BadMagic issuance_magic (ih_magic header))
     else if ih_version header \<noteq> issuance_version
       then Inl (Iss_Attach_UnsupportedVersion issuance_version (ih_version header))
     else
     try_bind (map_err Iss_Attach_InvalidConfig (issuance_config_new (ih_permit_count header))) (\<lambda>cfg.
     try_bind (map_err Iss_Attach_InvalidConfig (iss_compute_layout cfg)) (\<lambda>computed.
     try_bind (map_err (\<lambda>(expected, actual, aligned). if aligned then Iss_Attach_LayoutMismatch expected actual
                          else Iss_Attach_BadAlignment expected actual)
                (iss_validate_region base len (lalign (icl_region computed)) (lsize (icl_region computed)))) (\<lambda>_.
     if unat (ih_region_size header) \<noteq> lsize (icl_region computed)
       then Inl (Iss_Attach_LayoutMismatch (unat (ih_region_size header)) (lsize (icl_region computed)))
     else Inr (iss_build_handle r cfg)))))"

section \<open>Leasing and releasing\<close>

definition iss_try_acquire :: "iss_pool \<Rightarrow> iss_region \<Rightarrow> (iss_region \<times> (iss_acquire_error + permit_lease)) option" where
  "iss_try_acquire h r = do {
     (fl, res) \<leftarrow> stack_allocate (ir_freelist r);
     let m = ir_metrics r;
     (case res of
        Inl Full \<Rightarrow> None
      | Inl Empty \<Rightarrow>
          Some (r\<lparr>ir_freelist := fl, ir_metrics := m\<lparr>im_acquire_empty := im_acquire_empty m + 1\<rparr>\<rparr>, Inl Iss_Empty)
      | Inr permit_id \<Rightarrow> do {
          actual \<leftarrow> index_opt (ir_states r) (unat permit_id);
          if actual = state_free
          then Some (r\<lparr>ir_freelist := fl, ir_states := (ir_states r)[unat permit_id := state_leased],
                       ir_metrics := m\<lparr>im_acquire_ok := im_acquire_ok m + 1,
                                       im_leased_permits := im_leased_permits m + 1\<rparr>\<rparr>,
                     Inr \<lparr>il_pool = h, il_permit_id = permit_id, il_detached = False\<rparr>)
          else do {
            (fl2, _) \<leftarrow> stack_release fl permit_id;
            Some (r\<lparr>ir_freelist := fl2\<rparr>, Inl (Iss_Acquire_CorruptState permit_id actual))
          }
        })
   }"

definition iss_release :: "iss_pool \<Rightarrow> iss_region \<Rightarrow> u32 \<Rightarrow> (iss_region \<times> (iss_release_error + unit)) option" where
  "iss_release h r permit_id =
     (let m = ir_metrics r in
      if ip_permit_count h \<le> permit_id
      then Some (r\<lparr>ir_metrics := m\<lparr>im_release_bad_id := im_release_bad_id m + 1\<rparr>\<rparr>,
                 Inl (Iss_BadPermitId permit_id (ip_permit_count h)))
      else do {
        actual \<leftarrow> index_opt (ir_states r) (unat permit_id);
        if actual = state_leased
        then do {
          let freed = (ir_states r)[unat permit_id := state_free];
          (fl, res) \<leftarrow> stack_release (ir_freelist r) permit_id;
          (case res of
             Inl Full \<Rightarrow> Some (r\<lparr>ir_freelist := fl, ir_states := freed[unat permit_id := state_leased]\<rparr>,
                              Inl (Iss_CorruptFreeList permit_id))
           | _ \<Rightarrow> Some (r\<lparr>ir_freelist := fl, ir_states := freed,
                           ir_metrics := m\<lparr>im_release_ok := im_release_ok m + 1,
                                           im_leased_permits := im_leased_permits m - 1\<rparr>\<rparr>, Inr ()))
        }
        else if actual = state_free
        then Some (r\<lparr>ir_metrics := m\<lparr>im_release_double_free := im_release_double_free m + 1\<rparr>\<rparr>,
                   Inl (Iss_DoubleFree permit_id))
        else Some (r, Inl (Iss_Release_CorruptState permit_id actual))
      })"

definition iss_snapshot_of :: "iss_pool \<Rightarrow> iss_region \<Rightarrow> iss_snapshot" where
  "iss_snapshot_of h r =
     (let m = ir_metrics r; leased = im_leased_permits m
      in \<lparr>is_permit_count = ip_permit_count h,
          is_free_permits = saturating_sub_u64 (ucast (ip_permit_count h)) leased,
          is_leased_permits = leased, is_acquire_ok = im_acquire_ok m,
          is_acquire_empty = im_acquire_empty m, is_release_ok = im_release_ok m,
          is_release_bad_id = im_release_bad_id m, is_release_double_free = im_release_double_free m\<rparr>)"

definition permit_into_id :: "permit_lease \<Rightarrow> permit_lease \<times> u32" where
  "permit_into_id l = (l\<lparr>il_detached := True\<rparr>, il_permit_id l)"

definition permit_drop :: "iss_region \<Rightarrow> permit_lease \<Rightarrow> iss_region option" where
  "permit_drop r l =
     (if il_detached l then Some r
      else do { (r', _) \<leftarrow> iss_release (il_pool l) r (il_permit_id l); Some r' })"

section \<open>Invariant\<close>

definition leased_permits :: "iss_region \<Rightarrow> u32 set" where
  "leased_permits r = {v. unat v < length (ir_states r) \<and> ir_states r ! unat v = state_leased}"

text \<open>The free list and the states agree, and the gauge counts the leased permits.\<close>

definition iss_inv :: "iss_pool \<Rightarrow> iss_region \<Rightarrow> u32 list \<Rightarrow> bool" where
  "iss_inv h r fl \<longleftrightarrow> length (ir_states r) = unat (ip_permit_count h) \<and>
     ts_capacity (ir_freelist r) = unat (ip_permit_count h) \<and> stack_rep (ir_freelist r) fl \<and>
     set (ir_states r) \<subseteq> {state_free, state_leased} \<and>
     (\<forall>v. unat v < unat (ip_permit_count h) \<longrightarrow> (v \<in> set fl \<longleftrightarrow> ir_states r ! unat v = state_free)) \<and>
     unat (im_leased_permits (ir_metrics r)) + length fl = unat (ip_permit_count h)"

lemma state_free_neq_leased [simp]: "state_free \<noteq> state_leased" "state_leased \<noteq> state_free"
  by (simp_all add: state_free_def state_leased_def)

lemma iss_inv_fl: "iss_inv h r fl \<Longrightarrow> v \<in> set fl \<Longrightarrow> unat v < unat (ip_permit_count h)"
  using stack_rep_in_range [of "ir_freelist r" fl v] by (simp add: iss_inv_def)

lemma iss_inv_length: "iss_inv h r fl \<Longrightarrow> length (ir_states r) = unat (ip_permit_count h)"
  by (simp add: iss_inv_def)

lemma iss_inv_state:
  assumes "iss_inv h r fl" and "unat v < unat (ip_permit_count h)"
  shows "ir_states r ! unat v = state_free \<or> ir_states r ! unat v = state_leased"
proof -
  have "set (ir_states r) \<subseteq> {state_free, state_leased}" "unat v < length (ir_states r)"
    using assms by (simp_all add: iss_inv_def)
  from subsetD [OF this(1) nth_mem [OF this(2)]] show ?thesis by simp
qed

lemma nth_update_u32:
  "unat v < length xs \<Longrightarrow> xs[unat (x :: u32) := s] ! unat v = (if v = x then s else xs ! unat v)"
  by (auto simp: nth_list_update word_unat_eq_iff)

lemma leased_permits_update:
  "unat v < length (ir_states r) \<Longrightarrow> ir_states r' = (ir_states r)[unat v := s] \<Longrightarrow>
     leased_permits r' = (if s = state_leased then insert v (leased_permits r) else leased_permits r - {v})"
  by (auto simp: leased_permits_def nth_list_update word_unat_eq_iff)

lemma iss_try_acquire_effect:
  assumes inv: "iss_inv h r fl"
  obtains (empty) r' where "fl = []" "iss_try_acquire h r = Some (r', Inl Iss_Empty)" "iss_inv h r' []"
      "leased_permits r' = leased_permits r" "ir_header r' = ir_header r"
  | (permit) x xs r' where "fl = x # xs"
      "iss_try_acquire h r = Some (r', Inr \<lparr>il_pool = h, il_permit_id = x, il_detached = False\<rparr>)" "iss_inv h r' xs"
      "leased_permits r' = insert x (leased_permits r)" "x \<notin> leased_permits r" "ir_header r' = ir_header r"
proof (cases fl)
  case Nil
  with inv ts.alloc_empty [of "ir_freelist r"] show thesis
    by (intro empty [of "r\<lparr>ir_metrics := (ir_metrics r)\<lparr>im_acquire_empty := im_acquire_empty (ir_metrics r) + 1\<rparr>\<rparr>"])
      (auto simp: iss_try_acquire_def iss_inv_def leased_permits_def Let_def)
next
  case (Cons x xs)
  let ?n = "unat (ip_permit_count h)"
  have x: "unat x < ?n" using iss_inv_fl [OF inv] Cons by simp
  have free: "ir_states r ! unat x = state_free" using inv x Cons by (auto simp: iss_inv_def)
  have len: "length (ir_states r) = ?n" using iss_inv_length [OF inv] .
  have dist: "distinct (x # xs)" using inv Cons ts.rep_distinct [of "ir_freelist r" fl] by (simp add: iss_inv_def)
  from ts.alloc_top inv Cons obtain s where
    s: "stack_allocate (ir_freelist r) = Some (s, Inr x)" "stack_rep s xs" "ts_capacity s = ts_capacity (ir_freelist r)"
    unfolding iss_inv_def by blast
  define r' where "r' = r\<lparr>ir_freelist := s, ir_states := (ir_states r)[unat x := state_leased],
    ir_metrics := (ir_metrics r)\<lparr>im_acquire_ok := im_acquire_ok (ir_metrics r) + 1,
      im_leased_permits := im_leased_permits (ir_metrics r) + 1\<rparr>\<rparr>"
  have "iss_try_acquire h r = Some (r', Inr \<lparr>il_pool = h, il_permit_id = x, il_detached = False\<rparr>)"
    using s(1) x len free by (simp add: iss_try_acquire_def r'_def Let_def)
  moreover have "iss_inv h r' xs"
  proof -
    have gauge: "unat (im_leased_permits (ir_metrics r)) + Suc (length xs) = ?n"
      using inv Cons by (simp add: iss_inv_def)
    then have "im_leased_permits (ir_metrics r) \<noteq> - 1"
      using unat_u32_less [of "ip_permit_count h"] unat_max_u64 by auto
    then have "unat (im_leased_permits (ir_metrics r) + 1) + length xs = ?n"
      using gauge saturating_add_u64_one by simp
    moreover have "set (ir_states r') \<subseteq> {state_free, state_leased}"
      using inv set_update_subset_insert [of "ir_states r" "unat x" state_leased] by (auto simp: iss_inv_def r'_def)
    moreover have "v \<in> set xs \<longleftrightarrow> ir_states r' ! unat v = state_free" if "unat v < ?n" for v
      using that inv Cons dist len by (auto simp: iss_inv_def r'_def nth_update_u32)
    ultimately show ?thesis using inv s(2,3) len by (simp add: iss_inv_def r'_def)
  qed
  moreover have "leased_permits r' = insert x (leased_permits r)"
    using leased_permits_update [of x r r' state_leased] x len by (simp add: r'_def)
  moreover have "x \<notin> leased_permits r" using free by (simp add: leased_permits_def)
  ultimately show thesis using Cons permit by (simp add: r'_def)
qed

lemma iss_release_effect:
  assumes inv: "iss_inv h r fl" and v: "v \<in> leased_permits r"
  obtains r' where "iss_release h r v = Some (r', Inr ())" "iss_inv h r' (v # fl)"
    "leased_permits r' = leased_permits r - {v}" "ir_header r' = ir_header r"
proof -
  let ?n = "unat (ip_permit_count h)"
  have len: "length (ir_states r) = ?n" using iss_inv_length [OF inv] .
  have vn: "unat v < ?n" "ir_states r ! unat v = state_leased" using v len by (simp_all add: leased_permits_def)
  have nin: "v \<notin> set fl" using inv vn by (auto simp: iss_inv_def)
  have "stack_rep (ir_freelist r) fl" "unat v < ts_capacity (ir_freelist r)" using inv vn by (simp_all add: iss_inv_def)
  from ts.rel_push [OF this(1) nin this(2)] obtain s where
    s: "stack_release (ir_freelist r) v = Some (s, Inr ())" "stack_rep s (v # fl)" "ts_capacity s = ts_capacity (ir_freelist r)"
    by blast
  define r' where "r' = r\<lparr>ir_freelist := s, ir_states := (ir_states r)[unat v := state_free],
    ir_metrics := (ir_metrics r)\<lparr>im_release_ok := im_release_ok (ir_metrics r) + 1,
      im_leased_permits := im_leased_permits (ir_metrics r) - 1\<rparr>\<rparr>"
  have "iss_release h r v = Some (r', Inr ())"
    using s(1) vn len by (simp add: iss_release_def r'_def Let_def word_le_nat_alt not_le)
  moreover have "iss_inv h r' (v # fl)"
  proof -
    have "length fl < ?n"
      using distinct_u32_length_less [of fl ?n v] ts.rep_distinct [of "ir_freelist r" fl] iss_inv_fl [OF inv] inv nin vn
      by (simp add: iss_inv_def)
    then have "0 < unat (im_leased_permits (ir_metrics r))" using inv by (simp add: iss_inv_def)
    then have "unat (im_leased_permits (ir_metrics r) - 1) + Suc (length fl) = ?n"
      using inv by (simp add: iss_inv_def unat_sub word_le_nat_alt)
    moreover have "set (ir_states r') \<subseteq> {state_free, state_leased}"
      using inv set_update_subset_insert [of "ir_states r" "unat v" state_free] by (auto simp: iss_inv_def r'_def)
    moreover have "u \<in> set (v # fl) \<longleftrightarrow> ir_states r' ! unat u = state_free" if "unat u < ?n" for u
      using that inv len by (auto simp: iss_inv_def r'_def nth_update_u32)
    ultimately show ?thesis using inv s(2,3) len by (simp add: iss_inv_def r'_def)
  qed
  moreover have "leased_permits r' = leased_permits r - {v}"
    using leased_permits_update [of v r r' state_free] vn len by (simp add: r'_def)
  ultimately show thesis using that by (simp add: r'_def)
qed

lemma iss_release_refused:
  assumes inv: "iss_inv h r fl" and v: "v \<notin> leased_permits r"
  obtains r' where "iss_release h r v = Some (r', Inl (if ip_permit_count h \<le> v
      then Iss_BadPermitId v (ip_permit_count h) else Iss_DoubleFree v))" "iss_inv h r' fl"
    "leased_permits r' = leased_permits r" "ir_header r' = ir_header r"
proof (cases "ip_permit_count h \<le> v")
  case True
  then show ?thesis
    using that inv by (simp add: iss_release_def Let_def iss_inv_def leased_permits_def)
next
  case False
  then have vn: "unat v < unat (ip_permit_count h)" by (simp add: word_le_nat_alt)
  have len: "length (ir_states r) = unat (ip_permit_count h)" using iss_inv_length [OF inv] .
  then have "ir_states r ! unat v = state_free"
    using iss_inv_state [OF inv vn] v vn by (auto simp: leased_permits_def)
  then show ?thesis
    using that inv vn len False by (simp add: iss_release_def Let_def iss_inv_def leased_permits_def)
qed

section \<open>Clients\<close>

lemma iss_init_parts:
  assumes "iss_init_in_place base len cfg iid = Some (Inr (r, h))"
  obtains cl fl where "iss_compute_layout cfg = Inr cl" "stack_init_in_place (unat cfg) = Some fl"
    "iss_validate_region base len (lalign (icl_region cl)) (lsize (icl_region cl)) = Inr ()"
    "h = \<lparr>ip_permit_count = cfg, ip_instance_id = iid\<rparr>"
    "r = \<lparr>ir_header = \<lparr>ih_magic = issuance_magic, ih_version = issuance_version, ih_permit_count = cfg,
         ih_instance_id = iid, ih_region_size = of_nat (lsize (icl_region cl))\<rparr>,
       ir_metrics = iss_metrics_zeroed, ir_freelist = fl, ir_states = replicate (unat cfg) state_free\<rparr>"
  using assms
  by (auto simp: iss_init_in_place_def iss_build_handle_def split: sum.splits Option.bind_splits if_splits)

lemma iss_init_inv:
  assumes "iss_init_in_place base len cfg iid = Some (Inr (r, h))"
  shows "iss_inv h r (rev (map of_nat [0..<unat cfg]))" and "leased_permits r = {}"
proof -
  let ?n = "unat cfg"
  from iss_init_parts [OF assms] obtain fl where
    fl: "stack_init_in_place ?n = Some fl" and h: "ip_permit_count h = cfg"
    and r: "ir_freelist r = fl" "ir_states r = replicate ?n state_free" "ir_metrics r = iss_metrics_zeroed"
    by (metis iss_pool.select_convs(1) iss_region.select_convs(2-4))
  have n: "?n < 2 ^ 32" using unat_u32_less [of cfg] by simp
  from stack_init_rep [OF n] fl have rep: "stack_rep fl (rev (map of_nat [0..<?n]))" "ts_capacity fl = ?n" by auto
  have "v \<in> set (rev (map (of_nat :: nat \<Rightarrow> u32) [0..<?n]))" if "unat v < ?n" for v
    using that by (auto intro!: image_eqI [of _ _ "unat v"])
  then show "iss_inv h r (rev (map of_nat [0..<?n]))"
    using r rep h by (auto simp: iss_inv_def iss_metrics_zeroed_def set_replicate_conv_if)
  show "leased_permits r = {}" using r by (auto simp: leased_permits_def)
qed

datatype permit_op = Permit_acquire | Permit_release u32

fun permit_step :: "iss_pool \<Rightarrow> permit_op \<Rightarrow> iss_region \<Rightarrow> iss_region option" where
  "permit_step h Permit_acquire r = map_option fst (iss_try_acquire h r)"
| "permit_step h (Permit_release v) r = map_option fst (iss_release h r v)"

fun permit_run :: "iss_pool \<Rightarrow> permit_op list \<Rightarrow> iss_region \<Rightarrow> iss_region option" where
  "permit_run h [] r = Some r"
| "permit_run h (op # ops) r = (case permit_step h op r of None \<Rightarrow> None | Some r' \<Rightarrow> permit_run h ops r')"

lemma permit_step_ok:
  assumes "iss_inv h r fl"
  shows "\<exists>r' fl'. permit_step h op r = Some r' \<and> iss_inv h r' fl' \<and> ir_header r' = ir_header r"
proof (cases op)
  case Permit_acquire
  from assms show ?thesis
    by (cases rule: iss_try_acquire_effect) (auto simp: Permit_acquire)
next
  case (Permit_release v)
  show ?thesis
  proof (cases "v \<in> leased_permits r")
    case True
    from iss_release_effect [OF assms True] Permit_release show ?thesis by fastforce
  next
    case False
    from iss_release_refused [OF assms False] Permit_release show ?thesis by fastforce
  qed
qed

lemma permit_run_ok:
  assumes "iss_inv h r fl"
  shows "\<exists>r' fl'. permit_run h ops r = Some r' \<and> iss_inv h r' fl' \<and> ir_header r' = ir_header r"
  using assms
proof (induction ops arbitrary: r fl)
  case Nil
  then show ?case by auto
next
  case (Cons op ops)
  from permit_step_ok [OF Cons.prems, of op] obtain r1 fl1 where
    "permit_step h op r = Some r1" "iss_inv h r1 fl1" "ir_header r1 = ir_header r" by blast
  with Cons.IH [of r1 fl1] show ?case by auto
qed

text \<open>The gauge counts the leased permits.\<close>

lemma leased_permits_card:
  assumes inv: "iss_inv h r fl"
  shows "card (leased_permits r) + length fl = unat (ip_permit_count h)"
proof -
  let ?n = "unat (ip_permit_count h)"
  have len: "length (ir_states r) = ?n" using iss_inv_length [OF inv] .
  note all = iss_inv_state [OF inv]
  have "leased_permits r \<inter> set fl = {}"
    using inv iss_inv_fl [OF inv] by (auto simp: iss_inv_def leased_permits_def)
  moreover have "leased_permits r \<union> set fl = {v. unat v < ?n}"
    using all inv iss_inv_fl [OF inv] len by (auto simp: iss_inv_def leased_permits_def)
  moreover have "card {v :: u32. unat v < ?n} = ?n"
  proof -
    have "{v :: u32. unat v < ?n} = of_nat ` {0..<?n}"
      using unat_u32_less [of "ip_permit_count h"]
      by (auto simp: unat_of_nat_u32 intro!: image_eqI [of _ _ "unat _"])
    then show ?thesis
      using card_image [OF inj_on_of_nat_u32 [of ?n]] unat_u32_less [of "ip_permit_count h"] by simp
  qed
  moreover have "finite (leased_permits r)" by simp
  moreover have "card (set fl) = length fl"
    using inv ts.rep_distinct [of "ir_freelist r" fl] by (simp add: iss_inv_def distinct_card)
  ultimately show ?thesis
    by (metis card_Un_disjoint List.finite_set)
qed

section \<open>Properties\<close>

text \<open>C17: No client can break the permit pool: after \<open>init_in_place\<close> any sequence of acquires and releases,
  double frees and made-up numbers among them, runs without a panic; the snapshot's leased gauge is
  the number of permits leased, and with the free ones it makes up the permit count.\<close>

theorem issuance_any_client_safe:
  assumes "iss_init_in_place base len cfg iid = Some (Inr (r, h))"
  shows "\<exists>r' fl. permit_run h ops r = Some r' \<and> iss_inv h r' fl \<and>
    unat (is_leased_permits (iss_snapshot_of h r')) = card (leased_permits r') \<and>
    unat (is_free_permits (iss_snapshot_of h r')) = length fl \<and>
    card (leased_permits r') + length fl = unat cfg"
proof -
  from iss_init_parts [OF assms] have h: "ip_permit_count h = cfg" by (metis iss_pool.select_convs(1))
  from permit_run_ok [OF iss_init_inv(1) [OF assms]] obtain r' fl where
    r': "permit_run h ops r = Some r'" "iss_inv h r' fl" by blast
  note card = leased_permits_card [OF r'(2)]
  have "unat (im_leased_permits (ir_metrics r')) = card (leased_permits r')"
    using r'(2) card by (simp add: iss_inv_def)
  moreover have "unat (ucast cfg :: u64) = unat cfg"
    using unat_u32_less [of cfg] by (simp add: unsigned_ucast_eq take_bit_nat_eq_self)
  ultimately show ?thesis
    using r' card h by (auto simp: iss_snapshot_of_def Let_def unat_saturating_sub_u64)
qed

lemma demo_permits:
  "\<exists>r h. iss_init_in_place 0 4096 2 9 = Some (Inr (r, h)) \<and> iss_inv h r [1, 0] \<and> leased_permits r = {} \<and>
     ip_permit_count h = 2 \<and> ip_instance_id h = 9"
proof -
  have "iss_compute_layout 2 = Inr \<lparr>icl_region = \<lparr>lsize = 120, lalign = 8\<rparr>, icl_metrics_offset = 32,
      icl_freelist_offset = 80, icl_states_offset = 112,
      icl_stack_layout = \<lparr>sl_layout = \<lparr>lsize = 32, lalign = 8\<rparr>, sl_next_offset = 24\<rparr>\<rparr>"
    by (simp add: iss_compute_layout_def treiber_stack_layout_def layout_defs)
  then obtain r where init: "iss_init_in_place 0 4096 2 9 =
      Some (Inr (r, \<lparr>ip_permit_count = 2, ip_instance_id = 9\<rparr>))"
    by (simp add: iss_init_in_place_def iss_validate_region_def stack_init_in_place_def iss_build_handle_def)
  moreover have "rev (map of_nat [0..<unat (2 :: u32)]) = [1 :: u32, 0]" by (simp add: upt_rec)
  ultimately show ?thesis using iss_init_inv [OF init] by fastforce
qed

theorem issuance_any_client_safe_witness:
  "\<exists>r h r' fl. iss_init_in_place 0 4096 2 9 = Some (Inr (r, h)) \<and>
     permit_run h [Permit_acquire, Permit_release 1, Permit_release 1, Permit_release 77, Permit_acquire] r = Some r' \<and>
     iss_inv h r' fl \<and> card (leased_permits r') + length fl = 2"
proof -
  from demo_permits obtain r h where init: "iss_init_in_place 0 4096 2 9 = Some (Inr (r, h))" by blast
  from issuance_any_client_safe [OF init] init show ?thesis by fastforce
qed

text \<open>C18: Permits are exclusive: \<open>try_acquire\<close> hands out a permit that nobody held and takes it off the
  free list; \<open>release\<close> takes back exactly a permit that is leased and refuses every other number without
  changing which permits are leased, as a double free when the number is a permit of the pool.\<close>

theorem permit_lease_exact:
  assumes "iss_inv h r fl"
  shows "(\<exists>r' res. iss_try_acquire h r = Some (r', res) \<and>
      (case res of
         Inl e \<Rightarrow> e = Iss_Empty \<and> fl = [] \<and> leased_permits r' = leased_permits r
       | Inr l \<Rightarrow> il_permit_id l \<notin> leased_permits r \<and> iss_inv h r' (tl fl) \<and>
           leased_permits r' = insert (il_permit_id l) (leased_permits r))) \<and>
    (\<exists>r' res. iss_release h r v = Some (r', res) \<and>
      (if v \<in> leased_permits r
       then res = Inr () \<and> iss_inv h r' (v # fl) \<and> leased_permits r' = leased_permits r - {v}
       else res = Inl (if ip_permit_count h \<le> v then Iss_BadPermitId v (ip_permit_count h) else Iss_DoubleFree v) \<and>
         iss_inv h r' fl \<and> leased_permits r' = leased_permits r))"
proof (rule conjI)
  from assms show "\<exists>r' res. iss_try_acquire h r = Some (r', res) \<and>
      (case res of
         Inl e \<Rightarrow> e = Iss_Empty \<and> fl = [] \<and> leased_permits r' = leased_permits r
       | Inr l \<Rightarrow> il_permit_id l \<notin> leased_permits r \<and> iss_inv h r' (tl fl) \<and>
           leased_permits r' = insert (il_permit_id l) (leased_permits r))"
    by (cases rule: iss_try_acquire_effect) auto
next
  show "\<exists>r' res. iss_release h r v = Some (r', res) \<and>
      (if v \<in> leased_permits r
       then res = Inr () \<and> iss_inv h r' (v # fl) \<and> leased_permits r' = leased_permits r - {v}
       else res = Inl (if ip_permit_count h \<le> v then Iss_BadPermitId v (ip_permit_count h) else Iss_DoubleFree v) \<and>
         iss_inv h r' fl \<and> leased_permits r' = leased_permits r)"
  proof (cases "v \<in> leased_permits r")
    case True
    from iss_release_effect [OF assms True] True show ?thesis by (metis (full_types))
  next
    case False
    from iss_release_refused [OF assms False] False show ?thesis by (metis (full_types))
  qed
qed

theorem permit_lease_exact_witness:
  "\<exists>h r r'. iss_inv h r [1, 0] \<and> iss_release h r 1 = Some (r', Inl (Iss_DoubleFree 1))"
proof -
  from demo_permits obtain r h where inv: "iss_inv h r [1, 0]" and h: "leased_permits r = {}" "ip_permit_count h = 2"
    by blast
  from permit_lease_exact [OF inv, of 1] h(1) obtain r' where
    "iss_release h r 1 = Some (r', Inl (if ip_permit_count h \<le> 1
       then Iss_BadPermitId 1 (ip_permit_count h) else Iss_DoubleFree 1))" by auto
  moreover have "\<not> ip_permit_count h \<le> 1" by (simp add: h(2) word_le_nat_alt)
  ultimately show ?thesis using inv by (simp only: if_False) blast
qed

end
