(* ===== verification/Pool_Layout.thy ===== *)
theory Pool_Layout
  imports Treiber_Stack
begin

text \<open>
  The region layout of the page pool: \<^verbatim>\<open>src/page/pool/src/layout.rs\<close> and the configuration of
  \<^verbatim>\<open>src/page/pool/src/types.rs\<close>. A region holds, in this order, the header, the metrics, one state
  word per page, the free list and the page bytes. Shown: whenever a layout is computed, the five
  parts are aligned, follow one another without overlap and end inside the region.
\<close>

section \<open>Model\<close>

definition page_align :: nat where
  "page_align = 64"

datatype config_error =
    ZeroPageSize
  | ZeroPageCount
  | PageSizeTooSmall nat nat
  | PageSizeNotAligned nat nat
  | LayoutOverflow

record computed_layout =
  cl_region :: layout
  cl_metrics_offset :: nat
  cl_states_offset :: nat
  cl_freelist_offset :: nat
  cl_freelist_next_offset :: nat
  cl_data_offset :: nat
  cl_data_size :: nat

record page_pool_config =
  cfg_page_size :: nat
  cfg_page_count :: u32

definition validate_page_size :: "nat \<Rightarrow> config_error + unit" where
  "validate_page_size page_size =
     (if page_size = 0 then Inl ZeroPageSize
      else if page_size < page_align then Inl (PageSizeTooSmall page_align page_size)
      else if page_size mod page_align \<noteq> 0 then Inl (PageSizeNotAligned page_align page_size)
      else Inr ())"

text \<open>\<open>PoolHeader\<close> occupies 48 bytes and \<open>SharedMetrics\<close> 13 words of 8, both aligned to 8.\<close>

definition compute_layout_from_values :: "nat \<Rightarrow> u32 \<Rightarrow> config_error + computed_layout" where
  "compute_layout_from_values page_size page_count =
     try_bind (validate_page_size page_size) (\<lambda>_.
     if page_count = 0 then Inl ZeroPageCount
     else let header = \<lparr>lsize = 48, lalign = 8\<rparr>; metrics = \<lparr>lsize = 104, lalign = 8\<rparr> in
     try_bind (ok_or LayoutOverflow (layout_array 8 8 (unat page_count))) (\<lambda>states.
     try_bind (ok_or LayoutOverflow (treiber_stack_layout (unat page_count))) (\<lambda>freelist.
     try_bind (ok_or LayoutOverflow (checked_mul_usize page_size (unat page_count))) (\<lambda>data_size.
     try_bind (ok_or LayoutOverflow (layout_from_size_align data_size page_align)) (\<lambda>data.
     try_bind (ok_or LayoutOverflow (layout_extend header metrics)) (\<lambda>(l1, metrics_offset).
     try_bind (ok_or LayoutOverflow (layout_extend l1 states)) (\<lambda>(l2, states_offset).
     try_bind (ok_or LayoutOverflow (layout_extend l2 (sl_layout freelist))) (\<lambda>(l3, freelist_offset).
     try_bind (ok_or LayoutOverflow (layout_extend l3 data)) (\<lambda>(l4, data_offset).
     Inr \<lparr>cl_region = pad_to_align l4,
          cl_metrics_offset = metrics_offset,
          cl_states_offset = states_offset,
          cl_freelist_offset = freelist_offset,
          cl_freelist_next_offset = freelist_offset + sl_next_offset freelist,
          cl_data_offset = data_offset,
          cl_data_size = data_size\<rparr>)))))))))"

definition compute_layout_from_config :: "page_pool_config \<Rightarrow> config_error + computed_layout" where
  "compute_layout_from_config cfg =
     compute_layout_from_values (cfg_page_size cfg) (cfg_page_count cfg)"

text \<open>The flag of the error tells a short region (\<open>True\<close>) from a misaligned one.\<close>

definition validate_region :: "nat \<Rightarrow> nat \<Rightarrow> nat \<Rightarrow> nat \<Rightarrow> (nat \<times> nat \<times> bool) + unit" where
  "validate_region address len expected_align expected_size =
     (if address mod expected_align \<noteq> 0 then Inl (expected_align, address, False)
      else if len < expected_size then Inl (expected_size, len, True)
      else Inr ())"

definition page_pool_config_new :: "nat \<Rightarrow> u32 \<Rightarrow> config_error + page_pool_config" where
  "page_pool_config_new page_size page_count =
     (if page_size = 0 then Inl ZeroPageSize
      else if page_count = 0 then Inl ZeroPageCount
      else let cfg = \<lparr>cfg_page_size = page_size, cfg_page_count = page_count\<rparr>
           in try_bind (compute_layout_from_config cfg) (\<lambda>_. Inr cfg))"

section \<open>Lemmas\<close>

lemma treiber_stack_layout_Some:
  assumes "treiber_stack_layout n = Some l"
  shows "24 \<le> sl_next_offset l" "4 dvd sl_next_offset l"
    "sl_next_offset l + 4 * n \<le> lsize (sl_layout l)" "lalign (sl_layout l) = 8"
proof -
  from assms obtain na cmb off
    where na: "layout_array 4 4 n = Some na"
      and ext: "layout_extend \<lparr>lsize = 24, lalign = 8\<rparr> na = Some (cmb, off)"
      and l: "l = \<lparr>sl_layout = pad_to_align cmb, sl_next_offset = off\<rparr>"
    by (auto simp: treiber_stack_layout_def split: Option.bind_splits)
  have na': "lsize na = 4 * n" "lalign na = 4"
    using na by (auto simp: layout_array_def split: if_splits)
  note e = layout_extend_Some [OF ext]
  show "24 \<le> sl_next_offset l" "4 dvd sl_next_offset l"
    using e na' l by auto
  show "lalign (sl_layout l) = 8"
    using e na' l by (simp add: pad_to_align_def)
  show "sl_next_offset l + 4 * n \<le> lsize (sl_layout l)"
    using e na' l round_up_ge [of 8 "off + 4 * n"] by (simp add: pad_to_align_def)
qed

lemma compute_layout_parts:
  assumes "compute_layout_from_values ps pc = Inr cl"
  obtains fl l1 l2 l3 l4 where
    "validate_page_size ps = Inr ()" "pc \<noteq> 0"
    "treiber_stack_layout (unat pc) = Some fl"
    "layout_extend \<lparr>lsize = 48, lalign = 8\<rparr> \<lparr>lsize = 104, lalign = 8\<rparr> = Some (l1, cl_metrics_offset cl)"
    "layout_extend l1 \<lparr>lsize = 8 * unat pc, lalign = 8\<rparr> = Some (l2, cl_states_offset cl)"
    "layout_extend l2 (sl_layout fl) = Some (l3, cl_freelist_offset cl)"
    "layout_extend l3 \<lparr>lsize = ps * unat pc, lalign = 64\<rparr> = Some (l4, cl_data_offset cl)"
    "cl_region cl = pad_to_align l4"
    "cl_freelist_next_offset cl = cl_freelist_offset cl + sl_next_offset fl"
    "cl_data_size cl = ps * unat pc"
  using assms
  by (auto simp: compute_layout_from_values_def Let_def try_bind_eq_Inr layout_array_def
      layout_from_size_align_def checked_mul_usize_def page_align_def split: if_splits)

lemma layout_region_align: "compute_layout_from_values ps pc = Inr cl \<Longrightarrow> lalign (cl_region cl) = 64"
proof -
  assume "compute_layout_from_values ps pc = Inr cl"
  from compute_layout_parts [OF this] obtain fl l1 l2 l3 l4 where
    fl: "treiber_stack_layout (unat pc) = Some fl"
    and e1: "layout_extend \<lparr>lsize = 48, lalign = 8\<rparr> \<lparr>lsize = 104, lalign = 8\<rparr> = Some (l1, cl_metrics_offset cl)"
    and e2: "layout_extend l1 \<lparr>lsize = 8 * unat pc, lalign = 8\<rparr> = Some (l2, cl_states_offset cl)"
    and e3: "layout_extend l2 (sl_layout fl) = Some (l3, cl_freelist_offset cl)"
    and e4: "layout_extend l3 \<lparr>lsize = ps * unat pc, lalign = 64\<rparr> = Some (l4, cl_data_offset cl)"
    and rg: "cl_region cl = pad_to_align l4" by metis
  show ?thesis
    using layout_extend_Some(4) [OF e1] layout_extend_Some(4) [OF e2] layout_extend_Some(4) [OF e3]
      layout_extend_Some(4) [OF e4] treiber_stack_layout_Some(4) [OF fl] rg
    by (simp add: pad_to_align_def)
qed

section \<open>Properties\<close>

text \<open>C5: A computed region layout is sound: the header, the metrics, the state words, the free list
  with its \<open>next\<close> array and the page bytes are aligned, lie in this order without overlap, and the
  last page ends inside the region, whose base alignment is that of a page.\<close>

theorem pool_layout_sections:
  assumes "compute_layout_from_values ps pc = Inr cl"
  shows "48 \<le> cl_metrics_offset cl \<and> 8 dvd cl_metrics_offset cl \<and>
    cl_metrics_offset cl + 104 \<le> cl_states_offset cl \<and> 8 dvd cl_states_offset cl \<and>
    cl_states_offset cl + 8 * unat pc \<le> cl_freelist_offset cl \<and> 8 dvd cl_freelist_offset cl \<and>
    cl_freelist_offset cl + 24 \<le> cl_freelist_next_offset cl \<and> 4 dvd cl_freelist_next_offset cl \<and>
    cl_freelist_next_offset cl + 4 * unat pc \<le> cl_data_offset cl \<and> 64 dvd cl_data_offset cl \<and>
    cl_data_offset cl + ps * unat pc \<le> lsize (cl_region cl) \<and>
    lalign (cl_region cl) = 64 \<and> 64 dvd ps \<and> 0 < ps * unat pc"
proof -
  from compute_layout_parts [OF assms] obtain fl l1 l2 l3 l4 where
    ps: "validate_page_size ps = Inr ()" "pc \<noteq> 0"
    and fl: "treiber_stack_layout (unat pc) = Some fl"
    and e1: "layout_extend \<lparr>lsize = 48, lalign = 8\<rparr> \<lparr>lsize = 104, lalign = 8\<rparr> = Some (l1, cl_metrics_offset cl)"
    and e2: "layout_extend l1 \<lparr>lsize = 8 * unat pc, lalign = 8\<rparr> = Some (l2, cl_states_offset cl)"
    and e3: "layout_extend l2 (sl_layout fl) = Some (l3, cl_freelist_offset cl)"
    and e4: "layout_extend l3 \<lparr>lsize = ps * unat pc, lalign = 64\<rparr> = Some (l4, cl_data_offset cl)"
    and rg: "cl_region cl = pad_to_align l4"
      "cl_freelist_next_offset cl = cl_freelist_offset cl + sl_next_offset fl" by metis
  note f = treiber_stack_layout_Some [OF fl]
  have a: "64 dvd ps" "0 < ps"
    using ps(1) by (auto simp: validate_page_size_def page_align_def split: if_splits)
  have "0 < unat pc"
    using ps(2) by (simp add: unat_gt_0)
  moreover have "4 dvd cl_freelist_next_offset cl"
  proof -
    have "8 dvd cl_freelist_offset cl"
      using layout_extend_Some(2) [OF e3] f(4) by simp
    with f(2) rg(2) show ?thesis by presburger
  qed
  ultimately show ?thesis
    using layout_extend_Some [OF e1] layout_extend_Some [OF e2] layout_extend_Some [OF e3]
      layout_extend_Some [OF e4] layout_region_align [OF assms] f a rg round_up_ge [of 64 "lsize l4"]
    by (auto simp: pad_to_align_def)
qed

theorem pool_layout_sections_witness:
  "compute_layout_from_values 4096 3 = Inr \<lparr>cl_region = \<lparr>lsize = 12544, lalign = 64\<rparr>,
      cl_metrics_offset = 48, cl_states_offset = 152, cl_freelist_offset = 176,
      cl_freelist_next_offset = 200, cl_data_offset = 256, cl_data_size = 12288\<rparr> \<and>
   256 + 4096 * unat (3 :: u32) \<le> (12544 :: nat)"
proof -
  let ?cl = "\<lparr>cl_region = \<lparr>lsize = 12544, lalign = 64\<rparr>,
      cl_metrics_offset = 48, cl_states_offset = 152, cl_freelist_offset = 176,
      cl_freelist_next_offset = 200, cl_data_offset = 256, cl_data_size = 12288\<rparr>"
  have "compute_layout_from_values 4096 3 = Inr ?cl"
    by (simp add: compute_layout_from_values_def validate_page_size_def page_align_def
        treiber_stack_layout_def layout_defs)
  with pool_layout_sections [OF this] show ?thesis by simp
qed

end
