(* ===== verification/Page_Pool.thy ===== *)
theory Page_Pool
  imports Pool_Layout
begin

text \<open>
  The shared-memory page pool: \<^verbatim>\<open>src/page/pool/src/shm.rs\<close>, \<^verbatim>\<open>pool.rs\<close> and \<^verbatim>\<open>lease.rs\<close>. A
  \<open>pool_region\<close> is the shared memory (header, metrics, state words, free list, page bytes) and a
  \<open>pool_handle\<close> is a process's view of it; the operations take both, so several handles can work
  on one region. A page is free, attached to a lease, detached into a descriptor, or exhausted; its
  state word packs that and a 62-bit generation.

  Every operation runs alone here: its compare-and-exchange loops succeed at the first turn and the
  retry counters stay. \<open>None\<close> is a panic or an access outside the state array.

  This theory holds the model; \<open>Page_Pool_Proofs\<close> holds the invariant and the properties.
\<close>

section \<open>shm.rs: constants, header, metrics, state words\<close>

definition page_pool_magic :: u64 where
  "page_pool_magic = 0x50414745504f4f4c"

definition page_pool_version :: u32 where
  "page_pool_version = 3"

definition state_mask :: u64 where
  "state_mask = push_bit 62 3"

definition generation_mask :: u64 where
  "generation_mask = NOT state_mask"

definition max_generation :: u64 where
  "max_generation = generation_mask"

datatype lease_state = Free | Attached | Detached | Exhausted

fun lease_raw :: "lease_state \<Rightarrow> u8" where
  "lease_raw Free = 0"
| "lease_raw Attached = 1"
| "lease_raw Detached = 2"
| "lease_raw Exhausted = 3"

definition lease_from_raw :: "u8 \<Rightarrow> lease_state option" where
  "lease_from_raw raw =
     (if raw = 0 then Some Free else if raw = 1 then Some Attached
      else if raw = 2 then Some Detached else if raw = 3 then Some Exhausted else None)"

record pool_header =
  hd_magic :: u64
  hd_version :: u32
  hd_page_size :: u64
  hd_page_count :: u32
  hd_region_size :: u64
  hd_pool_id :: u64

record shared_metrics =
  m_acquire_ok :: u64
  m_acquire_empty :: u64
  m_release_ok :: u64
  m_release_exhausted :: u64
  m_release_bad_page :: u64
  m_release_stale_generation :: u64
  m_release_still_attached :: u64
  m_release_not_leased :: u64
  m_acquire_retry_loops :: u64
  m_release_retry_loops :: u64
  m_leased_pages :: u64
  m_exhausted_pages :: u64
  m_high_watermark_pages :: u64

definition metrics_zeroed :: shared_metrics where
  "metrics_zeroed = \<lparr>m_acquire_ok = 0, m_acquire_empty = 0, m_release_ok = 0,
     m_release_exhausted = 0, m_release_bad_page = 0, m_release_stale_generation = 0,
     m_release_still_attached = 0, m_release_not_leased = 0, m_acquire_retry_loops = 0,
     m_release_retry_loops = 0, m_leased_pages = 0, m_exhausted_pages = 0,
     m_high_watermark_pages = 0\<rparr>"

definition pack_state :: "u64 \<Rightarrow> lease_state \<Rightarrow> u64" where
  "pack_state generation st = (generation AND generation_mask) OR push_bit 62 (ucast (lease_raw st))"

definition unpack_state :: "u64 \<Rightarrow> u64 \<times> u8" where
  "unpack_state w = (w AND generation_mask, ucast (drop_bit 62 (w AND state_mask)))"

section \<open>error.rs and types.rs\<close>

datatype init_error =
    Init_InvalidConfig config_error
  | Init_RegionTooSmall nat nat
  | Init_BadAlignment nat nat

datatype attach_error =
    Attach_RegionTooSmall nat nat
  | Attach_BadAlignment nat nat
  | Attach_BadMagic u64 u64
  | Attach_UnsupportedVersion u32 u32
  | Attach_InvalidConfig config_error
  | Attach_LayoutMismatch nat nat

datatype acquire_error =
    Acquire_Empty
  | Acquire_CorruptState u32 u64 u8

datatype detach_error =
    Detach_StaleGeneration u32 u64 u64
  | Detach_NotAttached u32 u64 u8
  | Detach_CorruptState u32 u64 u8

datatype release_error =
    Release_PoolMismatch u64 u64
  | Release_BadPageId u32 u32
  | Release_StaleGeneration u32 u64 u64
  | Release_LeaseStillAttached u32 u64
  | Release_Exhausted u32 u64
  | Release_NotLeased u32 u64
  | Release_CorruptState u32 u64 u8
  | Release_CorruptFreeList u32

datatype access_error =
    Access_PoolMismatch u64 u64
  | Access_BadPageId u32 u32
  | Access_StaleGeneration u32 u64 u64
  | Access_LeaseStillAttached u32 u64
  | Access_Exhausted u32 u64
  | Access_NotLeased u32 u64
  | Access_CorruptState u32 u64 u8

record page_descriptor =
  pd_pool_id :: u64
  pd_page_id :: u32
  pd_generation :: u64

record pool_snapshot =
  ps_page_size :: nat
  ps_page_count :: u32
  ps_free_pages :: u64
  ps_leased_pages :: u64
  ps_exhausted_pages :: u64
  ps_high_watermark_pages :: u64
  ps_counters :: shared_metrics

record pool_handle =
  ph_pool_id :: u64
  ph_page_size :: nat
  ph_page_count :: u32
  ph_region_size :: nat

record pool_region =
  rg_header :: pool_header
  rg_metrics :: shared_metrics
  rg_states :: "u64 list"
  rg_freelist :: treiber_stack
  rg_data :: bytes

record page_lease =
  pl_pool :: pool_handle
  pl_descriptor :: page_descriptor
  pl_detached :: bool

section \<open>Creating and attaching\<close>

definition mix64 :: "u64 \<Rightarrow> u64" where
  "mix64 v0 =
     (let v1 = v0 XOR drop_bit 30 v0;
          v2 = v1 * 0xbf58476d1ce4e5b9;
          v3 = v2 XOR drop_bit 27 v2;
          v4 = v3 * 0x94d049bb133111eb
      in v4 XOR drop_bit 31 v4)"

text \<open>The clock, the process id and the counter of the process are inputs.\<close>

definition fresh_pool_id ::
  "128 word \<Rightarrow> u64 \<Rightarrow> u32 \<Rightarrow> nat \<Rightarrow> nat \<Rightarrow> page_pool_config \<Rightarrow> u64" where
  "fresh_pool_id time_seed counter process_id base len cfg =
     (let seed = time_seed
            XOR push_bit 64 (of_nat base)
            XOR push_bit 32 (of_nat len)
            XOR push_bit 16 (of_nat (cfg_page_size cfg))
            XOR push_bit 96 (ucast (cfg_page_count cfg))
            XOR push_bit 48 (ucast process_id)
            XOR ucast counter;
          i = mix64 (ucast seed) XOR mix64 (ucast (drop_bit 64 seed))
      in if i = 0 then 1 else i)"

definition build_handle :: "u64 \<Rightarrow> nat \<Rightarrow> u32 \<Rightarrow> computed_layout \<Rightarrow> pool_handle" where
  "build_handle pool_id page_size page_count computed =
     \<lparr>ph_pool_id = pool_id, ph_page_size = page_size, ph_page_count = page_count,
      ph_region_size = lsize (cl_region computed)\<rparr>"

definition pool_init_in_place ::
  "nat \<Rightarrow> nat \<Rightarrow> page_pool_config \<Rightarrow> u64 \<Rightarrow> (init_error + pool_region \<times> pool_handle) option" where
  "pool_init_in_place base len cfg pool_id =
     (case map_err Init_InvalidConfig (compute_layout_from_config cfg) of
        Inl e \<Rightarrow> Some (Inl e)
      | Inr computed \<Rightarrow>
        (case validate_region base len (lalign (cl_region computed)) (lsize (cl_region computed)) of
           Inl (expected, actual, short) \<Rightarrow>
             Some (Inl (if short then Init_RegionTooSmall expected actual
                        else Init_BadAlignment expected actual))
         | Inr _ \<Rightarrow> do {
             freelist \<leftarrow> stack_init_in_place (unat (cfg_page_count cfg));
             Some (Inr
               (\<lparr>rg_header = \<lparr>hd_magic = page_pool_magic, hd_version = page_pool_version,
                   hd_page_size = of_nat (cfg_page_size cfg), hd_page_count = cfg_page_count cfg,
                   hd_region_size = of_nat (lsize (cl_region computed)), hd_pool_id = pool_id\<rparr>,
                 rg_metrics = metrics_zeroed,
                 rg_states = replicate (unat (cfg_page_count cfg)) (pack_state 0 Free),
                 rg_freelist = freelist,
                 rg_data = replicate (cl_data_size computed) 0\<rparr>,
                build_handle pool_id (cfg_page_size cfg) (cfg_page_count cfg) computed))
           }))"

definition pool_attach :: "nat \<Rightarrow> nat \<Rightarrow> pool_region \<Rightarrow> attach_error + pool_handle" where
  "pool_attach base len r =
     (let header = rg_header r in
      if len < 48 then Inl (Attach_RegionTooSmall 48 len)
      else if base mod 8 \<noteq> 0 then Inl (Attach_BadAlignment 8 base)
      else if hd_magic header \<noteq> page_pool_magic
        then Inl (Attach_BadMagic page_pool_magic (hd_magic header))
      else if hd_version header \<noteq> page_pool_version
        then Inl (Attach_UnsupportedVersion page_pool_version (hd_version header))
      else let page_size = unat (hd_page_size header); page_count = hd_page_count header in
        try_bind (map_err Attach_InvalidConfig (compute_layout_from_values page_size page_count))
          (\<lambda>computed.
        if unat (hd_region_size header) \<noteq> lsize (cl_region computed)
          then Inl (Attach_LayoutMismatch (lsize (cl_region computed)) (unat (hd_region_size header)))
        else try_bind (map_err
               (\<lambda>(expected, actual, short). if short then Attach_RegionTooSmall expected actual
                                             else Attach_BadAlignment expected actual)
               (validate_region base len (lalign (cl_region computed)) (lsize (cl_region computed))))
          (\<lambda>_. Inr (build_handle (hd_pool_id header) page_size page_count computed))))"

section \<open>Acquiring\<close>

definition observe_high_watermark :: "u64 \<Rightarrow> shared_metrics \<Rightarrow> shared_metrics" where
  "observe_high_watermark leased_pages m =
     (if m_high_watermark_pages m < leased_pages
      then m\<lparr>m_high_watermark_pages := leased_pages\<rparr> else m)"

definition pool_try_acquire ::
  "pool_handle \<Rightarrow> pool_region \<Rightarrow> (pool_region \<times> (acquire_error + page_lease)) option" where
  "pool_try_acquire h r = do {
     (fl, res) \<leftarrow> stack_allocate (rg_freelist r);
     (case res of
        Inl Full \<Rightarrow> None
      | Inl Empty \<Rightarrow>
          Some (r\<lparr>rg_freelist := fl,
                  rg_metrics := (rg_metrics r)\<lparr>m_acquire_empty := m_acquire_empty (rg_metrics r) + 1\<rparr>\<rparr>,
                Inl Acquire_Empty)
      | Inr page_id \<Rightarrow> do {
          current \<leftarrow> index_opt (rg_states r) (unat page_id);
          let (generation, raw_state) = unpack_state current in
          if raw_state \<noteq> lease_raw Free
            then Some (r\<lparr>rg_freelist := fl\<rparr>, Inl (Acquire_CorruptState page_id generation raw_state))
          else if generation = - 1
            then Some (r\<lparr>rg_freelist := fl\<rparr>, Inl (Acquire_CorruptState page_id generation raw_state))
          else let next_generation = generation + 1;
                   m = rg_metrics r;
                   m1 = m\<lparr>m_acquire_ok := m_acquire_ok m + 1\<rparr>;
                   leased_pages = m_leased_pages m1 + 1;
                   m2 = m1\<lparr>m_leased_pages := leased_pages\<rparr>
               in Some (r\<lparr>rg_freelist := fl,
                        rg_states := (rg_states r)[unat page_id := pack_state next_generation Attached],
                        rg_metrics := observe_high_watermark leased_pages m2\<rparr>,
                      Inr \<lparr>pl_pool = h,
                           pl_descriptor = \<lparr>pd_pool_id = ph_pool_id h, pd_page_id = page_id,
                                            pd_generation = next_generation\<rparr>,
                           pl_detached = False\<rparr>)
        })
   }"

section \<open>Releasing\<close>

definition pool_page_index :: "pool_handle \<Rightarrow> u32 \<Rightarrow> release_error + nat" where
  "pool_page_index h page_id =
     (if unat (ph_page_count h) \<le> unat page_id
      then Inl (Release_BadPageId page_id (ph_page_count h)) else Inr (unat page_id))"

text \<open>
  The answer when the page is not in the state the caller expects, and whether the failure is
  counted. Only \<open>Attached\<close> and \<open>Detached\<close> are ever expected; the last case is
  \<open>unreachable!\<close>.
\<close>

fun release_mismatch ::
  "lease_state \<Rightarrow> lease_state \<Rightarrow> u32 \<Rightarrow> u64 \<Rightarrow> shared_metrics \<Rightarrow> bool \<Rightarrow>
     (shared_metrics \<times> release_error) option" where
  "release_mismatch Detached Attached page_id g m count_errors =
     Some (if count_errors then m\<lparr>m_release_still_attached := m_release_still_attached m + 1\<rparr> else m,
           Release_LeaseStillAttached page_id g)"
| "release_mismatch _ Exhausted page_id g m count_errors = Some (m, Release_Exhausted page_id g)"
| "release_mismatch Detached Free page_id g m count_errors =
     Some (if count_errors then m\<lparr>m_release_not_leased := m_release_not_leased m + 1\<rparr> else m,
           Release_NotLeased page_id g)"
| "release_mismatch Attached Free page_id g m count_errors =
     Some (if count_errors then m\<lparr>m_release_not_leased := m_release_not_leased m + 1\<rparr> else m,
           Release_NotLeased page_id g)"
| "release_mismatch Attached Detached page_id g m count_errors =
     Some (m, Release_CorruptState page_id g (lease_raw Detached))"
| "release_mismatch _ _ _ _ _ _ = None"

text \<open>
  The state word has been changed; the page goes back on the free list unless it is retired. A
  refusal of the free list puts the expected state back.
\<close>

definition release_finish ::
  "pool_region \<Rightarrow> page_descriptor \<Rightarrow> lease_state \<Rightarrow> bool \<Rightarrow>
     (pool_region \<times> (release_error + unit)) option" where
  "release_finish r desc expected_state release_to_exhausted =
     (let done_ok = (\<lambda>r. let m = rg_metrics r;
              m1 = m\<lparr>m_release_ok := m_release_ok m + 1\<rparr>;
              m2 = (if release_to_exhausted
                    then m1\<lparr>m_release_exhausted := m_release_exhausted m1 + 1,
                            m_exhausted_pages := m_exhausted_pages m1 + 1\<rparr> else m1);
              m3 = m2\<lparr>m_leased_pages := m_leased_pages m2 - 1\<rparr>
          in (r\<lparr>rg_metrics := m3\<rparr>, Inr ()))
      in if release_to_exhausted then Some (done_ok r)
         else do {
           (fl, res) \<leftarrow> stack_release (rg_freelist r) (pd_page_id desc);
           (case res of
              Inl Full \<Rightarrow> do {
                current \<leftarrow> index_opt (rg_states r) (unat (pd_page_id desc));
                let (generation, raw_state) = unpack_state current;
                    r1 = r\<lparr>rg_freelist := fl\<rparr>;
                    r2 = (if generation \<noteq> pd_generation desc \<or> raw_state \<noteq> lease_raw Free then r1
                          else r1\<lparr>rg_states := (rg_states r)[unat (pd_page_id desc) :=
                                 pack_state generation expected_state]\<rparr>)
                in Some (r2, Inl (Release_CorruptFreeList (pd_page_id desc)))
              }
            | _ \<Rightarrow> Some (done_ok (r\<lparr>rg_freelist := fl\<rparr>)))
         })"

definition release_with_state ::
  "pool_handle \<Rightarrow> pool_region \<Rightarrow> page_descriptor \<Rightarrow> lease_state \<Rightarrow> bool \<Rightarrow>
     (pool_region \<times> (release_error + unit)) option" where
  "release_with_state h r desc expected_state count_errors =
     (let m = rg_metrics r in
      if pd_pool_id desc \<noteq> ph_pool_id h
        then Some (r, Inl (Release_PoolMismatch (ph_pool_id h) (pd_pool_id desc)))
      else (case pool_page_index h (pd_page_id desc) of
        Inl err \<Rightarrow>
          Some (if count_errors
                then r\<lparr>rg_metrics := m\<lparr>m_release_bad_page := m_release_bad_page m + 1\<rparr>\<rparr> else r,
                Inl err)
      | Inr page_index \<Rightarrow> do {
          current \<leftarrow> index_opt (rg_states r) page_index;
          let (generation, raw_state) = unpack_state current in
          if generation \<noteq> pd_generation desc
            then Some (if count_errors
                       then r\<lparr>rg_metrics :=
                              m\<lparr>m_release_stale_generation := m_release_stale_generation m + 1\<rparr>\<rparr>
                       else r,
                       Inl (Release_StaleGeneration (pd_page_id desc) generation (pd_generation desc)))
          else (case lease_from_raw raw_state of
              None \<Rightarrow> Some (r, Inl (Release_CorruptState (pd_page_id desc) generation raw_state))
            | Some actual_state \<Rightarrow>
                if actual_state \<noteq> expected_state
                then do {
                  (m', e) \<leftarrow> release_mismatch expected_state actual_state (pd_page_id desc)
                                generation m count_errors;
                  Some (r\<lparr>rg_metrics := m'\<rparr>, Inl e)
                }
                else let release_to_exhausted = (generation = max_generation);
                         released_state = pack_state generation
                           (if release_to_exhausted then Exhausted else Free)
                     in release_finish (r\<lparr>rg_states := (rg_states r)[page_index := released_state]\<rparr>)
                          desc expected_state release_to_exhausted)
        }))"

definition pool_release ::
  "pool_handle \<Rightarrow> pool_region \<Rightarrow> page_descriptor \<Rightarrow> (pool_region \<times> (release_error + unit)) option" where
  "pool_release h r desc = release_with_state h r desc Detached True"

definition pool_release_attached ::
  "pool_handle \<Rightarrow> pool_region \<Rightarrow> page_descriptor \<Rightarrow> (pool_region \<times> (release_error + unit)) option" where
  "pool_release_attached h r desc = release_with_state h r desc Attached False"

section \<open>Detaching and reading\<close>

definition pool_detach_descriptor ::
  "pool_region \<Rightarrow> page_descriptor \<Rightarrow> (pool_region \<times> (detach_error + unit)) option" where
  "pool_detach_descriptor r desc = do {
     current \<leftarrow> index_opt (rg_states r) (unat (pd_page_id desc));
     let (generation, raw_state) = unpack_state current in
     if generation \<noteq> pd_generation desc
       then Some (r, Inl (Detach_StaleGeneration (pd_page_id desc) generation (pd_generation desc)))
     else (case lease_from_raw raw_state of
         None \<Rightarrow> Some (r, Inl (Detach_CorruptState (pd_page_id desc) generation raw_state))
       | Some actual_state \<Rightarrow>
           if actual_state \<noteq> Attached
             then Some (r, Inl (Detach_NotAttached (pd_page_id desc) generation raw_state))
           else Some (r\<lparr>rg_states := (rg_states r)[unat (pd_page_id desc) :=
                          pack_state generation Detached]\<rparr>, Inr ()))
   }"

definition validate_detached_descriptor ::
  "pool_handle \<Rightarrow> pool_region \<Rightarrow> page_descriptor \<Rightarrow> (access_error + nat) option" where
  "validate_detached_descriptor h r desc =
     (if pd_pool_id desc \<noteq> ph_pool_id h
        then Some (Inl (Access_PoolMismatch (ph_pool_id h) (pd_pool_id desc)))
      else if unat (ph_page_count h) \<le> unat (pd_page_id desc)
        then Some (Inl (Access_BadPageId (pd_page_id desc) (ph_page_count h)))
      else do {
        current \<leftarrow> index_opt (rg_states r) (unat (pd_page_id desc));
        let (generation, raw_state) = unpack_state current in
        if generation \<noteq> pd_generation desc
          then Some (Inl (Access_StaleGeneration (pd_page_id desc) generation (pd_generation desc)))
        else Some (case lease_from_raw raw_state of
            Some Detached \<Rightarrow> Inr (unat (pd_page_id desc))
          | Some Attached \<Rightarrow> Inl (Access_LeaseStillAttached (pd_page_id desc) generation)
          | Some Exhausted \<Rightarrow> Inl (Access_Exhausted (pd_page_id desc) generation)
          | Some Free \<Rightarrow> Inl (Access_NotLeased (pd_page_id desc) generation)
          | None \<Rightarrow> Inl (Access_CorruptState (pd_page_id desc) generation raw_state))
      })"

definition page_slice :: "pool_handle \<Rightarrow> pool_region \<Rightarrow> nat \<Rightarrow> bytes" where
  "page_slice h r page_index = take (ph_page_size h) (drop (page_index * ph_page_size h) (rg_data r))"

definition pool_page_bytes ::
  "pool_handle \<Rightarrow> pool_region \<Rightarrow> page_descriptor \<Rightarrow> (access_error + bytes) option" where
  "pool_page_bytes h r desc = do {
     v \<leftarrow> validate_detached_descriptor h r desc;
     Some (case v of Inl e \<Rightarrow> Inl e | Inr _ \<Rightarrow> Inr (page_slice h r (unat (pd_page_id desc))))
   }"

text \<open>A store of \<open>src\<close> at offset \<open>start\<close> of a page, through \<open>bytes_mut\<close> of a lease.\<close>

definition page_write :: "pool_handle \<Rightarrow> pool_region \<Rightarrow> nat \<Rightarrow> nat \<Rightarrow> bytes \<Rightarrow> pool_region" where
  "page_write h r page_index start src =
     r\<lparr>rg_data := copy_at (rg_data r) (page_index * ph_page_size h + start) src\<rparr>"

definition pool_snapshot_of :: "pool_handle \<Rightarrow> pool_region \<Rightarrow> pool_snapshot" where
  "pool_snapshot_of h r =
     (let m = rg_metrics r
      in \<lparr>ps_page_size = ph_page_size h, ps_page_count = ph_page_count h,
          ps_free_pages = saturating_sub_u64 (saturating_sub_u64 (ucast (ph_page_count h))
             (m_leased_pages m)) (m_exhausted_pages m),
          ps_leased_pages = m_leased_pages m, ps_exhausted_pages = m_exhausted_pages m,
          ps_high_watermark_pages = m_high_watermark_pages m, ps_counters = m\<rparr>)"

section \<open>lease.rs\<close>

text \<open>Dropping a lease returns its page unless it was detached; the result is discarded.\<close>

definition lease_drop :: "pool_region \<Rightarrow> page_lease \<Rightarrow> pool_region option" where
  "lease_drop r l =
     (if pl_detached l then Some r
      else do { (r', _) \<leftarrow> pool_release_attached (pl_pool l) r (pl_descriptor l); Some r' })"

text \<open>\<open>into_descriptor\<close> consumes the lease: on failure the lease is dropped, still attached.\<close>

definition lease_into_descriptor ::
  "pool_region \<Rightarrow> page_lease \<Rightarrow> (pool_region \<times> (detach_error + page_descriptor)) option" where
  "lease_into_descriptor r l = do {
     (r1, res) \<leftarrow> pool_detach_descriptor r (pl_descriptor l);
     (case res of
        Inl e \<Rightarrow> do { r2 \<leftarrow> lease_drop r1 l; Some (r2, Inl e) }
      | Inr _ \<Rightarrow> Some (r1, Inr (pl_descriptor l)))
   }"

definition lease_bytes :: "pool_region \<Rightarrow> page_lease \<Rightarrow> bytes" where
  "lease_bytes r l = page_slice (pl_pool l) r (unat (pd_page_id (pl_descriptor l)))"

definition lease_write :: "pool_region \<Rightarrow> page_lease \<Rightarrow> nat \<Rightarrow> bytes \<Rightarrow> pool_region" where
  "lease_write r l start src =
     page_write (pl_pool l) r (unat (pd_page_id (pl_descriptor l))) start src"

end
