(* ===== verification/Transfer_Wire.thy ===== *)
theory Transfer_Wire
  imports Page_Pool Rmp
begin

text \<open>
  The encodings of the page transfer: the header in front of a page's payload
  (\<^verbatim>\<open>src/page/transfer/src/page.rs\<close>), the control frames (\<^verbatim>\<open>wire.rs\<close>) and the incremental
  decoder of fixed-size frames (\<^verbatim>\<open>codec.rs\<close>). The decoder is written once over the header length
  and the frame parser, since \<^verbatim>\<open>src/page/issuance/src/codec.rs\<close> is the same code over its own frames.

  An encoder takes the output slice and returns it as it is left beside the result.
\<close>

section \<open>Errors\<close>

datatype encode_error =
    Enc_BufferTooSmall nat nat
  | Enc_HeaderEncodeFailed nat nat

datatype decode_error =
    Dec_BadArrayLen u32 u32
  | Dec_InvalidMagic u32 u32
  | Dec_UnsupportedVersion u16 u16
  | Dec_InvalidFrameKind u8
  | Dec_NonZeroFlags u8
  | Dec_NonZeroCloseDescriptor
  | Dec_TrailingBytes nat nat

datatype invalid_page_error =
    Inv_BadArrayLen u32 u32
  | Inv_InvalidMagic u32 u32
  | Inv_UnsupportedVersion u16 u16
  | Inv_PayloadTooLarge u32 nat
  | Inv_TrailingBytes nat nat

section \<open>Fixed-size headers\<close>

text \<open>
  The common shape of the encoders: the fields are written one by one into the first \<open>len\<close> bytes of
  the slice; a write that does not fit, or room left at the end, is an error that reports how much was
  written.
\<close>

definition encode_header :: "nat \<Rightarrow> bytes list \<Rightarrow> bytes \<Rightarrow> bytes \<times> (encode_error + unit)" where
  "encode_header len parts out =
     (if length out < len then (out, Inl (Enc_BufferTooSmall len (length out)))
      else case slice_write_each (slice_writer_new len) parts of
          Inl w \<Rightarrow> (copy_at out 0 (sw_out w), Inl (Enc_HeaderEncodeFailed len (len - sw_room w)))
        | Inr w \<Rightarrow> (copy_at out 0 (sw_out w),
                   if sw_room w \<noteq> 0 then Inl (Enc_HeaderEncodeFailed len (len - sw_room w)) else Inr ()))"

lemma encode_header_exact:
  assumes "length (concat parts) = len" and "len \<le> length out"
  shows "encode_header len parts out = (copy_at out 0 (concat parts), Inr ())"
  using assms slice_write_each_fits [of parts "slice_writer_new len"]
  by (simp add: encode_header_def slice_writer_new_def)

section \<open>page.rs: the header in the page\<close>

definition page_magic :: u32 where "page_magic = 0x50545031"
definition page_version :: u16 where "page_version = 1"
definition page_header_array_len :: u32 where "page_header_array_len = 5"
definition page_header_len :: nat where "page_header_len = 20"

record page_header =
  hdr_kind :: u16
  hdr_flags :: u16
  hdr_payload_len :: u32

definition encode_page_header :: "rmp \<Rightarrow> page_header \<Rightarrow> bytes \<Rightarrow> bytes \<times> (encode_error + unit)" where
  "encode_page_header M header out = encode_header page_header_len
     [w_array_len M page_header_array_len, w_u32 M page_magic, w_u16 M page_version,
      w_u16 M (hdr_kind header), w_u16 M (hdr_flags header), w_u32 M (hdr_payload_len header)] out"

definition decode_page_header :: "rmp \<Rightarrow> bytes \<Rightarrow> invalid_page_error + page_header" where
  "decode_page_header M bs =
     try_bind (ok_or (Inv_BadArrayLen page_header_array_len 0) (r_array_len M bs)) (\<lambda>(array_len, c1).
     if array_len \<noteq> page_header_array_len
       then Inl (Inv_BadArrayLen page_header_array_len array_len) else
     try_bind (ok_or (Inv_InvalidMagic page_magic 0) (r_u32 M c1)) (\<lambda>(magic, c2).
     if magic \<noteq> page_magic then Inl (Inv_InvalidMagic page_magic magic) else
     try_bind (ok_or (Inv_UnsupportedVersion page_version 0) (r_u16 M c2)) (\<lambda>(version, c3).
     if version \<noteq> page_version then Inl (Inv_UnsupportedVersion page_version version) else
     try_bind (ok_or (Inv_BadArrayLen page_header_array_len array_len) (r_u16 M c3)) (\<lambda>(kind, c4).
     try_bind (ok_or (Inv_BadArrayLen page_header_array_len array_len) (r_u16 M c4)) (\<lambda>(flags, c5).
     try_bind (ok_or (Inv_BadArrayLen page_header_array_len array_len) (r_u32 M c5)) (\<lambda>(payload_len, c6).
     if c6 \<noteq> [] then Inl (Inv_TrailingBytes (length bs - length c6) (length bs)) else
     Inr \<lparr>hdr_kind = kind, hdr_flags = flags, hdr_payload_len = payload_len\<rparr>))))))"

section \<open>wire.rs: control frames\<close>

definition transport_magic :: u32 where "transport_magic = 0x50544631"
definition transport_version :: u16 where "transport_version = 1"
definition transport_flags_v1 :: u8 where "transport_flags_v1 = 0"
definition transport_header_array_len :: u32 where "transport_header_array_len = 8"
definition transport_header_len :: nat where "transport_header_len = 45"

datatype frame_kind = Kind_Page | Kind_Close

fun frame_kind_raw :: "frame_kind \<Rightarrow> u8" where
  "frame_kind_raw Kind_Page = 1"
| "frame_kind_raw Kind_Close = 2"

definition frame_kind_from_u8 :: "u8 \<Rightarrow> decode_error + frame_kind" where
  "frame_kind_from_u8 v =
     (if v = 1 then Inr Kind_Page else if v = 2 then Inr Kind_Close else Inl (Dec_InvalidFrameKind v))"

record page_frame =
  pf_transfer_id :: u64
  pf_descriptor :: page_descriptor

datatype owned_frame = Frame_Page page_frame | Frame_Close u64

fun frame_transfer_id :: "owned_frame \<Rightarrow> u64" where
  "frame_transfer_id (Frame_Page frame) = pf_transfer_id frame"
| "frame_transfer_id (Frame_Close transfer_id) = transfer_id"

fun owned_frame_kind :: "owned_frame \<Rightarrow> frame_kind" where
  "owned_frame_kind (Frame_Page _) = Kind_Page"
| "owned_frame_kind (Frame_Close _) = Kind_Close"

definition zero_descriptor :: page_descriptor where
  "zero_descriptor = \<lparr>pd_pool_id = 0, pd_page_id = 0, pd_generation = 0\<rparr>"

fun frame_parts :: "owned_frame \<Rightarrow> frame_kind \<times> u64 \<times> page_descriptor" where
  "frame_parts (Frame_Page frame) = (Kind_Page, pf_transfer_id frame, pf_descriptor frame)"
| "frame_parts (Frame_Close transfer_id) = (Kind_Close, transfer_id, zero_descriptor)"

definition encode_owned_frame :: "rmp \<Rightarrow> owned_frame \<Rightarrow> bytes \<Rightarrow> bytes \<times> (encode_error + nat)" where
  "encode_owned_frame M frame out =
     (let (kind, transfer_id, descriptor) = frame_parts frame;
          (out', res) = encode_header transport_header_len
            [w_array_len M transport_header_array_len, w_u32 M transport_magic,
             w_u16 M transport_version, w_u8 M (frame_kind_raw kind), w_u8 M transport_flags_v1,
             w_u64 M transfer_id, w_u64 M (pd_pool_id descriptor), w_u32 M (pd_page_id descriptor),
             w_u64 M (pd_generation descriptor)] out
      in (out', try_bind res (\<lambda>_. Inr transport_header_len)))"

definition decode_owned_frame :: "rmp \<Rightarrow> bytes \<Rightarrow> decode_error + owned_frame" where
  "decode_owned_frame M bs =
     try_bind (ok_or (Dec_BadArrayLen transport_header_array_len 0) (r_array_len M bs)) (\<lambda>(array_len, c1).
     if array_len \<noteq> transport_header_array_len
       then Inl (Dec_BadArrayLen transport_header_array_len array_len) else
     try_bind (ok_or (Dec_InvalidMagic transport_magic 0) (r_u32 M c1)) (\<lambda>(magic, c2).
     if magic \<noteq> transport_magic then Inl (Dec_InvalidMagic transport_magic magic) else
     try_bind (ok_or (Dec_UnsupportedVersion transport_version 0) (r_u16 M c2)) (\<lambda>(version, c3).
     if version \<noteq> transport_version then Inl (Dec_UnsupportedVersion transport_version version) else
     try_bind (ok_or (Dec_InvalidFrameKind 0) (r_u8 M c3)) (\<lambda>(raw_kind, c4).
     try_bind (frame_kind_from_u8 raw_kind) (\<lambda>kind.
     try_bind (ok_or (Dec_NonZeroFlags 0) (r_u8 M c4)) (\<lambda>(flags, c5).
     if flags \<noteq> transport_flags_v1 then Inl (Dec_NonZeroFlags flags) else
     try_bind (ok_or (Dec_TrailingBytes 0 0) (r_u64 M c5)) (\<lambda>(transfer_id, c6).
     try_bind (ok_or (Dec_TrailingBytes 0 0) (r_u64 M c6)) (\<lambda>(pool_id, c7).
     try_bind (ok_or (Dec_TrailingBytes 0 0) (r_u32 M c7)) (\<lambda>(page_id, c8).
     try_bind (ok_or (Dec_TrailingBytes 0 0) (r_u64 M c8)) (\<lambda>(generation, c9).
     if c9 \<noteq> [] then Inl (Dec_TrailingBytes (length bs - length c9) (length bs)) else
     case kind of
       Kind_Page \<Rightarrow> Inr (Frame_Page \<lparr>pf_transfer_id = transfer_id,
         pf_descriptor = \<lparr>pd_pool_id = pool_id, pd_page_id = page_id, pd_generation = generation\<rparr>\<rparr>)
     | Kind_Close \<Rightarrow> if pool_id \<noteq> 0 \<or> page_id \<noteq> 0 \<or> generation \<noteq> 0
         then Inl Dec_NonZeroCloseDescriptor else Inr (Frame_Close transfer_id)))))))))))"

section \<open>codec.rs: frames on a byte stream\<close>

definition encode_frame :: "rmp \<Rightarrow> owned_frame \<Rightarrow> encode_error + bytes" where
  "encode_frame M frame =
     (let (buf, res) = encode_owned_frame M frame (replicate transport_header_len 0)
      in try_bind res (\<lambda>written.
         if written \<noteq> transport_header_len
         then Inl (Enc_HeaderEncodeFailed transport_header_len written) else Inr buf))"

record frame_decoder =
  fd_header :: bytes
  fd_filled :: nat

definition frame_decoder_new :: "nat \<Rightarrow> frame_decoder" where
  "frame_decoder_new len = \<lparr>fd_header = replicate len 0, fd_filled = 0\<rparr>"

text \<open>
  \<open>decode_next\<close> takes what is left of the input and returns it beside the new decoder. The private
  \<open>filled\<close> stays below the header length.
\<close>

definition decode_next ::
  "nat \<Rightarrow> (bytes \<Rightarrow> 'e + 'f) \<Rightarrow> frame_decoder \<Rightarrow> bytes \<Rightarrow> frame_decoder \<times> bytes \<times> ('e + 'f option)" where
  "decode_next len dec d input =
     (if fd_filled d = 0 \<and> len \<le> length input
      then (d, drop len input, map_sum id Some (dec (take len input)))
      else if input = [] then (d, input, Inr None)
      else let needed = len - fd_filled d;
               copied = min needed (length input);
               d1 = \<lparr>fd_header = copy_at (fd_header d) (fd_filled d) (take copied input),
                     fd_filled = fd_filled d + copied\<rparr>;
               rest = drop copied input
           in if fd_filled d1 < len then (d1, rest, Inr None)
              else (d1\<lparr>fd_filled := 0\<rparr>, rest, map_sum id Some (dec (fd_header d1))))"

record frame_iter =
  fi_decoder :: frame_decoder
  fi_input :: bytes
  fi_done :: bool

definition frame_iter_next ::
  "nat \<Rightarrow> (bytes \<Rightarrow> 'e + 'f) \<Rightarrow> frame_iter \<Rightarrow> frame_iter \<times> ('e + 'f) option" where
  "frame_iter_next len dec it =
     (if fi_done it then (it, None)
      else let (d, rest, res) = decode_next len dec (fi_decoder it) (fi_input it) in
        case res of
          Inr (Some frame) \<Rightarrow> (it\<lparr>fi_decoder := d, fi_input := rest\<rparr>, Some (Inr frame))
        | Inr None \<Rightarrow> (it\<lparr>fi_decoder := d, fi_input := rest, fi_done := True\<rparr>, None)
        | Inl err \<Rightarrow> (it\<lparr>fi_decoder := d, fi_input := rest, fi_done := True\<rparr>, Some (Inl err)))"

text \<open>A consumer that takes every item of the iterator.\<close>

definition iter_measure :: "nat \<Rightarrow> frame_iter \<Rightarrow> nat" where
  "iter_measure len it = length (fi_input it) + (if len \<le> fd_filled (fi_decoder it) then 1 else 0) +
     (if fi_done it then 0 else 1)"

lemma frame_iter_next_decreases:
  "0 < len \<Longrightarrow> frame_iter_next len dec it = (it', Some x) \<Longrightarrow> iter_measure len it' < iter_measure len it"
  by (auto simp: frame_iter_next_def decode_next_def iter_measure_def Let_def
      split: if_splits sum.splits option.splits prod.splits)

function frame_drain ::
  "nat \<Rightarrow> (bytes \<Rightarrow> 'e + 'f) \<Rightarrow> frame_iter \<Rightarrow> frame_decoder \<times> ('e + 'f) list" where
  "frame_drain len dec it =
     (if len = 0 then (fi_decoder it, [])
      else case frame_iter_next len dec it of
          (it', None) \<Rightarrow> (fi_decoder it', [])
        | (it', Some x) \<Rightarrow> (let (d, xs) = frame_drain len dec it' in (d, x # xs)))"
  by pat_completeness auto
termination
  by (relation "measure (\<lambda>(len, dec, it). iter_measure len it)")
    (auto dest: frame_iter_next_decreases [OF _ sym])

declare frame_drain.simps [simp del]

definition frame_push ::
  "nat \<Rightarrow> (bytes \<Rightarrow> 'e + 'f) \<Rightarrow> frame_decoder \<Rightarrow> bytes \<Rightarrow> frame_decoder \<times> ('e + 'f) list" where
  "frame_push len dec d bs = frame_drain len dec \<lparr>fi_decoder = d, fi_input = bs, fi_done = False\<rparr>"

fun frame_push_all ::
  "nat \<Rightarrow> (bytes \<Rightarrow> 'e + 'f) \<Rightarrow> frame_decoder \<Rightarrow> bytes list \<Rightarrow> frame_decoder \<times> ('e + 'f) list" where
  "frame_push_all len dec d [] = (d, [])"
| "frame_push_all len dec d (bs # bss) =
     (let (d1, xs) = frame_push len dec d bs; (d2, ys) = frame_push_all len dec d1 bss in (d2, xs @ ys))"

end
