(* ===== verification/Transfer_Wire_Proofs.thy ===== *)
theory Transfer_Wire_Proofs
  imports Transfer_Wire
begin

text \<open>
  The encodings of \<open>Transfer_Wire\<close>: headers and frames survive encoding and decoding, a frame parser
  accepts nothing but the encodings, and the incremental decoder recovers the frames of a stream
  however it is cut into chunks. The decoder's part is proved once, in the locale \<open>frame_source\<close>.
\<close>

section \<open>Headers and frames\<close>

definition page_header_image :: "rmp \<Rightarrow> page_header \<Rightarrow> bytes" where
  "page_header_image M h = concat
     [w_array_len M page_header_array_len, w_u32 M page_magic, w_u16 M page_version,
      w_u16 M (hdr_kind h), w_u16 M (hdr_flags h), w_u32 M (hdr_payload_len h)]"

lemma length_page_header_image: "rmp_ok M \<Longrightarrow> length (page_header_image M h) = page_header_len"
  by (simp add: page_header_image_def rmp_ok_write page_header_array_len_def page_header_len_def)

lemma encode_page_header_image:
  assumes "rmp_ok M" and "page_header_len \<le> length out"
  shows "encode_page_header M h out = (copy_at out 0 (page_header_image M h), Inr ())"
  using encode_header_exact [OF _ assms(2)] length_page_header_image [OF assms(1), of h]
  unfolding encode_page_header_def page_header_image_def by blast

lemma decode_page_header_image: "rmp_ok M \<Longrightarrow> decode_page_header M (page_header_image M h) = Inr h"
  by (simp add: decode_page_header_def page_header_image_def rmp_ok_read rmp_ok_read_end
      page_header_array_len_def)

definition frame_image :: "rmp \<Rightarrow> owned_frame \<Rightarrow> bytes" where
  "frame_image M f = (case frame_parts f of (kind, transfer_id, d) \<Rightarrow> concat
     [w_array_len M transport_header_array_len, w_u32 M transport_magic,
      w_u16 M transport_version, w_u8 M (frame_kind_raw kind), w_u8 M transport_flags_v1,
      w_u64 M transfer_id, w_u64 M (pd_pool_id d), w_u32 M (pd_page_id d), w_u64 M (pd_generation d)])"

lemma length_frame_image: "rmp_ok M \<Longrightarrow> length (frame_image M f) = transport_header_len"
  by (simp add: frame_image_def rmp_ok_write transport_header_array_len_def transport_header_len_def
      split: prod.splits)

lemma encode_frame_image:
  assumes "rmp_ok M"
  shows "encode_frame M f = Inr (frame_image M f)"
proof -
  obtain k t d where parts: "frame_parts f = (k, t, d)" by (cases "frame_parts f")
  let ?ps = "[w_array_len M transport_header_array_len, w_u32 M transport_magic,
      w_u16 M transport_version, w_u8 M (frame_kind_raw k), w_u8 M transport_flags_v1,
      w_u64 M t, w_u64 M (pd_pool_id d), w_u32 M (pd_page_id d), w_u64 M (pd_generation d)]"
  have im: "frame_image M f = concat ?ps" by (simp add: frame_image_def parts)
  have len: "length (concat ?ps) = transport_header_len"
    using length_frame_image [OF assms, of f] by (simp add: im)
  have "encode_header transport_header_len ?ps (replicate transport_header_len 0) =
      (copy_at (replicate transport_header_len 0) 0 (concat ?ps), Inr ())"
    using len by (intro encode_header_exact) simp_all
  moreover have "copy_at (replicate transport_header_len 0) 0 (concat ?ps) = concat ?ps"
    using len by (simp add: copy_at_def del: concat.simps)
  ultimately show ?thesis
    by (simp add: encode_frame_def encode_owned_frame_def parts im del: concat.simps)
qed

lemma frame_kind_from_raw [simp]: "frame_kind_from_u8 (frame_kind_raw k) = Inr k"
  by (cases k) (simp_all add: frame_kind_from_u8_def)

lemma frame_kind_raw_from: "frame_kind_from_u8 v = Inr k \<Longrightarrow> v = frame_kind_raw k"
  by (auto simp: frame_kind_from_u8_def split: if_splits)

lemma decode_frame_image: "rmp_ok M \<Longrightarrow> decode_owned_frame M (frame_image M f) = Inr f"
  by (cases f) (simp_all add: decode_owned_frame_def frame_image_def rmp_ok_read rmp_ok_read_end
      transport_header_array_len_def zero_descriptor_def frame_kind_from_u8_def)

lemma decode_frame_only_image:
  assumes M: "rmp_ok M" and len: "length bs = transport_header_len" and dec: "decode_owned_frame M bs = Inr f"
  shows "bs = frame_image M f"
proof -
  from dec obtain c1 c2 c3 c4 c5 c6 c7 c8 k t p i g where
    r: "r_array_len M bs = Some (transport_header_array_len, c1)" "r_u32 M c1 = Some (transport_magic, c2)"
      "r_u16 M c2 = Some (transport_version, c3)" "r_u8 M c3 = Some (frame_kind_raw k, c4)"
      "r_u8 M c4 = Some (transport_flags_v1, c5)" "r_u64 M c5 = Some (t, c6)" "r_u64 M c6 = Some (p, c7)"
      "r_u32 M c7 = Some (i, c8)" "r_u64 M c8 = Some (g, [])"
    and f: "frame_parts f = (k, t, \<lparr>pd_pool_id = p, pd_page_id = i, pd_generation = g\<rparr>)"
    by (fastforce simp: decode_owned_frame_def try_bind_eq_Inr zero_descriptor_def
        split: if_splits frame_kind.splits prod.splits dest: frame_kind_raw_from)
  have tail: "c1 = w_u32 M transport_magic @ w_u16 M transport_version @ w_u8 M (frame_kind_raw k) @
      w_u8 M transport_flags_v1 @ w_u64 M t @ w_u64 M p @ w_u32 M i @ w_u64 M g"
    using rmp_ok_inv(3) [OF M r(2)] rmp_ok_inv(2) [OF M r(3)] rmp_ok_inv(1) [OF M r(4)]
      rmp_ok_inv(1) [OF M r(5)] rmp_ok_inv(4) [OF M r(6)] rmp_ok_inv(4) [OF M r(7)]
      rmp_ok_inv(3) [OF M r(8)] rmp_ok_inv(4) [OF M r(9)] by simp
  then have "length c1 = 44"
    using rmp_ok_write [OF M] by simp
  then have "bs = w_array_len M transport_header_array_len @ c1"
    using rmp_ok_inv(5) [OF M r(1)] len by (simp add: transport_header_len_def)
  then show ?thesis by (simp add: frame_image_def f tail)
qed

section \<open>Streams of fixed-size frames\<close>

text \<open>What a decoder should find in a byte stream: whole frames in order, up to the first bad one.\<close>

function parse_stream :: "nat \<Rightarrow> (bytes \<Rightarrow> 'e + 'f) \<Rightarrow> bytes \<Rightarrow> ('e + 'f) list \<times> bytes" where
  "parse_stream len dec s =
     (if len = 0 \<or> length s < len then ([], s)
      else case dec (take len s) of
          Inl e \<Rightarrow> ([Inl e], [])
        | Inr f \<Rightarrow> (let (xs, r) = parse_stream len dec (drop len s) in (Inr f # xs, r)))"
  by pat_completeness auto
termination
  by (relation "measure (\<lambda>(len, dec, s). length s)") auto

declare parse_stream.simps [simp del]

definition pending :: "frame_decoder \<Rightarrow> bytes" where
  "pending d = take (fd_filled d) (fd_header d)"

definition decoder_ok :: "nat \<Rightarrow> frame_decoder \<Rightarrow> bool" where
  "decoder_ok len d \<longleftrightarrow> length (fd_header d) = len \<and> fd_filled d < len"

definition all_ok :: "('e + 'f) list \<Rightarrow> bool" where
  "all_ok xs \<longleftrightarrow> (\<forall>x \<in> set xs. \<not> isl x)"

locale frame_source =
  fixes len :: nat and dec :: "bytes \<Rightarrow> 'e + 'f"
  assumes len_pos: "0 < len"
begin

lemma decode_next_short:
  assumes "decoder_ok len d" and "length (pending d @ input) < len"
  obtains d' where "decode_next len dec d input = (d', [], Inr None)" "decoder_ok len d'"
    "pending d' = pending d @ input"
proof -
  have f: "length (fd_header d) = len" "fd_filled d + length input < len"
    using assms by (auto simp: decoder_ok_def pending_def)
  show thesis
  proof (cases "input = []")
    case True
    with assms that [of d] len_pos show ?thesis by (simp add: decode_next_def)
  next
    case False
    let ?d = "\<lparr>fd_header = copy_at (fd_header d) (fd_filled d) input, fd_filled = fd_filled d + length input\<rparr>"
    have "decode_next len dec d input = (?d, [], Inr None)"
      using f False by (simp add: decode_next_def Let_def)
    moreover have "decoder_ok len ?d" "pending ?d = pending d @ input"
      using f by (simp_all add: decoder_ok_def pending_def copy_at_def)
    ultimately show ?thesis by (rule that)
  qed
qed

lemma decode_next_full:
  assumes "decoder_ok len d" and "len \<le> length (pending d @ input)"
  obtains d' where "decode_next len dec d input =
      (d', drop (len - length (pending d)) input, map_sum id Some (dec (take len (pending d @ input))))"
    "decoder_ok len d'" "pending d' = []"
proof -
  have f: "length (fd_header d) = len" "fd_filled d < len" "len - fd_filled d \<le> length input"
    "length (pending d) = fd_filled d"
    using assms by (auto simp: decoder_ok_def pending_def)
  show thesis
  proof (cases "fd_filled d = 0")
    case True
    with f assms that [of d] show ?thesis by (simp add: decode_next_def pending_def)
  next
    case False
    define h where "h = copy_at (fd_header d) (fd_filled d) (take (len - fd_filled d) input)"
    have h: "h = take len (pending d @ input)"
      using f by (simp add: h_def copy_at_def pending_def)
    have "length h = len" using f by (simp add: h)
    have "input \<noteq> []" using f by auto
    then have "decode_next len dec d input =
        (\<lparr>fd_header = h, fd_filled = 0\<rparr>, drop (len - fd_filled d) input, map_sum id Some (dec h))"
      using f False by (simp add: decode_next_def Let_def h_def [symmetric] min_absorb1)
    with \<open>length h = len\<close> h f that [of "\<lparr>fd_header = h, fd_filled = 0\<rparr>"] show ?thesis
      by (simp add: decoder_ok_def pending_def)
  qed
qed

lemma drain_done: "fi_done it \<Longrightarrow> frame_drain len dec it = (fi_decoder it, [])"
  by (subst frame_drain.simps) (simp add: frame_iter_next_def)

lemma drain_parses:
  assumes "decoder_ok len d"
  shows "\<exists>d'. frame_drain len dec \<lparr>fi_decoder = d, fi_input = input, fi_done = False\<rparr> =
      (d', fst (parse_stream len dec (pending d @ input))) \<and> decoder_ok len d' \<and>
    pending d' = snd (parse_stream len dec (pending d @ input))"
  using assms
proof (induction "length input + length (pending d)" arbitrary: d input rule: less_induct)
  case less
  let ?it = "\<lparr>fi_decoder = d, fi_input = input, fi_done = False\<rparr>" and ?s = "pending d @ input"
  show ?case
  proof (cases "length ?s < len")
    case True
    from decode_next_short [OF less.prems True] obtain d' where
      "decode_next len dec d input = (d', [], Inr None)" "decoder_ok len d'" "pending d' = ?s" .
    with True len_pos show ?thesis
      by (simp add: frame_drain.simps [of _ _ ?it] frame_iter_next_def parse_stream.simps [of _ _ ?s])
  next
    case False
    then have "len \<le> length ?s" by simp
    from decode_next_full [OF less.prems this] obtain d' where
      d': "decode_next len dec d input =
        (d', drop (len - length (pending d)) input, map_sum id Some (dec (take len ?s)))"
        "decoder_ok len d'" "pending d' = []" .
    define t where "t = drop len ?s"
    have drop: "drop (len - length (pending d)) input = t"
      using less.prems by (simp add: t_def decoder_ok_def pending_def)
    show ?thesis
    proof (cases "dec (take len ?s)")
      case (Inl e)
      then have "frame_iter_next len dec ?it =
          (\<lparr>fi_decoder = d', fi_input = t, fi_done = True\<rparr>, Some (Inl e))"
        using d'(1) drop by (simp add: frame_iter_next_def)
      then have "frame_drain len dec ?it = (d', [Inl e])"
        using len_pos by (subst frame_drain.simps) (simp add: drain_done)
      moreover have "parse_stream len dec ?s = ([Inl e], [])"
        using Inl False len_pos by (subst parse_stream.simps) simp
      ultimately show ?thesis using d' by simp
    next
      case (Inr f)
      then have "frame_iter_next len dec ?it =
          (\<lparr>fi_decoder = d', fi_input = t, fi_done = False\<rparr>, Some (Inr f))"
        using d'(1) drop by (simp add: frame_iter_next_def)
      moreover have "length t + length (pending d') < length input + length (pending d)"
        using d'(3) \<open>len \<le> length ?s\<close> len_pos by (simp add: t_def)
      from less.hyps [OF this d'(2)] obtain d'' where
        d'': "frame_drain len dec \<lparr>fi_decoder = d', fi_input = t, fi_done = False\<rparr> =
          (d'', fst (parse_stream len dec t))" "decoder_ok len d''"
        "pending d'' = snd (parse_stream len dec t)"
        using d'(3) by auto
      ultimately have "frame_drain len dec ?it = (d'', Inr f # fst (parse_stream len dec t))"
        using len_pos by (subst frame_drain.simps) simp
      moreover have "parse_stream len dec ?s =
          (Inr f # fst (parse_stream len dec t), snd (parse_stream len dec t))"
        using Inr False len_pos by (subst parse_stream.simps) (simp add: split_beta Let_def t_def)
      ultimately show ?thesis using d'' by simp
    qed
  qed
qed

lemma push_parses:
  assumes "decoder_ok len d"
  obtains d' where "frame_push len dec d bs = (d', fst (parse_stream len dec (pending d @ bs)))"
    "decoder_ok len d'" "pending d' = snd (parse_stream len dec (pending d @ bs))"
  using drain_parses [OF assms, of bs] unfolding frame_push_def by blast

lemma parse_append:
  assumes "all_ok (fst (parse_stream len dec s))"
  shows "parse_stream len dec (s @ t) =
    (fst (parse_stream len dec s) @ fst (parse_stream len dec (snd (parse_stream len dec s) @ t)),
     snd (parse_stream len dec (snd (parse_stream len dec s) @ t)))"
  using assms
proof (induction "length s" arbitrary: s rule: less_induct)
  case less
  show ?case
  proof (cases "length s < len")
    case True
    then show ?thesis by (simp add: parse_stream.simps [of _ _ s])
  next
    case False
    show ?thesis
    proof (cases "dec (take len s)")
      case (Inl e)
      with False less.prems len_pos show ?thesis
        by (simp add: parse_stream.simps [of _ _ s] all_ok_def)
    next
      case (Inr f)
      have parse: "parse_stream len dec s =
          (Inr f # fst (parse_stream len dec (drop len s)), snd (parse_stream len dec (drop len s)))"
        using Inr False len_pos by (simp add: parse_stream.simps [of _ _ s] split_beta Let_def)
      moreover have "parse_stream len dec (s @ t) =
          (Inr f # fst (parse_stream len dec (drop len s @ t)), snd (parse_stream len dec (drop len s @ t)))"
        using Inr False len_pos by (simp add: parse_stream.simps [of _ _ "s @ t"] split_beta Let_def)
      moreover have "all_ok (fst (parse_stream len dec (drop len s)))"
        using less.prems parse by (simp add: all_ok_def)
      ultimately show ?thesis
        using less.hyps [of "drop len s"] False len_pos by simp
    qed
  qed
qed

lemma parse_prefix_bad:
  assumes "\<not> all_ok (fst (parse_stream len dec s))"
  shows "\<not> all_ok (fst (parse_stream len dec (s @ t)))"
  using assms
proof (induction "length s" arbitrary: s rule: less_induct)
  case less
  have long: "\<not> length s < len"
  proof
    assume "length s < len"
    with less.prems show False by (simp add: parse_stream.simps [of _ _ s] all_ok_def)
  qed
  show ?case
  proof (cases "dec (take len s)")
    case (Inl e)
    with long len_pos show ?thesis
      by (simp add: parse_stream.simps [of _ _ "s @ t"] all_ok_def)
  next
    case (Inr f)
    with less.prems long len_pos have "\<not> all_ok (fst (parse_stream len dec (drop len s)))"
      by (simp add: parse_stream.simps [of _ _ s] all_ok_def split_beta Let_def)
    with less.hyps [of "drop len s"] long len_pos have
      "\<not> all_ok (fst (parse_stream len dec (drop len s @ t)))" by simp
    with Inr long len_pos show ?thesis
      by (simp add: parse_stream.simps [of _ _ "s @ t"] all_ok_def split_beta Let_def)
  qed
qed

lemma push_all_parses:
  assumes "decoder_ok len d" and "all_ok (fst (parse_stream len dec (pending d @ concat bss)))"
  shows "\<exists>d'. frame_push_all len dec d bss = (d', fst (parse_stream len dec (pending d @ concat bss))) \<and>
    decoder_ok len d' \<and> pending d' = snd (parse_stream len dec (pending d @ concat bss))"
  using assms
proof (induction bss arbitrary: d)
  case Nil
  then have "length (pending d) < len"
    by (simp add: decoder_ok_def pending_def)
  then have "parse_stream len dec (pending d) = ([], pending d)"
    by (subst parse_stream.simps) simp
  with Nil show ?case by simp
next
  case (Cons bs bss)
  have "all_ok (fst (parse_stream len dec (pending d @ bs)))"
  proof (rule ccontr)
    assume "\<not> all_ok (fst (parse_stream len dec (pending d @ bs)))"
    with parse_prefix_bad [of "pending d @ bs" "concat bss"] Cons.prems(2) show False by simp
  qed
  note app = parse_append [OF this, of "concat bss"]
  from push_parses [OF Cons.prems(1)] obtain d1 where
    d1: "frame_push len dec d bs = (d1, fst (parse_stream len dec (pending d @ bs)))"
      "decoder_ok len d1" "pending d1 = snd (parse_stream len dec (pending d @ bs))" .
  have "all_ok (fst (parse_stream len dec (pending d1 @ concat bss)))"
    using Cons.prems(2) app d1(3) by (simp add: all_ok_def)
  from Cons.IH [OF d1(2) this] obtain d2 where
    "frame_push_all len dec d1 bss = (d2, fst (parse_stream len dec (pending d1 @ concat bss)))"
    "decoder_ok len d2" "pending d2 = snd (parse_stream len dec (pending d1 @ concat bss))" by blast
  with d1 app show ?case by simp
qed

lemma parse_encoded:
  assumes "\<And>f. f \<in> set fs \<Longrightarrow> length (enc f) = len \<and> dec (enc f) = Inr f" and "length tail < len"
  shows "parse_stream len dec (concat (map enc fs) @ tail) = (map Inr fs, tail)"
  using assms
proof (induction fs)
  case Nil
  then show ?case by (simp add: parse_stream.simps)
next
  case (Cons f fs)
  then have "length (enc f) = len" "dec (enc f) = Inr f" by simp_all
  with Cons len_pos show ?case
    by (subst parse_stream.simps) simp
qed

lemma push_all_encoded:
  assumes "\<And>f. f \<in> set fs \<Longrightarrow> length (enc f) = len \<and> dec (enc f) = Inr f" and "length tail < len"
    and "concat chunks = concat (map enc fs) @ tail"
  shows "\<exists>d. frame_push_all len dec (frame_decoder_new len) chunks = (d, map Inr fs) \<and> pending d = tail \<and>
    decoder_ok len d"
proof -
  have "decoder_ok len (frame_decoder_new len)" "pending (frame_decoder_new len) = []"
    using len_pos by (simp_all add: decoder_ok_def frame_decoder_new_def pending_def)
  moreover have "parse_stream len dec (concat chunks) = (map Inr fs, tail)"
    unfolding assms(3) by (rule parse_encoded [OF assms(1,2)])
  ultimately show ?thesis
    using push_all_parses [of "frame_decoder_new len" chunks] by (auto simp: all_ok_def)
qed

end

interpretation transfer_stream: frame_source transport_header_len "decode_owned_frame M" for M
  by unfold_locales (simp add: transport_header_len_def)

section \<open>Properties\<close>

text \<open>C12: The header of a page survives encoding: any header is written into the first 20 bytes of a
  slice that has them, the bytes behind it stay, and decoding these 20 bytes gives the header back.\<close>

theorem page_header_roundtrip:
  assumes "rmp_ok M" and "page_header_len \<le> length out"
  shows "\<exists>bs. encode_page_header M h out = (bs @ drop page_header_len out, Inr ()) \<and>
    length bs = page_header_len \<and> decode_page_header M bs = Inr h"
  using encode_page_header_image [OF assms, of h] length_page_header_image [OF assms(1), of h]
    decode_page_header_image [OF assms(1), of h]
  by (auto simp: copy_at_def)

theorem page_header_roundtrip_witness:
  "\<exists>bs. encode_page_header msgpack \<lparr>hdr_kind = 3, hdr_flags = 0, hdr_payload_len = 7\<rparr> (replicate 64 0) =
     (bs @ replicate 44 0, Inr ()) \<and>
     decode_page_header msgpack bs = Inr \<lparr>hdr_kind = 3, hdr_flags = 0, hdr_payload_len = 7\<rparr>"
  using page_header_roundtrip [OF msgpack_ok, of "replicate 64 0" "\<lparr>hdr_kind = 3, hdr_flags = 0, hdr_payload_len = 7\<rparr>"]
  by (auto simp: page_header_len_def)

text \<open>C13: The frame codec is exact: every frame is encoded in 45 bytes that decode to it, and a 45-byte
  block that decodes to a frame is that frame's encoding, so no other block is ever accepted.\<close>

theorem frame_codec_exact:
  assumes "rmp_ok M"
  shows "\<exists>bs. encode_frame M f = Inr bs \<and> length bs = transport_header_len \<and>
    (\<forall>cs. length cs = transport_header_len \<longrightarrow> (decode_owned_frame M cs = Inr f \<longleftrightarrow> cs = bs))"
  by (rule exI [of _ "frame_image M f"])
    (metis assms encode_frame_image length_frame_image decode_frame_image decode_frame_only_image)

theorem frame_codec_exact_witness:
  "\<exists>bs. encode_frame msgpack (Frame_Close 9) = Inr bs \<and> length bs = 45 \<and>
     decode_owned_frame msgpack bs = Inr (Frame_Close 9)"
  using frame_codec_exact [OF msgpack_ok, of "Frame_Close 9"] by (auto simp: transport_header_len_def)

text \<open>C14: The incremental decoder does not depend on the chunks: whatever way a stream of encoded
  frames, with a piece of a further one behind it, is cut into pushes, the decoder yields these frames
  in order, no errors, and keeps the piece for the next push.\<close>

theorem frame_decoder_any_chunks:
  assumes "rmp_ok M" and "map (encode_frame M) fs = map Inr encs" and "length tail < transport_header_len"
    and "concat chunks = concat encs @ tail"
  shows "\<exists>d. frame_push_all transport_header_len (decode_owned_frame M) (frame_decoder_new transport_header_len)
      chunks = (d, map Inr fs) \<and> fd_filled d = length tail \<and> take (fd_filled d) (fd_header d) = tail"
proof -
  have "map Inr encs = (map Inr (map (frame_image M) fs) :: (encode_error + bytes) list)"
    using assms(2) [symmetric] by (simp add: encode_frame_image [OF assms(1)])
  then have encs: "encs = map (frame_image M) fs"
    by (metis inj_map_eq_map inj_Inr)
  have enc: "length (frame_image M f) = transport_header_len \<and>
      decode_owned_frame M (frame_image M f) = Inr f" if "f \<in> set fs" for f
    using length_frame_image decode_frame_image assms(1) by blast
  from transfer_stream.push_all_encoded [OF enc assms(3)] assms(4) encs obtain d where
    d: "frame_push_all transport_header_len (decode_owned_frame M) (frame_decoder_new transport_header_len)
      chunks = (d, map Inr fs)" "pending d = tail" "decoder_ok transport_header_len d" by blast
  then have "fd_filled d = length tail"
    by (auto simp: pending_def decoder_ok_def)
  with d show ?thesis by (auto simp: pending_def)
qed

theorem frame_decoder_any_chunks_witness:
  "\<exists>bs d. encode_frame msgpack (Frame_Close 1) = Inr bs \<and>
     frame_push_all transport_header_len (decode_owned_frame msgpack) (frame_decoder_new transport_header_len)
       [take 7 bs, drop 7 bs @ bs @ [0x98]] = (d, [Inr (Frame_Close 1), Inr (Frame_Close 1)]) \<and> fd_filled d = 1"
proof -
  let ?f = "Frame_Close 1"
  obtain bs where bs: "encode_frame msgpack ?f = Inr bs"
    using encode_frame_image [OF msgpack_ok] by blast
  have "concat [take 7 bs, drop 7 bs @ bs @ [0x98]] = concat [bs, bs] @ [0x98]"
    by (simp flip: append_assoc)
  with frame_decoder_any_chunks [OF msgpack_ok, of "[?f, ?f]" "[bs, bs]" "[0x98]" "[take 7 bs, drop 7 bs @ bs @ [0x98]]"]
    bs show ?thesis by (auto simp: transport_header_len_def)
qed

end
