(* ===== verification/Issuance_Wire.thy ===== *)
theory Issuance_Wire
  imports Transfer_Wire_Proofs
begin

text \<open>
  The control frames of the issuance layer, \<^verbatim>\<open>src/page/issuance/src/wire.rs\<close> and \<^verbatim>\<open>codec.rs\<close>: a page frame
  with the permit it uses. The incremental decoder is that of the page transfer over these frames.
\<close>

datatype iss_decode_error =
    Iss_Dec_BadArrayLen u32 u32
  | Iss_Dec_InvalidMagic u32 u32
  | Iss_Dec_UnsupportedVersion u16 u16
  | Iss_Dec_InvalidFrameKind u8
  | Iss_Dec_NonZeroFlags u8
  | Iss_Dec_NonZeroCloseFields
  | Iss_Dec_TrailingBytes nat nat

definition issued_transport_magic :: u32 where "issued_transport_magic = 0x50494631"
definition issued_transport_version :: u16 where "issued_transport_version = 1"
definition issued_transport_flags_v1 :: u8 where "issued_transport_flags_v1 = 0"
definition issued_header_array_len :: u32 where "issued_header_array_len = 10"
definition issued_header_len :: nat where "issued_header_len = 59"

text \<open>\<open>IssuedFrameKind\<close> has the values of \<open>FrameKind\<close>.\<close>

definition issued_kind_from_u8 :: "u8 \<Rightarrow> iss_decode_error + frame_kind" where
  "issued_kind_from_u8 v =
     (if v = 1 then Inr Kind_Page else if v = 2 then Inr Kind_Close else Inl (Iss_Dec_InvalidFrameKind v))"

record issued_page_frame =
  if_pool_instance_id :: u64
  if_permit_id :: u32
  if_inner :: page_frame

datatype issued_owned_frame = Issued_Page issued_page_frame | Issued_Close u64

fun issued_transfer_id :: "issued_owned_frame \<Rightarrow> u64" where
  "issued_transfer_id (Issued_Page frame) = pf_transfer_id (if_inner frame)"
| "issued_transfer_id (Issued_Close transfer_id) = transfer_id"

fun issued_parts :: "issued_owned_frame \<Rightarrow> frame_kind \<times> u64 \<times> u64 \<times> u32 \<times> page_descriptor" where
  "issued_parts (Issued_Page frame) =
     (Kind_Page, pf_transfer_id (if_inner frame), if_pool_instance_id frame, if_permit_id frame,
      pf_descriptor (if_inner frame))"
| "issued_parts (Issued_Close transfer_id) = (Kind_Close, transfer_id, 0, 0, zero_descriptor)"

definition encode_issued_owned_frame ::
  "rmp \<Rightarrow> issued_owned_frame \<Rightarrow> bytes \<Rightarrow> bytes \<times> (encode_error + nat)" where
  "encode_issued_owned_frame M frame out =
     (let (kind, transfer_id, pool_instance_id, permit_id, descriptor) = issued_parts frame;
          (out', res) = encode_header issued_header_len
            [w_array_len M issued_header_array_len, w_u32 M issued_transport_magic,
             w_u16 M issued_transport_version, w_u8 M (frame_kind_raw kind), w_u8 M issued_transport_flags_v1,
             w_u64 M transfer_id, w_u64 M pool_instance_id, w_u32 M permit_id,
             w_u64 M (pd_pool_id descriptor), w_u32 M (pd_page_id descriptor),
             w_u64 M (pd_generation descriptor)] out
      in (out', try_bind res (\<lambda>_. Inr issued_header_len)))"

definition decode_issued_owned_frame :: "rmp \<Rightarrow> bytes \<Rightarrow> iss_decode_error + issued_owned_frame" where
  "decode_issued_owned_frame M bs =
     try_bind (ok_or (Iss_Dec_BadArrayLen issued_header_array_len 0) (r_array_len M bs)) (\<lambda>(array_len, c1).
     if array_len \<noteq> issued_header_array_len
       then Inl (Iss_Dec_BadArrayLen issued_header_array_len array_len) else
     try_bind (ok_or (Iss_Dec_InvalidMagic issued_transport_magic 0) (r_u32 M c1)) (\<lambda>(magic, c2).
     if magic \<noteq> issued_transport_magic then Inl (Iss_Dec_InvalidMagic issued_transport_magic magic) else
     try_bind (ok_or (Iss_Dec_UnsupportedVersion issued_transport_version 0) (r_u16 M c2)) (\<lambda>(version, c3).
     if version \<noteq> issued_transport_version
       then Inl (Iss_Dec_UnsupportedVersion issued_transport_version version) else
     try_bind (ok_or (Iss_Dec_InvalidFrameKind 0) (r_u8 M c3)) (\<lambda>(raw_kind, c4).
     try_bind (issued_kind_from_u8 raw_kind) (\<lambda>kind.
     try_bind (ok_or (Iss_Dec_NonZeroFlags 0) (r_u8 M c4)) (\<lambda>(flags, c5).
     if flags \<noteq> issued_transport_flags_v1 then Inl (Iss_Dec_NonZeroFlags flags) else
     try_bind (ok_or (Iss_Dec_TrailingBytes 0 0) (r_u64 M c5)) (\<lambda>(transfer_id, c6).
     try_bind (ok_or (Iss_Dec_TrailingBytes 0 0) (r_u64 M c6)) (\<lambda>(pool_instance_id, c7).
     try_bind (ok_or (Iss_Dec_TrailingBytes 0 0) (r_u32 M c7)) (\<lambda>(permit_id, c8).
     try_bind (ok_or (Iss_Dec_TrailingBytes 0 0) (r_u64 M c8)) (\<lambda>(pool_id, c9).
     try_bind (ok_or (Iss_Dec_TrailingBytes 0 0) (r_u32 M c9)) (\<lambda>(page_id, c10).
     try_bind (ok_or (Iss_Dec_TrailingBytes 0 0) (r_u64 M c10)) (\<lambda>(generation, c11).
     if c11 \<noteq> [] then Inl (Iss_Dec_TrailingBytes (length bs - length c11) (length bs)) else
     case kind of
       Kind_Page \<Rightarrow> Inr (Issued_Page \<lparr>if_pool_instance_id = pool_instance_id, if_permit_id = permit_id,
         if_inner = \<lparr>pf_transfer_id = transfer_id,
           pf_descriptor = \<lparr>pd_pool_id = pool_id, pd_page_id = page_id, pd_generation = generation\<rparr>\<rparr>\<rparr>)
     | Kind_Close \<Rightarrow>
         if pool_instance_id \<noteq> 0 \<or> permit_id \<noteq> 0 \<or> pool_id \<noteq> 0 \<or> page_id \<noteq> 0 \<or> generation \<noteq> 0
         then Inl Iss_Dec_NonZeroCloseFields else Inr (Issued_Close transfer_id)))))))))))))"

definition encode_issued_frame :: "rmp \<Rightarrow> issued_owned_frame \<Rightarrow> encode_error + bytes" where
  "encode_issued_frame M frame =
     (let (buf, res) = encode_issued_owned_frame M frame (replicate issued_header_len 0)
      in try_bind res (\<lambda>written.
         if written \<noteq> issued_header_len
         then Inl (Enc_HeaderEncodeFailed issued_header_len written) else Inr buf))"

definition decode_issued_frame :: "rmp \<Rightarrow> bytes \<Rightarrow> iss_decode_error + issued_owned_frame" where
  "decode_issued_frame M bs =
     (if length bs \<noteq> issued_header_len then Inl (Iss_Dec_TrailingBytes issued_header_len (length bs))
      else decode_issued_owned_frame M bs)"

text \<open>\<open>IssuedFrameDecoder\<close>: the decoder of \<open>Transfer_Wire\<close> over these frames.\<close>

definition issued_frame_push ::
  "rmp \<Rightarrow> frame_decoder \<Rightarrow> bytes \<Rightarrow> frame_decoder \<times> (iss_decode_error + issued_owned_frame) list" where
  "issued_frame_push M d bs = frame_push issued_header_len (decode_issued_owned_frame M) d bs"

section \<open>Frames\<close>

definition issued_image :: "rmp \<Rightarrow> issued_owned_frame \<Rightarrow> bytes" where
  "issued_image M f = (case issued_parts f of (kind, transfer_id, pool_instance_id, permit_id, d) \<Rightarrow> concat
     [w_array_len M issued_header_array_len, w_u32 M issued_transport_magic,
      w_u16 M issued_transport_version, w_u8 M (frame_kind_raw kind), w_u8 M issued_transport_flags_v1,
      w_u64 M transfer_id, w_u64 M pool_instance_id, w_u32 M permit_id,
      w_u64 M (pd_pool_id d), w_u32 M (pd_page_id d), w_u64 M (pd_generation d)])"

lemma length_issued_image: "rmp_ok M \<Longrightarrow> length (issued_image M f) = issued_header_len"
  by (simp add: issued_image_def rmp_ok_write issued_header_array_len_def issued_header_len_def
      split: prod.splits)

lemma encode_issued_image:
  assumes "rmp_ok M"
  shows "encode_issued_frame M f = Inr (issued_image M f)"
proof -
  obtain k t q p d where parts: "issued_parts f = (k, t, q, p, d)" by (cases "issued_parts f")
  let ?ps = "[w_array_len M issued_header_array_len, w_u32 M issued_transport_magic,
      w_u16 M issued_transport_version, w_u8 M (frame_kind_raw k), w_u8 M issued_transport_flags_v1,
      w_u64 M t, w_u64 M q, w_u32 M p, w_u64 M (pd_pool_id d), w_u32 M (pd_page_id d), w_u64 M (pd_generation d)]"
  have im: "issued_image M f = concat ?ps" by (simp add: issued_image_def parts)
  have len: "length (concat ?ps) = issued_header_len"
    using length_issued_image [OF assms, of f] by (simp add: im)
  have "encode_header issued_header_len ?ps (replicate issued_header_len 0) =
      (copy_at (replicate issued_header_len 0) 0 (concat ?ps), Inr ())"
    using len by (intro encode_header_exact) simp_all
  moreover have "copy_at (replicate issued_header_len 0) 0 (concat ?ps) = concat ?ps"
    using len by (simp add: copy_at_def del: concat.simps)
  ultimately show ?thesis
    by (simp add: encode_issued_frame_def encode_issued_owned_frame_def parts im del: concat.simps)
qed

lemma issued_kind_raw_from: "issued_kind_from_u8 v = Inr k \<Longrightarrow> v = frame_kind_raw k"
  by (auto simp: issued_kind_from_u8_def split: if_splits)

lemma decode_issued_image: "rmp_ok M \<Longrightarrow> decode_issued_owned_frame M (issued_image M f) = Inr f"
  by (cases f) (simp_all add: decode_issued_owned_frame_def issued_image_def rmp_ok_read rmp_ok_read_end
      issued_header_array_len_def zero_descriptor_def issued_kind_from_u8_def)

lemma decode_issued_only_image:
  assumes M: "rmp_ok M" and dec: "decode_issued_frame M bs = Inr f"
  shows "bs = issued_image M f"
proof -
  have len: "length bs = issued_header_len" and dec': "decode_issued_owned_frame M bs = Inr f"
    using dec by (auto simp: decode_issued_frame_def split: if_splits)
  from dec' obtain c1 c2 c3 c4 c5 c6 c7 c8 c9 c10 k t q v p i g where
    r: "r_array_len M bs = Some (issued_header_array_len, c1)" "r_u32 M c1 = Some (issued_transport_magic, c2)"
      "r_u16 M c2 = Some (issued_transport_version, c3)" "r_u8 M c3 = Some (frame_kind_raw k, c4)"
      "r_u8 M c4 = Some (issued_transport_flags_v1, c5)" "r_u64 M c5 = Some (t, c6)" "r_u64 M c6 = Some (q, c7)"
      "r_u32 M c7 = Some (v, c8)" "r_u64 M c8 = Some (p, c9)" "r_u32 M c9 = Some (i, c10)" "r_u64 M c10 = Some (g, [])"
    and f: "issued_parts f = (k, t, q, v, \<lparr>pd_pool_id = p, pd_page_id = i, pd_generation = g\<rparr>)"
    by (fastforce simp: decode_issued_owned_frame_def try_bind_eq_Inr zero_descriptor_def
        split: if_splits frame_kind.splits prod.splits dest: issued_kind_raw_from)
  have tail: "c1 = w_u32 M issued_transport_magic @ w_u16 M issued_transport_version @ w_u8 M (frame_kind_raw k) @
      w_u8 M issued_transport_flags_v1 @ w_u64 M t @ w_u64 M q @ w_u32 M v @ w_u64 M p @ w_u32 M i @ w_u64 M g"
    using rmp_ok_inv(3) [OF M r(2)] rmp_ok_inv(2) [OF M r(3)] rmp_ok_inv(1) [OF M r(4)]
      rmp_ok_inv(1) [OF M r(5)] rmp_ok_inv(4) [OF M r(6)] rmp_ok_inv(4) [OF M r(7)]
      rmp_ok_inv(3) [OF M r(8)] rmp_ok_inv(4) [OF M r(9)] rmp_ok_inv(3) [OF M r(10)] rmp_ok_inv(4) [OF M r(11)]
    by simp
  then have "length c1 = 58"
    using rmp_ok_write [OF M] by simp
  then have "bs = w_array_len M issued_header_array_len @ c1"
    using rmp_ok_inv(5) [OF M r(1)] len by (simp add: issued_header_len_def)
  then show ?thesis by (simp add: issued_image_def f tail)
qed

interpretation issued_stream: frame_source issued_header_len "decode_issued_owned_frame M" for M
  by unfold_locales (simp add: issued_header_len_def)

section \<open>Properties\<close>

text \<open>C19: The issued-frame codec is exact, and its incremental decoder does not depend on the chunks: every
  frame is encoded in 59 bytes, \<open>decode_issued_frame\<close> accepts these bytes and no others as that frame, and
  a stream of encodings cut into arbitrary pushes yields its frames in order.\<close>

theorem issued_codec_exact:
  assumes "rmp_ok M" and "map (encode_issued_frame M) fs = map Inr encs" and "concat chunks = concat encs"
  shows "(\<forall>f bs. decode_issued_frame M bs = Inr f \<longleftrightarrow> encode_issued_frame M f = Inr bs) \<and>
    (\<exists>d. frame_push_all issued_header_len (decode_issued_owned_frame M) (frame_decoder_new issued_header_len)
      chunks = (d, map Inr fs) \<and> fd_filled d = 0)"
proof (rule conjI)
  note enc = encode_issued_image [OF assms(1)] length_issued_image [OF assms(1)] decode_issued_image [OF assms(1)]
  show "\<forall>f bs. decode_issued_frame M bs = Inr f \<longleftrightarrow> encode_issued_frame M f = Inr bs"
    using enc decode_issued_only_image [OF assms(1)] by (metis decode_issued_frame_def sum.inject(2))
  have "map Inr encs = (map Inr (map (issued_image M) fs) :: (encode_error + bytes) list)"
    using assms(2) [symmetric] by (simp add: enc(1))
  then have encs: "encs = map (issued_image M) fs"
    by (metis inj_map_eq_map inj_Inr)
  have "length (issued_image M f) = issued_header_len \<and>
      decode_issued_owned_frame M (issued_image M f) = Inr f" if "f \<in> set fs" for f
    using enc by blast
  from issued_stream.push_all_encoded [OF this, of fs "[]" chunks] assms(3) encs
  show "\<exists>d. frame_push_all issued_header_len (decode_issued_owned_frame M) (frame_decoder_new issued_header_len)
      chunks = (d, map Inr fs) \<and> fd_filled d = 0"
    by (auto simp: pending_def decoder_ok_def issued_header_len_def)
qed

theorem issued_codec_exact_witness:
  "\<exists>bs d. encode_issued_frame msgpack (Issued_Close 4) = Inr bs \<and>
     frame_push_all issued_header_len (decode_issued_owned_frame msgpack) (frame_decoder_new issued_header_len)
       [take 58 bs, drop 58 bs] = (d, [Inr (Issued_Close 4)])"
proof -
  obtain bs where bs: "encode_issued_frame msgpack (Issued_Close 4) = Inr bs"
    using encode_issued_image [OF msgpack_ok] by blast
  with issued_codec_exact [OF msgpack_ok, of "[Issued_Close 4]" "[bs]" "[take 58 bs, drop 58 bs]"]
  show ?thesis by auto
qed

end
