(* ===== verification/Page_Pool_Proofs.thy ===== *)
theory Page_Pool_Proofs
  imports Page_Pool
begin

text \<open>
  The invariant of the page pool and what its operations do. A state word is read through
  \<open>page_view\<close> as a generation and a lease state; \<open>pool_inv h r fl\<close> says that the free list holds
  exactly the free pages, that generations and states fit together, and that the gauges of the
  metrics count the pages they name. Shown: no operation panics or leaves the invariant, the exact
  effect of each operation on every branch, and that a descriptor, once released, never becomes valid
  again.
\<close>

section \<open>State words\<close>

lemma generation_mask_eq: "generation_mask = mask 62"
  by (simp add: generation_mask_def state_mask_def mask_eq_exp_minus_1)

lemma state_mask_eq: "state_mask = push_bit 62 (mask 2)"
  by (simp add: state_mask_def mask_eq_exp_minus_1)

lemma lease_from_raw_raw [simp]: "lease_from_raw (lease_raw s) = Some s"
  by (cases s) (simp_all add: lease_from_raw_def)

lemma lease_raw_inject [simp]: "lease_raw s = lease_raw t \<longleftrightarrow> s = t"
  by (metis lease_from_raw_raw option.inject)

lemma lease_raw_high_bit: "2 \<le> n \<Longrightarrow> \<not> bit (lease_raw s) n"
  using bit_mask_iff [of 2 n, where 'a = "8 word"] bit_exp_iff [of 1 n, where 'a = "8 word"]
    bit_exp_iff [of 0 n, where 'a = "8 word"]
  by (cases s) (simp_all add: mask_eq_exp_minus_1)

lemma unpack_pack_state [simp]: "unpack_state (pack_state g s) = (g AND mask 62, lease_raw s)"
proof -
  have "ucast (drop_bit 62 (pack_state g s AND state_mask)) = lease_raw s"
  proof (rule bit_word_eqI)
    fix n
    assume n: "n < LENGTH(8)"
    show "bit (ucast (drop_bit 62 (pack_state g s AND state_mask)) :: u8) n = bit (lease_raw s) n"
      using n lease_raw_high_bit [of n s]
      by (cases "n < 2") (auto simp: pack_state_def generation_mask_eq state_mask_eq bit_simps)
  qed
  moreover have "pack_state g s AND generation_mask = g AND mask 62"
    by (rule bit_word_eqI) (auto simp: pack_state_def generation_mask_eq bit_simps)
  ultimately show ?thesis
    by (simp add: unpack_state_def)
qed

lemma lease_from_raw_unpack: "\<exists>s. snd (unpack_state w) = lease_raw s"
proof -
  define x where "x = unat (snd (unpack_state w))"
  have "x = take_bit 8 (unat (drop_bit 62 (w AND state_mask)))"
    by (simp add: x_def unpack_state_def unsigned_ucast_eq)
  also have "\<dots> \<le> unat (drop_bit 62 (w AND state_mask))"
    by (rule take_bit_nat_less_eq_self)
  also have "\<dots> = unat (w AND state_mask) div 2 ^ 62"
    by (simp add: drop_bit_eq_div unat_div_distrib)
  also have "\<dots> < 4"
    using unat_u64_less [of "w AND state_mask"] by simp
  finally have "x < 4" .
  moreover have "snd (unpack_state w) = of_nat x"
    by (simp add: x_def)
  moreover have "of_nat x = lease_raw Free \<or> of_nat x = lease_raw Attached \<or>
      of_nat x = lease_raw Detached \<or> of_nat x = lease_raw Exhausted"
  proof -
    from \<open>x < 4\<close> consider "x = 0" | "x = 1" | "x = 2" | "x = 3" by linarith
    then show ?thesis by cases simp_all
  qed
  ultimately show ?thesis by metis
qed

definition page_view :: "u64 \<Rightarrow> u64 \<times> lease_state" where
  "page_view w = (fst (unpack_state w), the (lease_from_raw (snd (unpack_state w))))"

lemma unpack_state_view: "unpack_state w = (fst (page_view w), lease_raw (snd (page_view w)))"
  using lease_from_raw_unpack [of w] by (auto simp: page_view_def prod_eq_iff)

lemma page_view_pack [simp]: "page_view (pack_state g s) = (g AND mask 62, s)"
  by (simp add: page_view_def)

lemma page_view_bound: "fst (page_view w) \<le> max_generation"
  by (simp add: page_view_def unpack_state_def max_generation_def generation_mask_eq
      word_and_le2 word_and_le1)

lemma and_mask_generation: "g \<le> max_generation \<Longrightarrow> g AND mask 62 = g"
proof -
  assume "g \<le> max_generation"
  then have "unat g \<le> unat (mask 62 :: u64)"
    by (simp add: max_generation_def generation_mask_eq word_le_nat_alt)
  then have "unat g < 2 ^ 62"
    by (simp add: mask_eq_exp_minus_1)
  then have "unat (take_bit 62 g) = unat g"
    by (simp add: unsigned_take_bit_eq take_bit_nat_eq_self)
  then show ?thesis
    by (simp add: take_bit_eq_mask word_unat_eq_iff)
qed

section \<open>Invariant\<close>

definition leased :: "lease_state \<Rightarrow> bool" where
  "leased s \<longleftrightarrow> s = Attached \<or> s = Detached"

definition view_ok :: "u64 \<times> lease_state \<Rightarrow> bool" where
  "view_ok v \<longleftrightarrow> (case v of (g, s) \<Rightarrow> g \<le> max_generation \<and>
     (s = Free \<longrightarrow> g < max_generation) \<and> (s = Exhausted \<longrightarrow> g = max_generation) \<and>
     (leased s \<longrightarrow> 0 < g))"

definition page_at :: "pool_region \<Rightarrow> u32 \<Rightarrow> u64 \<times> lease_state" where
  "page_at r v = page_view (rg_states r ! unat v)"

definition count_pages :: "(lease_state \<Rightarrow> bool) \<Rightarrow> pool_region \<Rightarrow> nat" where
  "count_pages P r = length (filter (\<lambda>w. P (snd (page_view w))) (rg_states r))"

definition pages_ok :: "pool_handle \<Rightarrow> pool_region \<Rightarrow> u32 list \<Rightarrow> bool" where
  "pages_ok h r fl \<longleftrightarrow>
     length (rg_states r) = unat (ph_page_count h) \<and>
     ts_capacity (rg_freelist r) = unat (ph_page_count h) \<and> stack_rep (rg_freelist r) fl \<and>
     length (rg_data r) = unat (ph_page_count h) * ph_page_size h \<and>
     (\<forall>v. unat v < unat (ph_page_count h) \<longrightarrow>
        view_ok (page_at r v) \<and> (v \<in> set fl \<longleftrightarrow> snd (page_at r v) = Free))"

definition metrics_ok :: "pool_region \<Rightarrow> bool" where
  "metrics_ok r \<longleftrightarrow>
     m_leased_pages (rg_metrics r) = of_nat (count_pages leased r) \<and>
     m_exhausted_pages (rg_metrics r) = of_nat (count_pages ((=) Exhausted) r) \<and>
     m_leased_pages (rg_metrics r) \<le> m_high_watermark_pages (rg_metrics r)"

definition pool_inv :: "pool_handle \<Rightarrow> pool_region \<Rightarrow> u32 list \<Rightarrow> bool" where
  "pool_inv h r fl \<longleftrightarrow> pages_ok h r fl \<and> metrics_ok r"

lemma page_at_update:
  "unat v < length (rg_states r) \<Longrightarrow>
     page_at (r\<lparr>rg_states := (rg_states r)[unat v := w]\<rparr>) u = (if u = v then page_view w else page_at r u)"
  by (auto simp: page_at_def nth_list_update word_unat_eq_iff)

lemma page_at_cong: "rg_states r' = rg_states r \<Longrightarrow> page_at r' = page_at r"
  by (simp add: page_at_def fun_eq_iff)

lemma count_pages_cong: "rg_states r' = rg_states r \<Longrightarrow> count_pages P r' = count_pages P r"
  by (simp add: count_pages_def)

lemma count_pages_update:
  assumes "unat v < length (rg_states r)" and "rg_states r' = (rg_states r)[unat v := w]"
  shows "count_pages P r' + (if P (snd (page_at r v)) then 1 else 0) =
    count_pages P r + (if P (snd (page_view w)) then 1 else 0)"
  using length_filter_update [OF assms(1), of "\<lambda>w. P (snd (page_view w))" w] assms(2)
  by (simp add: count_pages_def page_at_def)

lemma count_pages_bound: "count_pages P r \<le> length (rg_states r)"
  by (simp add: count_pages_def)

section \<open>What each operation does\<close>

lemma pages_ok_fl_range: "pages_ok h r fl \<Longrightarrow> v \<in> set fl \<Longrightarrow> unat v < unat (ph_page_count h)"
  using stack_rep_in_range [of "rg_freelist r" fl v] by (simp add: pages_ok_def)

lemma unat_page_count: "unat (ph_page_count h) < 2 ^ 32"
  using unat_u32_less [of "ph_page_count h"] by simp

text \<open>The gauges after one page has been leased.\<close>

lemma metrics_ok_lease:
  assumes "metrics_ok r" and "unat v < length (rg_states r)" and "snd (page_at r v) = Free"
    and "rg_states r' = (rg_states r)[unat v := pack_state g Attached]"
    and "m_leased_pages (rg_metrics r') = m_leased_pages (rg_metrics r) + 1"
    and "m_exhausted_pages (rg_metrics r') = m_exhausted_pages (rg_metrics r)"
    and "m_leased_pages (rg_metrics r') \<le> m_high_watermark_pages (rg_metrics r')"
  shows "metrics_ok r'"
  using assms count_pages_update [OF assms(2,4), of leased]
    count_pages_update [OF assms(2,4), of "(=) Exhausted"]
  by (simp add: metrics_ok_def leased_def add.commute)

lemma metrics_ok_unlease:
  assumes "metrics_ok r" and "unat v < length (rg_states r)" and "leased (snd (page_at r v))"
    and "length (rg_states r) < 2 ^ 32"
    and "rg_states r' = (rg_states r)[unat v := pack_state g s]" and "s = Free \<or> s = Exhausted"
    and "m_leased_pages (rg_metrics r') = m_leased_pages (rg_metrics r) - 1"
    and "m_exhausted_pages (rg_metrics r') =
           m_exhausted_pages (rg_metrics r) + (if s = Exhausted then 1 else 0)"
    and "m_high_watermark_pages (rg_metrics r') = m_high_watermark_pages (rg_metrics r)"
  shows "metrics_ok r'"
proof -
  have nl: "\<not> leased s" "snd (page_at r v) \<noteq> Exhausted"
    using assms(3,6) by (auto simp: leased_def)
  have l: "count_pages leased r = Suc (count_pages leased r')"
    using count_pages_update [OF assms(2,5), of leased] assms(3) nl by simp
  have e: "count_pages ((=) Exhausted) r' =
      count_pages ((=) Exhausted) r + (if s = Exhausted then 1 else 0)"
    using count_pages_update [OF assms(2,5), of "(=) Exhausted"] nl by auto
  have "count_pages leased r < 2 ^ 64"
    using count_pages_bound [of leased r] assms(4) by simp
  then have "unat (of_nat (count_pages leased r') :: u64) \<le> unat (of_nat (count_pages leased r) :: u64)"
    using l unat_of_nat_u64 [of "count_pages leased r"] unat_of_nat_u64 [of "count_pages leased r'"]
    by simp
  then have "(of_nat (count_pages leased r') :: u64) \<le> of_nat (count_pages leased r)"
    by (simp add: word_le_nat_alt)
  then show ?thesis
    using assms(1,7,8,9) l e by (auto simp: metrics_ok_def)
qed

lemma leq_max_generation_Suc:
  "g < max_generation \<Longrightarrow> g + 1 \<le> max_generation \<and> 0 < g + 1 \<and> g \<noteq> - 1 \<and> unat (g + 1) = Suc (unat g)"
proof -
  assume g: "g < max_generation"
  have m: "unat max_generation = 2 ^ 62 - 1"
    by (simp add: max_generation_def generation_mask_eq mask_eq_exp_minus_1)
  from g m have lt: "unat g < 2 ^ 62 - 1"
    by (simp add: word_less_nat_alt)
  then have ne: "g \<noteq> - 1" by auto
  then have "unat (g + 1) = Suc (unat g)"
    using saturating_add_u64_one by blast
  with m lt ne show ?thesis
    by (auto simp: word_le_nat_alt word_less_nat_alt)
qed

lemma pool_try_acquire_empty:
  assumes "pool_inv h r []"
  shows "\<exists>r'. pool_try_acquire h r = Some (r', Inl Acquire_Empty) \<and> pool_inv h r' [] \<and>
    rg_states r' = rg_states r \<and> rg_data r' = rg_data r"
  using assms ts.alloc_empty [of "rg_freelist r"]
  by (auto simp: pool_try_acquire_def pool_inv_def pages_ok_def metrics_ok_def page_at_def
      count_pages_def)

lemma pool_try_acquire_top:
  assumes inv: "pool_inv h r (x # xs)"
  shows "\<exists>r'. pool_try_acquire h r = Some (r', Inr \<lparr>pl_pool = h,
        pl_descriptor = \<lparr>pd_pool_id = ph_pool_id h, pd_page_id = x,
                         pd_generation = fst (page_at r x) + 1\<rparr>,
        pl_detached = False\<rparr>) \<and>
    pool_inv h r' xs \<and> rg_data r' = rg_data r \<and>
    rg_states r' = (rg_states r)[unat x := pack_state (fst (page_at r x) + 1) Attached]"
proof -
  let ?g = "fst (page_at r x)"
  have ok: "pages_ok h r (x # xs)" and mok: "metrics_ok r"
    using inv by (simp_all add: pool_inv_def)
  have x: "unat x < length (rg_states r)"
    using pages_ok_fl_range [OF ok, of x] ok by (simp add: pages_ok_def)
  have free: "snd (page_at r x) = Free" and vok: "view_ok (page_at r x)"
    using ok x by (auto simp: pages_ok_def)
  have g: "?g < max_generation"
    using free vok by (auto simp: view_ok_def split: prod.splits)
  note g1 = leq_max_generation_Suc [OF g]
  from ts.alloc_top ok obtain fl' where
    fl: "stack_allocate (rg_freelist r) = Some (fl', Inr x)" "stack_rep fl' xs"
      "ts_capacity fl' = ts_capacity (rg_freelist r)"
    unfolding pages_ok_def by blast
  define m2 where "m2 = (rg_metrics r)\<lparr>m_acquire_ok := m_acquire_ok (rg_metrics r) + 1,
      m_leased_pages := m_leased_pages (rg_metrics r) + 1\<rparr>"
  define r' where "r' = r\<lparr>rg_freelist := fl',
      rg_states := (rg_states r)[unat x := pack_state (?g + 1) Attached],
      rg_metrics := observe_high_watermark (m_leased_pages (rg_metrics r) + 1) m2\<rparr>"
  have "pool_try_acquire h r = Some (r', Inr \<lparr>pl_pool = h,
        pl_descriptor = \<lparr>pd_pool_id = ph_pool_id h, pd_page_id = x, pd_generation = ?g + 1\<rparr>,
        pl_detached = False\<rparr>)"
    using fl(1) x free g1
    by (simp add: pool_try_acquire_def unpack_state_view Let_def r'_def m2_def page_at_def)
  moreover have "metrics_ok r'"
    by (rule metrics_ok_lease [OF mok x free, of _ "?g + 1"])
      (auto simp: r'_def m2_def observe_high_watermark_def)
  moreover have "pages_ok h r' xs"
  proof -
    have "page_at r' v = (if v = x then (?g + 1, Attached) else page_at r v)" for v
      using page_at_update [OF x, of "pack_state (?g + 1) Attached" v] g1
      by (auto simp: r'_def page_at_def and_mask_generation)
    moreover have "x \<notin> set xs"
      using ok ts.rep_distinct [of "rg_freelist r" "x # xs"] by (simp add: pages_ok_def)
    ultimately show ?thesis
      using ok fl(2,3) g1 by (auto simp: pages_ok_def r'_def view_ok_def leased_def)
  qed
  ultimately show ?thesis
    by (auto simp: pool_inv_def r'_def)
qed


definition valid_desc :: "pool_handle \<Rightarrow> pool_region \<Rightarrow> page_descriptor \<Rightarrow> lease_state \<Rightarrow> bool" where
  "valid_desc h r d s \<longleftrightarrow> pd_pool_id d = ph_pool_id h \<and>
     unat (pd_page_id d) < unat (ph_page_count h) \<and>
     page_at r (pd_page_id d) = (pd_generation d, s)"

lemma release_mismatch_defined:
  "leased e \<Longrightarrow> a \<noteq> e \<Longrightarrow> \<exists>m' err. release_mismatch e a p g m c = Some (m', err) \<and>
     m_leased_pages m' = m_leased_pages m \<and> m_exhausted_pages m' = m_exhausted_pages m \<and>
     m_high_watermark_pages m' = m_high_watermark_pages m"
  by (cases e; cases a) (auto simp: leased_def)

lemma pool_inv_metrics:
  assumes "pool_inv h r fl" and "rg_states r' = rg_states r" and "rg_freelist r' = rg_freelist r"
    and "rg_data r' = rg_data r"
    and "m_leased_pages (rg_metrics r') = m_leased_pages (rg_metrics r)"
    and "m_exhausted_pages (rg_metrics r') = m_exhausted_pages (rg_metrics r)"
    and "m_high_watermark_pages (rg_metrics r') = m_high_watermark_pages (rg_metrics r)"
  shows "pool_inv h r' fl"
  using assms
  by (auto simp: pool_inv_def pages_ok_def metrics_ok_def page_at_def count_pages_def)

text \<open>A release that does not match leaves the pages and the free list alone.\<close>

lemma release_with_state_rejects:
  assumes inv: "pool_inv h r fl" and e: "leased e" and bad: "\<not> valid_desc h r d e"
  shows "\<exists>r' err. release_with_state h r d e c = Some (r', Inl err) \<and> pool_inv h r' fl \<and>
    rg_states r' = rg_states r \<and> rg_data r' = rg_data r \<and> rg_freelist r' = rg_freelist r"
proof (cases "pd_pool_id d = ph_pool_id h \<and> unat (pd_page_id d) < unat (ph_page_count h)")
  case False
  then show ?thesis
    using inv pool_inv_metrics [OF inv]
    by (auto simp: release_with_state_def pool_page_index_def Let_def not_less)
next
  case True
  obtain g s where v: "page_at r (pd_page_id d) = (g, s)" by fastforce
  have i: "unat (pd_page_id d) < length (rg_states r)"
    using inv True by (simp add: pool_inv_def pages_ok_def)
  have u: "unpack_state (rg_states r ! unat (pd_page_id d)) = (g, lease_raw s)"
    using v by (simp add: unpack_state_view page_at_def)
  show ?thesis
  proof (cases "g = pd_generation d")
    case False
    with True i u show ?thesis
      using inv pool_inv_metrics [OF inv]
      by (auto simp: release_with_state_def pool_page_index_def Let_def)
  next
    case gen: True
    with bad True v have "s \<noteq> e" by (auto simp: valid_desc_def)
    from release_mismatch_defined [OF e this, of "pd_page_id d" g "rg_metrics r" c]
    obtain m' err where m': "release_mismatch e s (pd_page_id d) g (rg_metrics r) c = Some (m', err)"
      "m_leased_pages m' = m_leased_pages (rg_metrics r)"
      "m_exhausted_pages m' = m_exhausted_pages (rg_metrics r)"
      "m_high_watermark_pages m' = m_high_watermark_pages (rg_metrics r)" by blast
    have "release_with_state h r d e c = Some (r\<lparr>rg_metrics := m'\<rparr>, Inl err)"
      using True i u gen m'(1) \<open>s \<noteq> e\<close>
      by (simp add: release_with_state_def pool_page_index_def Let_def)
    moreover have "pool_inv h (r\<lparr>rg_metrics := m'\<rparr>) fl"
      by (rule pool_inv_metrics [OF inv]) (use m' in auto)
    ultimately show ?thesis by auto
  qed
qed

text \<open>A matching release puts the page back on the free list, or retires it at the last generation.\<close>

lemma release_with_state_accepts:
  assumes inv: "pool_inv h r fl" and e: "leased e" and ok: "valid_desc h r d e"
  defines "s \<equiv> (if pd_generation d = max_generation then Exhausted else Free)"
  shows "\<exists>r'. release_with_state h r d e c = Some (r', Inr ()) \<and>
    pool_inv h r' (if s = Free then pd_page_id d # fl else fl) \<and>
    rg_states r' = (rg_states r)[unat (pd_page_id d) := pack_state (pd_generation d) s] \<and>
    rg_data r' = rg_data r"
proof -
  let ?p = "pd_page_id d" and ?g = "pd_generation d"
  have po: "pages_ok h r fl" and mo: "metrics_ok r"
    using inv by (simp_all add: pool_inv_def)
  have i: "unat ?p < length (rg_states r)" "unat ?p < unat (ph_page_count h)"
    and v: "page_at r ?p = (?g, e)" and id: "pd_pool_id d = ph_pool_id h"
    using po ok by (simp_all add: pages_ok_def valid_desc_def)
  have u: "unpack_state (rg_states r ! unat ?p) = (?g, lease_raw e)"
    using v by (simp add: unpack_state_view page_at_def)
  have vok: "view_ok (?g, e)" and nin: "?p \<notin> set fl"
    using po i(2) v e by (auto simp: pages_ok_def leased_def)
  have len: "length (rg_states r) < 2 ^ 32"
    using po unat_page_count by (simp add: pages_ok_def)
  define r1 where "r1 = r\<lparr>rg_states := (rg_states r)[unat ?p := pack_state ?g s]\<rparr>"
  have reduce: "release_with_state h r d e c = release_finish r1 d e (?g = max_generation)"
    using i u id by (simp add: release_with_state_def pool_page_index_def Let_def r1_def s_def)
  have at1: "page_at r' q = (if q = ?p then (?g, s) else page_at r q)"
    if "rg_states r' = rg_states r1" for r' q
    using page_at_update [OF i(1), of "pack_state ?g s" q] page_at_cong [OF that] vok
    by (simp add: r1_def and_mask_generation view_ok_def)
  have mets: "metrics_ok r'" if "rg_states r' = rg_states r1"
    and "m_leased_pages (rg_metrics r') = m_leased_pages (rg_metrics r) - 1"
    and "m_exhausted_pages (rg_metrics r') =
          m_exhausted_pages (rg_metrics r) + (if s = Exhausted then 1 else 0)"
    and "m_high_watermark_pages (rg_metrics r') = m_high_watermark_pages (rg_metrics r)" for r'
    by (rule metrics_ok_unlease [OF mo i(1) _ len])
      (use that v e in \<open>auto simp: r1_def s_def\<close>)
  show ?thesis
  proof (cases "?g = max_generation")
    case True
    then have s: "s = Exhausted" by (simp add: s_def)
    from reduce True obtain r' where r': "release_with_state h r d e c = Some (r', Inr ())"
      "rg_states r' = rg_states r1" "rg_freelist r' = rg_freelist r" "rg_data r' = rg_data r"
      "m_leased_pages (rg_metrics r') = m_leased_pages (rg_metrics r) - 1"
      "m_exhausted_pages (rg_metrics r') = m_exhausted_pages (rg_metrics r) + 1"
      "m_high_watermark_pages (rg_metrics r') = m_high_watermark_pages (rg_metrics r)"
      by (simp add: release_finish_def Let_def r1_def)
    have "pages_ok h r' fl"
      using po r' at1 [OF r'(2)] nin s True
      by (auto simp: pages_ok_def view_ok_def leased_def r1_def)
    with mets [OF r'(2)] r' s show ?thesis
      by (auto simp: pool_inv_def r1_def)
  next
    case False
    then have s: "s = Free" by (simp add: s_def)
    have "stack_rep (rg_freelist r) fl" "unat ?p < ts_capacity (rg_freelist r)"
      using po i by (simp_all add: pages_ok_def)
    from ts.rel_push [OF this(1) nin this(2)] obtain fl' where
      fl: "stack_release (rg_freelist r) ?p = Some (fl', Inr ())" "stack_rep fl' (?p # fl)"
        "ts_capacity fl' = ts_capacity (rg_freelist r)" by blast
    from reduce False fl(1) obtain r' where r': "release_with_state h r d e c = Some (r', Inr ())"
      "rg_states r' = rg_states r1" "rg_freelist r' = fl'" "rg_data r' = rg_data r"
      "m_leased_pages (rg_metrics r') = m_leased_pages (rg_metrics r) - 1"
      "m_exhausted_pages (rg_metrics r') = m_exhausted_pages (rg_metrics r)"
      "m_high_watermark_pages (rg_metrics r') = m_high_watermark_pages (rg_metrics r)"
      by (simp add: release_finish_def Let_def r1_def)
    have "?g < max_generation"
      using vok False by (simp add: view_ok_def order.strict_iff_order)
    then have "pages_ok h r' (?p # fl)"
      using po r' at1 [OF r'(2)] s fl vok
      by (auto simp: pages_ok_def view_ok_def leased_def r1_def)
    with mets [OF r'(2)] r' s show ?thesis
      by (auto simp: pool_inv_def r1_def)
  qed
qed

lemma pool_detach_accepts:
  assumes inv: "pool_inv h r fl" and ok: "valid_desc h r d Attached"
  shows "\<exists>r'. pool_detach_descriptor r d = Some (r', Inr ()) \<and> pool_inv h r' fl \<and>
    rg_states r' = (rg_states r)[unat (pd_page_id d) := pack_state (pd_generation d) Detached] \<and>
    rg_data r' = rg_data r"
proof -
  let ?p = "pd_page_id d" and ?g = "pd_generation d"
  have po: "pages_ok h r fl" and mo: "metrics_ok r"
    using inv by (simp_all add: pool_inv_def)
  have i: "unat ?p < length (rg_states r)" "unat ?p < unat (ph_page_count h)"
    and v: "page_at r ?p = (?g, Attached)"
    using po ok by (simp_all add: pages_ok_def valid_desc_def)
  have u: "unpack_state (rg_states r ! unat ?p) = (?g, lease_raw Attached)"
    using v by (simp add: unpack_state_view page_at_def)
  have vok: "view_ok (?g, Attached)" and nin: "?p \<notin> set fl"
    using po i(2) v by (auto simp: pages_ok_def)
  define r' where "r' = r\<lparr>rg_states := (rg_states r)[unat ?p := pack_state ?g Detached]\<rparr>"
  have "pool_detach_descriptor r d = Some (r', Inr ())"
    using i u by (simp add: pool_detach_descriptor_def r'_def Let_def lease_from_raw_def)
  moreover have "page_at r' q = (if q = ?p then (?g, Detached) else page_at r q)" for q
    using page_at_update [OF i(1), of "pack_state ?g Detached" q] vok
    by (simp add: r'_def and_mask_generation view_ok_def)
  then have "pages_ok h r' fl"
    using po nin vok by (auto simp: pages_ok_def r'_def view_ok_def leased_def)
  moreover have "metrics_ok r'"
    using mo v count_pages_update [OF i(1), of r' "pack_state ?g Detached" leased]
      count_pages_update [OF i(1), of r' "pack_state ?g Detached" "(=) Exhausted"]
    by (auto simp: metrics_ok_def r'_def leased_def)
  ultimately show ?thesis
    by (simp add: pool_inv_def r'_def)
qed

lemma pool_detach_rejects:
  assumes inv: "pool_inv h r fl" and i: "unat (pd_page_id d) < unat (ph_page_count h)"
    and bad: "page_at r (pd_page_id d) \<noteq> (pd_generation d, Attached)"
  shows "\<exists>err. pool_detach_descriptor r d = Some (r, Inl err)"
proof -
  obtain g s where v: "page_at r (pd_page_id d) = (g, s)" by fastforce
  have "unat (pd_page_id d) < length (rg_states r)"
    using inv i by (simp add: pool_inv_def pages_ok_def)
  moreover have "unpack_state (rg_states r ! unat (pd_page_id d)) = (g, lease_raw s)"
    using v by (simp add: unpack_state_view page_at_def)
  ultimately show ?thesis
    using bad v by (auto simp: pool_detach_descriptor_def Let_def)
qed

lemma validate_detached_iff:
  assumes inv: "pool_inv h r fl"
  shows "validate_detached_descriptor h r d = Some (Inr i) \<longleftrightarrow>
    valid_desc h r d Detached \<and> i = unat (pd_page_id d)"
    and "\<exists>res. validate_detached_descriptor h r d = Some res"
proof -
  obtain g s where v: "page_at r (pd_page_id d) = (g, s)" by fastforce
  have u: "unpack_state (rg_states r ! unat (pd_page_id d)) = (g, lease_raw s)"
    using v by (simp add: unpack_state_view page_at_def)
  have len: "length (rg_states r) = unat (ph_page_count h)"
    using inv by (simp add: pool_inv_def pages_ok_def)
  show "validate_detached_descriptor h r d = Some (Inr i) \<longleftrightarrow>
    valid_desc h r d Detached \<and> i = unat (pd_page_id d)"
    using len u v
    by (cases s) (auto simp: validate_detached_descriptor_def valid_desc_def Let_def not_le
        split: if_splits simp del: lease_raw.simps)
  show "\<exists>res. validate_detached_descriptor h r d = Some res"
    using len u by (auto simp: validate_detached_descriptor_def Let_def)
qed


section \<open>Sequences of operations\<close>

text \<open>
  A client's operations: acquiring a lease, turning the lease of a descriptor into that descriptor,
  releasing a descriptor, dropping a lease. Descriptors are arbitrary, stale and foreign ones
  included; only a lease, which \<open>try_acquire\<close> made, names a page of the pool for sure.
\<close>

datatype pool_op =
    Op_acquire
  | Op_detach page_descriptor
  | Op_release page_descriptor
  | Op_drop page_descriptor

definition lease_of :: "pool_handle \<Rightarrow> page_descriptor \<Rightarrow> page_lease" where
  "lease_of h d = \<lparr>pl_pool = h, pl_descriptor = d, pl_detached = False\<rparr>"

fun pool_step :: "pool_handle \<Rightarrow> pool_op \<Rightarrow> pool_region \<Rightarrow> pool_region option" where
  "pool_step h Op_acquire r = map_option fst (pool_try_acquire h r)"
| "pool_step h (Op_detach d) r = map_option fst (lease_into_descriptor r (lease_of h d))"
| "pool_step h (Op_release d) r = map_option fst (pool_release h r d)"
| "pool_step h (Op_drop d) r = lease_drop r (lease_of h d)"

fun pool_run :: "pool_handle \<Rightarrow> pool_op list \<Rightarrow> pool_region \<Rightarrow> pool_region option" where
  "pool_run h [] r = Some r"
| "pool_run h (op # ops) r = (case pool_step h op r of None \<Rightarrow> None | Some r' \<Rightarrow> pool_run h ops r')"

fun op_in_range :: "pool_handle \<Rightarrow> pool_op \<Rightarrow> bool" where
  "op_in_range h (Op_detach d) \<longleftrightarrow> unat (pd_page_id d) < unat (ph_page_count h)"
| "op_in_range h _ \<longleftrightarrow> True"

text \<open>
  The life of a page slot as a number: within a generation it is attached, then detached, then free or
  exhausted, and the next lease belongs to the next generation.
\<close>

fun state_rank :: "lease_state \<Rightarrow> nat" where
  "state_rank Attached = 0"
| "state_rank Detached = 1"
| "state_rank Free = 2"
| "state_rank Exhausted = 2"

definition page_rank :: "u64 \<times> lease_state \<Rightarrow> nat" where
  "page_rank v = 3 * unat (fst v) + state_rank (snd v)"

lemma state_rank_le: "state_rank s \<le> 2"
  by (cases s) simp_all

definition ranks_grow :: "pool_region \<Rightarrow> pool_region \<Rightarrow> bool" where
  "ranks_grow r r' \<longleftrightarrow> (\<forall>v. page_rank (page_at r v) \<le> page_rank (page_at r' v))"

lemma ranks_grow_same: "rg_states r' = rg_states r \<Longrightarrow> ranks_grow r r'"
  by (simp add: ranks_grow_def page_at_def)

lemma ranks_grow_trans: "ranks_grow r1 r2 \<Longrightarrow> ranks_grow r2 r3 \<Longrightarrow> ranks_grow r1 r3"
  unfolding ranks_grow_def using le_trans by blast

lemma ranks_grow_update:
  assumes "rg_states r' = (rg_states r)[unat v := pack_state g s]" and "unat v < length (rg_states r)"
    and "g \<le> max_generation" and "page_rank (page_at r v) \<le> page_rank (g, s)"
  shows "ranks_grow r r'"
proof -
  have "page_at r' u = (if u = v then (g, s) else page_at r u)" for u
    using page_at_update [OF assms(2), of "pack_state g s" u] page_at_cong [of r'] assms(1,3)
    by (simp add: and_mask_generation page_at_def)
  with assms(4) show ?thesis by (simp add: ranks_grow_def)
qed

lemma pages_ok_view: "pool_inv h r fl \<Longrightarrow> unat v < unat (ph_page_count h) \<Longrightarrow> view_ok (page_at r v)"
  by (simp add: pool_inv_def pages_ok_def)

lemma pool_inv_length: "pool_inv h r fl \<Longrightarrow> length (rg_states r) = unat (ph_page_count h)"
  by (simp add: pool_inv_def pages_ok_def)

lemma acquire_step:
  assumes inv: "pool_inv h r fl"
  shows "\<exists>r' res fl'. pool_try_acquire h r = Some (r', res) \<and> pool_inv h r' fl' \<and> ranks_grow r r'"
proof (cases fl)
  case Nil
  with pool_try_acquire_empty [of h r] inv show ?thesis
    by (auto intro: ranks_grow_same)
next
  case (Cons x xs)
  with pool_try_acquire_top [of h r x xs] inv obtain r' l where
    r': "pool_try_acquire h r = Some (r', Inr l)" "pool_inv h r' xs"
      "rg_states r' = (rg_states r)[unat x := pack_state (fst (page_at r x) + 1) Attached]"
    by auto
  have x: "unat x < unat (ph_page_count h)" "snd (page_at r x) = Free"
    using inv Cons pages_ok_fl_range [of h r fl x] by (auto simp: pool_inv_def pages_ok_def)
  have g: "fst (page_at r x) < max_generation"
    using pages_ok_view [OF inv x(1)] x(2) by (auto simp: view_ok_def split: prod.splits)
  have "ranks_grow r r'"
    by (rule ranks_grow_update [OF r'(3)])
      (use inv x leq_max_generation_Suc [OF g] in \<open>simp_all add: pool_inv_length page_rank_def\<close>)
  with r' show ?thesis by blast
qed

lemma release_step:
  assumes inv: "pool_inv h r fl" and e: "leased e"
  shows "\<exists>r' res fl'. release_with_state h r d e c = Some (r', res) \<and> pool_inv h r' fl' \<and> ranks_grow r r'"
proof (cases "valid_desc h r d e")
  case False
  from release_with_state_rejects [OF inv e False, of c] show ?thesis
    by (auto intro: ranks_grow_same)
next
  case True
  define s where "s = (if pd_generation d = max_generation then Exhausted else Free)"
  from release_with_state_accepts [OF inv e True, of c] obtain r' fl' where
    r': "release_with_state h r d e c = Some (r', Inr ())" "pool_inv h r' fl'"
      "rg_states r' = (rg_states r)[unat (pd_page_id d) := pack_state (pd_generation d) s]"
    unfolding s_def by blast
  have "ranks_grow r r'"
  proof (rule ranks_grow_update [OF r'(3)])
    show "unat (pd_page_id d) < length (rg_states r)"
      using True inv by (simp add: valid_desc_def pool_inv_length)
    show "pd_generation d \<le> max_generation"
      using True pages_ok_view [OF inv, of "pd_page_id d"] by (auto simp: valid_desc_def view_ok_def)
    have "state_rank s = 2" by (simp add: s_def)
    then show "page_rank (page_at r (pd_page_id d)) \<le> page_rank (pd_generation d, s)"
      using True state_rank_le [of e] by (auto simp: valid_desc_def page_rank_def)
  qed
  with r' show ?thesis by blast
qed

lemma drop_step:
  assumes "pool_inv h r fl"
  shows "\<exists>r' fl'. lease_drop r (lease_of h d) = Some r' \<and> pool_inv h r' fl' \<and> ranks_grow r r'"
  using release_step [OF assms, of Attached d False]
  by (auto simp: lease_drop_def lease_of_def pool_release_attached_def leased_def)

lemma detach_step:
  assumes inv: "pool_inv h r fl" and i: "unat (pd_page_id d) < unat (ph_page_count h)"
  shows "\<exists>r' res fl'. lease_into_descriptor r (lease_of h d) = Some (r', res) \<and>
    pool_inv h r' fl' \<and> ranks_grow r r'"
proof (cases "page_at r (pd_page_id d) = (pd_generation d, Attached)")
  case True
  define d' where "d' = d\<lparr>pd_pool_id := ph_pool_id h\<rparr>"
  have "valid_desc h r d' Attached"
    using True i by (simp add: valid_desc_def d'_def)
  moreover have "pd_page_id d' = pd_page_id d" "pd_generation d' = pd_generation d"
    by (simp_all add: d'_def)
  then have "pool_detach_descriptor r d' = pool_detach_descriptor r d"
    unfolding pool_detach_descriptor_def by metis
  ultimately obtain r' where
    r': "pool_detach_descriptor r d = Some (r', Inr ())" "pool_inv h r' fl"
      "rg_states r' = (rg_states r)[unat (pd_page_id d) := pack_state (pd_generation d) Detached]"
    using pool_detach_accepts [OF inv, of d'] by (auto simp: d'_def)
  have "ranks_grow r r'"
    by (rule ranks_grow_update [OF r'(3)])
      (use True i inv pages_ok_view [OF inv i] in
        \<open>auto simp: pool_inv_length page_rank_def view_ok_def\<close>)
  with r' show ?thesis
    by (auto simp: lease_into_descriptor_def lease_of_def)
next
  case False
  from pool_detach_rejects [OF inv i False] drop_step [OF inv, of d] show ?thesis
    by (auto simp: lease_into_descriptor_def lease_of_def)
qed

lemma pool_step_ok:
  assumes "pool_inv h r fl" and "op_in_range h op"
  shows "\<exists>r' fl'. pool_step h op r = Some r' \<and> pool_inv h r' fl' \<and> ranks_grow r r'"
proof (cases op)
  case Op_acquire
  with acquire_step [OF assms(1)] show ?thesis by force
next
  case (Op_detach d)
  with assms(2) detach_step [OF assms(1), of d] show ?thesis by force
next
  case (Op_release d)
  with release_step [OF assms(1), of Detached d True] show ?thesis
    by (force simp: pool_release_def leased_def)
next
  case (Op_drop d)
  with drop_step [OF assms(1), of d] show ?thesis by force
qed

lemma pool_run_ok:
  assumes "pool_inv h r fl" and "list_all (op_in_range h) ops"
  shows "\<exists>r' fl'. pool_run h ops r = Some r' \<and> pool_inv h r' fl' \<and> ranks_grow r r'"
  using assms
proof (induction ops arbitrary: r fl)
  case Nil
  then show ?case by (auto intro: ranks_grow_same)
next
  case (Cons op ops)
  from pool_step_ok [OF Cons.prems(1), of op] Cons.prems(2) obtain r1 fl1 where
    r1: "pool_step h op r = Some r1" "pool_inv h r1 fl1" "ranks_grow r r1" by auto
  from Cons.IH [OF r1(2)] Cons.prems(2) obtain r2 fl2 where
    "pool_run h ops r1 = Some r2" "pool_inv h r2 fl2" "ranks_grow r1 r2" by auto
  with r1 show ?case by (auto intro: ranks_grow_trans)
qed

section \<open>Accounting\<close>

lemma free_list_length:
  assumes "pool_inv h r fl"
  shows "length fl = count_pages ((=) Free) r"
proof -
  have po: "pages_ok h r fl" using assms by (simp add: pool_inv_def)
  have d: "distinct fl"
    using po ts.rep_distinct [of "rg_freelist r" fl] by (simp add: pages_ok_def)
  have "unat ` set fl = {i. i < length (rg_states r) \<and> Free = snd (page_view (rg_states r ! i))}"
    (is "?L = ?R")
  proof (intro equalityI subsetI)
    fix i assume "i \<in> ?L"
    then obtain v where v: "v \<in> set fl" "i = unat v" by auto
    with pages_ok_fl_range [OF po v(1)] po show "i \<in> ?R"
      by (auto simp: pages_ok_def page_at_def)
  next
    fix i assume i: "i \<in> ?R"
    have "i < 2 ^ 32"
      using i po unat_page_count [of h] by (simp add: pages_ok_def)
    then have u: "unat (of_nat i :: u32) = i" by (rule unat_of_nat_u32)
    with i po have "(of_nat i :: u32) \<in> set fl"
      by (auto simp: pages_ok_def page_at_def)
    with u show "i \<in> ?L" by (metis imageI)
  qed
  moreover have "card (unat ` set fl) = card (set fl)"
    by (rule card_image) (simp add: inj_on_def word_unat_eq_iff)
  ultimately show ?thesis
    using d by (simp add: count_pages_def length_filter_conv_card distinct_card)
qed

lemma count_pages_partition:
  "count_pages ((=) Free) r + count_pages leased r + count_pages ((=) Exhausted) r = length (rg_states r)"
proof -
  have "length (filter (\<lambda>w. Free = snd (page_view w)) ws) +
      length (filter (\<lambda>w. leased (snd (page_view w))) ws) +
      length (filter (\<lambda>w. Exhausted = snd (page_view w)) ws) = length ws" for ws
  proof (induction ws)
    case (Cons w ws)
    then show ?case by (cases "snd (page_view w)") (simp_all add: leased_def)
  qed simp
  then show ?thesis by (simp add: count_pages_def)
qed

lemma snapshot_free_pages:
  assumes "pool_inv h r fl"
  shows "unat (ps_free_pages (pool_snapshot_of h r)) = length fl"
    and "length fl + unat (ps_leased_pages (pool_snapshot_of h r)) +
         unat (ps_exhausted_pages (pool_snapshot_of h r)) = unat (ph_page_count h)"
proof -
  have len: "length (rg_states r) = unat (ph_page_count h)" and mo: "metrics_ok r"
    using assms by (simp_all add: pool_inv_def pages_ok_def)
  have n: "unat (ph_page_count h) < 2 ^ 64"
    using unat_page_count [of h] by simp
  have l: "unat (m_leased_pages (rg_metrics r)) = count_pages leased r"
    using mo count_pages_bound [of leased r] len n unat_of_nat_u64 [of "count_pages leased r"]
    by (simp add: metrics_ok_def)
  have x: "unat (m_exhausted_pages (rg_metrics r)) = count_pages ((=) Exhausted) r"
    using mo count_pages_bound [of "(=) Exhausted" r] len n
      unat_of_nat_u64 [of "count_pages ((=) Exhausted) r"]
    by (simp add: metrics_ok_def)
  have u: "unat (ucast (ph_page_count h) :: u64) = unat (ph_page_count h)"
    using unat_u32_less [of "ph_page_count h"]
    by (simp add: unsigned_ucast_eq take_bit_nat_eq_self)
  show "unat (ps_free_pages (pool_snapshot_of h r)) = length fl"
    using count_pages_partition [of r] len l x u free_list_length [OF assms]
    by (simp add: pool_snapshot_of_def Let_def unat_saturating_sub_u64)
  show "length fl + unat (ps_leased_pages (pool_snapshot_of h r)) +
         unat (ps_exhausted_pages (pool_snapshot_of h r)) = unat (ph_page_count h)"
    using count_pages_partition [of r] len l x free_list_length [OF assms]
    by (simp add: pool_snapshot_of_def Let_def)
qed

end
