(* ===== verification/Page_Pool_Props.thy ===== *)
theory Page_Pool_Props imports Page_Pool_Proofs begin

text \<open>
  The pool from its initialisation on: \<open>init_in_place\<close> establishes the invariant, every client sequence
  keeps it, and what acquiring, detaching, writing, reading and releasing a page promise to the
  holders of its descriptors.
\<close>

section \<open>Initialisation and attachment\<close>

lemma pool_init_parts:
  assumes "pool_init_in_place base len cfg pid = Some (Inr (r, h))"
  obtains cl fl where
    "compute_layout_from_values (cfg_page_size cfg) (cfg_page_count cfg) = Inr cl"
    "validate_region base len (lalign (cl_region cl)) (lsize (cl_region cl)) = Inr ()"
    "stack_init_in_place (unat (cfg_page_count cfg)) = Some fl"
    "h = build_handle pid (cfg_page_size cfg) (cfg_page_count cfg) cl"
    "rg_header r = \<lparr>hd_magic = page_pool_magic, hd_version = page_pool_version,
        hd_page_size = of_nat (cfg_page_size cfg), hd_page_count = cfg_page_count cfg,
        hd_region_size = of_nat (lsize (cl_region cl)), hd_pool_id = pid\<rparr>"
    "rg_metrics r = metrics_zeroed" "rg_freelist r = fl"
    "rg_states r = replicate (unat (cfg_page_count cfg)) (pack_state 0 Free)"
    "rg_data r = replicate (cl_data_size cl) 0"
  using assms
  by (auto simp: pool_init_in_place_def compute_layout_from_config_def
      split: sum.splits Option.bind_splits if_splits)

lemma pool_init_inv:
  assumes "pool_init_in_place base len cfg pid = Some (Inr (r, h))"
  shows "pool_inv h r (rev (map of_nat [0..<unat (ph_page_count h)]))"
proof -
  from pool_init_parts [OF assms] obtain cl fl where
    cl: "compute_layout_from_values (cfg_page_size cfg) (cfg_page_count cfg) = Inr cl"
    and fl: "stack_init_in_place (unat (cfg_page_count cfg)) = Some fl"
    and h: "h = build_handle pid (cfg_page_size cfg) (cfg_page_count cfg) cl"
    and r: "rg_metrics r = metrics_zeroed" "rg_freelist r = fl"
      "rg_states r = replicate (unat (cfg_page_count cfg)) (pack_state 0 Free)"
      "rg_data r = replicate (cl_data_size cl) 0" by metis
  let ?n = "unat (cfg_page_count cfg)"
  have n: "?n < 2 ^ 32" using unat_u32_less [of "cfg_page_count cfg"] by simp
  from stack_init_rep [OF n] fl have rep: "stack_rep fl (rev (map of_nat [0..<?n]))"
    and cap: "ts_capacity fl = ?n" by auto
  have size: "cl_data_size cl = cfg_page_size cfg * ?n"
    using cl by (rule compute_layout_parts)
  have mem: "v \<in> set (rev (map (of_nat :: nat \<Rightarrow> u32) [0..<?n]))" if "unat v < ?n" for v
    using that by (auto intro!: image_eqI [of _ _ "unat v"])
  have "0 < max_generation"
    by (simp add: max_generation_def generation_mask_eq mask_eq_exp_minus_1)
  then have "pages_ok h r (rev (map of_nat [0..<?n]))"
    using r rep cap size mem
    by (simp add: pages_ok_def h build_handle_def page_at_def view_ok_def leased_def mult.commute)
  moreover have "metrics_ok r"
    using r by (simp add: metrics_ok_def metrics_zeroed_def count_pages_def leased_def filter_replicate)
  ultimately show ?thesis
    by (simp add: pool_inv_def h build_handle_def)
qed

lemma layout_size_bound:
  assumes "compute_layout_from_values ps pc = Inr cl"
  shows "lsize (cl_region cl) < 2 ^ 64" "ps < 2 ^ 64" "1 \<le> unat pc"
proof -
  from compute_layout_parts [OF assms] obtain fl l1 l2 l3 l4 where
    ps: "validate_page_size ps = Inr ()" "pc \<noteq> 0"
    and e4: "layout_extend l3 \<lparr>lsize = ps * unat pc, lalign = 64\<rparr> = Some (l4, cl_data_offset cl)"
    and rg: "cl_region cl = pad_to_align l4" by metis
  note align = layout_region_align [OF assms]
  have pos: "1 \<le> unat pc"
    using ps(2) unat_gt_0 [of pc] by linarith
  then show "1 \<le> unat pc" .
  have l4: "lsize l4 \<le> isize_max" "ps * unat pc \<le> lsize l4"
    using e4 by (auto simp: layout_extend_def Let_def layout_from_size_align_def
        checked_add_usize_def max_size_for_align_def isize_max_def
        split: if_splits Option.bind_splits)
  have "ps \<le> ps * unat pc" using pos by simp
  with l4 have "ps \<le> isize_max" by linarith
  then show "ps < 2 ^ 64" by (simp add: isize_max_def)
  have "round_up (lsize l4) (lalign l4) \<le> lsize l4 + lalign l4 - 1"
    by (simp add: round_up_def)
  moreover have "lalign l4 = 64"
    using align rg by (simp add: pad_to_align_def)
  ultimately show "lsize (cl_region cl) < 2 ^ 64"
    using l4(1) rg by (simp add: pad_to_align_def isize_max_def)
qed

lemma unat_of_nat_sizes:
  assumes "compute_layout_from_values ps pc = Inr cl"
  shows "unat (of_nat ps :: u64) = ps" "unat (of_nat (lsize (cl_region cl)) :: u64) = lsize (cl_region cl)"
  using layout_size_bound [OF assms] by (simp_all add: unat_of_nat_u64)

text \<open>A pool of two pages of 64 bytes, used to exhibit states.\<close>

lemma demo_pool:
  "\<exists>r h. pool_init_in_place 0 4096 \<lparr>cfg_page_size = 64, cfg_page_count = 2\<rparr> 7 = Some (Inr (r, h)) \<and>
     pool_inv h r [1, 0] \<and> ph_page_count h = 2 \<and> ph_page_size h = 64 \<and> ph_pool_id h = 7 \<and>
     page_at r 0 = (0, Free) \<and> page_at r 1 = (0, Free)"
proof -
  let ?cfg = "\<lparr>cfg_page_size = 64, cfg_page_count = 2\<rparr>"
  have "compute_layout_from_config ?cfg = Inr \<lparr>cl_region = \<lparr>lsize = 384, lalign = 64\<rparr>,
      cl_metrics_offset = 48, cl_states_offset = 152, cl_freelist_offset = 168,
      cl_freelist_next_offset = 192, cl_data_offset = 256, cl_data_size = 128\<rparr>"
    by (simp add: compute_layout_from_config_def compute_layout_from_values_def
        validate_page_size_def page_align_def treiber_stack_layout_def layout_defs)
  then obtain r h where init: "pool_init_in_place 0 4096 ?cfg 7 = Some (Inr (r, h))"
    and h: "ph_page_count h = 2" "ph_page_size h = 64" "ph_pool_id h = 7"
    and st: "rg_states r = replicate 2 (pack_state 0 Free)"
    by (simp add: pool_init_in_place_def validate_region_def stack_init_in_place_def build_handle_def)
  have "rev (map of_nat [0..<unat (ph_page_count h)]) = [1 :: u32, 0]"
    by (simp add: h upt_rec)
  with pool_init_inv [OF init] have "pool_inv h r [1, 0]" by simp
  moreover have "page_at r 0 = (0, Free)" "page_at r 1 = (0, Free)"
    by (simp_all add: page_at_def st)
  ultimately show ?thesis using init h by blast
qed

text \<open>The first lease of that pool, its descriptor, and the state after it has been released.\<close>

lemma demo_pool_released:
  "\<exists>h r0 r r1. pool_inv h r0 [0] \<and> valid_desc h r0 \<lparr>pd_pool_id = 7, pd_page_id = 1, pd_generation = 1\<rparr> Attached \<and>
     pool_inv h r [0] \<and> valid_desc h r \<lparr>pd_pool_id = 7, pd_page_id = 1, pd_generation = 1\<rparr> Detached \<and>
     ph_page_count h = 2 \<and> ph_page_size h = 64 \<and> ph_pool_id h = 7 \<and>
     pool_release h r \<lparr>pd_pool_id = 7, pd_page_id = 1, pd_generation = 1\<rparr> = Some (r1, Inr ())"
proof -
  let ?d = "\<lparr>pd_pool_id = 7, pd_page_id = 1, pd_generation = 1\<rparr> :: page_descriptor"
  have max: "1 \<le> max_generation"
    by (simp add: max_generation_def generation_mask_eq mask_eq_exp_minus_1)
  from demo_pool obtain r0 h where
    inv0: "pool_inv h r0 [1, 0]" and h: "ph_page_count h = 2" "ph_page_size h = 64" "ph_pool_id h = 7"
    and at0: "page_at r0 1 = (0, Free)" by blast
  from pool_try_acquire_top [OF inv0] at0 obtain r1 where
    inv1: "pool_inv h r1 [0]" and st1: "rg_states r1 = (rg_states r0)[1 := pack_state 1 Attached]"
    by auto
  have v1: "valid_desc h r1 ?d Attached"
    using st1 h pool_inv_length [OF inv0] and_mask_generation [OF max]
    by (simp add: valid_desc_def page_at_def)
  from pool_detach_accepts [OF inv1 v1] obtain r2 where
    inv2: "pool_inv h r2 [0]" and st2: "rg_states r2 = (rg_states r1)[1 := pack_state 1 Detached]"
    by auto
  have v2: "valid_desc h r2 ?d Detached"
    using st2 h pool_inv_length [OF inv1] and_mask_generation [OF max]
    by (simp add: valid_desc_def page_at_def)
  from release_with_state_accepts [OF inv2 _ v2, of True] obtain r3 where
    "pool_release h r2 ?d = Some (r3, Inr ())" by (auto simp: pool_release_def leased_def)
  with inv1 v1 inv2 v2 h show ?thesis by blast
qed

text \<open>Bytes of one page under a write into the data section.\<close>

lemma page_slice_write_same:
  assumes "start + length src \<le> n" and "a + n \<le> length xs"
  shows "take n (drop a (copy_at xs (a + start) src)) = copy_at (take n (drop a xs)) start src"
proof -
  define A B C where "A = take a xs" and "B = take n (drop a xs)" and "C = drop (a + n) xs"
  have len: "length A = a" "length B = n"
    using assms by (simp_all add: A_def B_def)
  have "drop a xs = B @ C"
    unfolding B_def C_def by (metis append_take_drop_id drop_drop add.commute)
  then have xs: "xs = A @ B @ C"
    by (metis A_def append_take_drop_id)
  have "copy_at xs (a + start) src = A @ copy_at B start src @ C"
    using assms(1) len by (simp add: xs copy_at_def)
  then show ?thesis
    using assms(1) len by (simp add: xs)
qed

lemma page_slice_write_other:
  assumes "start + length src \<le> n" and "Suc i * n \<le> length xs" and "Suc j * n \<le> length xs" and "i \<noteq> j"
  shows "take n (drop (j * n) (copy_at xs (i * n + start) src)) = take n (drop (j * n) xs)"
proof -
  have len: "length (copy_at xs (i * n + start) src) = length xs"
    using assms(1,2) by simp
  consider "Suc j \<le> i" | "Suc i \<le> j" using assms(4) by linarith
  then have out: "j * n + k < i * n + start \<or> i * n + start + length src \<le> j * n + k" if "k < n" for k
  proof cases
    case 1
    then have "Suc j * n \<le> i * n" by (rule mult_right_mono) simp
    with that show ?thesis by simp
  next
    case 2
    then have "Suc i * n \<le> j * n" by (rule mult_right_mono) simp
    with assms(1) show ?thesis by simp
  qed
  have "copy_at xs (i * n + start) src ! (j * n + k) = xs ! (j * n + k)" if "k < n" for k
  proof -
    have "i * n + start + length src \<le> length xs" using assms(1,2) by simp
    then have "length (take (i * n + start) xs) = i * n + start" by simp
    with out [OF that] \<open>i * n + start + length src \<le> length xs\<close> show ?thesis
      by (elim disjE) (auto simp: copy_at_def nth_append simp del: length_take)
  qed
  then show ?thesis
    using len assms(3) by (intro nth_equalityI) simp_all
qed

lemma page_in_data:
  assumes "pool_inv h r fl" and "i < unat (ph_page_count h)"
  shows "Suc i * ph_page_size h \<le> length (rg_data r)"
  using assms mult_right_mono [of "Suc i" "unat (ph_page_count h)" "ph_page_size h"]
  by (simp add: pool_inv_def pages_ok_def)

lemma compute_layout_header: "compute_layout_from_values ps pc = Inr cl \<Longrightarrow> 48 \<le> lsize (cl_region cl)"
proof -
  assume lay: "compute_layout_from_values ps pc = Inr cl"
  from compute_layout_parts [OF lay] obtain fl l1 l2 l3 l4 where
    fl: "treiber_stack_layout (unat pc) = Some fl"
    and e: "layout_extend \<lparr>lsize = 48, lalign = 8\<rparr> \<lparr>lsize = 104, lalign = 8\<rparr> = Some (l1, cl_metrics_offset cl)"
      "layout_extend l1 \<lparr>lsize = 8 * unat pc, lalign = 8\<rparr> = Some (l2, cl_states_offset cl)"
      "layout_extend l2 (sl_layout fl) = Some (l3, cl_freelist_offset cl)"
      "layout_extend l3 \<lparr>lsize = ps * unat pc, lalign = 64\<rparr> = Some (l4, cl_data_offset cl)"
    and rg: "cl_region cl = pad_to_align l4" by metis
  have "lsize l4 \<le> lsize (cl_region cl)"
    using rg layout_region_align [OF lay] by (simp add: pad_to_align_def round_up_ge)
  moreover have "48 \<le> lsize l4"
    using layout_extend_Some [OF e(1)] layout_extend_Some [OF e(2)] layout_extend_Some [OF e(3)]
      layout_extend_Some [OF e(4)] treiber_stack_layout_Some [OF fl] by simp
  ultimately show ?thesis by simp
qed

lemma pool_step_header: "pool_step h op r = Some r' \<Longrightarrow> rg_header r' = rg_header r"
  by (cases op)
    (auto simp: pool_try_acquire_def lease_into_descriptor_def lease_drop_def pool_release_def
      pool_release_attached_def release_with_state_def release_finish_def pool_detach_descriptor_def Let_def
      split: Option.bind_splits sum.splits prod.splits if_splits stack_error.splits option.splits)

lemma pool_run_header: "pool_run h ops r = Some r' \<Longrightarrow> rg_header r' = rg_header r"
  by (induction ops arbitrary: r) (auto simp: pool_step_header split: option.splits)

section \<open>Properties\<close>

text \<open>C6: No client can break the pool: after \<open>init_in_place\<close>, any sequence of acquires, detaches,
  drops and releases, with stale, foreign or forged descriptors among them, runs without a panic or
  an access outside the state array and keeps the invariant; and the snapshot's free, leased and
  exhausted gauges always add up to the page count, the free one being the length of the free
  list.\<close>

theorem pool_any_client_safe:
  assumes "pool_init_in_place base len cfg pid = Some (Inr (r, h))"
    and "list_all (op_in_range h) ops"
  shows "\<exists>r' fl. pool_run h ops r = Some r' \<and> pool_inv h r' fl \<and>
    unat (ps_free_pages (pool_snapshot_of h r')) = length fl \<and>
    length fl + unat (ps_leased_pages (pool_snapshot_of h r')) +
      unat (ps_exhausted_pages (pool_snapshot_of h r')) = unat (ph_page_count h)"
proof -
  from pool_run_ok [OF pool_init_inv [OF assms(1)] assms(2)] obtain r' fl where
    "pool_run h ops r = Some r'" "pool_inv h r' fl" by blast
  with snapshot_free_pages [OF this(2)] show ?thesis by blast
qed

theorem pool_any_client_safe_witness:
  "\<exists>r h r' fl. pool_init_in_place 0 4096 \<lparr>cfg_page_size = 64, cfg_page_count = 2\<rparr> 7 = Some (Inr (r, h)) \<and>
     pool_run h [Op_acquire, Op_detach \<lparr>pd_pool_id = 7, pd_page_id = 1, pd_generation = 1\<rparr>,
       Op_release \<lparr>pd_pool_id = 9, pd_page_id = 80, pd_generation = 5\<rparr>] r = Some r' \<and>
     pool_inv h r' fl \<and> unat (ps_free_pages (pool_snapshot_of h r')) = length fl"
proof -
  from demo_pool obtain r h where
    init: "pool_init_in_place 0 4096 \<lparr>cfg_page_size = 64, cfg_page_count = 2\<rparr> 7 = Some (Inr (r, h))"
    and h: "ph_page_count h = 2" by blast
  have "list_all (op_in_range h) [Op_acquire, Op_detach \<lparr>pd_pool_id = 7, pd_page_id = 1, pd_generation = 1\<rparr>,
       Op_release \<lparr>pd_pool_id = 9, pd_page_id = 80, pd_generation = 5\<rparr>]"
    using h by simp
  from pool_any_client_safe [OF init this] init show ?thesis by blast
qed

text \<open>C7: \<open>try_acquire\<close> on a pool with a free page leases the top of the free list under the next
  generation, and changes no other page and no byte; a page leased before stays leased to its own
  descriptor and is not the page handed out.\<close>

theorem pool_acquire_fresh_page:
  assumes "pool_inv h r (x # xs)"
  shows "\<exists>r' l. pool_try_acquire h r = Some (r', Inr l) \<and> pool_inv h r' xs \<and>
    pl_descriptor l = \<lparr>pd_pool_id = ph_pool_id h, pd_page_id = x, pd_generation = fst (page_at r x) + 1\<rparr> \<and>
    valid_desc h r' (pl_descriptor l) Attached \<and> lease_bytes r' l = page_slice h r (unat x) \<and>
    (\<forall>d s. valid_desc h r d s \<longrightarrow> leased s \<longrightarrow> pd_page_id d \<noteq> x \<and> valid_desc h r' d s)"
proof -
  from pool_try_acquire_top [OF assms] obtain r' l where
    l: "pool_try_acquire h r = Some (r', Inr l)" "pool_inv h r' xs" "rg_data r' = rg_data r"
      "pl_pool l = h" "pl_descriptor l = \<lparr>pd_pool_id = ph_pool_id h, pd_page_id = x,
         pd_generation = fst (page_at r x) + 1\<rparr>"
    and st: "rg_states r' = (rg_states r)[unat x := pack_state (fst (page_at r x) + 1) Attached]"
    by auto
  have x: "unat x < unat (ph_page_count h)" "snd (page_at r x) = Free"
    using assms pages_ok_fl_range [of h r "x # xs" x] by (auto simp: pool_inv_def pages_ok_def)
  have g: "fst (page_at r x) < max_generation"
    using pages_ok_view [OF assms x(1)] x(2) by (auto simp: view_ok_def split: prod.splits)
  have at: "page_at r' u = (if u = x then (fst (page_at r x) + 1, Attached) else page_at r u)" for u
    using page_at_update [of x r "pack_state (fst (page_at r x) + 1) Attached" u] st x(1)
      leq_max_generation_Suc [OF g] pool_inv_length [OF assms]
    by (simp add: and_mask_generation page_at_def)
  have "pd_page_id d \<noteq> x \<and> valid_desc h r' d s" if "valid_desc h r d s" "leased s" for d s
    using that x(2) at by (auto simp: valid_desc_def leased_def)
  moreover have "valid_desc h r' (pl_descriptor l) Attached"
    using l(5) at x(1) by (simp add: valid_desc_def)
  moreover have "lease_bytes r' l = page_slice h r (unat x)"
    using l(3-5) by (simp add: lease_bytes_def page_slice_def)
  ultimately show ?thesis using l(1,2,5) by blast
qed

theorem pool_acquire_fresh_page_witness:
  "\<exists>h r r' l. pool_inv h r [1, 0] \<and> pool_try_acquire h r = Some (r', Inr l) \<and>
     pl_descriptor l = \<lparr>pd_pool_id = 7, pd_page_id = 1, pd_generation = 1\<rparr>"
proof -
  from demo_pool obtain r h where
    inv: "pool_inv h r [1, 0]" and h: "ph_pool_id h = 7" "page_at r 1 = (0, Free)" by blast
  from pool_acquire_fresh_page [OF inv] h inv show ?thesis by fastforce
qed

text \<open>C8: A descriptor dies with its release: once \<open>release\<close> has accepted it, no later sequence of
  operations makes it valid again, so reading through it and releasing it a second time are always
  refused. (The generation of a page slot only grows; at the last one the slot is retired.)\<close>

theorem pool_released_descriptor_stays_dead:
  assumes "pool_inv h r fl" and "pool_release h r d = Some (r1, Inr ())"
    and "list_all (op_in_range h) ops" and "pool_run h ops r1 = Some r2"
  shows "(\<exists>e. pool_page_bytes h r2 d = Some (Inl e)) \<and>
    (\<exists>r3 e. pool_release h r2 d = Some (r3, Inl e) \<and> rg_states r3 = rg_states r2)"
proof -
  have det: "leased Detached" by (simp add: leased_def)
  have v: "valid_desc h r d Detached"
  proof (rule ccontr)
    assume "\<not> valid_desc h r d Detached"
    from release_with_state_rejects [OF assms(1) det this, of True] assms(2) show False
      by (auto simp: pool_release_def)
  qed
  define s where "s = (if pd_generation d = max_generation then Exhausted else Free)"
  from release_with_state_accepts [OF assms(1) det v, of True] assms(2) obtain fl1 where
    inv1: "pool_inv h r1 fl1"
    and st1: "rg_states r1 = (rg_states r)[unat (pd_page_id d) := pack_state (pd_generation d) s]"
    unfolding pool_release_def s_def by auto
  have i: "unat (pd_page_id d) < unat (ph_page_count h)"
    and g: "pd_generation d \<le> max_generation"
    using v pages_ok_view [OF assms(1), of "pd_page_id d"] by (auto simp: valid_desc_def view_ok_def)
  have "page_at r1 (pd_page_id d) = (pd_generation d, s)"
    using page_at_update [of "pd_page_id d" r "pack_state (pd_generation d) s" "pd_page_id d"]
      st1 i pool_inv_length [OF assms(1)] g by (simp add: and_mask_generation page_at_def)
  then have rank1: "page_rank (page_at r1 (pd_page_id d)) = 3 * unat (pd_generation d) + 2"
    by (simp add: page_rank_def s_def)
  from pool_run_ok [OF inv1 assms(3)] assms(4) obtain fl2 where
    inv2: "pool_inv h r2 fl2" and grow: "ranks_grow r1 r2" by auto
  have dead: "\<not> valid_desc h r2 d Detached"
  proof
    assume "valid_desc h r2 d Detached"
    then have "page_rank (page_at r2 (pd_page_id d)) = 3 * unat (pd_generation d) + 1"
      by (simp add: valid_desc_def page_rank_def)
    with grow rank1 show False by (simp add: ranks_grow_def) (metis Suc_n_not_le_n)
  qed
  from validate_detached_iff [OF inv2, of d] dead
  obtain e where "validate_detached_descriptor h r2 d = Some (Inl e)"
    by (metis old.sum.exhaust)
  then have "\<exists>e. pool_page_bytes h r2 d = Some (Inl e)"
    by (simp add: pool_page_bytes_def)
  moreover from release_with_state_rejects [OF inv2 det dead, of True]
  have "\<exists>r3 e. pool_release h r2 d = Some (r3, Inl e) \<and> rg_states r3 = rg_states r2"
    by (auto simp: pool_release_def)
  ultimately show ?thesis ..
qed

theorem pool_released_descriptor_stays_dead_witness:
  "\<exists>h r1 r2 r3 e. pool_run h [Op_acquire, Op_acquire] r1 = Some r2 \<and>
     pool_release h r2 \<lparr>pd_pool_id = 7, pd_page_id = 1, pd_generation = 1\<rparr> = Some (r3, Inl e)"
proof -
  from demo_pool_released obtain h r r1 where
    inv: "pool_inv h r [0]" and v: "valid_desc h r \<lparr>pd_pool_id = 7, pd_page_id = 1, pd_generation = 1\<rparr> Detached"
    and rel: "pool_release h r \<lparr>pd_pool_id = 7, pd_page_id = 1, pd_generation = 1\<rparr> = Some (r1, Inr ())"
    by blast
  have ops: "list_all (op_in_range h) [Op_acquire, Op_acquire]" by simp
  from release_with_state_accepts [OF inv _ v, of True] rel obtain fl1 where "pool_inv h r1 fl1"
    by (auto simp: pool_release_def leased_def)
  from pool_run_ok [OF this ops] obtain r2 where run: "pool_run h [Op_acquire, Op_acquire] r1 = Some r2"
    by blast
  from pool_released_descriptor_stays_dead [OF inv rel ops run] run show ?thesis by blast
qed

text \<open>C9: \<open>release\<close> accepts a descriptor exactly when it names this pool and a page that is detached
  under the descriptor's generation; then the page goes to the top of the free list, or is retired
  when it has reached the last generation. Every other descriptor is refused, and the page states, the
  free list and the data are left as they were.\<close>

theorem pool_release_exact:
  assumes "pool_inv h r fl"
  shows "\<exists>r' res. pool_release h r d = Some (r', res) \<and> rg_data r' = rg_data r \<and>
    (if valid_desc h r d Detached
     then res = Inr () \<and>
       (if pd_generation d = max_generation
        then pool_inv h r' fl \<and> page_at r' (pd_page_id d) = (pd_generation d, Exhausted)
        else pool_inv h r' (pd_page_id d # fl) \<and> page_at r' (pd_page_id d) = (pd_generation d, Free))
     else (\<exists>e. res = Inl e) \<and> pool_inv h r' fl \<and>
       rg_states r' = rg_states r \<and> rg_freelist r' = rg_freelist r)"
proof (cases "valid_desc h r d Detached")
  case True
  have i: "unat (pd_page_id d) < length (rg_states r)" and g: "pd_generation d AND mask 62 = pd_generation d"
    using True pages_ok_view [OF assms, of "pd_page_id d"] pool_inv_length [OF assms]
    by (auto simp: valid_desc_def view_ok_def and_mask_generation)
  from release_with_state_accepts [OF assms _ True, of True] True i g show ?thesis
    by (auto simp: pool_release_def leased_def page_at_def)
next
  case False
  from release_with_state_rejects [OF assms _ False, of True] False show ?thesis
    by (auto simp: pool_release_def leased_def)
qed

theorem pool_release_exact_witness:
  "\<exists>h r r'. pool_release h r \<lparr>pd_pool_id = 7, pd_page_id = 1, pd_generation = 1\<rparr> = Some (r', Inr ()) \<and>
     pool_inv h r' [1, 0] \<and> page_at r' 1 = (1, Free)"
proof -
  let ?d = "\<lparr>pd_pool_id = 7, pd_page_id = 1, pd_generation = 1\<rparr> :: page_descriptor"
  from demo_pool_released obtain h r where inv: "pool_inv h r [0]"
    and v: "valid_desc h r ?d Detached" by blast
  have "max_generation \<noteq> 1"
    by (simp add: max_generation_def generation_mask_eq mask_eq_exp_minus_1)
  with pool_release_exact [OF inv, of ?d] v show ?thesis by auto
qed

text \<open>C10: A process that attaches to a region another process has initialised and used gets the very
  handle \<open>init_in_place\<close> returned: same pool id, page size, page count and region size.\<close>

theorem pool_attach_after_init:
  assumes "pool_init_in_place base len cfg pid = Some (Inr (r, h))"
    and "pool_run h ops r = Some r'"
  shows "pool_attach base len r' = Inr h"
proof -
  from pool_init_parts [OF assms(1)] obtain cl where
    cl: "compute_layout_from_values (cfg_page_size cfg) (cfg_page_count cfg) = Inr cl"
    and vr: "validate_region base len (lalign (cl_region cl)) (lsize (cl_region cl)) = Inr ()"
    and h: "h = build_handle pid (cfg_page_size cfg) (cfg_page_count cfg) cl"
    and hd: "rg_header r = \<lparr>hd_magic = page_pool_magic, hd_version = page_pool_version,
        hd_page_size = of_nat (cfg_page_size cfg), hd_page_count = cfg_page_count cfg,
        hd_region_size = of_nat (lsize (cl_region cl)), hd_pool_id = pid\<rparr>" by metis
  have hd': "rg_header r' = rg_header r" using pool_run_header [OF assms(2)] .
  have "64 dvd base" "lsize (cl_region cl) \<le> len"
    using vr layout_region_align [OF cl] by (auto simp: validate_region_def split: if_splits)
  moreover have "48 \<le> lsize (cl_region cl)"
    using compute_layout_header [OF cl] .
  ultimately have "48 \<le> len" "base mod 8 = 0"
    by (auto simp: dvd_def)
  then show ?thesis
    using unat_of_nat_sizes [OF cl] cl vr h hd hd' by (simp add: pool_attach_def Let_def)
qed

theorem pool_attach_after_init_witness:
  "\<exists>r h r'. pool_init_in_place 0 4096 \<lparr>cfg_page_size = 64, cfg_page_count = 2\<rparr> 7 = Some (Inr (r, h)) \<and>
     pool_run h [Op_acquire] r = Some r' \<and> pool_attach 0 4096 r' = Inr h"
proof -
  from demo_pool obtain r h where
    init: "pool_init_in_place 0 4096 \<lparr>cfg_page_size = 64, cfg_page_count = 2\<rparr> 7 = Some (Inr (r, h))"
    by blast
  from pool_run_ok [OF pool_init_inv [OF init], of "[Op_acquire]"] obtain r' where
    run: "pool_run h [Op_acquire] r = Some r'" by auto
  from pool_attach_after_init [OF init run] init run show ?thesis by blast
qed

text \<open>C11: Bytes written through a lease are what the holder of its descriptor reads after
  \<open>into_descriptor\<close>, and no other page of the pool changes.\<close>

theorem pool_write_detach_read:
  assumes "pool_inv h r fl" and "valid_desc h r d Attached"
    and "start + length src \<le> ph_page_size h"
  shows "\<exists>r'. lease_into_descriptor (lease_write r (lease_of h d) start src) (lease_of h d) = Some (r', Inr d) \<and>
    pool_page_bytes h r' d = Some (Inr (copy_at (page_slice h r (unat (pd_page_id d))) start src)) \<and>
    (\<forall>j < unat (ph_page_count h). j \<noteq> unat (pd_page_id d) \<longrightarrow> page_slice h r' j = page_slice h r j)"
proof -
  let ?p = "unat (pd_page_id d)" and ?n = "ph_page_size h"
  define r1 where "r1 = lease_write r (lease_of h d) start src"
  have p: "?p < unat (ph_page_count h)" using assms(2) by (simp add: valid_desc_def)
  note in_data = page_in_data [OF assms(1)]
  have data1: "rg_data r1 = copy_at (rg_data r) (?p * ?n + start) src"
    by (simp add: r1_def lease_write_def page_write_def lease_of_def)
  have same: "rg_states r1 = rg_states r" "rg_freelist r1 = rg_freelist r" "rg_metrics r1 = rg_metrics r"
    by (simp_all add: r1_def lease_write_def page_write_def)
  have "length (rg_data r1) = length (rg_data r)"
    using in_data [OF p] assms(3) by (simp add: data1 length_copy_at)
  then have inv1: "pool_inv h r1 fl"
    using assms(1) same by (auto simp: pool_inv_def pages_ok_def metrics_ok_def page_at_def count_pages_def)
  have v1: "valid_desc h r1 d Attached"
    using assms(2) same by (simp add: valid_desc_def page_at_def)
  from pool_detach_accepts [OF inv1 v1] obtain r' where
    det: "pool_detach_descriptor r1 d = Some (r', Inr ())" and inv': "pool_inv h r' fl"
    and st': "rg_states r' = (rg_states r1)[?p := pack_state (pd_generation d) Detached]"
    and data': "rg_data r' = rg_data r1" by blast
  have "pd_generation d \<le> max_generation"
    using pages_ok_view [OF assms(1) p] assms(2) by (auto simp: valid_desc_def view_ok_def)
  then have "valid_desc h r' d Detached"
    using v1 st' p pool_inv_length [OF inv1] by (simp add: valid_desc_def page_at_def and_mask_generation)
  then have "validate_detached_descriptor h r' d = Some (Inr ?p)"
    using validate_detached_iff(1) [OF inv'] by blast
  moreover have "page_slice h r' ?p = copy_at (page_slice h r ?p) start src"
    using page_slice_write_same [OF assms(3), of "?p * ?n" "rg_data r"] in_data [OF p]
    by (simp add: page_slice_def data' data1)
  moreover have "page_slice h r' j = page_slice h r j" if "j < unat (ph_page_count h)" "j \<noteq> ?p" for j
    using page_slice_write_other [OF assms(3) in_data [OF p] in_data [OF that(1)]] that
    by (simp add: page_slice_def data' data1)
  ultimately show ?thesis
    using det by (auto simp: pool_page_bytes_def lease_into_descriptor_def lease_of_def r1_def [symmetric, unfolded lease_of_def])
qed

theorem pool_write_detach_read_witness:
  "\<exists>h r r'. pool_page_bytes h r' \<lparr>pd_pool_id = 7, pd_page_id = 1, pd_generation = 1\<rparr> =
     Some (Inr (copy_at (page_slice h r 1) 3 [1, 2]))"
proof -
  let ?d = "\<lparr>pd_pool_id = 7, pd_page_id = 1, pd_generation = 1\<rparr> :: page_descriptor"
  from demo_pool_released obtain h r where inv: "pool_inv h r [0]" "ph_page_size h = 64"
    and v: "valid_desc h r ?d Attached" by blast
  from pool_write_detach_read [OF inv(1) v, of 3 "[1, 2]"] inv(2) show ?thesis by auto
qed

end
