(* ===== verification/Page_Transfer.thy ===== *)
theory Page_Transfer
  imports Transfer_Wire
begin

text \<open>
  The two ends of a page transfer: \<^verbatim>\<open>src/page/transfer/src/tx.rs\<close> and \<^verbatim>\<open>rx.rs\<close>. A sender leases a page,
  fills it behind a header, detaches it and hands a frame with its descriptor to a carrier; the receiver
  checks the order of the frames, the descriptor and the header and owns the page until it releases
  it. The shared region, the sender and the receiver are passed explicitly; dropping a value is a
  function of its own. \<open>None\<close> is a panic: an \<open>expect\<close>, a slice out of range or a failed debug
  assertion.
\<close>

section \<open>tx.rs\<close>

datatype tx_error =
    Tx_Closed
  | Tx_Busy
  | Tx_PageTooSmall nat nat
  | Tx_PayloadCapacityTooLarge nat nat
  | Tx_PayloadTooLarge nat nat
  | Tx_PayloadExceedsCapacity nat nat
  | Tx_Acquire acquire_error
  | Tx_Detach detach_error
  | Tx_Encode encode_error

definition max_payload_len :: nat where
  "max_payload_len = 2 ^ 32 - 1"

definition tx_validate_page_size :: "nat \<Rightarrow> tx_error + unit" where
  "tx_validate_page_size page_size =
     (if page_size < page_header_len then Inl (Tx_PageTooSmall page_header_len page_size)
      else if max_payload_len < page_size - page_header_len
        then Inl (Tx_PayloadCapacityTooLarge (page_size - page_header_len) max_payload_len)
      else Inr ())"

datatype tx_phase = Phase_Idle | Phase_Writing | Phase_OutboundPending | Phase_Closed

record page_tx =
  tx_pool :: pool_handle
  tx_phase_of :: tx_phase
  tx_next_transfer_id :: u64

definition page_tx_new :: "pool_handle \<Rightarrow> page_tx" where
  "page_tx_new pool = \<lparr>tx_pool = pool, tx_phase_of = Phase_Idle, tx_next_transfer_id = 1\<rparr>"

definition enter_writing :: "page_tx \<Rightarrow> tx_error + page_tx" where
  "enter_writing tx =
     (case tx_phase_of tx of
        Phase_Idle \<Rightarrow> Inr (tx\<lparr>tx_phase_of := Phase_Writing\<rparr>)
      | Phase_Closed \<Rightarrow> Inl Tx_Closed
      | _ \<Rightarrow> Inl Tx_Busy)"

definition reserve_transfer_id :: "page_tx \<Rightarrow> page_tx \<times> u64" where
  "reserve_transfer_id tx =
     (tx\<lparr>tx_next_transfer_id := saturating_add_u64 (tx_next_transfer_id tx) 1\<rparr>, tx_next_transfer_id tx)"

definition finish_writer :: "page_tx \<Rightarrow> (page_tx \<times> u64) option" where
  "finish_writer tx =
     (if tx_phase_of tx \<noteq> Phase_Writing then None
      else let (tx1, transfer_id) = reserve_transfer_id tx
           in Some (tx1\<lparr>tx_phase_of := Phase_OutboundPending\<rparr>, transfer_id))"

definition cancel_writer :: "page_tx \<Rightarrow> page_tx option" where
  "cancel_writer tx =
     (if tx_phase_of tx \<noteq> Phase_Writing then None else Some (tx\<lparr>tx_phase_of := Phase_Idle\<rparr>))"

definition finish_outbound :: "page_tx \<Rightarrow> page_tx option" where
  "finish_outbound tx =
     (if tx_phase_of tx \<noteq> Phase_OutboundPending then None else Some (tx\<lparr>tx_phase_of := Phase_Idle\<rparr>))"

definition tx_close :: "page_tx \<Rightarrow> page_tx \<times> (tx_error + owned_frame)" where
  "tx_close tx =
     (case tx_phase_of tx of
        Phase_Idle \<Rightarrow>
          let (tx1, transfer_id) = reserve_transfer_id (tx\<lparr>tx_phase_of := Phase_Closed\<rparr>)
          in (tx1, Inr (Frame_Close transfer_id))
      | Phase_Closed \<Rightarrow> (tx, Inl Tx_Closed)
      | _ \<Rightarrow> (tx, Inl Tx_Busy))"

record page_writer =
  pw_lease :: "page_lease option"
  pw_kind :: u16
  pw_flags :: u16
  pw_position :: nat
  pw_finished :: bool

definition tx_begin ::
  "pool_region \<Rightarrow> page_tx \<Rightarrow> u16 \<Rightarrow> u16 \<Rightarrow> (pool_region \<times> page_tx \<times> (tx_error + page_writer)) option" where
  "tx_begin r tx kind flags =
     (case tx_validate_page_size (ph_page_size (tx_pool tx)) of
        Inl e \<Rightarrow> Some (r, tx, Inl e)
      | Inr _ \<Rightarrow>
        (case enter_writing tx of
           Inl e \<Rightarrow> Some (r, tx, Inl e)
         | Inr tx1 \<Rightarrow> do {
             (r1, res) \<leftarrow> pool_try_acquire (tx_pool tx) r;
             (case res of
                Inl e \<Rightarrow> do { tx2 \<leftarrow> cancel_writer tx1; Some (r1, tx2, Inl (Tx_Acquire e)) }
              | Inr lease \<Rightarrow>
                  Some (r1, tx1, Inr \<lparr>pw_lease = Some lease, pw_kind = kind, pw_flags = flags,
                                      pw_position = 0, pw_finished = False\<rparr>))
           }))"

definition writer_payload_capacity :: "pool_region \<Rightarrow> page_writer \<Rightarrow> nat option" where
  "writer_payload_capacity r w = do {
     lease \<leftarrow> pw_lease w;
     Some (length (lease_bytes r lease) - page_header_len)
   }"

definition writer_remaining :: "pool_region \<Rightarrow> page_writer \<Rightarrow> nat option" where
  "writer_remaining r w = do {
     capacity \<leftarrow> writer_payload_capacity r w;
     Some (capacity - pw_position w)
   }"

text \<open>Filling the slice \<open>payload_mut\<close> hands out.\<close>

definition writer_fill_payload :: "pool_region \<Rightarrow> page_writer \<Rightarrow> bytes \<Rightarrow> pool_region option" where
  "writer_fill_payload r w src = do {
     capacity \<leftarrow> writer_payload_capacity r w;
     lease \<leftarrow> pw_lease w;
     if length (lease_bytes r lease) < page_header_len + capacity \<or> capacity < length src then None
     else Some (lease_write r lease page_header_len src)
   }"

definition writer_write ::
  "pool_region \<Rightarrow> page_writer \<Rightarrow> bytes \<Rightarrow> (pool_region \<times> page_writer \<times> nat) option" where
  "writer_write r w buf = do {
     remaining \<leftarrow> writer_remaining r w;
     if remaining = 0 then Some (r, w, 0)
     else do {
       let to_copy = min remaining (length buf);
       let start = page_header_len + pw_position w;
       lease \<leftarrow> pw_lease w;
       if length (lease_bytes r lease) < start + to_copy then None
       else Some (lease_write r lease start (take to_copy buf),
                  w\<lparr>pw_position := pw_position w + to_copy\<rparr>, to_copy)
     }
   }"

function writer_write_all ::
  "pool_region \<Rightarrow> page_writer \<Rightarrow> bytes \<Rightarrow> (pool_region \<times> page_writer \<times> (unit + unit)) option" where
  "writer_write_all r w buf =
     (if buf = [] then Some (r, w, Inr ())
      else case writer_write r w buf of
          None \<Rightarrow> None
        | Some (r1, w1, written) \<Rightarrow>
            if written = 0 then Some (r1, w1, Inl ())
            else writer_write_all r1 w1 (drop written buf))"
  by pat_completeness auto
termination
  by (relation "measure (\<lambda>(r, w, buf). length buf)") auto

declare writer_write_all.simps [simp del]

definition writer_drop :: "pool_region \<Rightarrow> page_tx \<Rightarrow> page_writer \<Rightarrow> (pool_region \<times> page_tx) option" where
  "writer_drop r tx w =
     (if pw_finished w then Some (r, tx)
      else do {
        r1 \<leftarrow> (case pw_lease w of None \<Rightarrow> Some r | Some lease \<Rightarrow> lease_drop r lease);
        tx1 \<leftarrow> cancel_writer tx;
        Some (r1, tx1)
      })"

record outbound_page =
  ob_descriptor :: page_descriptor
  ob_transfer_id :: u64
  ob_sent :: bool

text \<open>
  \<open>finish_with_payload_len\<close> consumes the writer: an early return drops it, and once the lease has
  been taken out, that lease as well.
\<close>

definition writer_finish_with_payload_len ::
  "rmp \<Rightarrow> pool_region \<Rightarrow> page_tx \<Rightarrow> page_writer \<Rightarrow> nat \<Rightarrow>
     (pool_region \<times> page_tx \<times> (tx_error + outbound_page)) option" where
  "writer_finish_with_payload_len M r tx w payload_len = do {
     payload_capacity \<leftarrow> writer_payload_capacity r w;
     if payload_capacity < payload_len
     then do {
       (r1, tx1) \<leftarrow> writer_drop r tx w;
       Some (r1, tx1, Inl (Tx_PayloadExceedsCapacity payload_len payload_capacity))
     }
     else do {
       lease \<leftarrow> pw_lease w;
       let w1 = w\<lparr>pw_lease := None\<rparr>;
       if max_payload_len < payload_len
       then do {
         r1 \<leftarrow> lease_drop r lease;
         (r2, tx1) \<leftarrow> writer_drop r1 tx w1;
         Some (r2, tx1, Inl (Tx_PayloadTooLarge payload_len max_payload_len))
       }
       else if length (lease_bytes r lease) < page_header_len then None
       else let header = \<lparr>hdr_kind = pw_kind w, hdr_flags = pw_flags w, hdr_payload_len = of_nat payload_len\<rparr>;
                (bs, enc) = encode_page_header M header (take page_header_len (lease_bytes r lease));
                r1 = lease_write r lease 0 bs
            in case enc of
                 Inl e \<Rightarrow> do {
                   r2 \<leftarrow> lease_drop r1 lease;
                   (r3, tx1) \<leftarrow> writer_drop r2 tx w1;
                   Some (r3, tx1, Inl (Tx_Encode e))
                 }
               | Inr _ \<Rightarrow> do {
                   (r2, det) \<leftarrow> lease_into_descriptor r1 lease;
                   (case det of
                      Inl e \<Rightarrow> do {
                        (r3, tx1) \<leftarrow> writer_drop r2 tx w1;
                        Some (r3, tx1, Inl (Tx_Detach e))
                      }
                    | Inr descriptor \<Rightarrow> do {
                        (tx1, transfer_id) \<leftarrow> finish_writer tx;
                        Some (r2, tx1, Inr \<lparr>ob_descriptor = descriptor, ob_transfer_id = transfer_id,
                                            ob_sent = False\<rparr>)
                      })
                 }
     }
   }"

definition writer_finish ::
  "rmp \<Rightarrow> pool_region \<Rightarrow> page_tx \<Rightarrow> page_writer \<Rightarrow>
     (pool_region \<times> page_tx \<times> (tx_error + outbound_page)) option" where
  "writer_finish M r tx w = writer_finish_with_payload_len M r tx w (pw_position w)"

definition outbound_frame :: "outbound_page \<Rightarrow> owned_frame" where
  "outbound_frame ob = Frame_Page \<lparr>pf_transfer_id = ob_transfer_id ob, pf_descriptor = ob_descriptor ob\<rparr>"

definition outbound_drop ::
  "pool_region \<Rightarrow> page_tx \<Rightarrow> outbound_page \<Rightarrow> (pool_region \<times> page_tx) option" where
  "outbound_drop r tx ob =
     (if ob_sent ob then Some (r, tx)
      else do {
        (r1, _) \<leftarrow> pool_release (tx_pool tx) r (ob_descriptor ob);
        tx1 \<leftarrow> finish_outbound tx;
        Some (r1, tx1)
      })"

definition outbound_mark_sent ::
  "pool_region \<Rightarrow> page_tx \<Rightarrow> outbound_page \<Rightarrow> (pool_region \<times> page_tx) option" where
  "outbound_mark_sent r tx ob = do {
     tx1 \<leftarrow> finish_outbound tx;
     outbound_drop r tx1 (ob\<lparr>ob_sent := True\<rparr>)
   }"

section \<open>rx.rs\<close>

datatype rx_error =
    Rx_Closed
  | Rx_Busy
  | Rx_UnexpectedTransferId u64 u64
  | Rx_Access access_error
  | Rx_InvalidPage invalid_page_error
  | Rx_Release release_error
  | Rx_Decode decode_error

datatype rx_phase = Rx_Phase_Idle | Rx_Phase_Accepting | Rx_Phase_Closed

record page_rx =
  rx_pool :: pool_handle
  rx_phase_of :: rx_phase
  rx_next_transfer_id :: u64

definition page_rx_new :: "pool_handle \<Rightarrow> page_rx" where
  "page_rx_new pool = \<lparr>rx_pool = pool, rx_phase_of = Rx_Phase_Idle, rx_next_transfer_id = 1\<rparr>"

definition begin_accept :: "page_rx \<Rightarrow> rx_error + page_rx" where
  "begin_accept rx =
     (case rx_phase_of rx of
        Rx_Phase_Idle \<Rightarrow> Inr (rx\<lparr>rx_phase_of := Rx_Phase_Accepting\<rparr>)
      | Rx_Phase_Closed \<Rightarrow> Inl Rx_Closed
      | Rx_Phase_Accepting \<Rightarrow> Inl Rx_Busy)"

definition advance_transfer_id :: "page_rx \<Rightarrow> page_rx" where
  "advance_transfer_id rx =
     rx\<lparr>rx_next_transfer_id := saturating_add_u64 (rx_next_transfer_id rx) 1\<rparr>"

text \<open>\<open>cancel_accept\<close>, \<open>finish_page_accept\<close> and \<open>finish_close\<close>.\<close>

definition leave_accept :: "rx_phase \<Rightarrow> page_rx \<Rightarrow> page_rx option" where
  "leave_accept phase rx =
     (if rx_phase_of rx \<noteq> Rx_Phase_Accepting then None else Some (rx\<lparr>rx_phase_of := phase\<rparr>))"

record received_page =
  rp_descriptor :: page_descriptor
  rp_kind :: u16
  rp_flags :: u16
  rp_payload_len :: nat

datatype receive_event = Event_Page received_page | Event_Closed

text \<open>
  \<open>ReceivedPage::new\<close>: until the header has been accepted a guard holds the page and an early return
  releases it.
\<close>

definition received_page_new ::
  "rmp \<Rightarrow> pool_handle \<Rightarrow> pool_region \<Rightarrow> page_descriptor \<Rightarrow>
     (pool_region \<times> (rx_error + received_page)) option" where
  "received_page_new M pool r descriptor = do {
     let drop_pending = (\<lambda>err :: rx_error. do {
           (r1, _) \<leftarrow> pool_release pool r descriptor;
           Some (r1, Inl err :: rx_error + received_page) });
     access \<leftarrow> pool_page_bytes pool r descriptor;
     (case access of
        Inl e \<Rightarrow> drop_pending (Rx_Access e)
      | Inr bs \<Rightarrow>
          if length bs < page_header_len then None
          else (case decode_page_header M (take page_header_len bs) of
              Inl e \<Rightarrow> drop_pending (Rx_InvalidPage e)
            | Inr header \<Rightarrow>
                let capacity = length bs - page_header_len;
                    payload_len = unat (hdr_payload_len header)
                in if capacity < payload_len
                   then drop_pending (Rx_InvalidPage (Inv_PayloadTooLarge (hdr_payload_len header) capacity))
                   else Some (r, Inr \<lparr>rp_descriptor = descriptor, rp_kind = hdr_kind header,
                                      rp_flags = hdr_flags header, rp_payload_len = payload_len\<rparr>)))
   }"

definition rx_accept ::
  "rmp \<Rightarrow> pool_region \<Rightarrow> page_rx \<Rightarrow> owned_frame \<Rightarrow>
     (pool_region \<times> page_rx \<times> (rx_error + receive_event)) option" where
  "rx_accept M r rx frame =
     (case begin_accept rx of
        Inl e \<Rightarrow> Some (r, rx, Inl e)
      | Inr rx1 \<Rightarrow>
        (let actual = frame_transfer_id frame; expected = rx_next_transfer_id rx1 in
         if actual \<noteq> expected
         then do { rx2 \<leftarrow> leave_accept Rx_Phase_Idle rx1;
                   Some (r, rx2, Inl (Rx_UnexpectedTransferId expected actual)) }
         else (case frame of
             Frame_Close _ \<Rightarrow> do {
               rx2 \<leftarrow> leave_accept Rx_Phase_Closed (advance_transfer_id rx1);
               Some (r, rx2, Inr Event_Closed)
             }
           | Frame_Page f \<Rightarrow> do {
               (r1, res) \<leftarrow> received_page_new M (rx_pool rx1) r (pf_descriptor f);
               (case res of
                  Inl e \<Rightarrow> do { rx2 \<leftarrow> leave_accept Rx_Phase_Idle rx1; Some (r1, rx2, Inl e) }
                | Inr page \<Rightarrow> do {
                    rx2 \<leftarrow> leave_accept Rx_Phase_Idle (advance_transfer_id rx1);
                    Some (r1, rx2, Inr (Event_Page page))
                  })
             })))"

definition received_payload :: "pool_handle \<Rightarrow> pool_region \<Rightarrow> received_page \<Rightarrow> bytes option" where
  "received_payload pool r page = do {
     access \<leftarrow> pool_page_bytes pool r (rp_descriptor page);
     (case access of
        Inl _ \<Rightarrow> None
      | Inr bs \<Rightarrow> if length bs < page_header_len + rp_payload_len page then None
                 else Some (take (rp_payload_len page) (drop page_header_len bs)))
   }"

text \<open>Dropping a received page that has not been released.\<close>

definition received_drop :: "pool_handle \<Rightarrow> pool_region \<Rightarrow> received_page \<Rightarrow> pool_region option" where
  "received_drop pool r page = map_option fst (pool_release pool r (rp_descriptor page))"

text \<open>A failed \<open>release\<close> returns before the page is marked released, so the drop tries again.\<close>

definition received_release ::
  "pool_handle \<Rightarrow> pool_region \<Rightarrow> received_page \<Rightarrow> (pool_region \<times> (rx_error + unit)) option" where
  "received_release pool r page = do {
     (r1, res) \<leftarrow> pool_release pool r (rp_descriptor page);
     (case res of
        Inl e \<Rightarrow> do { r2 \<leftarrow> received_drop pool r1 page; Some (r2, Inl (Rx_Release e)) }
      | Inr _ \<Rightarrow> Some (r1, Inr ()))
   }"

end
