(* ===== verification/Page_Transfer_Proofs.thy ===== *)
theory Page_Transfer_Proofs
  imports Page_Pool_Props Transfer_Wire_Proofs Page_Transfer
begin

text \<open>
  What the operations of the page transfer do to a pool that satisfies its invariant: the effect of
  acquiring, writing, detaching, dropping and releasing on the detached pages and on the set of leased
  pages, the writer and its \<open>write_all\<close> loop, and one message from a sender to a receiver.
\<close>

section \<open>One page at a time\<close>

text \<open>What an operation must leave alone: every page that is detached, but those in \<open>X\<close>.\<close>

definition detached_kept :: "pool_handle \<Rightarrow> u32 set \<Rightarrow> pool_region \<Rightarrow> pool_region \<Rightarrow> bool" where
  "detached_kept h X r r' \<longleftrightarrow> (\<forall>d. valid_desc h r d Detached \<longrightarrow> pd_page_id d \<notin> X \<longrightarrow>
     valid_desc h r' d Detached \<and>
     page_slice h r' (unat (pd_page_id d)) = page_slice h r (unat (pd_page_id d)))"

lemma detached_kept_trans:
  "detached_kept h X r1 r2 \<Longrightarrow> detached_kept h X r2 r3 \<Longrightarrow> detached_kept h X r1 r3"
  by (auto simp: detached_kept_def)

lemma detached_kept_same:
  "rg_states r' = rg_states r \<Longrightarrow> rg_data r' = rg_data r \<Longrightarrow> detached_kept h X r r'"
  by (simp add: detached_kept_def valid_desc_def page_at_def page_slice_def)

lemma detached_kept_mono: "detached_kept h X r r' \<Longrightarrow> X \<subseteq> Y \<Longrightarrow> detached_kept h Y r r'"
  by (auto simp: detached_kept_def)

text \<open>Changing the state of one page, whatever its new state.\<close>

lemma detached_kept_state:
  assumes "rg_states r' = (rg_states r)[unat v := w]" and "rg_data r' = rg_data r"
  shows "detached_kept h {v} r r'"
  using assms
  by (auto simp: detached_kept_def valid_desc_def page_at_def page_slice_def nth_list_update word_unat_eq_iff)

lemma detached_kept_attached:
  assumes "detached_kept h {v} r r'" and "snd (page_at r v) \<noteq> Detached"
  shows "detached_kept h {} r r'"
  using assms by (auto simp: detached_kept_def valid_desc_def)

text \<open>The pages that are leased, attached or detached.\<close>

definition leased_set :: "pool_handle \<Rightarrow> pool_region \<Rightarrow> u32 set" where
  "leased_set h r = {v. unat v < unat (ph_page_count h) \<and> leased (snd (page_at r v))}"

lemma leased_set_same: "rg_states r' = rg_states r \<Longrightarrow> leased_set h r' = leased_set h r"
  by (simp add: leased_set_def page_at_def)

lemma leased_set_state:
  assumes "pool_inv h r fl" and "unat v < unat (ph_page_count h)"
    and "rg_states r' = (rg_states r)[unat v := pack_state g s]"
  shows "leased_set h r' = (if leased s then insert v (leased_set h r) else leased_set h r - {v})"
  using assms pool_inv_length [OF assms(1)]
  by (auto simp: leased_set_def page_at_def nth_list_update word_unat_eq_iff)

lemma leased_set_desc: "valid_desc h r d s \<Longrightarrow> leased s \<Longrightarrow> pd_page_id d \<in> leased_set h r"
  by (simp add: valid_desc_def leased_set_def)

lemma lease_bytes_of: "lease_bytes r (lease_of h d) = page_slice h r (unat (pd_page_id d))"
  by (simp add: lease_bytes_def lease_of_def)

lemma length_page_slice:
  "pool_inv h r fl \<Longrightarrow> i < unat (ph_page_count h) \<Longrightarrow> length (page_slice h r i) = ph_page_size h"
  using page_in_data [of h r fl i] by (simp add: page_slice_def)

text \<open>A write into a leased page.\<close>

lemma lease_write_effect:
  assumes inv: "pool_inv h r fl" and v: "valid_desc h r d Attached"
    and fits: "start + length src \<le> ph_page_size h"
  defines "r' \<equiv> lease_write r (lease_of h d) start src"
  shows "pool_inv h r' fl" "valid_desc h r' d Attached" "detached_kept h {} r r'"
    "leased_set h r' = leased_set h r"
    "page_slice h r' (unat (pd_page_id d)) = copy_at (page_slice h r (unat (pd_page_id d))) start src"
proof -
  let ?p = "unat (pd_page_id d)" and ?n = "ph_page_size h"
  have p: "?p < unat (ph_page_count h)" using v by (simp add: valid_desc_def)
  note in_data = page_in_data [OF inv]
  have data: "rg_data r' = copy_at (rg_data r) (?p * ?n + start) src"
    by (simp add: r'_def lease_write_def page_write_def lease_of_def)
  have same: "rg_states r' = rg_states r" "rg_freelist r' = rg_freelist r" "rg_metrics r' = rg_metrics r"
    by (simp_all add: r'_def lease_write_def page_write_def)
  have "length (rg_data r') = length (rg_data r)"
    using in_data [OF p] fits by (simp add: data)
  then show "pool_inv h r' fl"
    using inv same by (auto simp: pool_inv_def pages_ok_def metrics_ok_def page_at_def count_pages_def)
  show "valid_desc h r' d Attached"
    using v same by (simp add: valid_desc_def page_at_def)
  show "leased_set h r' = leased_set h r" by (rule leased_set_same) (rule same(1))
  show "page_slice h r' ?p = copy_at (page_slice h r ?p) start src"
    using page_slice_write_same [OF fits, of "?p * ?n" "rg_data r"] in_data [OF p]
    by (simp add: page_slice_def data)
  have "page_slice h r' (unat (pd_page_id e)) = page_slice h r (unat (pd_page_id e))"
    if e: "valid_desc h r e Detached" for e
  proof -
    have "pd_page_id e \<noteq> pd_page_id d" using e v by (auto simp: valid_desc_def)
    then have "unat (pd_page_id e) < unat (ph_page_count h)" "unat (pd_page_id e) \<noteq> ?p"
      using e by (simp_all add: valid_desc_def word_unat_eq_iff)
    then show ?thesis
      using page_slice_write_other [OF fits in_data [OF p] in_data] by (simp add: page_slice_def data)
  qed
  then show "detached_kept h {} r r'"
    using same by (simp add: detached_kept_def valid_desc_def page_at_def)
qed

text \<open>Detaching and dropping the lease of a page.\<close>

lemma page_at_states:
  assumes "pool_inv h r fl" and "unat v < unat (ph_page_count h)" and "g \<le> max_generation"
    and "rg_states r' = (rg_states r)[unat v := pack_state g s]"
  shows "page_at r' v = (g, s)"
  using assms pool_inv_length [OF assms(1)] by (simp add: page_at_def and_mask_generation)

lemma valid_desc_generation:
  "pool_inv h r fl \<Longrightarrow> valid_desc h r d s \<Longrightarrow> pd_generation d \<le> max_generation"
  using pages_ok_view [of h r fl "pd_page_id d"] by (auto simp: valid_desc_def view_ok_def)

lemma lease_detach_effect:
  assumes inv: "pool_inv h r fl" and v: "valid_desc h r d Attached"
  obtains r' where "lease_into_descriptor r (lease_of h d) = Some (r', Inr d)" "pool_inv h r' fl"
    "valid_desc h r' d Detached" "detached_kept h {} r r'" "rg_data r' = rg_data r" "leased_set h r' = leased_set h r"
proof -
  from pool_detach_accepts [OF inv v] obtain r' where
    r': "pool_detach_descriptor r d = Some (r', Inr ())" "pool_inv h r' fl" "rg_data r' = rg_data r"
      "rg_states r' = (rg_states r)[unat (pd_page_id d) := pack_state (pd_generation d) Detached]" by blast
  have "page_at r' (pd_page_id d) = (pd_generation d, Detached)"
    using v by (intro page_at_states [OF inv _ valid_desc_generation [OF inv v] r'(4)]) (simp add: valid_desc_def)
  then have "valid_desc h r' d Detached" using v by (simp add: valid_desc_def)
  moreover have "detached_kept h {} r r'"
    using v by (intro detached_kept_attached [OF detached_kept_state [OF r'(4,3)]]) (simp add: valid_desc_def)
  moreover have "leased_set h r' = leased_set h r"
    using leased_set_state [OF inv _ r'(4)] leased_set_desc [OF v] v by (auto simp: valid_desc_def leased_def)
  ultimately show thesis
    using r' that by (simp add: lease_into_descriptor_def lease_of_def)
qed

lemma lease_drop_effect:
  assumes inv: "pool_inv h r fl" and v: "valid_desc h r d Attached"
  obtains r' fl' where "lease_drop r (lease_of h d) = Some r'" "pool_inv h r' fl'" "detached_kept h {} r r'"
    "leased_set h r' = leased_set h r - {pd_page_id d}"
proof -
  from release_with_state_accepts [OF inv _ v, of False] obtain r' fl' where
    r': "release_with_state h r d Attached False = Some (r', Inr ())" "pool_inv h r' fl'" "rg_data r' = rg_data r"
      "rg_states r' = (rg_states r)[unat (pd_page_id d) := pack_state (pd_generation d)
         (if pd_generation d = max_generation then Exhausted else Free)]"
    by (auto simp: leased_def)
  have "detached_kept h {} r r'"
    using v by (intro detached_kept_attached [OF detached_kept_state [OF r'(4,3)]]) (simp add: valid_desc_def)
  moreover have "leased_set h r' = leased_set h r - {pd_page_id d}"
    using leased_set_state [OF inv _ r'(4)] v by (auto simp: valid_desc_def leased_def)
  ultimately show thesis
    using r' that by (simp add: lease_drop_def lease_of_def pool_release_attached_def)
qed

lemma release_effect:
  assumes inv: "pool_inv h r fl" and v: "valid_desc h r d Detached"
  obtains r' fl' where "pool_release h r d = Some (r', Inr ())" "pool_inv h r' fl'"
    "detached_kept h {pd_page_id d} r r'" "leased_set h r' = leased_set h r - {pd_page_id d}"
proof -
  from release_with_state_accepts [OF inv _ v, of True] obtain r' fl' where
    r': "release_with_state h r d Detached True = Some (r', Inr ())" "pool_inv h r' fl'" "rg_data r' = rg_data r"
      "rg_states r' = (rg_states r)[unat (pd_page_id d) := pack_state (pd_generation d)
         (if pd_generation d = max_generation then Exhausted else Free)]"
    by (auto simp: leased_def)
  have "leased_set h r' = leased_set h r - {pd_page_id d}"
    using leased_set_state [OF inv _ r'(4)] v by (auto simp: valid_desc_def leased_def)
  with r' that detached_kept_state [OF r'(4,3)] show thesis
    by (simp add: pool_release_def)
qed

lemma acquire_effect:
  assumes inv: "pool_inv h r fl"
  obtains (empty) r' where "fl = []" "pool_try_acquire h r = Some (r', Inl Acquire_Empty)"
      "pool_inv h r' []" "detached_kept h {} r r'" "leased_set h r' = leased_set h r"
  | (page) r' d xs where "fl = pd_page_id d # xs" "pool_try_acquire h r = Some (r', Inr (lease_of h d))"
      "pool_inv h r' xs" "valid_desc h r' d Attached" "detached_kept h {} r r'"
      "leased_set h r' = insert (pd_page_id d) (leased_set h r)" "pd_page_id d \<notin> leased_set h r"
proof (cases fl)
  case Nil
  with inv pool_try_acquire_empty [of h r] empty detached_kept_same leased_set_same show thesis by blast
next
  case (Cons x xs)
  let ?d = "\<lparr>pd_pool_id = ph_pool_id h, pd_page_id = x, pd_generation = fst (page_at r x) + 1\<rparr>"
  from pool_try_acquire_top [of h r x xs] inv Cons obtain r' where
    r': "pool_try_acquire h r = Some (r', Inr (lease_of h ?d))" "pool_inv h r' xs" "rg_data r' = rg_data r"
      "rg_states r' = (rg_states r)[unat x := pack_state (fst (page_at r x) + 1) Attached]"
    by (auto simp: lease_of_def)
  have x: "unat x < unat (ph_page_count h)" "snd (page_at r x) = Free"
    using inv Cons pages_ok_fl_range [of h r fl x] by (auto simp: pool_inv_def pages_ok_def)
  have "fst (page_at r x) < max_generation"
    using pages_ok_view [OF inv x(1)] x(2) by (auto simp: view_ok_def split: prod.splits)
  then have "page_at r' x = (fst (page_at r x) + 1, Attached)"
    using leq_max_generation_Suc by (intro page_at_states [OF inv x(1) _ r'(4)]) blast
  then have "valid_desc h r' ?d Attached" using x by (simp add: valid_desc_def)
  moreover have "detached_kept h {} r r'"
    using x by (intro detached_kept_attached [OF detached_kept_state [OF r'(4,3)]]) simp
  moreover have "leased_set h r' = insert x (leased_set h r)" "x \<notin> leased_set h r"
    using leased_set_state [OF inv x(1) r'(4)] x(2) by (auto simp: leased_set_def leased_def)
  ultimately show thesis using page [of ?d xs r'] Cons r' by simp
qed

section \<open>The writer\<close>

definition writer_on :: "pool_handle \<Rightarrow> pool_region \<Rightarrow> page_descriptor \<Rightarrow> page_writer \<Rightarrow> bool" where
  "writer_on h r d w \<longleftrightarrow> pw_lease w = Some (lease_of h d) \<and> valid_desc h r d Attached \<and> \<not> pw_finished w \<and>
     page_header_len + pw_position w \<le> ph_page_size h"

lemma writer_capacity:
  "pool_inv h r fl \<Longrightarrow> writer_on h r d w \<Longrightarrow>
     writer_payload_capacity r w = Some (ph_page_size h - page_header_len) \<and>
     writer_remaining r w = Some (ph_page_size h - page_header_len - pw_position w) \<and>
     length (lease_bytes r (lease_of h d)) = ph_page_size h"
  using length_page_slice [of h r fl "unat (pd_page_id d)"]
  by (simp add: writer_on_def writer_remaining_def writer_payload_capacity_def lease_bytes_of valid_desc_def)

text \<open>One \<open>write\<close> takes as much as fits.\<close>

lemma writer_write_effect:
  fixes buf :: bytes
  assumes inv: "pool_inv h r fl" and on: "writer_on h r d w"
  defines "n \<equiv> min (ph_page_size h - page_header_len - pw_position w) (length buf)"
  obtains r' where "writer_write r w buf = Some (r', w\<lparr>pw_position := pw_position w + n\<rparr>, n)"
    "pool_inv h r' fl" "writer_on h r' d (w\<lparr>pw_position := pw_position w + n\<rparr>)" "detached_kept h {} r r'"
    "leased_set h r' = leased_set h r"
    "page_slice h r' (unat (pd_page_id d)) =
       copy_at (page_slice h r (unat (pd_page_id d))) (page_header_len + pw_position w) (take n buf)"
proof (cases "ph_page_size h - page_header_len - pw_position w = 0")
  case True
  then have "writer_write r w buf = Some (r, w, 0)" "n = 0"
    using writer_capacity [OF inv on] by (simp_all add: writer_write_def n_def)
  with that [of r] inv on show ?thesis
    by (simp add: detached_kept_same copy_at_def)
next
  case False
  have v: "valid_desc h r d Attached" using on by (simp add: writer_on_def)
  have fits: "page_header_len + pw_position w + length (take n buf) \<le> ph_page_size h"
    using False on by (simp add: n_def writer_on_def)
  have "writer_write r w buf = Some (lease_write r (lease_of h d) (page_header_len + pw_position w) (take n buf),
      w\<lparr>pw_position := pw_position w + n\<rparr>, n)"
    using writer_capacity [OF inv on] on False fits
    by (simp add: writer_write_def writer_on_def n_def [symmetric] Let_def) (simp add: n_def)
  with lease_write_effect [OF inv v fits] that on fits show ?thesis
    by (simp add: writer_on_def n_def)
qed

lemma writer_write_all_fits:
  assumes inv: "pool_inv h r fl" and on: "writer_on h r d w"
    and fits: "page_header_len + pw_position w + length buf \<le> ph_page_size h"
  obtains r' where "writer_write_all r w buf = Some (r', w\<lparr>pw_position := pw_position w + length buf\<rparr>, Inr ())"
    "pool_inv h r' fl" "writer_on h r' d (w\<lparr>pw_position := pw_position w + length buf\<rparr>)" "detached_kept h {} r r'"
    "leased_set h r' = leased_set h r"
    "page_slice h r' (unat (pd_page_id d)) =
       copy_at (page_slice h r (unat (pd_page_id d))) (page_header_len + pw_position w) buf"
proof (cases "buf = []")
  case True
  with that [of r] inv on show ?thesis
    by (simp add: writer_write_all.simps detached_kept_same copy_at_def)
next
  case False
  have n: "min (ph_page_size h - page_header_len - pw_position w) (length buf) = length buf"
    using fits by simp
  from writer_write_effect [OF inv on, of buf] n obtain r' where
    "writer_write r w buf = Some (r', w\<lparr>pw_position := pw_position w + length buf\<rparr>, length buf)"
    "pool_inv h r' fl" "writer_on h r' d (w\<lparr>pw_position := pw_position w + length buf\<rparr>)" "detached_kept h {} r r'"
    "leased_set h r' = leased_set h r"
    "page_slice h r' (unat (pd_page_id d)) =
       copy_at (page_slice h r (unat (pd_page_id d))) (page_header_len + pw_position w) buf"
    by auto
  with False that show ?thesis
    by (simp add: writer_write_all.simps [of r w buf] writer_write_all.simps [of r' _ "[]"])
qed

lemma writer_write_all_overflows:
  assumes inv: "pool_inv h r fl" and on: "writer_on h r d w"
    and long: "ph_page_size h < page_header_len + pw_position w + length buf"
  obtains r' w' where "writer_write_all r w buf = Some (r', w', Inl ())"
    "pool_inv h r' fl" "writer_on h r' d w'" "detached_kept h {} r r'" "leased_set h r' = leased_set h r"
proof -
  have ne: "buf \<noteq> []" using long on by (auto simp: writer_on_def)
  let ?n = "ph_page_size h - page_header_len - pw_position w"
  let ?w = "w\<lparr>pw_position := pw_position w + ?n\<rparr>"
  have n: "min ?n (length buf) = ?n" using long by simp
  from writer_write_effect [OF inv on, of buf] n obtain r1 where
    r1: "writer_write r w buf = Some (r1, ?w, ?n)" "pool_inv h r1 fl" "writer_on h r1 d ?w" "detached_kept h {} r r1"
      "leased_set h r1 = leased_set h r"
    by auto
  have full: "ph_page_size h - page_header_len - pw_position ?w = 0"
    using on by (simp add: writer_on_def)
  from writer_write_effect [OF r1(2,3), of "drop ?n buf"] full obtain r2 where
    r2: "writer_write r1 ?w (drop ?n buf) = Some (r2, ?w, 0)" "pool_inv h r2 fl" "writer_on h r2 d ?w"
      "detached_kept h {} r1 r2" "leased_set h r2 = leased_set h r1" by auto
  have "drop ?n buf \<noteq> []" using long on by (auto simp: writer_on_def)
  show ?thesis
  proof (cases "?n = 0")
    case True
    with r1 ne that show ?thesis by (simp add: writer_write_all.simps [of r w buf])
  next
    case False
    have "writer_write_all r1 ?w (drop ?n buf) = Some (r2, ?w, Inl ())"
      unfolding writer_write_all.simps [of r1 ?w] using r2(1) \<open>drop ?n buf \<noteq> []\<close> by simp
    then have "writer_write_all r w buf = Some (r2, ?w, Inl ())"
      unfolding writer_write_all.simps [of r w buf] using r1(1) ne False by simp
    with r1(5) r2 detached_kept_trans [OF r1(4) r2(4)] that show ?thesis by simp
  qed
qed

section \<open>A message in a page\<close>

type_synonym message = "u16 \<times> u16 \<times> bytes"

definition page_holds :: "rmp \<Rightarrow> pool_handle \<Rightarrow> pool_region \<Rightarrow> page_descriptor \<Rightarrow> message \<Rightarrow> bool" where
  "page_holds M h r d m \<longleftrightarrow> valid_desc h r d Detached \<and> (case m of (kind, flags, payload) \<Rightarrow>
     length payload \<le> max_payload_len \<and> page_header_len + length payload \<le> ph_page_size h \<and>
     take (page_header_len + length payload) (page_slice h r (unat (pd_page_id d))) =
       page_header_image M \<lparr>hdr_kind = kind, hdr_flags = flags, hdr_payload_len = of_nat (length payload)\<rparr> @ payload)"

lemma page_holds_kept:
  "detached_kept h X r r' \<Longrightarrow> pd_page_id d \<notin> X \<Longrightarrow> page_holds M h r d m \<Longrightarrow> page_holds M h r' d m"
  by (auto simp: page_holds_def detached_kept_def)

lemma writer_finish_effect:
  assumes M: "rmp_ok M" and inv: "pool_inv h r fl" and on: "writer_on h r d w"
    and tx: "tx_phase_of tx = Phase_Writing" and max: "ph_page_size h \<le> page_header_len + max_payload_len"
    and data: "take (pw_position w) (drop page_header_len (page_slice h r (unat (pd_page_id d)))) = payload"
    "length payload = pw_position w"
  obtains r' where "writer_finish M r tx w = Some (r', tx\<lparr>tx_phase_of := Phase_OutboundPending,
      tx_next_transfer_id := saturating_add_u64 (tx_next_transfer_id tx) 1\<rparr>,
      Inr \<lparr>ob_descriptor = d, ob_transfer_id = tx_next_transfer_id tx, ob_sent = False\<rparr>)"
    "pool_inv h r' fl" "detached_kept h {} r r'" "page_holds M h r' d (pw_kind w, pw_flags w, payload)"
    "leased_set h r' = leased_set h r"
proof -
  let ?hdr = "\<lparr>hdr_kind = pw_kind w, hdr_flags = pw_flags w, hdr_payload_len = of_nat (pw_position w)\<rparr>"
  let ?s = "page_slice h r (unat (pd_page_id d))" and ?l = "lease_of h d"
  have v: "valid_desc h r d Attached" and pos: "page_header_len + pw_position w \<le> ph_page_size h"
    and w: "pw_lease w = Some ?l" using on by (simp_all add: writer_on_def)
  note cap = writer_capacity [OF inv on]
  have guards: "\<not> ph_page_size h - page_header_len < pw_position w" "\<not> max_payload_len < pw_position w"
    "\<not> ph_page_size h < page_header_len" using pos max by linarith+
  have len: "length ?s = ph_page_size h" using cap by (simp add: lease_bytes_of)
  note img = length_page_header_image [OF M, of ?hdr]
  have enc: "encode_page_header M ?hdr (take page_header_len ?s) = (page_header_image M ?hdr, Inr ())"
    using encode_page_header_image [OF M, of "take page_header_len ?s" ?hdr] len pos img
    by (simp add: copy_at_def)
  define r1 where "r1 = lease_write r ?l 0 (page_header_image M ?hdr)"
  have fits: "0 + length (page_header_image M ?hdr) \<le> ph_page_size h" using img pos by simp
  note r1 = lease_write_effect [OF inv v fits, folded r1_def]
  from lease_detach_effect [OF r1(1,2)] obtain r' where
    r': "lease_into_descriptor r1 ?l = Some (r', Inr d)" "pool_inv h r' fl" "valid_desc h r' d Detached"
      "detached_kept h {} r1 r'" "rg_data r' = rg_data r1" "leased_set h r' = leased_set h r1" .
  have "page_slice h r' (unat (pd_page_id d)) = page_header_image M ?hdr @ drop page_header_len ?s"
    using r1(5) r'(5) img by (simp add: page_slice_def copy_at_def)
  then have "page_holds M h r' d (pw_kind w, pw_flags w, payload)"
    using r'(3) pos max data img by (simp add: page_holds_def)
  moreover have "writer_finish M r tx w = Some (r', tx\<lparr>tx_phase_of := Phase_OutboundPending,
      tx_next_transfer_id := saturating_add_u64 (tx_next_transfer_id tx) 1\<rparr>,
      Inr \<lparr>ob_descriptor = d, ob_transfer_id = tx_next_transfer_id tx, ob_sent = False\<rparr>)"
    using cap guards w enc r'(1) tx
    by (simp add: writer_finish_def writer_finish_with_payload_len_def lease_bytes_of Let_def r1_def
        finish_writer_def reserve_transfer_id_def)
  ultimately show thesis
    using that r'(2,6) r1(4) detached_kept_trans [OF r1(3) r'(4)] by simp
qed

text \<open>A client that sends one message with this writer, and drops what it has when a step fails.\<close>

definition send_message ::
  "rmp \<Rightarrow> pool_region \<Rightarrow> page_tx \<Rightarrow> message \<Rightarrow> (pool_region \<times> page_tx \<times> owned_frame option) option" where
  "send_message M r tx m = (case m of (kind, flags, payload) \<Rightarrow> do {
     (r1, tx1, res) \<leftarrow> tx_begin r tx kind flags;
     (case res of
        Inl _ \<Rightarrow> Some (r1, tx1, None)
      | Inr w \<Rightarrow> do {
          (r2, w2, io) \<leftarrow> writer_write_all r1 w payload;
          (case io of
             Inl _ \<Rightarrow> do { (r3, tx3) \<leftarrow> writer_drop r2 tx1 w2; Some (r3, tx3, None) }
           | Inr _ \<Rightarrow> do {
               (r3, tx3, fin) \<leftarrow> writer_finish M r2 tx1 w2;
               (case fin of
                  Inl _ \<Rightarrow> Some (r3, tx3, None)
                | Inr ob \<Rightarrow> do {
                    (r4, tx4) \<leftarrow> outbound_mark_sent r3 tx3 ob;
                    Some (r4, tx4, Some (outbound_frame ob))
                  })
             })
        })
   })"

definition tx_sendable :: "page_tx \<Rightarrow> bool" where
  "tx_sendable tx \<longleftrightarrow> tx_phase_of tx = Phase_Idle \<and> page_header_len \<le> ph_page_size (tx_pool tx) \<and>
     ph_page_size (tx_pool tx) \<le> page_header_len + max_payload_len"

lemma send_message_effect:
  assumes M: "rmp_ok M" and inv: "pool_inv h r fl" and tx: "tx_pool tx = h" "tx_sendable tx"
  obtains (refused) r' fl' where "send_message M r tx (kind, flags, payload) = Some (r', tx, None)"
      "pool_inv h r' fl'" "detached_kept h {} r r'" "leased_set h r' = leased_set h r"
      "fl = [] \<or> ph_page_size h < page_header_len + length payload"
  | (sent) r' d xs where "send_message M r tx (kind, flags, payload) = Some (r',
        tx\<lparr>tx_next_transfer_id := saturating_add_u64 (tx_next_transfer_id tx) 1\<rparr>,
        Some (Frame_Page \<lparr>pf_transfer_id = tx_next_transfer_id tx, pf_descriptor = d\<rparr>))"
      "fl = pd_page_id d # xs" "pool_inv h r' xs" "detached_kept h {} r r'" "page_holds M h r' d (kind, flags, payload)"
      "leased_set h r' = insert (pd_page_id d) (leased_set h r)" "pd_page_id d \<notin> leased_set h r"
proof -
  let ?tx = "tx\<lparr>tx_phase_of := Phase_Writing\<rparr>"
  have vps: "tx_validate_page_size (ph_page_size (tx_pool tx)) = Inr ()" and idle: "tx_phase_of tx = Phase_Idle"
    using tx by (auto simp: tx_sendable_def tx_validate_page_size_def)
  have restored: "tx\<lparr>tx_phase_of := Phase_Idle\<rparr> = tx" using idle by simp
  from inv show thesis
  proof (cases rule: acquire_effect)
    case (empty r')
    then have "send_message M r tx (kind, flags, payload) = Some (r', tx, None)"
      using vps idle tx(1) restored by (simp add: send_message_def tx_begin_def enter_writing_def cancel_writer_def)
    with empty refused show thesis by blast
  next
    case (page r1 d xs)
    define w where "w = \<lparr>pw_lease = Some (lease_of h d), pw_kind = kind, pw_flags = flags,
      pw_position = 0, pw_finished = False\<rparr>"
    have beg: "tx_begin r tx kind flags = Some (r1, ?tx, Inr w)"
      using page vps idle tx(1) by (simp add: tx_begin_def enter_writing_def w_def)
    have on: "writer_on h r1 d w"
      using page tx by (simp add: writer_on_def w_def tx_sendable_def)
    show thesis
    proof (cases "ph_page_size h < page_header_len + length payload")
      case True
      then have "ph_page_size h < page_header_len + pw_position w + length payload" by (simp add: w_def)
      from writer_write_all_overflows [OF page(3) on this] obtain r2 w2 where
        r2: "writer_write_all r1 w payload = Some (r2, w2, Inl ())" "pool_inv h r2 xs" "writer_on h r2 d w2"
          "detached_kept h {} r1 r2" "leased_set h r2 = leased_set h r1" .
      from r2(3) have w2: "pw_lease w2 = Some (lease_of h d)" "\<not> pw_finished w2" "valid_desc h r2 d Attached"
        by (simp_all add: writer_on_def)
      from lease_drop_effect [OF r2(2) w2(3)] obtain r3 fl3 where
        r3: "lease_drop r2 (lease_of h d) = Some r3" "pool_inv h r3 fl3" "detached_kept h {} r2 r3"
          "leased_set h r3 = leased_set h r2 - {pd_page_id d}" .
      have "send_message M r tx (kind, flags, payload) = Some (r3, tx, None)"
        using beg r2(1) r3(1) w2 restored by (simp add: send_message_def writer_drop_def cancel_writer_def)
      moreover have "detached_kept h {} r r3"
        using page(5) r2(4) r3(3) detached_kept_trans by blast
      moreover have "leased_set h r3 = leased_set h r" using page(6,7) r2(5) r3(4) by auto
      ultimately show thesis using refused r3(2) True by blast
    next
      case False
      then have fits: "page_header_len + pw_position w + length payload \<le> ph_page_size h" by (simp add: w_def)
      from writer_write_all_fits [OF page(3) on fits] obtain r2 where
        r2: "writer_write_all r1 w payload = Some (r2, w\<lparr>pw_position := length payload\<rparr>, Inr ())"
          "pool_inv h r2 xs" "writer_on h r2 d (w\<lparr>pw_position := length payload\<rparr>)" "detached_kept h {} r1 r2"
          "leased_set h r2 = leased_set h r1"
          "page_slice h r2 (unat (pd_page_id d)) =
             copy_at (page_slice h r1 (unat (pd_page_id d))) page_header_len payload"
        by (auto simp: w_def)
      have len: "length (page_slice h r1 (unat (pd_page_id d))) = ph_page_size h"
        using writer_capacity [OF page(3) on] by (simp add: lease_bytes_of)
      have data: "take (pw_position (w\<lparr>pw_position := length payload\<rparr>))
          (drop page_header_len (page_slice h r2 (unat (pd_page_id d)))) = payload"
        using r2(6) len False by simp
      from writer_finish_effect [OF M r2(2,3) _ _ data, of ?tx] tx obtain r3 where
        r3: "writer_finish M r2 ?tx (w\<lparr>pw_position := length payload\<rparr>) =
          Some (r3, tx\<lparr>tx_phase_of := Phase_OutboundPending,
             tx_next_transfer_id := saturating_add_u64 (tx_next_transfer_id tx) 1\<rparr>,
            Inr \<lparr>ob_descriptor = d, ob_transfer_id = tx_next_transfer_id tx, ob_sent = False\<rparr>)"
          "pool_inv h r3 xs" "detached_kept h {} r2 r3" "page_holds M h r3 d (kind, flags, payload)"
          "leased_set h r3 = leased_set h r2"
        by (auto simp: w_def tx_sendable_def)
      have "send_message M r tx (kind, flags, payload) = Some (r3,
          tx\<lparr>tx_next_transfer_id := saturating_add_u64 (tx_next_transfer_id tx) 1\<rparr>,
          Some (Frame_Page \<lparr>pf_transfer_id = tx_next_transfer_id tx, pf_descriptor = d\<rparr>))"
        using beg r2(1) r3(1) idle
        by (simp add: send_message_def outbound_mark_sent_def finish_outbound_def outbound_drop_def
            outbound_frame_def)
      moreover have "detached_kept h {} r r3"
        using page(5) r2(4) r3(3) detached_kept_trans by blast
      ultimately show thesis using sent page(1,6,7) r2(5) r3 by simp
    qed
  qed
qed

section \<open>The receiver\<close>

definition received_of :: "page_descriptor \<Rightarrow> message \<Rightarrow> received_page" where
  "received_of d m = (case m of (kind, flags, payload) \<Rightarrow>
     \<lparr>rp_descriptor = d, rp_kind = kind, rp_flags = flags, rp_payload_len = length payload\<rparr>)"

lemma page_holds_bytes:
  assumes inv: "pool_inv h r fl" and holds: "page_holds M h r d (kind, flags, payload)"
  obtains bs where "pool_page_bytes h r d = Some (Inr bs)" "length bs = ph_page_size h"
    "take (page_header_len + length payload) bs =
       page_header_image M \<lparr>hdr_kind = kind, hdr_flags = flags, hdr_payload_len = of_nat (length payload)\<rparr> @ payload"
proof -
  have v: "valid_desc h r d Detached" using holds by (simp add: page_holds_def)
  then have "validate_detached_descriptor h r d = Some (Inr (unat (pd_page_id d)))"
    using validate_detached_iff(1) [OF inv] by blast
  then have "pool_page_bytes h r d = Some (Inr (page_slice h r (unat (pd_page_id d))))"
    by (simp add: pool_page_bytes_def)
  moreover have "length (page_slice h r (unat (pd_page_id d))) = ph_page_size h"
    using v length_page_slice [OF inv] by (simp add: valid_desc_def)
  ultimately show thesis using that holds by (simp add: page_holds_def)
qed

lemma received_payload_of:
  assumes M: "rmp_ok M" and inv: "pool_inv h r fl" and holds: "page_holds M h r d m"
  shows "received_payload h r (received_of d m) = Some (snd (snd m))"
proof -
  obtain kind flags payload where m: "m = (kind, flags, payload)" by (cases m)
  from page_holds_bytes [OF inv holds [unfolded m]] obtain bs where
    bs: "pool_page_bytes h r d = Some (Inr bs)" "length bs = ph_page_size h"
      "take (page_header_len + length payload) bs =
        page_header_image M \<lparr>hdr_kind = kind, hdr_flags = flags, hdr_payload_len = of_nat (length payload)\<rparr> @ payload" .
  have "take (length payload) (drop page_header_len bs) = drop page_header_len (take (page_header_len + length payload) bs)"
    by (simp add: drop_take)
  then have "take (length payload) (drop page_header_len bs) = payload"
    using bs(3) length_page_header_image [OF M] by simp
  with bs holds m show ?thesis
    by (simp add: received_payload_def received_of_def page_holds_def not_less)
qed

lemma rx_accept_page:
  assumes M: "rmp_ok M" and inv: "pool_inv h r fl" and rx: "rx_pool rx = h" "rx_phase_of rx = Rx_Phase_Idle"
    and holds: "page_holds M h r d m"
  shows "rx_accept M r rx (Frame_Page \<lparr>pf_transfer_id = rx_next_transfer_id rx, pf_descriptor = d\<rparr>) =
    Some (r, rx\<lparr>rx_next_transfer_id := saturating_add_u64 (rx_next_transfer_id rx) 1\<rparr>,
      Inr (Event_Page (received_of d m)))"
proof -
  obtain kind flags payload where m: "m = (kind, flags, payload)" by (cases m)
  let ?hdr = "\<lparr>hdr_kind = kind, hdr_flags = flags, hdr_payload_len = of_nat (length payload)\<rparr>"
  from page_holds_bytes [OF inv holds [unfolded m]] obtain bs where
    bs: "pool_page_bytes h r d = Some (Inr bs)" "length bs = ph_page_size h"
      "take (page_header_len + length payload) bs = page_header_image M ?hdr @ payload" .
  have fits: "page_header_len + length payload \<le> ph_page_size h" "length payload \<le> max_payload_len"
    using holds m by (simp_all add: page_holds_def)
  have "take page_header_len bs = take page_header_len (take (page_header_len + length payload) bs)" by simp
  then have "take page_header_len bs = page_header_image M ?hdr"
    using bs(3) length_page_header_image [OF M] by simp
  then have dec: "decode_page_header M (take page_header_len bs) = Inr ?hdr"
    using decode_page_header_image [OF M] by simp
  have "unat (of_nat (length payload) :: u32) = length payload"
    using fits(2) by (intro unat_of_nat_u32) (simp add: max_payload_len_def)
  moreover have "\<not> ph_page_size h - page_header_len < length payload" "\<not> ph_page_size h < page_header_len"
    using fits by linarith+
  ultimately have "received_page_new M h r d = Some (r, Inr (received_of d m))"
    using bs(1,2) dec
    by (simp add: received_page_new_def received_of_def m Let_def)
  moreover have "rx\<lparr>rx_phase_of := Rx_Phase_Idle\<rparr> = rx" using rx by simp
  ultimately show ?thesis
    using rx by (simp add: rx_accept_def begin_accept_def advance_transfer_id_def leave_accept_def)
qed

section \<open>Properties\<close>

text \<open>C15: One page carries one message: when the pool has a page and the payload fits, beginning a page,
  writing the payload, finishing it and marking it sent yields a frame from which a receiver that waits
  for this frame gets the same kind and flags, and its payload reads back byte for byte; the sender
  is idle again and waits with the next transfer id.\<close>

theorem transfer_page_roundtrip:
  assumes "rmp_ok M" and "pool_inv h r fl" and "fl \<noteq> []" and "tx_pool tx = h" and "tx_sendable tx"
    and "page_header_len + length payload \<le> ph_page_size h"
    and "rx_pool rx = h" and "rx_phase_of rx = Rx_Phase_Idle" and "rx_next_transfer_id rx = tx_next_transfer_id tx"
  shows "\<exists>r1 tx1 f p rx1. send_message M r tx (kind, flags, payload) = Some (r1, tx1, Some f) \<and>
    tx_sendable tx1 \<and> rx_accept M r1 rx f = Some (r1, rx1, Inr (Event_Page p)) \<and>
    rp_kind p = kind \<and> rp_flags p = flags \<and> received_payload h r1 p = Some payload \<and>
    rx_next_transfer_id rx1 = tx_next_transfer_id tx1"
  using assms(1,2,4,5)
proof (cases rule: send_message_effect [where kind = kind and flags = flags and payload = payload])
  case (refused r' fl')
  with assms(3,6) show ?thesis by simp
next
  case (sent r' d xs)
  have "received_payload h r' (received_of d (kind, flags, payload)) = Some payload"
    using received_payload_of [OF assms(1) sent(3,5)] by simp
  with sent rx_accept_page [OF assms(1) sent(3) assms(7,8) sent(5)] assms(5,9) show ?thesis
    by (simp add: received_of_def tx_sendable_def)
qed

theorem transfer_page_roundtrip_witness:
  "\<exists>h r r1 tx1 f p rx1. send_message msgpack r (page_tx_new h) (7, 0, [1, 2, 3]) = Some (r1, tx1, Some f) \<and>
     rx_accept msgpack r1 (page_rx_new h) f = Some (r1, rx1, Inr (Event_Page p)) \<and>
     rp_kind p = 7 \<and> received_payload h r1 p = Some [1, 2, 3]"
proof -
  from demo_pool obtain r h where inv: "pool_inv h r [1, 0]" and ps: "ph_page_size h = 64" by blast
  have "tx_sendable (page_tx_new h)"
    by (simp add: tx_sendable_def page_tx_new_def ps page_header_len_def max_payload_len_def)
  from transfer_page_roundtrip [OF msgpack_ok inv _ _ this, of "[1, 2, 3]" "page_rx_new h" 7 0] ps show ?thesis
    by (simp add: page_tx_new_def page_rx_new_def page_header_len_def) blast
qed

end
