(* ===== verification/Transfer_Stream.thy ===== *)
theory Transfer_Stream
  imports Page_Transfer_Proofs
begin

text \<open>
  A sender and a receiver working concurrently over one pool: a stream of messages arrives in order,
  once each and intact, while the pages it travels in go back to the pool.
\<close>

section \<open>A stream of messages\<close>

text \<open>
  One sender and one receiver over one pool and a first-in-first-out carrier. The receiver may hold
  accepted pages and release them in any order, at any time.
\<close>

record stream =
  st_region :: pool_region
  st_tx :: page_tx
  st_rx :: page_rx
  st_wire :: "owned_frame list"
  st_held :: "(received_page \<times> message) list"
  st_sent :: "message list"
  st_got :: "message list"

datatype stream_op = Send message | Deliver | Release_held nat

text \<open>
  \<open>Send\<close> logs a message when its frame has gone out. \<open>Deliver\<close> accepts the next frame, reads the page
  and logs what it read. A refused frame would be logged nowhere and stay lost.
\<close>

fun stream_step :: "rmp \<Rightarrow> stream_op \<Rightarrow> stream \<Rightarrow> stream option" where
  "stream_step M (Send m) s = do {
     (r, tx, fr) \<leftarrow> send_message M (st_region s) (st_tx s) m;
     Some (case fr of
        None \<Rightarrow> s\<lparr>st_region := r, st_tx := tx\<rparr>
      | Some f \<Rightarrow> s\<lparr>st_region := r, st_tx := tx, st_wire := st_wire s @ [f], st_sent := st_sent s @ [m]\<rparr>)
   }"
| "stream_step M Deliver s =
     (case st_wire s of
        [] \<Rightarrow> Some s
      | f # fs \<Rightarrow> do {
          (r, rx, res) \<leftarrow> rx_accept M (st_region s) (st_rx s) f;
          (case res of
             Inr (Event_Page page) \<Rightarrow> do {
               payload \<leftarrow> received_payload (rx_pool rx) r page;
               let m = (rp_kind page, rp_flags page, payload);
               Some (s\<lparr>st_region := r, st_rx := rx, st_wire := fs, st_held := st_held s @ [(page, m)],
                       st_got := st_got s @ [m]\<rparr>)
             }
           | _ \<Rightarrow> Some (s\<lparr>st_region := r, st_rx := rx, st_wire := fs\<rparr>))
        })"
| "stream_step M (Release_held i) s =
     (if i < length (st_held s) then do {
        (r, _) \<leftarrow> received_release (rx_pool (st_rx s)) (st_region s) (fst (st_held s ! i));
        Some (s\<lparr>st_region := r, st_held := take i (st_held s) @ drop (Suc i) (st_held s)\<rparr>)
      } else Some s)"

fun stream_run :: "rmp \<Rightarrow> stream_op list \<Rightarrow> stream \<Rightarrow> stream option" where
  "stream_run M [] s = Some s"
| "stream_run M (op # ops) s =
     (case stream_step M op s of None \<Rightarrow> None | Some s' \<Rightarrow> stream_run M ops s')"

definition stream_new :: "pool_handle \<Rightarrow> pool_region \<Rightarrow> stream" where
  "stream_new h r = \<lparr>st_region = r, st_tx = page_tx_new h, st_rx = page_rx_new h, st_wire = [],
     st_held = [], st_sent = [], st_got = []\<rparr>"

text \<open>The transfer id of the \<open>n\<close>th message; ids stop at the largest one.\<close>

definition nth_id :: "nat \<Rightarrow> u64" where
  "nth_id n = of_nat (min (Suc n) (2 ^ 64 - 1))"

lemma nth_id_Suc: "saturating_add_u64 (nth_id n) 1 = nth_id (Suc n)"
proof -
  let ?m = "(2 :: nat) ^ 64 - 1"
  have u: "unat (nth_id n) = min (Suc n) ?m"
    unfolding nth_id_def by (rule unat_of_nat_u64) simp
  show ?thesis
  proof (cases "Suc n < ?m")
    case True
    then have "unat (nth_id n) \<noteq> unat (- 1 :: u64)" using u unat_max_u64 by simp
    then have "nth_id n \<noteq> - 1" by auto
    with True show ?thesis
      using saturating_add_u64_one(1) [of "nth_id n"] by (simp add: nth_id_def min_def)
  next
    case False
    then have "unat (nth_id n) = unat (- 1 :: u64)" using u unat_max_u64 by simp
    then have "nth_id n = - 1" by (simp add: word_unat_eq_iff)
    moreover from False have "nth_id (Suc n) = nth_id n" by (simp add: nth_id_def min_def)
    ultimately show ?thesis
      by (simp add: saturating_add_u64_def)
  qed
qed

text \<open>The page of a frame on the wire, and the messages the wire and the receiver hold.\<close>

fun frame_page :: "owned_frame \<Rightarrow> page_descriptor" where
  "frame_page (Frame_Page f) = pf_descriptor f"
| "frame_page (Frame_Close _) = zero_descriptor"

definition live_pages :: "stream \<Rightarrow> page_descriptor list" where
  "live_pages s = map frame_page (st_wire s) @ map (rp_descriptor \<circ> fst) (st_held s)"

fun wire_ok :: "rmp \<Rightarrow> pool_handle \<Rightarrow> pool_region \<Rightarrow> nat \<Rightarrow> owned_frame list \<Rightarrow> message list \<Rightarrow> bool" where
  "wire_ok M h r n [] [] \<longleftrightarrow> True"
| "wire_ok M h r n (f # fs) (m # ms) \<longleftrightarrow>
     (\<exists>d. f = Frame_Page \<lparr>pf_transfer_id = nth_id n, pf_descriptor = d\<rparr> \<and> page_holds M h r d m) \<and>
     wire_ok M h r (Suc n) fs ms"
| "wire_ok M h r n _ _ \<longleftrightarrow> False"

definition held_ok :: "rmp \<Rightarrow> pool_handle \<Rightarrow> pool_region \<Rightarrow> (received_page \<times> message) list \<Rightarrow> bool" where
  "held_ok M h r held \<longleftrightarrow> (\<forall>x \<in> set held. fst x = received_of (rp_descriptor (fst x)) (snd x) \<and>
     page_holds M h r (rp_descriptor (fst x)) (snd x))"

definition ends_ok :: "pool_handle \<Rightarrow> stream \<Rightarrow> message list \<Rightarrow> bool" where
  "ends_ok h s ms \<longleftrightarrow> tx_pool (st_tx s) = h \<and> tx_sendable (st_tx s) \<and> rx_pool (st_rx s) = h \<and>
     rx_phase_of (st_rx s) = Rx_Phase_Idle \<and>
     tx_next_transfer_id (st_tx s) = nth_id (length (st_sent s)) \<and>
     rx_next_transfer_id (st_rx s) = nth_id (length (st_got s)) \<and> st_sent s = st_got s @ ms"

definition stream_inv :: "rmp \<Rightarrow> pool_handle \<Rightarrow> stream \<Rightarrow> message list \<Rightarrow> bool" where
  "stream_inv M h s ms \<longleftrightarrow> (\<exists>fl. pool_inv h (st_region s) fl) \<and> ends_ok h s ms \<and>
     wire_ok M h (st_region s) (length (st_got s)) (st_wire s) ms \<and>
     held_ok M h (st_region s) (st_held s) \<and> distinct (map pd_page_id (live_pages s)) \<and>
     leased_set h (st_region s) = pd_page_id ` set (live_pages s)"

lemma wire_ok_kept:
  assumes "wire_ok M h r n fs ms"
    and "\<And>d m. d \<in> set (map frame_page fs) \<Longrightarrow> page_holds M h r d m \<Longrightarrow> page_holds M h r' d m"
  shows "wire_ok M h r' n fs ms"
  using assms by (induction M h r n fs ms rule: wire_ok.induct) auto

lemma wire_ok_length: "wire_ok M h r n fs ms \<Longrightarrow> length ms = length fs"
  by (induction M h r n fs ms rule: wire_ok.induct) auto

lemma wire_ok_snoc:
  "wire_ok M h r n fs ms \<Longrightarrow> page_holds M h r d m \<Longrightarrow>
     wire_ok M h r n (fs @ [Frame_Page \<lparr>pf_transfer_id = nth_id (n + length ms), pf_descriptor = d\<rparr>]) (ms @ [m])"
  by (induction M h r n fs ms rule: wire_ok.induct) auto

lemma wire_ok_pages:
  "wire_ok M h r n fs ms \<Longrightarrow> f \<in> set fs \<Longrightarrow> valid_desc h r (frame_page f) Detached"
  by (induction M h r n fs ms rule: wire_ok.induct) (auto simp: page_holds_def)

text \<open>Every page in transit or held is detached, so it is not on the free list.\<close>

lemma live_page_detached:
  assumes "stream_inv M h s ms" and "d \<in> set (live_pages s)"
  shows "valid_desc h (st_region s) d Detached"
  using assms wire_ok_pages
  by (fastforce simp: stream_inv_def live_pages_def held_ok_def page_holds_def)

text \<open>A change of the region that keeps the detached pages keeps the invariant.\<close>

lemma stream_pages_kept:
  assumes inv: "stream_inv M h s ms" and kept: "detached_kept h {} (st_region s) r"
  shows "wire_ok M h r (length (st_got s)) (st_wire s) ms" "held_ok M h r (st_held s)"
proof -
  show "wire_ok M h r (length (st_got s)) (st_wire s) ms"
    by (rule wire_ok_kept [where r = "st_region s"])
      (use inv page_holds_kept [OF kept] in \<open>auto simp: stream_inv_def\<close>)
  show "held_ok M h r (st_held s)"
    using inv page_holds_kept [OF kept] unfolding stream_inv_def held_ok_def by blast
qed

lemma stream_region_kept:
  assumes inv: "stream_inv M h s ms" and r: "pool_inv h r fl" "detached_kept h {} (st_region s) r"
    "leased_set h r = leased_set h (st_region s)"
  shows "stream_inv M h (s\<lparr>st_region := r\<rparr>) ms"
  using inv r(1,3) stream_pages_kept [OF inv r(2)] by (auto simp: stream_inv_def ends_ok_def live_pages_def)

lemma stream_page_sent:
  assumes inv: "stream_inv M h s ms" and r: "pool_inv h r xs" "detached_kept h {} (st_region s) r" "page_holds M h r d m"
    "leased_set h r = insert (pd_page_id d) (leased_set h (st_region s))" "pd_page_id d \<notin> leased_set h (st_region s)"
  shows "stream_inv M h (s\<lparr>st_region := r,
      st_tx := (st_tx s)\<lparr>tx_next_transfer_id := saturating_add_u64 (tx_next_transfer_id (st_tx s)) 1\<rparr>,
      st_wire := st_wire s @ [Frame_Page \<lparr>pf_transfer_id = tx_next_transfer_id (st_tx s), pf_descriptor = d\<rparr>],
      st_sent := st_sent s @ [m]\<rparr>) (ms @ [m])" (is "stream_inv M h ?s _")
proof -
  note kept = stream_pages_kept [OF inv r(2)]
  have "tx_next_transfer_id (st_tx s) = nth_id (length (st_got s) + length ms)"
    using inv by (simp add: stream_inv_def ends_ok_def)
  then have "wire_ok M h r (length (st_got s)) (st_wire ?s) (ms @ [m])"
    using wire_ok_snoc [OF kept(1) r(3)] by simp
  moreover have "ends_ok h ?s (ms @ [m])"
    using inv by (auto simp: stream_inv_def ends_ok_def nth_id_Suc tx_sendable_def)
  moreover have live: "set (live_pages ?s) = insert d (set (live_pages s))" by (auto simp: live_pages_def)
  have "pd_page_id d \<notin> pd_page_id ` set (live_pages s)" using inv r(5) by (simp add: stream_inv_def)
  then have "distinct (map pd_page_id (live_pages ?s))"
    using inv by (auto simp: stream_inv_def live_pages_def)
  moreover have "leased_set h r = pd_page_id ` set (live_pages ?s)"
    using inv r(4) live by (simp add: stream_inv_def)
  ultimately show ?thesis
    using kept(2) r(1) by (auto simp: stream_inv_def)
qed

lemma stream_send:
  assumes M: "rmp_ok M" and inv: "stream_inv M h s ms"
  shows "\<exists>s'. stream_step M (Send m) s = Some s' \<and> (stream_inv M h s' ms \<or> stream_inv M h s' (ms @ [m]))"
proof -
  obtain kind flags payload where m: "m = (kind, flags, payload)" by (cases m)
  from inv obtain fl where pool: "pool_inv h (st_region s) fl" by (auto simp: stream_inv_def)
  have tx: "tx_pool (st_tx s) = h" "tx_sendable (st_tx s)" using inv by (auto simp: stream_inv_def ends_ok_def)
  from M pool tx show ?thesis
  proof (cases rule: send_message_effect [where kind = kind and flags = flags and payload = payload])
    case (refused r fl')
    with stream_region_kept [OF inv refused(2,3,4)] show ?thesis by (simp add: m)
  next
    case (sent r d xs)
    with stream_page_sent [OF inv sent(3,4,5,6,7)] show ?thesis by (simp add: m)
  qed
qed

lemma stream_deliver:
  assumes M: "rmp_ok M" and inv: "stream_inv M h s (m # ms)"
  shows "\<exists>s'. stream_step M Deliver s = Some s' \<and> stream_inv M h s' ms"
proof -
  from inv obtain fl where pool: "pool_inv h (st_region s) fl" by (auto simp: stream_inv_def)
  have rx: "rx_pool (st_rx s) = h" "rx_phase_of (st_rx s) = Rx_Phase_Idle"
    "rx_next_transfer_id (st_rx s) = nth_id (length (st_got s))" using inv by (auto simp: stream_inv_def ends_ok_def)
  from inv obtain d fs where wire:
      "st_wire s = Frame_Page \<lparr>pf_transfer_id = nth_id (length (st_got s)), pf_descriptor = d\<rparr> # fs"
    and holds: "page_holds M h (st_region s) d m" and rest: "wire_ok M h (st_region s) (Suc (length (st_got s))) fs ms"
    by (cases "st_wire s") (auto simp: stream_inv_def)
  let ?p = "received_of d m"
  have log: "(rp_kind ?p, rp_flags ?p, snd (snd m)) = m" "rp_descriptor ?p = d"
    by (cases m, simp add: received_of_def)+
  define s' where "s' = s\<lparr>st_rx := (st_rx s)\<lparr>rx_next_transfer_id := nth_id (Suc (length (st_got s)))\<rparr>,
    st_wire := fs, st_held := st_held s @ [(?p, m)], st_got := st_got s @ [m]\<rparr>"
  have "stream_step M Deliver s = Some s'"
    using rx_accept_page [OF M pool rx(1,2) holds] received_payload_of [OF M pool holds] log rx
    by (simp add: wire s'_def nth_id_Suc)
  moreover have "ends_ok h s' ms"
    using inv rx by (simp add: stream_inv_def ends_ok_def s'_def)
  moreover have "distinct (map pd_page_id (live_pages s'))"
    using inv wire log(2) by (auto simp: stream_inv_def s'_def live_pages_def)
  moreover have "set (live_pages s') = set (live_pages s)"
    using wire log(2) by (auto simp: s'_def live_pages_def)
  then have "leased_set h (st_region s) = pd_page_id ` set (live_pages s')"
    using inv by (simp add: stream_inv_def)
  moreover have "held_ok M h (st_region s) (st_held s')"
    using inv holds log(2) by (auto simp: stream_inv_def held_ok_def s'_def)
  ultimately show ?thesis
    using pool rest by (auto simp: stream_inv_def s'_def)
qed

lemma stream_release:
  assumes M: "rmp_ok M" and inv: "stream_inv M h s ms" and i: "i < length (st_held s)"
  shows "\<exists>s'. stream_step M (Release_held i) s = Some s' \<and> stream_inv M h s' ms"
proof -
  from inv obtain fl where pool: "pool_inv h (st_region s) fl" by (auto simp: stream_inv_def)
  have rx: "rx_pool (st_rx s) = h" using inv by (auto simp: stream_inv_def ends_ok_def)
  define x A B where "x = st_held s ! i" and "A = take i (st_held s)" and "B = drop (Suc i) (st_held s)"
  have held: "st_held s = A @ x # B"
    unfolding x_def A_def B_def using i by (rule id_take_nth_drop)
  let ?d = "rp_descriptor (fst x)"
  have "valid_desc h (st_region s) ?d Detached"
    using inv held by (auto simp: stream_inv_def held_ok_def page_holds_def)
  from release_effect [OF pool this] obtain r fl' where
    r: "pool_release h (st_region s) ?d = Some (r, Inr ())" "pool_inv h r fl'"
      "detached_kept h {pd_page_id ?d} (st_region s) r" "leased_set h r = leased_set h (st_region s) - {pd_page_id ?d}" .
  define s' where "s' = s\<lparr>st_region := r, st_held := A @ B\<rparr>"
  have step: "stream_step M (Release_held i) s = Some s'"
    using r(1) i rx by (simp add: received_release_def x_def A_def B_def s'_def)
  have live: "distinct (map pd_page_id (live_pages s'))"
    "pd_page_id ?d \<notin> pd_page_id ` set (live_pages s')"
    using inv held by (auto simp: stream_inv_def live_pages_def s'_def)
  have keep: "page_holds M h r e m" if "e \<in> set (live_pages s')" "page_holds M h (st_region s) e m" for e m
  proof (rule page_holds_kept [OF r(3) _ that(2)])
    show "pd_page_id e \<notin> {pd_page_id ?d}" using live(2) that(1) by (metis imageI singletonD)
  qed
  have "wire_ok M h r (length (st_got s)) (st_wire s) ms"
  proof (rule wire_ok_kept [where r = "st_region s"])
    show "wire_ok M h (st_region s) (length (st_got s)) (st_wire s) ms" using inv by (simp add: stream_inv_def)
    fix e m assume "e \<in> set (map frame_page (st_wire s))"
    then have "e \<in> set (live_pages s')" by (simp add: live_pages_def s'_def)
    then show "page_holds M h (st_region s) e m \<Longrightarrow> page_holds M h r e m" by (rule keep)
  qed
  moreover have "held_ok M h r (A @ B)"
    unfolding held_ok_def
  proof
    fix y assume y: "y \<in> set (A @ B)"
    then have "fst y = received_of (rp_descriptor (fst y)) (snd y)"
      "page_holds M h (st_region s) (rp_descriptor (fst y)) (snd y)"
      using inv held unfolding stream_inv_def held_ok_def by auto
    moreover have "rp_descriptor (fst y) \<in> set (live_pages s')"
      using y by (auto simp: live_pages_def s'_def)
    ultimately show "fst y = received_of (rp_descriptor (fst y)) (snd y) \<and>
        page_holds M h r (rp_descriptor (fst y)) (snd y)"
      using keep by blast
  qed
  moreover have "ends_ok h s' ms" using inv by (simp add: stream_inv_def ends_ok_def s'_def)
  moreover have "set (live_pages s) = insert ?d (set (live_pages s'))"
    using held by (auto simp: live_pages_def s'_def)
  then have "leased_set h r = pd_page_id ` set (live_pages s')"
    using inv r(4) live(2) unfolding stream_inv_def by simp
  ultimately have "stream_inv M h s' ms"
    using r(2) live(1) by (auto simp: stream_inv_def s'_def)
  with step show ?thesis by blast
qed

lemma stream_step_ok:
  assumes "rmp_ok M" and "stream_inv M h s ms"
  shows "\<exists>s' ms'. stream_step M op s = Some s' \<and> stream_inv M h s' ms'"
proof (cases op)
  case (Send m)
  with stream_send [OF assms, of m] show ?thesis by blast
next
  case Deliver
  show ?thesis
  proof (cases ms)
    case Nil
    with assms(2) have "st_wire s = []"
      by (cases "st_wire s") (simp_all add: stream_inv_def)
    with Deliver assms(2) show ?thesis by auto
  next
    case (Cons m ms')
    with stream_deliver [OF assms(1)] assms(2) Deliver show ?thesis by blast
  qed
next
  case (Release_held i)
  with stream_release [OF assms, of i] assms(2) show ?thesis
    by (cases "i < length (st_held s)") auto
qed

lemma stream_run_ok:
  assumes "rmp_ok M" and "stream_inv M h s ms"
  shows "\<exists>s' ms'. stream_run M ops s = Some s' \<and> stream_inv M h s' ms'"
  using assms(2)
proof (induction ops arbitrary: s ms)
  case Nil
  then show ?case by auto
next
  case (Cons op ops)
  from stream_step_ok [OF assms(1) Cons.prems, of op] obtain s1 ms1 where
    "stream_step M op s = Some s1" "stream_inv M h s1 ms1" by blast
  with Cons.IH show ?case by auto
qed

lemma stream_new_inv:
  assumes "pool_init_in_place base len cfg pid = Some (Inr (r, h))"
    and "tx_validate_page_size (ph_page_size h) = Inr ()"
  shows "stream_inv M h (stream_new h r) []"
proof -
  note inv = pool_init_inv [OF assms(1)]
  have "tx_sendable (page_tx_new h)"
    using assms(2) by (auto simp: tx_sendable_def page_tx_new_def tx_validate_page_size_def split: if_splits)
  moreover have "leased_set h r = {}"
  proof -
    have "rg_states r = replicate (unat (ph_page_count h)) (pack_state 0 Free)"
      using pool_init_parts [OF assms(1)] by (metis build_handle_def pool_handle.select_convs(3))
    then show ?thesis by (auto simp: leased_set_def page_at_def leased_def)
  qed
  ultimately show ?thesis
    using inv by (auto simp: stream_inv_def ends_ok_def stream_new_def page_tx_new_def page_rx_new_def nth_id_def
        live_pages_def held_ok_def)
qed

lemma live_pages_card:
  "stream_inv M h s ms \<Longrightarrow> card (leased_set h (st_region s)) = length (st_wire s) + length (st_held s)"
proof -
  assume "stream_inv M h s ms"
  then have "leased_set h (st_region s) = set (map pd_page_id (live_pages s))"
    "distinct (map pd_page_id (live_pages s))" by (auto simp: stream_inv_def)
  then have "card (leased_set h (st_region s)) = length (live_pages s)"
    by (metis distinct_card length_map)
  then show ?thesis by (simp add: live_pages_def)
qed

section \<open>Properties\<close>

text \<open>C16: A stream of pages loses, repeats and reorders nothing: from a fresh pool, any interleaving of
  sends, deliveries and releases (with sends refused for want of pages or room among them) runs without
  a panic; what has been sent is what has been received followed by what is still on the wire; every
  page the receiver holds still reads as its message; and exactly the pages on the wire and those
  held are leased, so none leaks.\<close>

theorem transfer_stream_in_order:
  assumes "rmp_ok M" and "pool_init_in_place base len cfg pid = Some (Inr (r, h))"
    and "tx_validate_page_size (ph_page_size h) = Inr ()"
  shows "\<exists>s ms. stream_run M ops (stream_new h r) = Some s \<and> st_sent s = st_got s @ ms \<and>
    length ms = length (st_wire s) \<and>
    (\<forall>(p, kind, flags, payload) \<in> set (st_held s). rp_kind p = kind \<and> rp_flags p = flags \<and>
       received_payload h (st_region s) p = Some payload) \<and>
    card (leased_set h (st_region s)) = length (st_wire s) + length (st_held s)"
proof -
  from stream_run_ok [OF assms(1) stream_new_inv [OF assms(2,3)]] obtain s ms where
    run: "stream_run M ops (stream_new h r) = Some s" and inv: "stream_inv M h s ms" by blast
  from inv obtain fl where pool: "pool_inv h (st_region s) fl" by (auto simp: stream_inv_def)
  have "length ms = length (st_wire s)"
    using inv wire_ok_length [of M h "st_region s" "length (st_got s)" "st_wire s" ms] by (simp add: stream_inv_def)
  moreover have "rp_kind p = kind \<and> rp_flags p = flags \<and> received_payload h (st_region s) p = Some payload"
    if "(p, kind, flags, payload) \<in> set (st_held s)" for p kind flags payload
  proof -
    define d where "d = rp_descriptor p"
    have "p = received_of d (kind, flags, payload)" "page_holds M h (st_region s) d (kind, flags, payload)"
      using inv that by (fastforce simp: stream_inv_def held_ok_def d_def)+
    with received_payload_of [OF assms(1) pool this(2)] show ?thesis by (simp add: received_of_def)
  qed
  ultimately show ?thesis
    using run inv live_pages_card [OF inv] by (auto simp: stream_inv_def ends_ok_def)
qed

theorem transfer_stream_in_order_witness:
  "\<exists>r h s ms. pool_init_in_place 0 4096 \<lparr>cfg_page_size = 64, cfg_page_count = 2\<rparr> 7 = Some (Inr (r, h)) \<and>
     stream_run msgpack [Send (1, 0, [5]), Send (2, 0, []), Send (3, 0, [6]), Deliver, Release_held 0]
       (stream_new h r) = Some s \<and> st_sent s = st_got s @ ms"
proof -
  from demo_pool obtain r h where
    init: "pool_init_in_place 0 4096 \<lparr>cfg_page_size = 64, cfg_page_count = 2\<rparr> 7 = Some (Inr (r, h))"
    and ps: "ph_page_size h = 64" by blast
  have "tx_validate_page_size (ph_page_size h) = Inr ()"
    by (simp add: ps tx_validate_page_size_def page_header_len_def max_payload_len_def)
  from transfer_stream_in_order [OF msgpack_ok init this] init show ?thesis by blast
qed

end
