(* ===== verification/Issuance_Transfer.thy ===== *)
theory Issuance_Transfer
  imports Issuance_Pool Issuance_Wire Transfer_Stream
begin

text \<open>
  The permit-aware ends of a page transfer, \<^verbatim>\<open>src/page/issuance/src/tx.rs\<close> and \<^verbatim>\<open>rx.rs\<close>: a sender takes a
  permit before it takes a page, the frame carries both, and whoever gives the page back gives the permit
  back. The page region and the permit region are passed explicitly; a value's drop is a function of its
  own, called where the code lets the value go.
\<close>

section \<open>tx.rs\<close>

datatype issued_tx_error =
    Itx_NoPermits
  | Itx_Acquire iss_acquire_error
  | Itx_Tx tx_error

fun is_retryable_backpressure :: "issued_tx_error \<Rightarrow> bool" where
  "is_retryable_backpressure Itx_NoPermits = True"
| "is_retryable_backpressure (Itx_Acquire Iss_Empty) = True"
| "is_retryable_backpressure (Itx_Tx Tx_Busy) = True"
| "is_retryable_backpressure (Itx_Tx (Tx_Acquire Acquire_Empty)) = True"
| "is_retryable_backpressure _ = False"

record issued_tx =
  itx_tx :: page_tx
  itx_permits :: iss_pool

record issued_writer =
  iw_writer :: page_writer
  iw_permit :: "permit_lease option"
  iw_permits :: iss_pool

record issued_outbound =
  io_outbound :: "outbound_page option"
  io_permits :: iss_pool
  io_permit_id :: u32
  io_payload_len :: nat
  io_sent :: bool

definition issued_begin ::
  "pool_region \<Rightarrow> iss_region \<Rightarrow> issued_tx \<Rightarrow> u16 \<Rightarrow> u16 \<Rightarrow>
     (pool_region \<times> iss_region \<times> issued_tx \<times> (issued_tx_error + issued_writer)) option" where
  "issued_begin r q itx kind flags = do {
     (q1, acquired) \<leftarrow> iss_try_acquire (itx_permits itx) q;
     (case acquired of
        Inl Iss_Empty \<Rightarrow> Some (r, q1, itx, Inl Itx_NoPermits)
      | Inl other \<Rightarrow> Some (r, q1, itx, Inl (Itx_Acquire other))
      | Inr permit \<Rightarrow> do {
          (r1, tx1, res) \<leftarrow> tx_begin r (itx_tx itx) kind flags;
          (case res of
             Inr writer \<Rightarrow> Some (r1, q1, itx\<lparr>itx_tx := tx1\<rparr>,
               Inr \<lparr>iw_writer = writer, iw_permit = Some permit, iw_permits = itx_permits itx\<rparr>)
           | Inl err \<Rightarrow> do {
               q2 \<leftarrow> permit_drop q1 permit;
               Some (r1, q2, itx\<lparr>itx_tx := tx1\<rparr>, Inl (Itx_Tx err))
             })
        })
   }"

definition issued_close :: "issued_tx \<Rightarrow> (issued_tx \<times> (issued_tx_error + issued_owned_frame)) option" where
  "issued_close itx =
     (let (tx1, res) = tx_close (itx_tx itx); itx1 = itx\<lparr>itx_tx := tx1\<rparr>
      in case res of
           Inl e \<Rightarrow> Some (itx1, Inl (Itx_Tx e))
         | Inr (Frame_Close transfer_id) \<Rightarrow> Some (itx1, Inr (Issued_Close transfer_id))
         | Inr (Frame_Page _) \<Rightarrow> None)"

definition permit_option_drop :: "iss_region \<Rightarrow> permit_lease option \<Rightarrow> iss_region option" where
  "permit_option_drop q permit = (case permit of None \<Rightarrow> Some q | Some l \<Rightarrow> permit_drop q l)"

text \<open>Dropping an \<open>IssuedWriter\<close> drops its fields in order: the page writer, then the permit.\<close>

definition issued_writer_drop ::
  "pool_region \<Rightarrow> iss_region \<Rightarrow> issued_tx \<Rightarrow> issued_writer \<Rightarrow> (pool_region \<times> iss_region \<times> issued_tx) option" where
  "issued_writer_drop r q itx w = do {
     (r1, tx1) \<leftarrow> writer_drop r (itx_tx itx) (iw_writer w);
     q1 \<leftarrow> permit_option_drop q (iw_permit w);
     Some (r1, q1, itx\<lparr>itx_tx := tx1\<rparr>)
   }"

definition issued_write_all ::
  "pool_region \<Rightarrow> issued_writer \<Rightarrow> bytes \<Rightarrow> (pool_region \<times> issued_writer \<times> (unit + unit)) option" where
  "issued_write_all r w buf = do {
     (r1, writer, io) \<leftarrow> writer_write_all r (iw_writer w) buf;
     Some (r1, w\<lparr>iw_writer := writer\<rparr>, io)
   }"

definition issued_finish_with_payload_len ::
  "rmp \<Rightarrow> pool_region \<Rightarrow> iss_region \<Rightarrow> issued_tx \<Rightarrow> issued_writer \<Rightarrow> nat \<Rightarrow>
     (pool_region \<times> iss_region \<times> issued_tx \<times> (issued_tx_error + issued_outbound)) option" where
  "issued_finish_with_payload_len M r q itx w payload_len = do {
     (r1, tx1, res) \<leftarrow> writer_finish_with_payload_len M r (itx_tx itx) (iw_writer w) payload_len;
     (case res of
        Inl err \<Rightarrow> do {
          q1 \<leftarrow> permit_option_drop q (iw_permit w);
          Some (r1, q1, itx\<lparr>itx_tx := tx1\<rparr>, Inl (Itx_Tx err))
        }
      | Inr outbound \<Rightarrow> do {
          permit \<leftarrow> iw_permit w;
          let (permit1, permit_id) = permit_into_id permit;
          q1 \<leftarrow> permit_drop q permit1;
          Some (r1, q1, itx\<lparr>itx_tx := tx1\<rparr>,
            Inr \<lparr>io_outbound = Some outbound, io_permits = iw_permits w, io_permit_id = permit_id,
                 io_payload_len = payload_len, io_sent = False\<rparr>)
        })
   }"

definition issued_finish ::
  "rmp \<Rightarrow> pool_region \<Rightarrow> iss_region \<Rightarrow> issued_tx \<Rightarrow> issued_writer \<Rightarrow>
     (pool_region \<times> iss_region \<times> issued_tx \<times> (issued_tx_error + issued_outbound)) option" where
  "issued_finish M r q itx w = issued_finish_with_payload_len M r q itx w (pw_position (iw_writer w))"

definition issued_frame :: "issued_outbound \<Rightarrow> issued_owned_frame option" where
  "issued_frame io = do {
     outbound \<leftarrow> io_outbound io;
     Some (Issued_Page \<lparr>if_pool_instance_id = ip_instance_id (io_permits io), if_permit_id = io_permit_id io,
       if_inner = \<lparr>pf_transfer_id = ob_transfer_id outbound, pf_descriptor = ob_descriptor outbound\<rparr>\<rparr>)
   }"

definition issued_outbound_drop ::
  "pool_region \<Rightarrow> iss_region \<Rightarrow> issued_tx \<Rightarrow> issued_outbound \<Rightarrow> (pool_region \<times> iss_region \<times> issued_tx) option" where
  "issued_outbound_drop r q itx io =
     (if io_sent io then Some (r, q, itx)
      else do {
        (r1, tx1) \<leftarrow> (case io_outbound io of None \<Rightarrow> Some (r, itx_tx itx)
                     | Some outbound \<Rightarrow> outbound_drop r (itx_tx itx) outbound);
        (q1, _) \<leftarrow> iss_release (io_permits io) q (io_permit_id io);
        Some (r1, q1, itx\<lparr>itx_tx := tx1\<rparr>)
      })"

definition issued_mark_sent ::
  "pool_region \<Rightarrow> iss_region \<Rightarrow> issued_tx \<Rightarrow> issued_outbound \<Rightarrow> (pool_region \<times> iss_region \<times> issued_tx) option" where
  "issued_mark_sent r q itx io = do {
     outbound \<leftarrow> io_outbound io;
     (r1, tx1) \<leftarrow> outbound_mark_sent r (itx_tx itx) outbound;
     issued_outbound_drop r1 q (itx\<lparr>itx_tx := tx1\<rparr>) (io\<lparr>io_outbound := None, io_sent := True\<rparr>)
   }"

section \<open>rx.rs\<close>

datatype issued_rx_error =
    Irx_PermitPoolMismatch u64 u64
  | Irx_Rx rx_error
  | Irx_PermitRelease iss_release_error
  | Irx_RxAndPermitRelease rx_error iss_release_error

record issued_rx =
  irx_rx :: page_rx
  irx_permits :: iss_pool

record issued_received =
  irp_page :: "received_page option"
  irp_permits :: iss_pool
  irp_permit_id :: u32
  irp_released :: bool

datatype issue_event = Issue_Page issued_received | Issue_Closed

fun should_release_permit :: "rx_error \<Rightarrow> bool" where
  "should_release_permit Rx_Busy = False"
| "should_release_permit Rx_Closed = False"
| "should_release_permit (Rx_Access _) = False"
| "should_release_permit (Rx_Release _) = False"
| "should_release_permit (Rx_UnexpectedTransferId _ _) = False"
| "should_release_permit (Rx_InvalidPage _) = True"
| "should_release_permit (Rx_Decode _) = True"

definition issued_accept ::
  "rmp \<Rightarrow> pool_region \<Rightarrow> iss_region \<Rightarrow> issued_rx \<Rightarrow> issued_owned_frame \<Rightarrow>
     (pool_region \<times> iss_region \<times> issued_rx \<times> (issued_rx_error + issue_event)) option" where
  "issued_accept M r q irx frame =
     (case frame of
        Issued_Close transfer_id \<Rightarrow> do {
          (r1, rx1, res) \<leftarrow> rx_accept M r (irx_rx irx) (Frame_Close transfer_id);
          let irx1 = irx\<lparr>irx_rx := rx1\<rparr>;
          (case res of
             Inl e \<Rightarrow> Some (r1, q, irx1, Inl (Irx_Rx e))
           | Inr Event_Closed \<Rightarrow> Some (r1, q, irx1, Inr Issue_Closed)
           | Inr (Event_Page _) \<Rightarrow> None)
        }
      | Issued_Page f \<Rightarrow>
          (let expected_pool = ip_instance_id (irx_permits irx) in
           if if_pool_instance_id f \<noteq> expected_pool
           then Some (r, q, irx, Inl (Irx_PermitPoolMismatch expected_pool (if_pool_instance_id f)))
           else do {
             (r1, rx1, res) \<leftarrow> rx_accept M r (irx_rx irx) (Frame_Page (if_inner f));
             let irx1 = irx\<lparr>irx_rx := rx1\<rparr>;
             (case res of
                Inr (Event_Page page) \<Rightarrow> Some (r1, q, irx1, Inr (Issue_Page
                  \<lparr>irp_page = Some page, irp_permits = irx_permits irx, irp_permit_id = if_permit_id f,
                   irp_released = False\<rparr>))
              | Inr Event_Closed \<Rightarrow> None
              | Inl err \<Rightarrow>
                  if should_release_permit err
                  then do {
                    (q1, released) \<leftarrow> iss_release (irx_permits irx) q (if_permit_id f);
                    (case released of
                       Inr _ \<Rightarrow> Some (r1, q1, irx1, Inl (Irx_Rx err))
                     | Inl permit \<Rightarrow> Some (r1, q1, irx1, Inl (Irx_RxAndPermitRelease err permit)))
                  }
                  else Some (r1, q, irx1, Inl (Irx_Rx err)))
           }))"

definition issued_payload :: "pool_handle \<Rightarrow> pool_region \<Rightarrow> issued_received \<Rightarrow> bytes option" where
  "issued_payload pool r p = do { page \<leftarrow> irp_page p; received_payload pool r page }"

definition issued_received_drop ::
  "pool_handle \<Rightarrow> pool_region \<Rightarrow> iss_region \<Rightarrow> issued_received \<Rightarrow> (pool_region \<times> iss_region) option" where
  "issued_received_drop pool r q p =
     (if irp_released p then Some (r, q)
      else do {
        r1 \<leftarrow> (case irp_page p of None \<Rightarrow> Some r | Some page \<Rightarrow> received_drop pool r page);
        (q1, _) \<leftarrow> iss_release (irp_permits p) q (irp_permit_id p);
        Some (r1, q1)
      })"

definition issued_release ::
  "pool_handle \<Rightarrow> pool_region \<Rightarrow> iss_region \<Rightarrow> issued_received \<Rightarrow>
     (pool_region \<times> iss_region \<times> (issued_rx_error + unit)) option" where
  "issued_release pool r q p = do {
     page \<leftarrow> irp_page p;
     (r1, page_result) \<leftarrow> received_release pool r page;
     (q1, permit_result) \<leftarrow> iss_release (irp_permits p) q (irp_permit_id p);
     (r2, q2) \<leftarrow> issued_received_drop pool r1 q1 (p\<lparr>irp_page := None, irp_released := True\<rparr>);
     Some (r2, q2, case (page_result, permit_result) of
        (Inr _, Inr _) \<Rightarrow> Inr ()
      | (Inl err, Inr _) \<Rightarrow> Inl (Irx_Rx err)
      | (Inr _, Inl err) \<Rightarrow> Inl (Irx_PermitRelease err)
      | (Inl rx, Inl permit) \<Rightarrow> Inl (Irx_RxAndPermitRelease rx permit))
   }"

end
