(* ===== verification/Issuance_Stream.thy ===== *)
theory Issuance_Stream
  imports Issuance_Transfer
begin

text \<open>
  A permit-aware stream of pages refines the plain stream of \<open>Transfer_Stream\<close>: forgetting the permits, every
  step is a step of the plain stream or leaves it alone, and the permits leased are those of the pages
  on the wire and with the receiver.
\<close>

section \<open>Sending with a permit\<close>

definition issued_send_message ::
  "rmp \<Rightarrow> pool_region \<Rightarrow> iss_region \<Rightarrow> issued_tx \<Rightarrow> message \<Rightarrow>
     (pool_region \<times> iss_region \<times> issued_tx \<times> issued_owned_frame option) option" where
  "issued_send_message M r q itx m = (case m of (kind, flags, payload) \<Rightarrow> do {
     (r1, q1, itx1, res) \<leftarrow> issued_begin r q itx kind flags;
     (case res of
        Inl _ \<Rightarrow> Some (r1, q1, itx1, None)
      | Inr w \<Rightarrow> do {
          (r2, w2, io) \<leftarrow> issued_write_all r1 w payload;
          (case io of
             Inl _ \<Rightarrow> do { (r3, q3, itx3) \<leftarrow> issued_writer_drop r2 q1 itx1 w2; Some (r3, q3, itx3, None) }
           | Inr _ \<Rightarrow> do {
               (r3, q3, itx3, fin) \<leftarrow> issued_finish M r2 q1 itx1 w2;
               (case fin of
                  Inl _ \<Rightarrow> Some (r3, q3, itx3, None)
                | Inr ob \<Rightarrow> do {
                    f \<leftarrow> issued_frame ob;
                    (r4, q4, itx4) \<leftarrow> issued_mark_sent r3 q3 itx3 ob;
                    Some (r4, q4, itx4, Some f)
                  })
             })
        })
   })"

lemmas issued_send_defs =
  issued_begin_def issued_write_all_def issued_writer_drop_def issued_finish_def
  issued_finish_with_payload_len_def issued_frame_def issued_mark_sent_def issued_outbound_drop_def
  permit_option_drop_def permit_into_id_def

lemma issued_send_message_effect:
  assumes inv: "iss_inv hp q pl" and hp: "itx_permits itx = hp"
    and plain: "send_message M r (itx_tx itx) m = Some (r', tx', fr)"
  obtains (starved) q' where "pl = []" "issued_send_message M r q itx m = Some (r, q', itx, None)"
      "iss_inv hp q' []" "leased_permits q' = leased_permits q"
  | (refused) q' pl' where "fr = None"
      "issued_send_message M r q itx m = Some (r', q', itx\<lparr>itx_tx := tx'\<rparr>, None)"
      "iss_inv hp q' pl'" "leased_permits q' = leased_permits q"
  | (sent) q' x xs f where "pl = x # xs" "fr = Some (Frame_Page f)"
      "issued_send_message M r q itx m = Some (r', q', itx\<lparr>itx_tx := tx'\<rparr>,
         Some (Issued_Page \<lparr>if_pool_instance_id = ip_instance_id hp, if_permit_id = x, if_inner = f\<rparr>))"
      "iss_inv hp q' xs" "leased_permits q' = insert x (leased_permits q)" "x \<notin> leased_permits q"
proof -
  obtain kind flags payload where m: "m = (kind, flags, payload)" by (cases m)
  from inv show thesis
  proof (cases rule: iss_try_acquire_effect)
    case (empty q')
    with hp starved show thesis by (simp add: issued_send_message_def issued_begin_def m)
  next
    case (permit x xs q1)
    define L where "L = \<lparr>il_pool = hp, il_permit_id = x, il_detached = False\<rparr>"
    have "x \<in> leased_permits q1" using permit(4) by simp
    from iss_release_effect [OF permit(3) this] obtain q2 where
      q2: "iss_release hp q1 x = Some (q2, Inr ())" "iss_inv hp q2 (x # xs)" "leased_permits q2 = leased_permits q1 - {x}" .
    have same: "leased_permits q2 = leased_permits q" using q2(3) permit(4,5) by auto
    have drop: "permit_drop q1 L = Some q2" "permit_drop q1 (L\<lparr>il_detached := True\<rparr>) = Some q1"
      using q2(1) by (simp_all add: permit_drop_def L_def)
    have acq: "iss_try_acquire hp q = Some (q1, Inr L)" using permit(2) by (simp add: L_def)
    show thesis
    proof (cases fr)
      case None
      have "issued_send_message M r q itx m = Some (r', q2, itx\<lparr>itx_tx := tx'\<rparr>, None)"
        using plain hp acq drop None
        by (auto simp: m send_message_def issued_send_message_def issued_send_defs writer_finish_def
            split: Option.bind_splits sum.splits prod.splits)
      with None q2(2) same refused show thesis by blast
    next
      case (Some f)
      have "\<exists>pf. f = Frame_Page pf \<and> issued_send_message M r q itx m = Some (r', q1, itx\<lparr>itx_tx := tx'\<rparr>,
          Some (Issued_Page \<lparr>if_pool_instance_id = ip_instance_id hp, if_permit_id = x, if_inner = pf\<rparr>))"
        using plain hp acq drop Some
        by (auto simp: m send_message_def issued_send_message_def issued_send_defs writer_finish_def outbound_frame_def
            L_def split: Option.bind_splits sum.splits prod.splits)
      with Some permit sent show thesis by blast
    qed
  qed
qed

section \<open>A stream under flow control\<close>

record istream =
  is_pages :: pool_region
  is_permits :: iss_region
  is_tx :: issued_tx
  is_rx :: issued_rx
  is_wire :: "issued_owned_frame list"
  is_held :: "(issued_received \<times> message) list"
  is_sent :: "message list"
  is_got :: "message list"

fun istream_step :: "rmp \<Rightarrow> stream_op \<Rightarrow> istream \<Rightarrow> istream option" where
  "istream_step M (Send m) s = do {
     (r, q, itx, fr) \<leftarrow> issued_send_message M (is_pages s) (is_permits s) (is_tx s) m;
     Some (case fr of
        None \<Rightarrow> s\<lparr>is_pages := r, is_permits := q, is_tx := itx\<rparr>
      | Some f \<Rightarrow> s\<lparr>is_pages := r, is_permits := q, is_tx := itx, is_wire := is_wire s @ [f],
                    is_sent := is_sent s @ [m]\<rparr>)
   }"
| "istream_step M Deliver s =
     (case is_wire s of
        [] \<Rightarrow> Some s
      | f # fs \<Rightarrow> do {
          (r, q, irx, res) \<leftarrow> issued_accept M (is_pages s) (is_permits s) (is_rx s) f;
          (case res of
             Inr (Issue_Page p) \<Rightarrow> do {
               page \<leftarrow> irp_page p;
               payload \<leftarrow> issued_payload (rx_pool (irx_rx irx)) r p;
               let m = (rp_kind page, rp_flags page, payload);
               Some (s\<lparr>is_pages := r, is_permits := q, is_rx := irx, is_wire := fs,
                       is_held := is_held s @ [(p, m)], is_got := is_got s @ [m]\<rparr>)
             }
           | _ \<Rightarrow> Some (s\<lparr>is_pages := r, is_permits := q, is_rx := irx, is_wire := fs\<rparr>))
        })"
| "istream_step M (Release_held i) s =
     (if i < length (is_held s) then do {
        (r, q, _) \<leftarrow> issued_release (rx_pool (irx_rx (is_rx s))) (is_pages s) (is_permits s) (fst (is_held s ! i));
        Some (s\<lparr>is_pages := r, is_permits := q, is_held := take i (is_held s) @ drop (Suc i) (is_held s)\<rparr>)
      } else Some s)"

fun istream_run :: "rmp \<Rightarrow> stream_op list \<Rightarrow> istream \<Rightarrow> istream option" where
  "istream_run M [] s = Some s"
| "istream_run M (op # ops) s =
     (case istream_step M op s of None \<Rightarrow> None | Some s' \<Rightarrow> istream_run M ops s')"

definition istream_new :: "pool_handle \<Rightarrow> pool_region \<Rightarrow> iss_pool \<Rightarrow> iss_region \<Rightarrow> istream" where
  "istream_new h r hp q = \<lparr>is_pages = r, is_permits = q,
     is_tx = \<lparr>itx_tx = page_tx_new h, itx_permits = hp\<rparr>, is_rx = \<lparr>irx_rx = page_rx_new h, irx_permits = hp\<rparr>,
     is_wire = [], is_held = [], is_sent = [], is_got = []\<rparr>"

text \<open>Forgetting the permits.\<close>

fun plain_frame :: "issued_owned_frame \<Rightarrow> owned_frame" where
  "plain_frame (Issued_Page f) = Frame_Page (if_inner f)"
| "plain_frame (Issued_Close t) = Frame_Close t"

fun frame_permit :: "issued_owned_frame \<Rightarrow> u32" where
  "frame_permit (Issued_Page f) = if_permit_id f"
| "frame_permit (Issued_Close _) = 0"

definition plain_stream :: "istream \<Rightarrow> stream" where
  "plain_stream s = \<lparr>st_region = is_pages s, st_tx = itx_tx (is_tx s), st_rx = irx_rx (is_rx s),
     st_wire = map plain_frame (is_wire s), st_held = map (\<lambda>(p, m). (the (irp_page p), m)) (is_held s),
     st_sent = is_sent s, st_got = is_got s\<rparr>"

definition live_permits :: "istream \<Rightarrow> u32 list" where
  "live_permits s = map frame_permit (is_wire s) @ map (irp_permit_id \<circ> fst) (is_held s)"

definition issued_by :: "iss_pool \<Rightarrow> issued_owned_frame \<Rightarrow> bool" where
  "issued_by hp f \<longleftrightarrow> (\<exists>p. f = Issued_Page p \<and> if_pool_instance_id p = ip_instance_id hp)"

definition permits_inv :: "iss_pool \<Rightarrow> istream \<Rightarrow> bool" where
  "permits_inv hp s \<longleftrightarrow> (\<exists>pl. iss_inv hp (is_permits s) pl) \<and>
     itx_permits (is_tx s) = hp \<and> irx_permits (is_rx s) = hp \<and>
     (\<forall>f \<in> set (is_wire s). issued_by hp f) \<and>
     (\<forall>x \<in> set (is_held s). irp_permits (fst x) = hp \<and> \<not> irp_released (fst x) \<and> irp_page (fst x) \<noteq> None) \<and>
     distinct (live_permits s) \<and> leased_permits (is_permits s) = set (live_permits s)"

text \<open>A step with permits is the plain step, or it leaves the plain stream alone.\<close>

definition refines :: "rmp \<Rightarrow> stream_op \<Rightarrow> istream \<Rightarrow> istream \<Rightarrow> bool" where
  "refines M op s s' \<longleftrightarrow> plain_stream s' = plain_stream s \<or> stream_step M op (plain_stream s) = Some (plain_stream s')"

lemma istream_send:
  assumes M: "rmp_ok M" and plain: "stream_inv M h (plain_stream s) ms" and inv: "permits_inv hp s"
  shows "\<exists>s'. istream_step M (Send m) s = Some s' \<and> refines M (Send m) s s' \<and> permits_inv hp s'"
proof -
  from inv obtain pl where pl: "iss_inv hp (is_permits s) pl" and tx: "itx_permits (is_tx s) = hp"
    by (auto simp: permits_inv_def)
  from stream_send [OF M plain, of m] obtain r tx' fr where
    send: "send_message M (is_pages s) (itx_tx (is_tx s)) m = Some (r, tx', fr)"
    by (auto simp: plain_stream_def split: Option.bind_splits)
  from pl tx send show ?thesis
  proof (cases rule: issued_send_message_effect)
    case (starved q)
    then show ?thesis
      using inv by (auto simp: refines_def plain_stream_def permits_inv_def live_permits_def)
  next
    case (refused q pl')
    then show ?thesis
      using inv send by (auto simp: refines_def plain_stream_def permits_inv_def live_permits_def)
  next
    case (sent q x xs f)
    then show ?thesis
      using inv send by (auto simp: refines_def plain_stream_def permits_inv_def live_permits_def issued_by_def)
  qed
qed

lemma istream_accept:
  assumes M: "rmp_ok M" and plain: "stream_inv M h (plain_stream s) (m # ms)" and inv: "permits_inv hp s"
  obtains p fs d rx' where "is_wire s = Issued_Page p # fs"
    "rx' = (irx_rx (is_rx s))\<lparr>rx_next_transfer_id := nth_id (Suc (length (is_got s)))\<rparr>" "rx_pool rx' = h"
    "rx_accept M (is_pages s) (irx_rx (is_rx s)) (Frame_Page (if_inner p)) =
       Some (is_pages s, rx', Inr (Event_Page (received_of d m)))"
    "issued_accept M (is_pages s) (is_permits s) (is_rx s) (Issued_Page p) =
       Some (is_pages s, is_permits s, (is_rx s)\<lparr>irx_rx := rx'\<rparr>, Inr (Issue_Page \<lparr>irp_page = Some (received_of d m),
         irp_permits = hp, irp_permit_id = if_permit_id p, irp_released = False\<rparr>))"
    "received_payload h (is_pages s) (received_of d m) = Some (snd (snd m))"
    "(rp_kind (received_of d m), rp_flags (received_of d m), snd (snd m)) = m"
proof -
  from plain obtain fl where pool: "pool_inv h (is_pages s) fl" by (auto simp: stream_inv_def plain_stream_def)
  have rx: "rx_pool (irx_rx (is_rx s)) = h" "rx_phase_of (irx_rx (is_rx s)) = Rx_Phase_Idle"
    "rx_next_transfer_id (irx_rx (is_rx s)) = nth_id (length (is_got s))" "irx_permits (is_rx s) = hp"
    using plain inv by (auto simp: stream_inv_def ends_ok_def plain_stream_def permits_inv_def)
  from plain obtain f fs where wire: "is_wire s = f # fs"
    by (cases "is_wire s") (auto simp: stream_inv_def plain_stream_def)
  from inv wire obtain p where f: "f = Issued_Page p" "if_pool_instance_id p = ip_instance_id hp"
    by (auto simp: permits_inv_def issued_by_def)
  from plain wire f obtain d where p: "if_inner p = \<lparr>pf_transfer_id = nth_id (length (is_got s)), pf_descriptor = d\<rparr>"
    and holds: "page_holds M h (is_pages s) d m" by (auto simp: stream_inv_def plain_stream_def)
  let ?rx = "(irx_rx (is_rx s))\<lparr>rx_next_transfer_id := nth_id (Suc (length (is_got s)))\<rparr>"
  have acc: "rx_accept M (is_pages s) (irx_rx (is_rx s)) (Frame_Page (if_inner p)) =
      Some (is_pages s, ?rx, Inr (Event_Page (received_of d m)))"
    using rx_accept_page [OF M pool rx(1,2) holds] by (simp add: p rx(3) nth_id_Suc)
  have "(rp_kind (received_of d m), rp_flags (received_of d m), snd (snd m)) = m"
    by (cases m) (simp add: received_of_def)
  with that [OF wire [unfolded f(1)] refl _ acc _ received_payload_of [OF M pool holds]] show thesis
    using f(2) acc rx by (simp add: issued_accept_def Let_def)
qed

lemma istream_deliver:
  assumes M: "rmp_ok M" and plain: "stream_inv M h (plain_stream s) (m # ms)" and inv: "permits_inv hp s"
  shows "\<exists>s'. istream_step M Deliver s = Some s' \<and> refines M Deliver s s' \<and> permits_inv hp s'"
proof -
  from istream_accept [OF assms] obtain p fs d rx' where
    wire: "is_wire s = Issued_Page p # fs" and rx: "rx_pool rx' = h"
    and acc: "rx_accept M (is_pages s) (irx_rx (is_rx s)) (Frame_Page (if_inner p)) =
       Some (is_pages s, rx', Inr (Event_Page (received_of d m)))"
      "issued_accept M (is_pages s) (is_permits s) (is_rx s) (Issued_Page p) =
       Some (is_pages s, is_permits s, (is_rx s)\<lparr>irx_rx := rx'\<rparr>, Inr (Issue_Page \<lparr>irp_page = Some (received_of d m),
         irp_permits = hp, irp_permit_id = if_permit_id p, irp_released = False\<rparr>))"
    and pay: "received_payload h (is_pages s) (received_of d m) = Some (snd (snd m))"
      "(rp_kind (received_of d m), rp_flags (received_of d m), snd (snd m)) = m" .
  let ?s' = "s\<lparr>is_rx := (is_rx s)\<lparr>irx_rx := rx'\<rparr>, is_wire := fs,
    is_held := is_held s @ [(\<lparr>irp_page = Some (received_of d m), irp_permits = hp, irp_permit_id = if_permit_id p,
      irp_released = False\<rparr>, m)], is_got := is_got s @ [m]\<rparr>"
  have "istream_step M Deliver s = Some ?s'"
    using wire acc(2) pay rx by (simp add: issued_payload_def Let_def)
  moreover have "stream_step M Deliver (plain_stream s) = Some (plain_stream ?s')"
    using wire acc(1) pay rx by (simp add: plain_stream_def Let_def)
  moreover have "permits_inv hp ?s'"
    using inv wire by (auto simp: permits_inv_def live_permits_def issued_by_def)
  ultimately show ?thesis unfolding refines_def by blast
qed

lemma istream_release:
  assumes M: "rmp_ok M" and plain: "stream_inv M h (plain_stream s) ms" and inv: "permits_inv hp s"
    and i: "i < length (is_held s)"
  shows "\<exists>s'. istream_step M (Release_held i) s = Some s' \<and> refines M (Release_held i) s s' \<and> permits_inv hp s'"
proof -
  define x A B where "x = is_held s ! i" and "A = take i (is_held s)" and "B = drop (Suc i) (is_held s)"
  have held: "is_held s = A @ x # B"
    unfolding x_def A_def B_def using i by (rule id_take_nth_drop)
  let ?v = "irp_permit_id (fst x)"
  from inv obtain pl where pl: "iss_inv hp (is_permits s) pl" by (auto simp: permits_inv_def)
  have x: "irp_permits (fst x) = hp" "irp_page (fst x) \<noteq> None"
    using inv held by (auto simp: permits_inv_def)
  then obtain page where page: "irp_page (fst x) = Some page" by blast
  have "?v \<in> leased_permits (is_permits s)" using inv held by (auto simp: permits_inv_def live_permits_def)
  from iss_release_effect [OF pl this] obtain q where
    q: "iss_release hp (is_permits s) ?v = Some (q, Inr ())" "iss_inv hp q (?v # pl)"
      "leased_permits q = leased_permits (is_permits s) - {?v}" .
  have nth: "map (\<lambda>(p, m). (the (irp_page p), m)) (is_held s) ! i = (page, snd x)"
    using i page x_def by (simp add: case_prod_beta)
  from stream_release [OF M plain, of i] i obtain r res where
    rel: "received_release (rx_pool (irx_rx (is_rx s))) (is_pages s) page = Some (r, res)"
    by (auto simp: plain_stream_def nth simp del: nth_map split: Option.bind_splits)
  let ?s' = "s\<lparr>is_pages := r, is_permits := q, is_held := A @ B\<rparr>"
  have "istream_step M (Release_held i) s = Some ?s'"
    using i rel q(1) x(1) page
    by (simp add: issued_release_def issued_received_drop_def x_def [symmetric] A_def B_def)
  moreover have "stream_step M (Release_held i) (plain_stream s) = Some (plain_stream ?s')"
    using i rel by (simp add: plain_stream_def nth A_def B_def take_map drop_map del: nth_map)
  moreover have "permits_inv hp ?s'"
    using inv held q(2,3) by (auto simp: permits_inv_def live_permits_def)
  ultimately show ?thesis unfolding refines_def by blast
qed

lemma istream_step_ok:
  assumes M: "rmp_ok M" and plain: "stream_inv M h (plain_stream s) ms" and inv: "permits_inv hp s"
  shows "\<exists>s' ms'. istream_step M op s = Some s' \<and> stream_inv M h (plain_stream s') ms' \<and> permits_inv hp s'"
proof -
  have "\<exists>s'. istream_step M op s = Some s' \<and> refines M op s s' \<and> permits_inv hp s'"
  proof (cases op)
    case (Send m)
    with istream_send [OF assms] show ?thesis by blast
  next
    case Deliver
    show ?thesis
    proof (cases ms)
      case Nil
      with plain have "is_wire s = []" by (cases "is_wire s") (auto simp: stream_inv_def plain_stream_def)
      with Deliver inv show ?thesis by (auto simp: refines_def)
    next
      case (Cons m ms')
      with istream_deliver [OF M] plain inv Deliver show ?thesis by blast
    qed
  next
    case (Release_held i)
    with istream_release [OF assms, of i] inv show ?thesis
      by (cases "i < length (is_held s)") (auto simp: refines_def)
  qed
  then obtain s' where s': "istream_step M op s = Some s'" "refines M op s s'" "permits_inv hp s'" by blast
  from stream_step_ok [OF M plain, of op] s'(2) plain have "\<exists>ms'. stream_inv M h (plain_stream s') ms'"
    by (auto simp: refines_def)
  with s' show ?thesis by blast
qed

lemma istream_run_ok:
  assumes "rmp_ok M" and "stream_inv M h (plain_stream s) ms" and "permits_inv hp s"
  shows "\<exists>s' ms'. istream_run M ops s = Some s' \<and> stream_inv M h (plain_stream s') ms' \<and> permits_inv hp s'"
  using assms(2,3)
proof (induction ops arbitrary: s ms)
  case Nil
  then show ?case by auto
next
  case (Cons op ops)
  from istream_step_ok [OF assms(1) Cons.prems, of op] obtain s1 ms1 where
    "istream_step M op s = Some s1" "stream_inv M h (plain_stream s1) ms1" "permits_inv hp s1" by blast
  with Cons.IH show ?case by auto
qed

lemma live_permits_bound:
  assumes "permits_inv hp s"
  shows "card (leased_permits (is_permits s)) = length (is_wire s) + length (is_held s)"
    and "length (is_wire s) + length (is_held s) \<le> unat (ip_permit_count hp)"
proof -
  from assms obtain pl where pl: "iss_inv hp (is_permits s) pl"
    and set: "leased_permits (is_permits s) = set (live_permits s)" "distinct (live_permits s)"
    by (auto simp: permits_inv_def)
  have "card (leased_permits (is_permits s)) = length (live_permits s)" using set distinct_card by metis
  then show "card (leased_permits (is_permits s)) = length (is_wire s) + length (is_held s)"
    by (simp add: live_permits_def)
  with leased_permits_card [OF pl] show "length (is_wire s) + length (is_held s) \<le> unat (ip_permit_count hp)" by simp
qed

section \<open>Properties\<close>

text \<open>C20: Flow control holds for every run: from a fresh page pool and a fresh permit pool, any interleaving
  of sends, deliveries and releases runs without a panic; messages arrive in order, once each; never
  are more pages under way or held than there are permits; and exactly as many permits as pages are
  leased, so neither leaks.\<close>

theorem issued_stream_flow_control:
  assumes "rmp_ok M" and "pool_init_in_place base len cfg pid = Some (Inr (r, h))"
    and "tx_validate_page_size (ph_page_size h) = Inr ()"
    and "iss_init_in_place base' len' count iid = Some (Inr (q, hp))"
  shows "\<exists>s ms. istream_run M ops (istream_new h r hp q) = Some s \<and> is_sent s = is_got s @ ms \<and>
    length ms = length (is_wire s) \<and> length (is_wire s) + length (is_held s) \<le> unat count \<and>
    card (leased_permits (is_permits s)) = length (is_wire s) + length (is_held s) \<and>
    card (leased_set h (is_pages s)) = length (is_wire s) + length (is_held s)"
proof -
  note q = iss_init_inv [OF assms(4)]
  have count: "ip_permit_count hp = count" using iss_init_parts [OF assms(4)] by (metis iss_pool.select_convs(1))
  have "plain_stream (istream_new h r hp q) = stream_new h r"
    by (simp add: plain_stream_def istream_new_def stream_new_def)
  then have "stream_inv M h (plain_stream (istream_new h r hp q)) []"
    using stream_new_inv [OF assms(2,3)] by simp
  moreover have "permits_inv hp (istream_new h r hp q)"
    using q by (auto simp: permits_inv_def istream_new_def live_permits_def)
  ultimately obtain s ms where run: "istream_run M ops (istream_new h r hp q) = Some s"
    and inv: "stream_inv M h (plain_stream s) ms" "permits_inv hp s"
    using istream_run_ok [OF assms(1)] by blast
  have "length ms = length (is_wire s)" "is_sent s = is_got s @ ms"
    using inv(1) wire_ok_length [of M h "is_pages s" "length (is_got s)" "map plain_frame (is_wire s)" ms]
    by (auto simp: stream_inv_def ends_ok_def plain_stream_def)
  with run live_permits_bound [OF inv(2)] live_pages_card [OF inv(1)] count show ?thesis
    by (auto simp: plain_stream_def)
qed

theorem issued_stream_flow_control_witness:
  "\<exists>r h q hp s. pool_init_in_place 0 4096 \<lparr>cfg_page_size = 64, cfg_page_count = 2\<rparr> 7 = Some (Inr (r, h)) \<and>
     iss_init_in_place 0 4096 2 9 = Some (Inr (q, hp)) \<and>
     istream_run msgpack [Send (1, 0, [5]), Send (2, 0, []), Send (3, 0, [6]), Deliver, Release_held 0]
       (istream_new h r hp q) = Some s \<and> length (is_wire s) + length (is_held s) \<le> 2"
proof -
  from demo_pool obtain r h where
    init: "pool_init_in_place 0 4096 \<lparr>cfg_page_size = 64, cfg_page_count = 2\<rparr> 7 = Some (Inr (r, h))"
    and ps: "ph_page_size h = 64" by blast
  from demo_permits obtain q hp where permits: "iss_init_in_place 0 4096 2 9 = Some (Inr (q, hp))" by blast
  have "tx_validate_page_size (ph_page_size h) = Inr ()"
    by (simp add: ps tx_validate_page_size_def page_header_len_def max_payload_len_def)
  from issued_stream_flow_control [OF msgpack_ok init this permits] init permits show ?thesis by fastforce
qed

text \<open>C21: A sender that cannot begin a page loses nothing: on an idle sender \<open>begin\<close> fails only when there
  is no free permit or no free page, always with an error its caller may retry, and the permit it had
  taken for a page that was not there is back; on success one permit and one page have been leased.\<close>

theorem issued_begin_backpressure:
  assumes "iss_inv hp q pl" and "pool_inv h r fl" and "itx_permits itx = hp"
    and "tx_pool (itx_tx itx) = h" and "tx_sendable (itx_tx itx)"
  shows "\<exists>r' q' itx' res. issued_begin r q itx kind flags = Some (r', q', itx', res) \<and>
    (case res of
       Inl e \<Rightarrow> is_retryable_backpressure e \<and> (pl = [] \<or> fl = []) \<and> itx' = itx \<and>
         leased_permits q' = leased_permits q \<and> leased_set h r' = leased_set h r
     | Inr w \<Rightarrow> \<exists>x y. x \<notin> leased_permits q \<and> leased_permits q' = insert x (leased_permits q) \<and>
         y \<notin> leased_set h r \<and> leased_set h r' = insert y (leased_set h r))"
  using assms(1)
proof (cases rule: iss_try_acquire_effect)
  case (empty q')
  with assms(3) show ?thesis by (simp add: issued_begin_def)
next
  case (permit x xs q1)
  have tx: "tx_validate_page_size (ph_page_size (tx_pool (itx_tx itx))) = Inr ()" "tx_phase_of (itx_tx itx) = Phase_Idle"
    using assms(5) by (auto simp: tx_sendable_def tx_validate_page_size_def)
  from assms(2) show ?thesis
  proof (cases rule: acquire_effect)
    case (empty r')
    have "x \<in> leased_permits q1" using permit(4) by simp
    from iss_release_effect [OF permit(3) this] obtain q2 where
      "iss_release hp q1 x = Some (q2, Inr ())" "leased_permits q2 = leased_permits q1 - {x}" .
    moreover have "itx\<lparr>itx_tx := (itx_tx itx)\<lparr>tx_phase_of := Phase_Idle\<rparr>\<rparr> = itx" using tx(2) by simp
    ultimately show ?thesis
      using empty permit assms(3,4) tx
      by (simp add: issued_begin_def tx_begin_def enter_writing_def cancel_writer_def permit_drop_def)
  next
    case (page r' d ys)
    with permit assms(3,4) tx show ?thesis
      by (simp add: issued_begin_def tx_begin_def enter_writing_def) blast
  qed
qed

theorem issued_begin_backpressure_witness:
  "\<exists>h r hp q. pool_inv h r [1, 0] \<and> iss_inv hp q [1, 0] \<and>
     issued_begin r q \<lparr>itx_tx = page_tx_new h, itx_permits = hp\<rparr> 7 0 \<noteq> None"
proof -
  from demo_pool obtain r h where inv: "pool_inv h r [1, 0]" and ps: "ph_page_size h = 64" by blast
  from demo_permits obtain q hp where q: "iss_inv hp q [1, 0]" by blast
  have "tx_sendable (page_tx_new h)"
    by (simp add: tx_sendable_def page_tx_new_def ps page_header_len_def max_payload_len_def)
  with issued_begin_backpressure [OF q inv, of "\<lparr>itx_tx = page_tx_new h, itx_permits = hp\<rparr>" 7 0] q inv show ?thesis
    by (fastforce simp: page_tx_new_def)
qed

lemma received_page_new_effect:
  assumes inv: "pool_inv h r fl" and v: "valid_desc h r d Detached" and size: "page_header_len \<le> ph_page_size h"
  obtains (page) p where "received_page_new M h r d = Some (r, Inr p)"
  | (invalid) r' e where "received_page_new M h r d = Some (r', Inl (Rx_InvalidPage e))"
      "leased_set h r' = leased_set h r - {pd_page_id d}"
proof -
  have "validate_detached_descriptor h r d = Some (Inr (unat (pd_page_id d)))"
    using validate_detached_iff(1) [OF inv] v by blast
  then have bytes: "pool_page_bytes h r d = Some (Inr (page_slice h r (unat (pd_page_id d))))"
    by (simp add: pool_page_bytes_def)
  have len: "\<not> length (page_slice h r (unat (pd_page_id d))) < page_header_len"
    using v length_page_slice [OF inv] size by (simp add: valid_desc_def)
  from release_effect [OF inv v] obtain r' where
    r': "pool_release h r d = Some (r', Inr ())" "leased_set h r' = leased_set h r - {pd_page_id d}" .
  show thesis
  proof (cases "decode_page_header M (take page_header_len (page_slice h r (unat (pd_page_id d))))")
    case (Inl e)
    with bytes len r' invalid show thesis by (simp add: received_page_new_def)
  next
    case (Inr hdr)
    with bytes len r' invalid page show thesis
      by (cases "length (page_slice h r (unat (pd_page_id d))) - page_header_len < unat (hdr_payload_len hdr)")
        (simp_all add: received_page_new_def Let_def)
  qed
qed

text \<open>C22: A page and its permit share one fate: when a receiver is given the frame of a page and a permit
  that are both leased, in whatever order and for whatever pool instance, both stay leased unless the page's
  header is invalid; then the page and the permit have both been given back.\<close>

theorem issued_accept_shares_fate:
  assumes "iss_inv hp q pl" and "pool_inv h r fl" and "irx_permits irx = hp" and "rx_pool (irx_rx irx) = h"
    and "page_header_len \<le> ph_page_size h"
    and "valid_desc h r (pf_descriptor (if_inner f)) Detached" and "if_permit_id f \<in> leased_permits q"
  shows "\<exists>r' q' irx' res. issued_accept M r q irx (Issued_Page f) = Some (r', q', irx', res) \<and>
    (if \<exists>e. res = Inl (Irx_Rx (Rx_InvalidPage e))
     then leased_set h r' = leased_set h r - {pd_page_id (pf_descriptor (if_inner f))} \<and>
       leased_permits q' = leased_permits q - {if_permit_id f}
     else leased_set h r' = leased_set h r \<and> leased_permits q' = leased_permits q)"
proof (cases "if_pool_instance_id f \<noteq> ip_instance_id hp \<or> rx_phase_of (irx_rx irx) \<noteq> Rx_Phase_Idle \<or>
    pf_transfer_id (if_inner f) \<noteq> rx_next_transfer_id (irx_rx irx)")
  case True
  with assms(3) show ?thesis
    by (cases "rx_phase_of (irx_rx irx)")
      (auto simp: issued_accept_def rx_accept_def begin_accept_def leave_accept_def Let_def)
next
  case False
  from assms(2,6,5) show ?thesis
  proof (cases rule: received_page_new_effect [where M = M])
    case (page p)
    with False assms(3,4) show ?thesis
      by (auto simp: issued_accept_def rx_accept_def begin_accept_def leave_accept_def advance_transfer_id_def Let_def)
  next
    case (invalid r' e)
    from iss_release_effect [OF assms(1,7)] obtain q' where
      "iss_release hp q (if_permit_id f) = Some (q', Inr ())" "leased_permits q' = leased_permits q - {if_permit_id f}" .
    with invalid False assms(3,4) show ?thesis
      by (auto simp: issued_accept_def rx_accept_def begin_accept_def leave_accept_def Let_def)
  qed
qed

theorem issued_accept_shares_fate_witness:
  "\<exists>h r hp q f fl pl. pool_inv h r fl \<and> iss_inv hp q pl \<and> if_permit_id f \<in> leased_permits q \<and>
     issued_accept msgpack r q \<lparr>irx_rx = page_rx_new h, irx_permits = hp\<rparr> (Issued_Page f) \<noteq> None"
proof -
  from demo_pool obtain r h where inv: "pool_inv h r [1, 0]" and ps: "ph_page_size h = 64" by blast
  have tx: "tx_pool (page_tx_new h) = h" "tx_sendable (page_tx_new h)"
    by (simp_all add: tx_sendable_def page_tx_new_def ps page_header_len_def max_payload_len_def)
  from msgpack_ok inv tx obtain r1 d xs where r1: "pool_inv h r1 xs" "page_holds msgpack h r1 d (7, 0, [])"
    by (rule send_message_effect [where kind = 7 and flags = 0 and payload = "[]"])
      (auto simp: ps page_header_len_def)
  from demo_permits obtain q0 hp where q0: "iss_inv hp q0 [1, 0]" by blast
  then obtain q x ys where q: "iss_inv hp q ys" "x \<in> leased_permits q"
    by (cases rule: iss_try_acquire_effect) auto
  let ?f = "\<lparr>if_pool_instance_id = ip_instance_id hp, if_permit_id = x,
    if_inner = \<lparr>pf_transfer_id = 1, pf_descriptor = d\<rparr>\<rparr>"
  have "issued_accept msgpack r1 q \<lparr>irx_rx = page_rx_new h, irx_permits = hp\<rparr> (Issued_Page ?f) \<noteq> None"
    using issued_accept_shares_fate [OF q(1) r1(1), of "\<lparr>irx_rx = page_rx_new h, irx_permits = hp\<rparr>" ?f msgpack]
      r1(2) q(2) by (auto simp: page_rx_new_def ps page_header_len_def page_holds_def)
  moreover have "if_permit_id ?f \<in> leased_permits q" using q(2) by simp
  ultimately show ?thesis using r1(1) q(1) by blast
qed

end
