(* ===== verification/Plan_Flow.thy ===== *)
theory Plan_Flow
  imports Plan_Codec Issuance_Stream
begin

text \<open>
  The two roles of a plan transfer, \<^verbatim>\<open>src/page/plan_flow/src/backend.rs\<close> and \<^verbatim>\<open>worker.rs\<close>, with their state machines
  (\<^verbatim>\<open>fsm.rs\<close>). The backend encodes a plan straight into issued pages, the worker decodes it from the pages it
  accepts. The page region and the permit region are passed explicitly; \<open>None\<close> is a panic.
\<close>

section \<open>types.rs, fsm.rs and error.rs\<close>

record flow_id =
  fl_session_epoch :: u64
  fl_plan_id :: u64

record plan_open =
  po_flow :: flow_id
  po_page_kind :: u16
  po_page_flags :: u16

datatype backend_plan_event = Bpv_Open | Bpv_EmitPage | Bpv_EmitClose | Bpv_EmitError | Bpv_Fail | Bpv_Close

datatype backend_plan_state = Bps_Closed | Bps_Opened | Bps_Streaming | Bps_SuccessTerminal | Bps_Failed | Bps_Exhausted

definition backend_plan_flow :: "(backend_plan_state \<times> (backend_plan_event \<times> backend_plan_state) list) list" where
  "backend_plan_flow = [
     (Bps_Closed, [(Bpv_Open, Bps_Opened)]),
     (Bps_Opened, [(Bpv_EmitPage, Bps_Streaming), (Bpv_EmitClose, Bps_SuccessTerminal), (Bpv_EmitError, Bps_Failed),
        (Bpv_Fail, Bps_Failed)]),
     (Bps_Streaming, [(Bpv_EmitPage, Bps_Streaming), (Bpv_EmitClose, Bps_SuccessTerminal),
        (Bpv_EmitError, Bps_Failed), (Bpv_Fail, Bps_Failed)]),
     (Bps_SuccessTerminal, [(Bpv_Close, Bps_Exhausted)]),
     (Bps_Failed, [(Bpv_Close, Bps_Closed)])]"

datatype worker_plan_event = Wpv_Open | Wpv_AcceptPage | Wpv_AcceptClose | Wpv_AcceptSenderError | Wpv_Fail | Wpv_Close

datatype worker_plan_state = Wps_Closed | Wps_Opened | Wps_Receiving | Wps_SuccessTerminal | Wps_Failed

definition worker_plan_flow :: "(worker_plan_state \<times> (worker_plan_event \<times> worker_plan_state) list) list" where
  "worker_plan_flow = [
     (Wps_Closed, [(Wpv_Open, Wps_Opened)]),
     (Wps_Opened, [(Wpv_AcceptPage, Wps_Receiving), (Wpv_AcceptClose, Wps_SuccessTerminal),
        (Wpv_AcceptSenderError, Wps_Failed), (Wpv_Fail, Wps_Failed)]),
     (Wps_Receiving, [(Wpv_AcceptPage, Wps_Receiving), (Wpv_AcceptClose, Wps_SuccessTerminal),
        (Wpv_AcceptSenderError, Wps_Failed), (Wpv_Fail, Wps_Failed)]),
     (Wps_SuccessTerminal, [(Wpv_Close, Wps_Closed)]),
     (Wps_Failed, [(Wpv_Close, Wps_Closed)])]"

datatype 'e backend_plan_error =
    Bpe_InvalidState backend_plan_state
  | Bpe_EncoderInit "'e plan_encode_error"
  | Bpe_StateMachine

datatype worker_plan_error =
    Wpe_InvalidState worker_plan_state
  | Wpe_UnexpectedFlow flow_id flow_id
  | Wpe_Ingress issued_rx_error
  | Wpe_StateMachine

section \<open>backend.rs\<close>

datatype 'e backend_message =
    Bmsg_Close issued_tx_error
  | Bmsg_Begin issued_tx_error
  | Bmsg_Encode "'e plan_encode_error"
  | Bmsg_NoProgress
  | Bmsg_Finish issued_tx_error

datatype 'e backend_plan_step =
    Bstep_OutboundPage flow_id issued_outbound
  | Bstep_CloseFrame flow_id issued_owned_frame
  | Bstep_Blocked flow_id
  | Bstep_LogicalError flow_id "'e backend_message"

record ('d, 'm, 'e) backend_role =
  bp_state :: backend_plan_state
  bp_tx :: issued_tx
  bp_runtime :: "(plan_open \<times> ('d, 'm, 'e) encode_session) option"

definition backend_plan_new :: "issued_tx \<Rightarrow> ('d, 'm, 'e) backend_role" where
  "backend_plan_new tx = \<lparr>bp_state = Bps_Closed, bp_tx = tx, bp_runtime = None\<rparr>"

definition consume_backend_event ::
  "('d, 'm, 'e) backend_role \<Rightarrow> backend_plan_event \<Rightarrow> ('d, 'm, 'e) backend_role \<times> ('e backend_plan_error + unit)" where
  "consume_backend_event b ev = (case fsm_next backend_plan_flow (bp_state b) ev of
     None \<Rightarrow> (b, Inl Bpe_StateMachine)
   | Some st \<Rightarrow> (b\<lparr>bp_state := st\<rparr>, Inr ()))"

definition backend_plan_open ::
  "mpk \<Rightarrow> ('d, 'm, 'e) df \<Rightarrow> ('d, 'm, 'e) backend_role \<Rightarrow> plan_open \<Rightarrow> 'd lplan \<Rightarrow>
     ('d, 'm, 'e) backend_role \<times> ('e backend_plan_error + unit)" where
  "backend_plan_open K D b descr plan =
     (if bp_state b \<noteq> Bps_Closed then (b, Inl (Bpe_InvalidState (bp_state b)))
      else case encode_session_new K D plan of
          Inl e \<Rightarrow> (b, Inl (Bpe_EncoderInit e))
        | Inr encoder \<Rightarrow> (case consume_backend_event b Bpv_Open of
            (b1, Inl e) \<Rightarrow> (b1, Inl e)
          | (b1, Inr _) \<Rightarrow> (b1\<lparr>bp_runtime := Some (descr, encoder)\<rparr>, Inr ())))"

text \<open>The slice \<open>payload_mut\<close> hands out.\<close>

definition writer_payload :: "pool_region \<Rightarrow> page_writer \<Rightarrow> bytes option" where
  "writer_payload r w = do {
     capacity \<leftarrow> writer_payload_capacity r w;
     lease \<leftarrow> pw_lease w;
     if length (lease_bytes r lease) < page_header_len + capacity then None
     else Some (take capacity (drop page_header_len (lease_bytes r lease)))
   }"

text \<open>
  An event of the machine and then the result of the step. In the two states a step runs in the machine accepts
  every event of a step, so no result is ever lost to a refused event.
\<close>

definition backend_emit ::
  "('d, 'm, 'e) backend_role \<Rightarrow> backend_plan_event \<Rightarrow> 'e backend_plan_step \<Rightarrow>
     ('d, 'm, 'e) backend_role \<times> ('e backend_plan_error + 'e backend_plan_step)" where
  "backend_emit b ev step = (case consume_backend_event b ev of
     (b1, Inl e) \<Rightarrow> (b1, Inl e) | (b1, Inr _) \<Rightarrow> (b1, Inr step))"

definition backend_close_step ::
  "('d, 'm, 'e) backend_role \<Rightarrow> flow_id \<Rightarrow>
     (('d, 'm, 'e) backend_role \<times> ('e backend_plan_error + 'e backend_plan_step)) option" where
  "backend_close_step b flow = do {
     (tx1, res) \<leftarrow> issued_close (bp_tx b);
     let b1 = b\<lparr>bp_tx := tx1\<rparr>;
     Some (case res of
        Inr frame \<Rightarrow> backend_emit b1 Bpv_EmitClose (Bstep_CloseFrame flow frame)
      | Inl (Itx_Tx Tx_Busy) \<Rightarrow> (b1, Inr (Bstep_Blocked flow))
      | Inl err \<Rightarrow> backend_emit b1 Bpv_EmitError (Bstep_LogicalError flow (Bmsg_Close err)))
   }"

type_synonym ('d, 'm, 'e) backend_result =
  "(pool_region \<times> iss_region \<times> ('d, 'm, 'e) backend_role \<times> ('e backend_plan_error + 'e backend_plan_step)) option"

definition backend_page_step ::
  "rmp \<Rightarrow> mpk \<Rightarrow> ('d, 'm, 'e) df \<Rightarrow> pool_region \<Rightarrow> iss_region \<Rightarrow> ('d, 'm, 'e) backend_role \<Rightarrow> plan_open \<Rightarrow>
     ('d, 'm, 'e) encode_session \<Rightarrow> ('d, 'm, 'e) backend_result" where
  "backend_page_step M K D r q b descr encoder = (let flow = po_flow descr in do {
     (r1, q1, tx1, begun) \<leftarrow> issued_begin r q (bp_tx b) (po_page_kind descr) (po_page_flags descr);
     let b1 = b\<lparr>bp_tx := tx1\<rparr>;
     (case begun of
        Inl err \<Rightarrow> Some (r1, q1, if is_retryable_backpressure err then (b1, Inr (Bstep_Blocked flow))
          else backend_emit b1 Bpv_EmitError (Bstep_LogicalError flow (Bmsg_Begin err)))
      | Inr writer \<Rightarrow> do {
          out \<leftarrow> writer_payload r1 (iw_writer writer);
          (encoder1, out1, progress) \<leftarrow> write_chunk K D encoder out;
          r2 \<leftarrow> writer_fill_payload r1 (iw_writer writer) out1;
          let b2 = b1\<lparr>bp_runtime := Some (descr, encoder1)\<rparr>;
          let drop_writer = (\<lambda>msg. do {
            (r3, q3, tx3) \<leftarrow> issued_writer_drop r2 q1 (bp_tx b2) writer;
            Some (r3, q3, backend_emit (b2\<lparr>bp_tx := tx3\<rparr>) Bpv_EmitError (Bstep_LogicalError flow msg)) });
          (case progress of
             Inl err \<Rightarrow> drop_writer (Bmsg_Encode err)
           | Inr p \<Rightarrow>
               let written = (case p of Enc_NeedMoreOutput n \<Rightarrow> n | Enc_Finished n \<Rightarrow> n) in
               if written = 0 then drop_writer Bmsg_NoProgress
               else do {
                 (r3, q3, tx3, fin) \<leftarrow> issued_finish_with_payload_len M r2 q1 (bp_tx b2) writer written;
                 Some (r3, q3, case fin of
                    Inr outbound \<Rightarrow> backend_emit (b2\<lparr>bp_tx := tx3\<rparr>) Bpv_EmitPage (Bstep_OutboundPage flow outbound)
                  | Inl err \<Rightarrow>
                      backend_emit (b2\<lparr>bp_tx := tx3\<rparr>) Bpv_EmitError (Bstep_LogicalError flow (Bmsg_Finish err)))
               })
        })
   })"

definition backend_step ::
  "rmp \<Rightarrow> mpk \<Rightarrow> ('d, 'm, 'e) df \<Rightarrow> pool_region \<Rightarrow> iss_region \<Rightarrow> ('d, 'm, 'e) backend_role \<Rightarrow>
     ('d, 'm, 'e) backend_result" where
  "backend_step M K D r q b =
     (if bp_state b \<noteq> Bps_Opened \<and> bp_state b \<noteq> Bps_Streaming then Some (r, q, b, Inl (Bpe_InvalidState (bp_state b)))
      else case bp_runtime b of
          None \<Rightarrow> None
        | Some (descr, encoder) \<Rightarrow>
            if es_finished encoder then map_option (\<lambda>x. (r, q, x)) (backend_close_step b (po_flow descr))
            else backend_page_step M K D r q b descr encoder)"

definition backend_plan_close ::
  "('d, 'm, 'e) backend_role \<Rightarrow> ('d, 'm, 'e) backend_role \<times> ('e backend_plan_error + unit)" where
  "backend_plan_close b =
     (if bp_state b \<noteq> Bps_SuccessTerminal \<and> bp_state b \<noteq> Bps_Failed then (b, Inl (Bpe_InvalidState (bp_state b)))
      else consume_backend_event (b\<lparr>bp_runtime := None\<rparr>) Bpv_Close)"

definition backend_plan_abort :: "('d, 'm, 'e) backend_role \<Rightarrow> ('d, 'm, 'e) backend_role" where
  "backend_plan_abort b = b\<lparr>bp_runtime := None,
     bp_state := (if bp_state b = Bps_SuccessTerminal \<or> bp_state b = Bps_Exhausted then Bps_Exhausted else Bps_Closed)\<rparr>"

section \<open>worker.rs\<close>

datatype 'e worker_message =
    Wmsg_Accept issued_rx_error
  | Wmsg_Envelope u16 u16
  | Wmsg_Decode "'e plan_decode_error"
  | Wmsg_FinishedEarly
  | Wmsg_MoreAfterClose
  | Wmsg_Sender

datatype ('d, 'e) worker_step =
    Wstep_Idle
  | Wstep_Plan flow_id "'d lplan"
  | Wstep_LogicalError flow_id "'e worker_message"

record ('d, 'm, 'e) worker_role =
  wp_state :: worker_plan_state
  wp_runtime :: "(plan_open \<times> ('d, 'm, 'e) decode_session) option"

definition worker_plan_new :: "('d, 'm, 'e) worker_role" where
  "worker_plan_new = \<lparr>wp_state = Wps_Closed, wp_runtime = None\<rparr>"

definition consume_worker_event ::
  "('d, 'm, 'e) worker_role \<Rightarrow> worker_plan_event \<Rightarrow> ('d, 'm, 'e) worker_role \<times> (worker_plan_error + unit)" where
  "consume_worker_event w ev = (case fsm_next worker_plan_flow (wp_state w) ev of
     None \<Rightarrow> (w, Inl Wpe_StateMachine)
   | Some st \<Rightarrow> (w\<lparr>wp_state := st\<rparr>, Inr ()))"

definition worker_plan_open ::
  "('d, 'm, 'e) worker_role \<Rightarrow> plan_open \<Rightarrow> ('d, 'm, 'e) worker_role \<times> (worker_plan_error + unit)" where
  "worker_plan_open w descr =
     (if wp_state w \<noteq> Wps_Closed then (w, Inl (Wpe_InvalidState (wp_state w)))
      else case consume_worker_event w Wpv_Open of
          (w1, Inl e) \<Rightarrow> (w1, Inl e)
        | (w1, Inr _) \<Rightarrow> (w1\<lparr>wp_runtime := Some (descr, decode_session_new)\<rparr>, Inr ()))"

definition worker_emit ::
  "('d, 'm, 'e) worker_role \<Rightarrow> worker_plan_event \<Rightarrow> ('d, 'e) worker_step \<Rightarrow>
     ('d, 'm, 'e) worker_role \<times> (worker_plan_error + ('d, 'e) worker_step)" where
  "worker_emit w ev step = (case consume_worker_event w ev of
     (w1, Inl e) \<Rightarrow> (w1, Inl e) | (w1, Inr _) \<Rightarrow> (w1, Inr step))"

definition fail_runtime ::
  "('d, 'm, 'e) worker_role \<Rightarrow> flow_id \<Rightarrow> 'e worker_message \<Rightarrow>
     ('d, 'm, 'e) worker_role \<times> (worker_plan_error + ('d, 'e) worker_step)" where
  "fail_runtime w flow msg = worker_emit w Wpv_Fail (Wstep_LogicalError flow msg)"

definition is_ingress_error :: "issued_rx_error \<Rightarrow> bool" where
  "is_ingress_error err = (case err of
     Irx_PermitPoolMismatch _ _ \<Rightarrow> True
   | Irx_Rx e \<Rightarrow> (case e of
        Rx_Busy \<Rightarrow> True | Rx_Closed \<Rightarrow> True | Rx_Access _ \<Rightarrow> True | Rx_Release _ \<Rightarrow> True
      | Rx_UnexpectedTransferId _ _ \<Rightarrow> True | Rx_InvalidPage _ \<Rightarrow> False | Rx_Decode _ \<Rightarrow> False)
   | Irx_PermitRelease _ \<Rightarrow> False
   | Irx_RxAndPermitRelease _ _ \<Rightarrow> False)"

definition drain_rejected_page_frame ::
  "rmp \<Rightarrow> pool_region \<Rightarrow> iss_region \<Rightarrow> issued_rx \<Rightarrow> issued_owned_frame \<Rightarrow>
     (pool_region \<times> iss_region \<times> issued_rx \<times> (worker_plan_error + unit)) option" where
  "drain_rejected_page_frame M r q rx frame = (case frame of
     Issued_Close _ \<Rightarrow> Some (r, q, rx, Inr ())
   | Issued_Page _ \<Rightarrow> do {
       (r1, q1, rx1, res) \<leftarrow> issued_accept M r q rx frame;
       (case res of
          Inr (Issue_Page page) \<Rightarrow> do {
            (r2, q2) \<leftarrow> issued_received_drop (rx_pool (irx_rx rx1)) r1 q1 page;
            Some (r2, q2, rx1, Inr ())
          }
        | Inr Issue_Closed \<Rightarrow> Some (r1, q1, rx1, Inr ())
        | Inl err \<Rightarrow> Some (r1, q1, rx1, Inl (Wpe_Ingress err)))
     })"

definition validate_active_flow :: "('d, 'm, 'e) worker_role \<Rightarrow> flow_id \<Rightarrow> (worker_plan_error + unit) option" where
  "validate_active_flow w flow = do {
     (descr, _) \<leftarrow> wp_runtime w;
     Some (if po_flow descr \<noteq> flow then Inl (Wpe_UnexpectedFlow (po_flow descr) flow) else Inr ())
   }"

type_synonym ('d, 'm, 'e) worker_result =
  "(pool_region \<times> iss_region \<times> issued_rx \<times> ('d, 'm, 'e) worker_role \<times> (worker_plan_error + ('d, 'e) worker_step)) option"

definition accept_page ::
  "mpk \<Rightarrow> ('d, 'm, 'e) df \<Rightarrow> pool_region \<Rightarrow> iss_region \<Rightarrow> issued_rx \<Rightarrow> ('d, 'm, 'e) worker_role \<Rightarrow> flow_id \<Rightarrow>
     issued_received \<Rightarrow> ('d, 'm, 'e) worker_result" where
  "accept_page K D r q rx w flow page = do {
     (descr, decoder) \<leftarrow> wp_runtime w;
     inner \<leftarrow> irp_page page;
     let pool = rx_pool (irx_rx rx);
     if rp_kind inner \<noteq> po_page_kind descr \<or> rp_flags inner \<noteq> po_page_flags descr then do {
       (r1, q1) \<leftarrow> issued_received_drop pool r q page;
       Some (r1, q1, rx, fail_runtime w flow (Wmsg_Envelope (rp_kind inner) (rp_flags inner)))
     }
     else do {
       payload \<leftarrow> issued_payload pool r page;
       (decoder1, result) \<leftarrow> push_chunk K D decoder payload;
       (r1, q1) \<leftarrow> issued_received_drop pool r q page;
       let w1 = w\<lparr>wp_runtime := Some (descr, decoder1)\<rparr>;
       Some (r1, q1, rx, case result of
          Inr Dec_NeedMoreInput \<Rightarrow> worker_emit w1 Wpv_AcceptPage Wstep_Idle
        | Inr (Dec_Finished _) \<Rightarrow> fail_runtime w1 flow Wmsg_FinishedEarly
        | Inl err \<Rightarrow> fail_runtime w1 flow (Wmsg_Decode err))
     }
   }"

definition accept_close ::
  "mpk \<Rightarrow> ('d, 'm, 'e) df \<Rightarrow> ('d, 'm, 'e) worker_role \<Rightarrow> flow_id \<Rightarrow>
     (('d, 'm, 'e) worker_role \<times> (worker_plan_error + ('d, 'e) worker_step)) option" where
  "accept_close K D w flow = do {
     (descr, decoder) \<leftarrow> wp_runtime w;
     (decoder1, result) \<leftarrow> finish_input K D decoder;
     let w1 = w\<lparr>wp_runtime := Some (descr, decoder1)\<rparr>;
     Some (case result of
        Inr (Dec_Finished plan) \<Rightarrow> worker_emit w1 Wpv_AcceptClose (Wstep_Plan flow plan)
      | Inr Dec_NeedMoreInput \<Rightarrow> fail_runtime w1 flow Wmsg_MoreAfterClose
      | Inl err \<Rightarrow> fail_runtime w1 flow (Wmsg_Decode err))
   }"

definition accept_frame ::
  "rmp \<Rightarrow> mpk \<Rightarrow> ('d, 'm, 'e) df \<Rightarrow> pool_region \<Rightarrow> iss_region \<Rightarrow> issued_rx \<Rightarrow> ('d, 'm, 'e) worker_role \<Rightarrow> flow_id \<Rightarrow>
     issued_owned_frame \<Rightarrow> ('d, 'm, 'e) worker_result" where
  "accept_frame M K D r q rx w flow frame =
     (let reject = (\<lambda>err. do {
            (r1, q1, rx1, res) \<leftarrow> drain_rejected_page_frame M r q rx frame;
            Some (r1, q1, rx1, w, case res of Inl e \<Rightarrow> Inl e | Inr _ \<Rightarrow> Inl err) })
      in if wp_state w \<noteq> Wps_Opened \<and> wp_state w \<noteq> Wps_Receiving then reject (Wpe_InvalidState (wp_state w))
      else do {
        valid \<leftarrow> validate_active_flow w flow;
        (case valid of
           Inl err \<Rightarrow> reject err
         | Inr _ \<Rightarrow> do {
             (r1, q1, rx1, res) \<leftarrow> issued_accept M r q rx frame;
             (case res of
                Inr (Issue_Page page) \<Rightarrow> accept_page K D r1 q1 rx1 w flow page
              | Inr Issue_Closed \<Rightarrow> do { x \<leftarrow> accept_close K D w flow; Some (r1, q1, rx1, x) }
              | Inl err \<Rightarrow> Some (r1, q1, rx1, if is_ingress_error err then (w, Inl (Wpe_Ingress err))
                  else fail_runtime w flow (Wmsg_Accept err)))
           })
      })"

definition accept_sender_error ::
  "('d, 'm, 'e) worker_role \<Rightarrow> flow_id \<Rightarrow>
     (('d, 'm, 'e) worker_role \<times> (worker_plan_error + ('d, 'e) worker_step)) option" where
  "accept_sender_error w flow =
     (if wp_state w \<noteq> Wps_Opened \<and> wp_state w \<noteq> Wps_Receiving then Some (w, Inl (Wpe_InvalidState (wp_state w)))
      else do {
        valid \<leftarrow> validate_active_flow w flow;
        Some (case valid of
           Inl err \<Rightarrow> (w, Inl err)
         | Inr _ \<Rightarrow> worker_emit w Wpv_AcceptSenderError (Wstep_LogicalError flow Wmsg_Sender))
      })"

definition worker_plan_close ::
  "('d, 'm, 'e) worker_role \<Rightarrow> ('d, 'm, 'e) worker_role \<times> (worker_plan_error + unit)" where
  "worker_plan_close w =
     (if wp_state w \<noteq> Wps_SuccessTerminal \<and> wp_state w \<noteq> Wps_Failed then (w, Inl (Wpe_InvalidState (wp_state w)))
      else consume_worker_event (w\<lparr>wp_runtime := None\<rparr>) Wpv_Close)"

definition worker_plan_abort :: "('d, 'm, 'e) worker_role \<Rightarrow> ('d, 'm, 'e) worker_role" where
  "worker_plan_abort w = w\<lparr>wp_runtime := None, wp_state := Wps_Closed\<rparr>"

end
