(* ===== verification/Plan_Encode.thy ===== *)
theory Plan_Encode
  imports Plan_Codec
begin

text \<open>
  The encoder session: the window of the overlapping sink is a slice of the whole encoding, and whatever
  the sizes of the slices a caller offers, the session writes the items of the envelope one after another.
\<close>

section \<open>The sinks\<close>

definition window :: "nat \<Rightarrow> nat \<Rightarrow> bytes \<Rightarrow> bytes" where
  "window skip n bs = take n (drop skip bs)"

lemma observe_bytes_window:
  fixes out c src :: bytes and skip :: nat
  defines "n \<equiv> length out"
  shows "observe_bytes skip (copy_at out 0 (window skip n c), length c, length (window skip n c)) src =
    (copy_at out 0 (window skip n (c @ src)), length (c @ src), length (window skip n (c @ src)))"
proof -
  let ?w = "window skip n c" and ?v = "take (n - (length c - skip)) (drop (skip - length c) src)"
  have app: "window skip n (c @ src) = ?w @ ?v" by (simp add: window_def)
  have lw: "length ?w = min n (length c - skip)" by (simp add: window_def)
  have lout: "length (copy_at out 0 ?w) = n" using lw by (simp add: n_def)
  have ext: "copy_at (copy_at out 0 ?w) (length ?w) ?v = copy_at out 0 (?w @ ?v)"
    by (simp add: copy_at_def add.commute)
  show ?thesis
  proof (cases "length c + length src \<le> skip \<or> skip + n \<le> length c \<or> n = 0 \<or> src = []")
    case True
    then have "?v = []" by auto
    with True show ?thesis
      unfolding observe_bytes_def app by (auto simp: lout Let_def)
  next
    case False
    let ?cs = "skip - length c" and ?ce = "min (length src) (skip + n - length c)"
    have a: "length src \<noteq> 0" "\<not> length c + length src \<le> skip" "\<not> skip + n \<le> length c" "n \<noteq> 0"
      using False by auto
    then have ce: "\<not> ?ce \<le> ?cs" by linarith
    have dst: "max (length c) skip - skip = length ?w" using a lw by linarith
    have n: "skip + n - length c - ?cs = n - (length c - skip)" using a by linarith
    then have v: "take (?ce - ?cs) (drop ?cs src) = ?v" by (simp add: min_def)
    have "length ?v = ?ce - ?cs" using a by (simp only: length_take length_drop)
    with False dst v ext show ?thesis
      unfolding observe_bytes_def app by (simp add: lout Let_def ce)
  qed
qed

lemma observe_all_window:
  "foldl (observe_bytes skip) (out, 0, 0) ps =
     (copy_at out 0 (window skip (length out) (concat ps)), length (concat ps),
      length (window skip (length out) (concat ps)))"
proof (induction ps rule: rev_induct)
  case Nil
  then show ?case by (simp add: window_def copy_at_def)
next
  case (snoc src ps)
  then show ?case using observe_bytes_window [of skip out "concat ps" src] by simp
qed

lemma encoded_len_with_concat: "encoded_len_with (ps, Inr ()) = Inr (length (concat ps))"
proof -
  have "fold (\<lambda>src len. len + length src) ps n = n + length (concat ps)" for n
    by (induction ps arbitrary: n) simp_all
  then show ?thesis by (simp add: encoded_len_with_def)
qed

section \<open>The items of a session\<close>

text \<open>The bytes of an item, and the items a session has still to write.\<close>

definition item_bytes ::
  "mpk \<Rightarrow> ('d, 'm, 'e) df \<Rightarrow> ('d, 'm, 'e) encode_session \<Rightarrow> item_kind \<Rightarrow> bytes" where
  "item_bytes K D s kind = concat (fst (the (item_emit K D s kind)))"

definition items_from :: "nat \<Rightarrow> nat \<Rightarrow> item_kind list" where
  "items_from i n = map Item_ScanSpec [i..<n] @ [Item_LogicalPlanBinLen, Item_LogicalPlanBin]"

fun items_left :: "encode_state \<Rightarrow> nat \<Rightarrow> nat \<Rightarrow> item_kind list" where
  "items_left Enc_Start i n =
     [Item_EnvelopeArrayLen, Item_Magic, Item_Version, Item_ScanSpecsArrayLen] @ items_from 0 n"
| "items_left Enc_EnvelopeArrayLen i n =
     [Item_EnvelopeArrayLen, Item_Magic, Item_Version, Item_ScanSpecsArrayLen] @ items_from 0 n"
| "items_left Enc_Magic i n = [Item_Magic, Item_Version, Item_ScanSpecsArrayLen] @ items_from 0 n"
| "items_left Enc_Version i n = [Item_Version, Item_ScanSpecsArrayLen] @ items_from 0 n"
| "items_left Enc_ScanSpecsArrayLen i n = Item_ScanSpecsArrayLen # items_from 0 n"
| "items_left Enc_ScanSpecs i n = items_from i n"
| "items_left Enc_LogicalPlanBinLen i n = [Item_LogicalPlanBinLen, Item_LogicalPlanBin]"
| "items_left Enc_LogicalPlanBin i n = [Item_LogicalPlanBin]"
| "items_left Enc_Done i n = []"
| "items_left Enc_Failed i n = []"

definition session_items :: "('d, 'm, 'e) encode_session \<Rightarrow> item_kind list" where
  "session_items s = items_left (es_state s) (es_spec_index s) (length (es_specs s))"

definition items_bytes ::
  "mpk \<Rightarrow> ('d, 'm, 'e) df \<Rightarrow> ('d, 'm, 'e) encode_session \<Rightarrow> item_kind list \<Rightarrow> bytes" where
  "items_bytes K D s ks = concat (map (item_bytes K D s) ks)"

definition rest_bytes :: "mpk \<Rightarrow> ('d, 'm, 'e) df \<Rightarrow> ('d, 'm, 'e) encode_session \<Rightarrow> bytes" where
  "rest_bytes K D s = (case es_active s of
     None \<Rightarrow> items_bytes K D s (session_items s)
   | Some item \<Rightarrow> drop (ai_emitted item) (item_bytes K D s (ai_kind item)) @ items_bytes K D s (tl (session_items s)))"

text \<open>Every item can be written, and the lengths the session has stored are right.\<close>

definition encodable :: "mpk \<Rightarrow> ('d, 'm, 'e) df \<Rightarrow> ('d, 'm, 'e) encode_session \<Rightarrow> bool" where
  "encodable K D s \<longleftrightarrow> length (es_specs s) < 2 ^ 32 \<and> es_plan_len s < 2 ^ 32 \<and>
     es_plan_len s = length (concat (pb_encode D (es_node s))) \<and>
     (\<forall>spec \<in> set (es_specs s). snd (encode_pg_scan_spec_into K D spec) = Inr ()) \<and>
     es_spec_lens s = map (\<lambda>spec. length (concat (fst (encode_pg_scan_spec_into K D spec)))) (es_specs s)"

definition encode_inv :: "mpk \<Rightarrow> ('d, 'm, 'e) df \<Rightarrow> ('d, 'm, 'e) encode_session \<Rightarrow> bool" where
  "encode_inv K D s \<longleftrightarrow> encodable K D s \<and> es_failed s = None \<and> es_state s \<noteq> Enc_Failed \<and>
     (es_finished s \<longleftrightarrow> es_state s = Enc_Done) \<and> (es_state s = Enc_Done \<longrightarrow> es_active s = None) \<and>
     (es_state s = Enc_ScanSpecs \<longrightarrow> es_spec_index s < length (es_specs s)) \<and>
     (es_state s \<in> {Enc_Start, Enc_EnvelopeArrayLen, Enc_Magic, Enc_Version, Enc_ScanSpecsArrayLen} \<longrightarrow>
        es_spec_index s = 0) \<and>
     (case es_active s of None \<Rightarrow> True
      | Some item \<Rightarrow> es_state s \<noteq> Enc_Start \<and> current_encode_item_kind s = Some (ai_kind item) \<and>
          ai_len item = length (item_bytes K D s (ai_kind item)) \<and> ai_emitted item \<le> ai_len item)"

text \<open>Between calls, the item that is being written has bytes left.\<close>

definition item_pending :: "('d, 'm, 'e) encode_session \<Rightarrow> bool" where
  "item_pending s \<longleftrightarrow> (case es_active s of None \<Rightarrow> True | Some item \<Rightarrow> ai_emitted item < ai_len item)"

lemma items_from_Cons: "i < n \<Longrightarrow> items_from i n = Item_ScanSpec i # items_from (Suc i) n"
  by (simp add: items_from_def upt_conv_Cons)

lemma items_from_end: "items_from n n = [Item_LogicalPlanBinLen, Item_LogicalPlanBin]"
  by (simp add: items_from_def)

text \<open>What an item writes depends on the plan and the specifications only.\<close>

lemma item_emit_same:
  "es_specs s' = es_specs s \<Longrightarrow> es_plan_len s' = es_plan_len s \<Longrightarrow> es_node s' = es_node s \<Longrightarrow>
     item_emit K D s' kind = item_emit K D s kind"
  by (simp add: item_emit_def split: item_kind.splits)

lemma item_bytes_same:
  "es_specs s' = es_specs s \<Longrightarrow> es_plan_len s' = es_plan_len s \<Longrightarrow> es_node s' = es_node s \<Longrightarrow>
     item_bytes K D s' = item_bytes K D s"
  by (rule ext) (simp add: item_bytes_def item_emit_same [of s' s])

lemma item_emit_ok:
  assumes "encodable K D s" and "kind \<in> set (items_left st i (length (es_specs s)))"
  shows "item_emit K D s kind = Some (fst (the (item_emit K D s kind)), Inr ())"
proof (cases kind)
  case (Item_ScanSpec j)
  with assms(2) have j: "j < length (es_specs s)"
    by (cases st) (auto simp: items_from_def)
  then have "snd (encode_pg_scan_spec_into K D (es_specs s ! j)) = Inr ()"
    using assms(1) nth_mem by (auto simp: encodable_def)
  with Item_ScanSpec j show ?thesis
    by (simp add: item_emit_def) (metis prod.collapse)
qed (use assms in \<open>auto simp: item_emit_def encodable_def put_def emit_result_def u32_try_from_def write_bin_len_to_def\<close>)

lemma item_len_ok:
  assumes "encodable K D s" and "kind \<in> set (items_left st i (length (es_specs s)))"
  shows "item_len K D s kind = Some (Inr (length (item_bytes K D s kind)))"
proof (cases kind)
  case (Item_ScanSpec j)
  with assms(2) have "j < length (es_specs s)"
    by (cases st) (auto simp: items_from_def)
  with assms(1) Item_ScanSpec show ?thesis
    by (simp add: item_len_def item_bytes_def item_emit_def encodable_def)
next
  case Item_LogicalPlanBin
  with assms(1) show ?thesis by (simp add: item_len_def item_bytes_def item_emit_def encodable_def)
qed (use item_emit_ok [OF assms] in \<open>auto simp: item_len_def item_bytes_def, (metis encoded_len_with_concat)+\<close>)

text \<open>What a step leaves alone.\<close>

definition same_plan :: "('d, 'm, 'e) encode_session \<Rightarrow> ('d, 'm, 'e) encode_session \<Rightarrow> bool" where
  "same_plan s s' \<longleftrightarrow> es_node s' = es_node s \<and> es_specs s' = es_specs s \<and> es_spec_lens s' = es_spec_lens s \<and>
     es_plan_len s' = es_plan_len s"

lemma same_plan_refl [simp]: "same_plan s s"
  by (simp add: same_plan_def)

lemma same_plan_trans: "same_plan s1 s2 \<Longrightarrow> same_plan s2 s3 \<Longrightarrow> same_plan s1 s3"
  by (simp add: same_plan_def)

lemma same_plan_bytes:
  assumes "same_plan s s'"
  shows "item_bytes K D s' = item_bytes K D s" "items_bytes K D s' = items_bytes K D s"
    "encodable K D s' = encodable K D s"
proof -
  show *: "item_bytes K D s' = item_bytes K D s"
    using assms by (intro item_bytes_same) (simp_all add: same_plan_def)
  then show "items_bytes K D s' = items_bytes K D s" by (intro ext) (simp add: items_bytes_def)
  show "encodable K D s' = encodable K D s" using assms by (simp add: encodable_def same_plan_def)
qed

lemma current_kind_same:
  "es_state s' = es_state s \<Longrightarrow> es_spec_index s' = es_spec_index s \<Longrightarrow>
     current_encode_item_kind s' = current_encode_item_kind s"
  by (simp only: current_encode_item_kind_def)

lemma current_item:
  assumes "encode_inv K D s" and "es_state s \<noteq> Enc_Start" and "es_state s \<noteq> Enc_Done"
  shows "\<exists>k ks. current_encode_item_kind s = Some k \<and> session_items s = k # ks"
  using assms
  by (cases "es_state s") (auto simp: encode_inv_def current_encode_item_kind_def session_items_def items_from_Cons)

lemma ensure_ready_effect:
  assumes inv: "encode_inv K D s" and todo: "es_state s \<noteq> Enc_Done"
  obtains s1 item where "ensure_encode_state_ready K D s = Some (s1, Inr ())" "encode_inv K D s1" "same_plan s s1"
    "es_active s1 = Some item" "session_items s1 = session_items s" "rest_bytes K D s1 = rest_bytes K D s"
    "\<not> es_finished s1"
proof -
  define s0 where "s0 = (if es_state s = Enc_Start then s\<lparr>es_state := Enc_EnvelopeArrayLen\<rparr> else s)"
  have inv0: "encode_inv K D s0" and same0: "same_plan s s0"
    using inv by (auto simp: s0_def encode_inv_def encodable_def same_plan_def split: option.splits)
  have items0: "session_items s0 = session_items s" "es_active s0 = es_active s"
    by (auto simp: s0_def session_items_def)
  have rest0: "rest_bytes K D s0 = rest_bytes K D s"
    using items0 same_plan_bytes [OF same0] by (simp add: rest_bytes_def split: option.splits)
  have st0: "es_state s0 \<notin> {Enc_Start, Enc_Done, Enc_Failed}"
    using inv todo by (auto simp: s0_def encode_inv_def)
  have beg: "(if es_state s = Enc_Start then consume_encode_event s Ev_Begin else (s, Inr ())) = (s0, Inr ())"
    by (simp add: s0_def consume_encode_event_def fsm_next_def encode_flow_def)
  from current_item [OF inv0] st0 obtain k ks where
    k: "current_encode_item_kind s0 = Some k" "session_items s0 = k # ks" by auto
  show thesis
  proof (cases "es_active s0")
    case (Some item)
    have "ensure_encode_state_ready K D s = Some (s0, Inr ())"
      using beg st0 Some by (simp add: ensure_encode_state_ready_def)
    with that inv0 same0 Some items0 rest0 st0 show thesis by (auto simp: encode_inv_def)
  next
    case None
    have "k \<in> set (items_left (es_state s0) (es_spec_index s0) (length (es_specs s0)))"
      using k(2) by (simp add: session_items_def [symmetric])
    with inv0 have len: "item_len K D s0 k = Some (Inr (length (item_bytes K D s0 k)))"
      by (intro item_len_ok) (auto simp: encode_inv_def)
    define s1 where "s1 = s0\<lparr>es_active := Some \<lparr>ai_kind = k, ai_len = length (item_bytes K D s0 k), ai_emitted = 0\<rparr>\<rparr>"
    have same1: "same_plan s0 s1" by (simp add: s1_def same_plan_def)
    have "ensure_encode_state_ready K D s = Some (s1, Inr ())"
      using beg st0 None k(1) len by (simp add: ensure_encode_state_ready_def s1_def)
    moreover have "current_encode_item_kind s1 = Some k"
      using k(1) current_kind_same [of s1 s0] by (simp add: s1_def)
    then have "encode_inv K D s1"
      using inv0 st0 same_plan_bytes [OF same1] by (simp add: encode_inv_def s1_def)
    moreover have "rest_bytes K D s1 = rest_bytes K D s0"
      using None k(2) same_plan_bytes [OF same1]
      by (simp add: rest_bytes_def s1_def session_items_def items_bytes_def)
    moreover have "session_items s1 = session_items s" using items0 by (simp add: s1_def session_items_def)
    moreover have "\<not> es_finished s1" using st0 inv0 by (simp add: s1_def encode_inv_def)
    moreover have "\<exists>item. es_active s1 = Some item" by (simp add: s1_def)
    ultimately show thesis using that same_plan_trans [OF same0 same1] rest0 by auto
  qed
qed

lemma item_range_effect:
  assumes inv: "encode_inv K D s" and item: "es_active s = Some item"
  shows "encode_item_range K D s (ai_kind item) n out =
    Some (copy_at out 0 (window n (length out) (item_bytes K D s (ai_kind item))),
      Inr (length (window n (length out) (item_bytes K D s (ai_kind item)))))"
proof -
  have "es_state s \<noteq> Enc_Start" "es_state s \<noteq> Enc_Done" "current_encode_item_kind s = Some (ai_kind item)"
    using inv item by (auto simp: encode_inv_def)
  with current_item [OF inv] have "ai_kind item \<in> set (session_items s)" by auto
  with inv have "item_emit K D s (ai_kind item) = Some (fst (the (item_emit K D s (ai_kind item))), Inr ())"
    by (intro item_emit_ok) (auto simp: encode_inv_def session_items_def)
  then obtain ps where ps: "item_emit K D s (ai_kind item) = Some (ps, Inr ())" by blast
  then show ?thesis
    by (simp add: encode_item_range_def observe_all_window item_bytes_def)
qed

lemma finish_item_effect:
  assumes inv: "encode_inv K D s" and item: "es_active s = Some item"
  obtains s' where "finish_active_item s = Some (s', Inr ())" "encode_inv K D s'" "same_plan s s'"
    "es_active s' = None" "session_items s' = tl (session_items s)"
proof -
  have st: "es_state s \<noteq> Enc_Start" "es_state s \<noteq> Enc_Done" "es_state s \<noteq> Enc_Failed" "\<not> es_finished s"
    and k: "current_encode_item_kind s = Some (ai_kind item)"
    and lens: "length (es_spec_lens s) = length (es_specs s)" "(es_spec_lens s = []) = (es_specs s = [])"
    using inv item by (auto simp: encode_inv_def encodable_def)
  define next_st where "next_st = (case es_state s of Enc_EnvelopeArrayLen \<Rightarrow> Enc_Magic | Enc_Magic \<Rightarrow> Enc_Version
    | Enc_Version \<Rightarrow> Enc_ScanSpecsArrayLen | Enc_LogicalPlanBinLen \<Rightarrow> Enc_LogicalPlanBin
    | Enc_ScanSpecsArrayLen \<Rightarrow> (if es_specs s = [] then Enc_LogicalPlanBinLen else Enc_ScanSpecs)
    | Enc_ScanSpecs \<Rightarrow> (if Suc (es_spec_index s) = length (es_specs s) then Enc_LogicalPlanBinLen else Enc_ScanSpecs)
    | _ \<Rightarrow> Enc_Done)"
  define s' where "s' = s\<lparr>es_active := None, es_state := next_st, es_finished := (next_st = Enc_Done),
    es_spec_index := (if es_state s = Enc_ScanSpecs then Suc (es_spec_index s) else es_spec_index s)\<rparr>"
  have "finish_active_item s = Some (s', Inr ())"
    using k [symmetric] item lens st
    by (cases "es_state s")
      (auto simp: s'_def next_st_def finish_active_item_def consume_encode_event_def fsm_next_def encode_flow_def
        current_encode_item_kind_def Let_def intro!: encode_session.equality)
  moreover have "encode_inv K D s'"
    using inv st by (cases "es_state s") (auto simp: s'_def next_st_def encode_inv_def encodable_def)
  moreover have "session_items s' = tl (session_items s)"
    using inv st
    by (cases "es_state s")
      (auto simp: s'_def next_st_def session_items_def encode_inv_def items_from_Cons items_from_end)
  ultimately show thesis using that by (simp add: s'_def same_plan_def)
qed

section \<open>Filling a slice\<close>

text \<open>One item: it does not fit and fills the slice, or it is finished and the loop goes on.\<close>

lemma write_chunk_loop_item:
  assumes inv: "encode_inv K D s" and "\<not> es_finished s" and le: "written \<le> length out"
  obtains (partial) s2 w1 where
      "write_chunk_loop K D s out written = Some (s2, copy_at out written w1, Inr (Enc_NeedMoreOutput (length out)))"
      "encode_inv K D s2" "same_plan s s2" "\<not> es_finished s2" "w1 = take (length out - written) (rest_bytes K D s)"
      "written + length w1 = length out" "rest_bytes K D s2 = drop (length w1) (rest_bytes K D s)" "item_pending s2"
  | (whole) s3 w1 where
      "write_chunk_loop K D s out written =
         (if es_finished s3 then Some (s3, copy_at out written w1, Inr (Enc_Finished (written + length w1)))
          else if written + length w1 = length out
            then Some (s3, copy_at out written w1, Inr (Enc_NeedMoreOutput (written + length w1)))
          else write_chunk_loop K D s3 (copy_at out written w1) (written + length w1))"
      "encode_inv K D s3" "same_plan s s3" "written + length w1 \<le> length out"
      "rest_bytes K D s = w1 @ rest_bytes K D s3" "length (session_items s3) < length (session_items s)"
      "item_pending s3"
proof -
  have "es_state s \<noteq> Enc_Done" using assms by (simp add: encode_inv_def)
  from ensure_ready_effect [OF inv this] obtain s1 item where
    s1: "ensure_encode_state_ready K D s = Some (s1, Inr ())" "encode_inv K D s1" "same_plan s s1"
      "es_active s1 = Some item" "session_items s1 = session_items s" "rest_bytes K D s1 = rest_bytes K D s"
      "\<not> es_finished s1" .
  define ib where "ib = item_bytes K D s1 (ai_kind item)"
  define w1 where "w1 = window (ai_emitted item) (length out - written) ib"
  define s2 where "s2 = s1\<lparr>es_active := Some (item\<lparr>ai_emitted := ai_emitted item + length w1\<rparr>)\<rparr>"
  have len: "ai_len item = length ib" "ai_emitted item \<le> length ib"
    using s1(2,4) by (auto simp: encode_inv_def ib_def)
  have lw1: "length w1 = min (length out - written) (length ib - ai_emitted item)" by (simp add: w1_def window_def)
  have range: "encode_item_range K D s1 (ai_kind item) (ai_emitted item) (drop written out) =
      Some (copy_at (drop written out) 0 w1, Inr (length w1))"
    using item_range_effect [OF s1(2,4)] by (simp add: ib_def w1_def)
  have out1: "take written out @ copy_at (drop written out) 0 w1 = copy_at out written w1"
    by (simp add: copy_at_def add.commute)
  have same2: "same_plan s1 s2" "session_items s2 = session_items s"
    using s1(5) by (simp_all add: same_plan_def s2_def session_items_def)
  have "ai_emitted item + length w1 \<le> length ib" using lw1 len by linarith
  then have inv2: "encode_inv K D s2"
    using s1(2,4) same_plan_bytes [OF same2(1)] current_kind_same [of s2 s1] len
    by (simp add: encode_inv_def s2_def ib_def)
  have rest: "rest_bytes K D s = drop (ai_emitted item) ib @ items_bytes K D s1 (tl (session_items s))"
    using s1(4-6) by (simp add: rest_bytes_def ib_def)
  note step = s1(1,4,7) range out1 len
  show thesis
  proof (cases "ai_emitted item + length w1 = length ib")
    case False
    then have full: "length w1 = length out - written" "length w1 < length ib - ai_emitted item"
      using lw1 len by auto
    have "rest_bytes K D s2 = drop (length w1) (rest_bytes K D s)"
      using full(2) same_plan_bytes [OF same2(1)] same2(2) rest by (simp add: rest_bytes_def s2_def ib_def add.commute)
    moreover have "w1 = take (length out - written) (rest_bytes K D s)"
      using rest full by (simp add: w1_def window_def)
    moreover have "written + length w1 = length out" using full(1) le by simp
    moreover have "write_chunk_loop K D s out written =
        Some (s2, copy_at out written w1, Inr (Enc_NeedMoreOutput (written + length w1)))"
      using step False by (subst write_chunk_loop.simps) (simp add: Let_def s2_def)
    moreover have "\<not> es_finished s2" using s1(7) by (simp add: s2_def)
    moreover have "item_pending s2" using full(2) len by (simp add: item_pending_def s2_def)
    ultimately show thesis using partial inv2 same_plan_trans [OF s1(3) same2(1)] by simp
  next
    case True
    have act: "es_active s2 = Some (item\<lparr>ai_emitted := length ib\<rparr>)" using True by (simp add: s2_def)
    from finish_item_effect [OF inv2 act] obtain s3 where
      s3: "finish_active_item s2 = Some (s3, Inr ())" "encode_inv K D s3" "same_plan s2 s3" "es_active s3 = None"
        "session_items s3 = tl (session_items s2)" .
    have same3: "same_plan s s3" using s1(3) same2(1) s3(3) same_plan_trans by blast
    have "w1 = drop (ai_emitted item) ib" using True lw1 by (simp add: w1_def window_def min_def split: if_splits)
    then have "rest_bytes K D s = w1 @ rest_bytes K D s3"
      using s3(4,5) same2(2) rest same_plan_bytes [OF same3] same_plan_bytes [OF s1(3)] by (simp add: rest_bytes_def)
    moreover have "session_items s \<noteq> []"
      using current_item [OF s1(2)] s1(2,4,5) by (auto simp: encode_inv_def)
    then have "length (session_items s3) < length (session_items s)" using s3(5) same2(2) by simp
    moreover have "write_chunk_loop K D s out written =
         (if es_finished s3 then Some (s3, copy_at out written w1, Inr (Enc_Finished (written + length w1)))
          else if written + length w1 = length out
            then Some (s3, copy_at out written w1, Inr (Enc_NeedMoreOutput (written + length w1)))
          else write_chunk_loop K D s3 (copy_at out written w1) (written + length w1))"
      using step True s3(1) by (subst write_chunk_loop.simps) (simp add: Let_def s2_def)
    moreover have "written + length w1 \<le> length out" using lw1 le by linarith
    moreover have "item_pending s3" using s3(4) by (simp add: item_pending_def)
    ultimately show thesis using whole s3(2) same3 by simp
  qed
qed

text \<open>
  From a session that has these bytes left, the loop fills the slice from \<open>written\<close> on and stops when the slice is
  full or the session is done.
\<close>

lemma rest_bytes_finished: "encode_inv K D s \<Longrightarrow> es_finished s \<Longrightarrow> rest_bytes K D s = []"
  by (simp add: encode_inv_def rest_bytes_def session_items_def items_bytes_def)

lemma write_chunk_loop_effect:
  assumes "encode_inv K D s" and "\<not> es_finished s" and "written \<le> length out"
  shows "\<exists>s' w. write_chunk_loop K D s out written = Some (s', copy_at out written w,
      Inr (if es_finished s' then Enc_Finished (written + length w) else Enc_NeedMoreOutput (written + length w))) \<and>
    w = take (length out - written) (rest_bytes K D s) \<and>
    encode_inv K D s' \<and> same_plan s s' \<and> rest_bytes K D s' = drop (length w) (rest_bytes K D s) \<and>
    (\<not> es_finished s' \<longrightarrow> written + length w = length out) \<and> item_pending s'"
  using assms
proof (induction "length (session_items s)" arbitrary: s out written rule: less_induct)
  case less
  from less.prems show ?case
  proof (cases rule: write_chunk_loop_item)
    case (partial s2 w1)
    then show ?thesis by auto
  next
    case (whole s3 w1)
    show ?thesis
    proof (cases "es_finished s3 \<or> written + length w1 = length out")
      case True
      then have "w1 = take (length out - written) (rest_bytes K D s)"
        using whole(4,5) rest_bytes_finished [OF whole(2)] by auto
      moreover have "rest_bytes K D s3 = drop (length w1) (rest_bytes K D s)" using whole(5) by simp
      ultimately show ?thesis using True whole(1-3,7) by (intro exI [of _ s3] exI [of _ w1]) auto
    next
      case False
      have len: "length (copy_at out written w1) = length out" using whole(4) by simp
      from less.hyps [OF whole(6,2), of "written + length w1" "copy_at out written w1"] False whole(4) len
      obtain s' w3 where s': "write_chunk_loop K D s3 (copy_at out written w1) (written + length w1) =
          Some (s', copy_at (copy_at out written w1) (written + length w1) w3,
            Inr (if es_finished s' then Enc_Finished (written + length w1 + length w3)
                 else Enc_NeedMoreOutput (written + length w1 + length w3)))"
        and w3: "w3 = take (length out - (written + length w1)) (rest_bytes K D s3)"
        and s'': "encode_inv K D s'" "same_plan s3 s'" "rest_bytes K D s' = drop (length w3) (rest_bytes K D s3)"
          "\<not> es_finished s' \<longrightarrow> written + length w1 + length w3 = length out" "item_pending s'"
        by auto
      define w where "w = w1 @ w3"
      have cp: "copy_at (copy_at out written w1) (written + length w1) w3 = copy_at out written w"
        using whole(4) by (simp add: w_def copy_at_def add.assoc add.commute [of "length w3"])
      have "write_chunk_loop K D s out written = Some (s', copy_at out written w,
          Inr (if es_finished s' then Enc_Finished (written + length w) else Enc_NeedMoreOutput (written + length w)))"
        using whole(1) False s' cp by (simp add: w_def add.assoc)
      moreover have "w = take (length out - written) (rest_bytes K D s)"
        using whole(4,5) by (simp add: w_def w3)
      moreover have "rest_bytes K D s' = drop (length w) (rest_bytes K D s)"
        using whole(5) s''(3) by (simp add: w_def)
      moreover have "\<not> es_finished s' \<longrightarrow> written + length w = length out"
        using s''(4) by (simp add: w_def add.assoc)
      ultimately show ?thesis using s''(1,5) same_plan_trans [OF whole(3) s''(2)] by blast
    qed
  qed
qed

lemma write_chunk_effect:
  assumes inv: "encode_inv K D s" and "\<not> es_finished s" and "out \<noteq> []"
  obtains s' w where "write_chunk K D s out = Some (s', copy_at out 0 w,
      Inr (if es_finished s' then Enc_Finished (length w) else Enc_NeedMoreOutput (length w)))"
    "w = take (length out) (rest_bytes K D s)" "encode_inv K D s'" "same_plan s s'"
    "rest_bytes K D s' = drop (length w) (rest_bytes K D s)" "\<not> es_finished s' \<longrightarrow> length w = length out"
    "item_pending s'"
proof -
  from write_chunk_loop_effect [OF assms(1,2), of 0 out] obtain s' w where
    loop: "write_chunk_loop K D s out 0 = Some (s', copy_at out 0 w,
      Inr (if es_finished s' then Enc_Finished (length w) else Enc_NeedMoreOutput (length w)))"
    and s': "w = take (length out) (rest_bytes K D s)" "encode_inv K D s'" "same_plan s s'"
      "rest_bytes K D s' = drop (length w) (rest_bytes K D s)" "\<not> es_finished s' \<longrightarrow> length w = length out" "item_pending s'"
    by (simp only: add_0 diff_zero le0) blast
  have "write_chunk K D s out = Some (s', copy_at out 0 w,
      Inr (if es_finished s' then Enc_Finished (length w) else Enc_NeedMoreOutput (length w)))"
    using inv assms(2,3) loop by (simp add: write_chunk_def encode_inv_def)
  with s' show thesis by (rule that [rotated])
qed

text \<open>A session that is not finished has bytes left, since the plan's message comes last and is not empty.\<close>

lemma rest_bytes_left:
  assumes inv: "encode_inv K D s" and "\<not> es_finished s" and pend: "item_pending s" and "0 < es_plan_len s"
  shows "rest_bytes K D s \<noteq> []"
proof -
  have plan: "item_bytes K D s Item_LogicalPlanBin \<noteq> []"
    using assms(1,4) by (auto simp: encode_inv_def encodable_def item_bytes_def item_emit_def)
  have st: "es_state s \<noteq> Enc_Done" "es_state s \<noteq> Enc_Failed" using assms(1,2) by (auto simp: encode_inv_def)
  then have last: "session_items s = [Item_LogicalPlanBin] \<or> Item_LogicalPlanBin \<in> set (tl (session_items s))"
    by (cases "es_state s") (auto simp: session_items_def items_from_def, cases "es_spec_index s < length (es_specs s)",
        auto simp: upt_conv_Cons)
  have bytes: "items_bytes K D s ks \<noteq> []" if "Item_LogicalPlanBin \<in> set ks" for ks
    using that plan by (auto simp: items_bytes_def)
  show ?thesis
  proof (cases "es_active s")
    case None
    with last bytes [of "session_items s"] show ?thesis by (cases "session_items s") (auto simp: rest_bytes_def)
  next
    case (Some item)
    then have "ai_emitted item < length (item_bytes K D s (ai_kind item))"
      using inv pend by (auto simp: item_pending_def encode_inv_def)
    with Some show ?thesis by (simp add: rest_bytes_def)
  qed
qed

section \<open>A whole plan\<close>

text \<open>The encoder of the crate's tests, which writes the envelope in one go.\<close>

definition encode_envelope_into ::
  "mpk \<Rightarrow> ('d, 'm, 'e) df \<Rightarrow> 'd pg_scan_spec list \<Rightarrow> 'm \<Rightarrow> 'e emit" where
  "encode_envelope_into K D specs node = emits
     [put (k_array_len K plan_codec_envelope_len), put (k_str K plan_codec_magic), put (k_u8 K plan_codec_version),
      write_array_of K Pee_TooManyScanSpecs (map (encode_pg_scan_spec_into K D) specs),
      write_protobuf_bin_to K D node]"

definition spec_bytes :: "mpk \<Rightarrow> ('d, 'm, 'e) df \<Rightarrow> 'd pg_scan_spec \<Rightarrow> bytes" where
  "spec_bytes K D spec = concat (fst (encode_pg_scan_spec_into K D spec))"

definition plan_stream :: "mpk \<Rightarrow> ('d, 'm, 'e) df \<Rightarrow> 'd pg_scan_spec list \<Rightarrow> 'm \<Rightarrow> bytes" where
  "plan_stream K D specs node = k_array_len K plan_codec_envelope_len @ k_str K plan_codec_magic @
     k_u8 K plan_codec_version @ k_array_len K (of_nat (length specs)) @ concat (map (spec_bytes K D) specs) @
     k_bin_len K (of_nat (length (concat (pb_encode D node)))) @ concat (pb_encode D node)"

lemma emits_all_ok:
  "\<forall>x \<in> set xs. snd x = Inr () \<Longrightarrow> emits xs = (concat (map fst xs), Inr ())"
  by (induction xs) (auto simp: emits.simps)

lemma concat_concat: "concat (concat xss) = concat (map concat xss)"
  by (induction xss) simp_all

lemma encode_envelope_stream:
  assumes "df_ok D" and "length specs < 2 ^ 32" and "pb_encoded_len D node < 2 ^ 32"
    and "\<forall>spec \<in> set specs. snd (encode_pg_scan_spec_into K D spec) = Inr ()"
  shows "snd (encode_envelope_into K D specs node) = Inr ()"
    and "concat (fst (encode_envelope_into K D specs node)) = plan_stream K D specs node"
proof -
  have len: "pb_encoded_len D node = length (concat (pb_encode D node))" using assms(1) by (simp add: df_ok_def)
  have arr: "write_array_of K Pee_TooManyScanSpecs (map (encode_pg_scan_spec_into K D) specs) =
      (k_array_len K (of_nat (length specs)) # concat (map (fst \<circ> encode_pg_scan_spec_into K D) specs), Inr ())"
    using assms(2,4) by (auto simp: write_array_of_def u32_try_from_def emit_result_def put_def emits.simps emits_all_ok)
  have pb: "write_protobuf_bin_to K D node = (k_bin_len K (of_nat (pb_encoded_len D node)) # pb_encode D node, Inr ())"
    using assms(3) by (simp add: write_protobuf_bin_to_def write_bin_len_to_def u32_try_from_def emit_result_def
        put_def emits.simps)
  show "snd (encode_envelope_into K D specs node) = Inr ()"
    by (simp add: encode_envelope_into_def emits.simps put_def arr pb)
  show "concat (fst (encode_envelope_into K D specs node)) = plan_stream K D specs node"
    by (simp add: encode_envelope_into_def emits.simps put_def arr pb plan_stream_def len concat_concat
        spec_bytes_def [abs_def] comp_def)
qed

lemma encode_session_new_inv:
  assumes D: "df_ok D" and new: "encode_session_new K D plan = Inr s"
    and fits: "length (es_specs s) < 2 ^ 32" "es_plan_len s < 2 ^ 32"
  shows "encode_inv K D s" and "\<not> es_finished s" and "rest_bytes K D s = plan_stream K D (es_specs s) (es_node s)"
    and "es_specs s = map snd (collect_pg_scan_specs plan [])" and "df_plan_proto D (try_encode K D) plan = Inr (es_node s)"
    and "\<forall>spec \<in> set (es_specs s). snd (encode_pg_scan_spec_into K D spec) = Inr ()"
proof -
  define specs where "specs = map snd (collect_pg_scan_specs plan [])"
  define rs where "rs = map (\<lambda>spec. encoded_len_with (encode_pg_scan_spec_into K D spec)) specs"
  from new obtain node where node: "df_plan_proto D (try_encode K D) plan = Inr node"
    by (cases "df_plan_proto D (try_encode K D) plan") (simp_all add: encode_session_new_def Let_def)
  with new obtain lens where lens: "all_results rs = Inr lens"
    and s: "s = \<lparr>es_node = node, es_specs = specs, es_spec_lens = lens, es_plan_len = pb_encoded_len D node,
      es_state = Enc_Start, es_spec_index = 0, es_active = None, es_finished = False, es_failed = None\<rparr>"
    by (cases "all_results rs") (simp_all add: encode_session_new_def Let_def rs_def specs_def)
  have lens: "rs = map Inr lens" using lens by (simp only: all_results_Inr)
  have each: "snd (encode_pg_scan_spec_into K D spec) = Inr () \<and>
      encoded_len_with (encode_pg_scan_spec_into K D spec) =
        Inr (length (concat (fst (encode_pg_scan_spec_into K D spec))))"
    if "spec \<in> set (es_specs s)" for spec
  proof -
    have "encoded_len_with (encode_pg_scan_spec_into K D spec) \<in> set rs" using that by (simp add: rs_def s)
    then have "\<exists>n. encoded_len_with (encode_pg_scan_spec_into K D spec) = Inr n" by (auto simp: lens)
    then have "snd (encode_pg_scan_spec_into K D spec) = Inr ()"
      by (auto simp: encoded_len_with_def try_bind_eq_Inr)
    then show ?thesis using encoded_len_with_concat by (metis prod.collapse)
  qed
  define f where "f = (\<lambda>spec. length (concat (fst (encode_pg_scan_spec_into K D spec))))"
  have "map Inr lens = map (\<lambda>spec. encoded_len_with (encode_pg_scan_spec_into K D spec)) (es_specs s)"
    using lens by (simp add: s rs_def)
  also have "\<dots> = map Inr (map f (es_specs s))" using each by (simp add: f_def)
  finally have "lens = map f (es_specs s)" using inj_map_eq_map [OF inj_Inr] by blast
  then have "es_spec_lens s = map (\<lambda>spec. length (concat (fst (encode_pg_scan_spec_into K D spec)))) (es_specs s)"
    by (simp add: f_def s)
  then have enc: "encodable K D s"
    using each fits D by (auto simp: encodable_def s df_ok_def)
  then show "encode_inv K D s" "\<not> es_finished s" by (auto simp: encode_inv_def s)
  have "map (item_bytes K D s) (map Item_ScanSpec [0..<length (es_specs s)]) = map (spec_bytes K D) (es_specs s)"
    by (rule nth_equalityI) (auto simp: item_bytes_def item_emit_def spec_bytes_def)
  then show "rest_bytes K D s = plan_stream K D (es_specs s) (es_node s)"
    using enc by (simp add: rest_bytes_def s session_items_def items_bytes_def items_from_def plan_stream_def
        item_bytes_def item_emit_def put_def encodable_def emit_result_def u32_try_from_def write_bin_len_to_def)
  show "es_specs s = map snd (collect_pg_scan_specs plan [])" "df_plan_proto D (try_encode K D) plan = Inr (es_node s)"
    using node by (simp_all add: s specs_def)
  show "\<forall>spec \<in> set (es_specs s). snd (encode_pg_scan_spec_into K D spec) = Inr ()" using each by blast
qed

text \<open>A caller that offers one slice after another and keeps what has been written.\<close>

fun progress_written :: "encode_progress \<Rightarrow> nat" where
  "progress_written (Enc_NeedMoreOutput n) = n"
| "progress_written (Enc_Finished n) = n"

fun encode_all ::
  "mpk \<Rightarrow> ('d, 'm, 'e) df \<Rightarrow> ('d, 'm, 'e) encode_session \<Rightarrow> bytes list \<Rightarrow> (('d, 'm, 'e) encode_session \<times> bytes list) option"
where
  "encode_all K D s [] = Some (s, [])"
| "encode_all K D s (out # outs) = (case write_chunk K D s out of
     Some (s1, out1, Inr p) \<Rightarrow> (case encode_all K D s1 outs of
        None \<Rightarrow> None | Some (s2, chunks) \<Rightarrow> Some (s2, take (progress_written p) out1 # chunks))
   | _ \<Rightarrow> None)"

lemma encode_all_effect:
  assumes "encode_inv K D s" and "[] \<notin> set outs"
  shows "\<exists>s' chunks. encode_all K D s outs = Some (s', chunks) \<and> encode_inv K D s' \<and>
    concat chunks = take (sum_list (map length outs)) (rest_bytes K D s) \<and>
    (length (rest_bytes K D s) < sum_list (map length outs) \<longrightarrow> es_finished s')"
  using assms
proof (induction outs arbitrary: s)
  case Nil
  then show ?case by simp
next
  case (Cons out outs)
  show ?case
  proof (cases "es_finished s")
    case True
    with Cons.prems have "write_chunk K D s out = Some (s, out, Inr (Enc_Finished 0))"
      by (simp add: write_chunk_def encode_inv_def)
    moreover obtain s' chunks where s': "encode_all K D s outs = Some (s', chunks)" "encode_inv K D s'"
        "concat chunks = take (sum_list (map length outs)) (rest_bytes K D s)" "es_finished s'"
      using Cons.IH [OF Cons.prems(1)] Cons.prems(2) True rest_bytes_finished [OF Cons.prems(1) True]
      by (cases outs) auto
    ultimately show ?thesis using rest_bytes_finished [OF Cons.prems(1) True] by simp
  next
    case False
    have "out \<noteq> []" using Cons.prems(2) by auto
    from write_chunk_effect [OF Cons.prems(1) False this] obtain s1 w where
      s1: "write_chunk K D s out = Some (s1, copy_at out 0 w,
          Inr (if es_finished s1 then Enc_Finished (length w) else Enc_NeedMoreOutput (length w)))"
        "w = take (length out) (rest_bytes K D s)" "encode_inv K D s1"
        "rest_bytes K D s1 = drop (length w) (rest_bytes K D s)" "\<not> es_finished s1 \<longrightarrow> length w = length out" .
    from Cons.IH [OF s1(3)] Cons.prems(2) obtain s' chunks where
      s': "encode_all K D s1 outs = Some (s', chunks)" "encode_inv K D s'"
        "concat chunks = take (sum_list (map length outs)) (rest_bytes K D s1)"
        "length (rest_bytes K D s1) < sum_list (map length outs) \<longrightarrow> es_finished s'" by auto
    have "take (length w) (copy_at out 0 w) = w" by (simp add: copy_at_def)
    then have run: "encode_all K D s (out # outs) = Some (s', w # chunks)" using s1(1) s'(1) by simp
    have split: "rest_bytes K D s = w @ rest_bytes K D s1"
      using s1(2,4) by (metis append_take_drop_id length_take min_def take_all_iff nat_le_linear take_take)
    then have "concat (w # chunks) = take (sum_list (map length (out # outs))) (rest_bytes K D s)"
      using s1(2,4,5) s'(3) rest_bytes_finished [OF s1(3)] by (cases "es_finished s1") (auto simp: take_add)
    moreover have "length (rest_bytes K D s) < sum_list (map length (out # outs)) \<longrightarrow> es_finished s'"
    proof
      assume short: "length (rest_bytes K D s) < sum_list (map length (out # outs))"
      show "es_finished s'"
      proof (cases "es_finished s1")
        case True
        show ?thesis
        proof (cases outs)
          case Nil
          with s'(1) True show ?thesis by simp
        next
          case (Cons o' os)
          then have "0 < sum_list (map length outs)" using Cons.prems(2) by auto
          with s'(4) rest_bytes_finished [OF s1(3) True] show ?thesis by simp
        qed
      next
        case False
        with short s1(5) s'(4) show ?thesis by (simp add: split)
      qed
    qed
    ultimately show ?thesis using run s'(2) by blast
  qed
qed

end
