(* ===== verification/Plan_Decode.thy ===== *)
theory Plan_Decode
  imports Plan_Encode
begin

text \<open>
  The decoder session: fed the bytes of a plan in chunks of any size it asks for more until it has them all,
  and gives the plan at the end of the input; an input that ends early is refused.
\<close>

section \<open>What travels\<close>

text \<open>A plan, the specifications of its scans in the order of their numbers, and its message.\<close>

definition travels :: "mpk \<Rightarrow> ('d, 'm, 'e) df \<Rightarrow> 'd pg_scan_spec list \<Rightarrow> 'm \<Rightarrow> 'd lplan \<Rightarrow> bool" where
  "travels K D specs node plan \<longleftrightarrow> mpk_ok K \<and> df_ok D \<and> length specs < 2 ^ 32 \<and>
     length (concat (pb_encode D node)) < 2 ^ 32 \<and> df_plan_proto D (try_encode K D) plan = Inr node \<and> plan_names_ok plan \<and>
     sorted_wrt (<) (map sp_scan_id specs) \<and> sp_scan_id ` set specs = set (collect_used_scan_ids plan) \<and>
     (\<forall>spec \<in> set specs. spec_ok D spec \<and> snd (encode_pg_scan_spec_into K D spec) = Inr ())"

definition spec_table :: "'d pg_scan_spec list \<Rightarrow> (u64 \<times> 'd pg_scan_spec) list" where
  "spec_table specs = map (\<lambda>spec. (sp_scan_id spec, wire_spec spec)) specs"

lemma used_scan_ids: "set (collect_used_scan_ids p) = sp_scan_id ` set (plan_scans p)"
  by (induction p) auto

lemma used_scan_ids_resolve:
  assumes "\<And>id. id \<in> set (collect_used_scan_ids p) \<Longrightarrow> \<exists>s. m id = Some s \<and> sp_scan_id s = id"
  shows "collect_used_scan_ids (resolve_scans m p) = collect_used_scan_ids p"
  using assms
proof (induction p)
  case (Lp_Scan s)
  then show ?case by fastforce
next
  case (Lp_Ext d ps)
  then have "collect_used_scan_ids (resolve_scans m x) = collect_used_scan_ids x" if "x \<in> set ps" for x
    using that by auto
  then show ?case by (simp add: comp_def cong: map_cong)
next
  case (Lp_Node d ps)
  then have "collect_used_scan_ids (resolve_scans m x) = collect_used_scan_ids x" if "x \<in> set ps" for x
    using that by auto
  then show ?case by (simp add: comp_def cong: map_cong)
qed simp

lemma spec_table_keys [simp]: "map fst (spec_table specs) = map sp_scan_id specs"
  by (simp add: spec_table_def)

lemma spec_table_id: "map_of (spec_table specs) i = Some s \<Longrightarrow> sp_scan_id s = i"
  by (drule map_of_SomeD) (auto simp: spec_table_def wire_spec_def)

lemma spec_table_mem: "i \<in> sp_scan_id ` set specs \<Longrightarrow> \<exists>s. map_of (spec_table specs) i = Some s"
  by (metis spec_table_keys list.set_map map_of_eq_None_iff not_None_eq)

lemma decoded_plan_valid:
  assumes "travels K D specs node plan"
  shows "df_plan_parse D (try_decode K D (spec_table specs)) node = Inr (resolve_scans (map_of (spec_table specs)) plan)"
    and "validate_scan_spec_usage (resolve_scans (map_of (spec_table specs)) plan) (spec_table specs) = Inr ()"
proof -
  have K: "mpk_ok K" and D: "df_ok D" and names: "plan_names_ok plan"
    and node: "df_plan_proto D (try_encode K D) plan = Inr node"
    and ids: "sp_scan_id ` set specs = set (collect_used_scan_ids plan)" using assms by (simp_all add: travels_def)
  from D node have ext: "\<forall>x \<in> set (extensions plan). \<exists>b. try_encode K D x = Inr b"
    and parse: "df_plan_parse D dec node = rebuild (try_encode K D) dec plan" for dec
    unfolding df_ok_def by blast+
  have "sp_scan_id ` set (plan_scans plan) \<subseteq> dom (map_of (spec_table specs))"
    using spec_table_mem [of _ specs] by (auto simp: ids used_scan_ids)
  then show "df_plan_parse D (try_decode K D (spec_table specs)) node = Inr (resolve_scans (map_of (spec_table specs)) plan)"
    using rebuild_resolves [OF K D names ext] parse by simp
  have "collect_used_scan_ids (resolve_scans (map_of (spec_table specs)) plan) = collect_used_scan_ids plan"
    using spec_table_mem [of _ specs] spec_table_id [of specs]
    by (intro used_scan_ids_resolve) (metis ids)
  then have "filter (\<lambda>id. id \<notin> set (collect_used_scan_ids (resolve_scans (map_of (spec_table specs)) plan)))
      (map fst (spec_table specs)) = []"
    using ids by (auto simp: filter_empty_conv)
  then show "validate_scan_spec_usage (resolve_scans (map_of (spec_table specs)) plan) (spec_table specs) = Inr ()"
    by (simp add: validate_scan_spec_usage_def)
qed

text \<open>Inserting beyond the last key appends.\<close>

lemma btree_insert_last: "\<forall>x \<in> set m. fst x < k \<Longrightarrow> btree_insert k v m = m @ [(k, v)]"
  by (induction m) auto

lemma spec_table_insert:
  assumes "sorted_wrt (<) (map sp_scan_id specs)" and "j < length specs"
  shows "btree_insert (sp_scan_id (specs ! j)) (wire_spec (specs ! j)) (spec_table (take j specs)) =
      spec_table (take (Suc j) specs)"
    and "map_of (spec_table (take j specs)) (sp_scan_id (specs ! j)) = None"
proof -
  have less: "sp_scan_id s < sp_scan_id (specs ! j)" if "s \<in> set (take j specs)" for s
    using that assms by (auto simp: in_set_conv_nth sorted_wrt_iff_nth_less)
  then have "\<forall>x \<in> set (spec_table (take j specs)). fst x < sp_scan_id (specs ! j)"
    by (auto simp: spec_table_def)
  then show "btree_insert (sp_scan_id (specs ! j)) (wire_spec (specs ! j)) (spec_table (take j specs)) =
      spec_table (take (Suc j) specs)"
    using assms(2) by (simp add: btree_insert_last spec_table_def take_Suc_conv_app_nth)
  have "sp_scan_id (specs ! j) \<notin> sp_scan_id ` set (take j specs)" using less by fastforce
  then show "map_of (spec_table (take j specs)) (sp_scan_id (specs ! j)) = None"
    by (simp add: map_of_eq_None_iff spec_table_def image_image)
qed

section \<open>Where a session stands\<close>

definition tail_bytes :: "mpk \<Rightarrow> ('d, 'm, 'e) df \<Rightarrow> 'd pg_scan_spec list \<Rightarrow> 'm \<Rightarrow> nat \<Rightarrow> bytes" where
  "tail_bytes K D specs node j = concat (map (spec_bytes K D) (drop j specs)) @
     k_bin_len K (of_nat (length (concat (pb_encode D node)))) @ concat (pb_encode D node)"

fun bytes_due :: "mpk \<Rightarrow> ('d, 'm, 'e) df \<Rightarrow> 'd pg_scan_spec list \<Rightarrow> 'm \<Rightarrow> decode_state \<Rightarrow> nat \<Rightarrow> bytes" where
  "bytes_due K D specs node Dec_Start j = plan_stream K D specs node"
| "bytes_due K D specs node Dec_EnvelopeArrayLen j = plan_stream K D specs node"
| "bytes_due K D specs node Dec_Magic j = k_str K plan_codec_magic @ k_u8 K plan_codec_version @
     k_array_len K (of_nat (length specs)) @ tail_bytes K D specs node 0"
| "bytes_due K D specs node Dec_Version j = k_u8 K plan_codec_version @
     k_array_len K (of_nat (length specs)) @ tail_bytes K D specs node 0"
| "bytes_due K D specs node Dec_ScanSpecsArrayLen j =
     k_array_len K (of_nat (length specs)) @ tail_bytes K D specs node 0"
| "bytes_due K D specs node Dec_ScanSpecs j = tail_bytes K D specs node j"
| "bytes_due K D specs node Dec_LogicalPlanBinLen j = tail_bytes K D specs node (length specs)"
| "bytes_due K D specs node Dec_LogicalPlanBin j = concat (pb_encode D node)"
| "bytes_due K D specs node _ j = []"

definition due_ok ::
  "mpk \<Rightarrow> ('d, 'm, 'e) df \<Rightarrow> 'd pg_scan_spec list \<Rightarrow> 'm \<Rightarrow> ('d, 'm, 'e) decode_session \<Rightarrow> nat \<Rightarrow> bytes \<Rightarrow> bool" where
  "due_ok K D specs node s j fut \<longleftrightarrow>
     bytes_due K D specs node (ds_state s) j = concat (ds_plan_segments s) @ ds_control_buf s @ fut"

definition table_ok :: "'d pg_scan_spec list \<Rightarrow> ('d, 'm, 'e) decode_session \<Rightarrow> nat \<Rightarrow> bool" where
  "table_ok specs s j \<longleftrightarrow> ds_specs s = spec_table (take j specs) \<and>
     (case ds_state s of
        Dec_ScanSpecs \<Rightarrow> j < length specs \<and> ds_specs_remaining s = Some (length specs - j)
      | Dec_LogicalPlanBinLen \<Rightarrow> j = length specs
      | Dec_LogicalPlanBin \<Rightarrow> j = length specs
      | Dec_BuildLogicalPlan \<Rightarrow> j = length specs
      | Dec_AwaitEof \<Rightarrow> True
      | _ \<Rightarrow> j = 0)"

definition payload_ok :: "('d, 'm, 'e) df \<Rightarrow> 'm \<Rightarrow> ('d, 'm, 'e) decode_session \<Rightarrow> bool" where
  "payload_ok D node s \<longleftrightarrow> ds_plan_received s = length (concat (ds_plan_segments s)) \<and>
     (if ds_state s = Dec_LogicalPlanBin then ds_plan_len s = Some (length (concat (pb_encode D node)))
      else ds_plan_len s = None \<and> ds_plan_segments s = [])"

definition result_ok :: "'d pg_scan_spec list \<Rightarrow> 'm \<Rightarrow> 'd lplan \<Rightarrow> ('d, 'm, 'e) decode_session \<Rightarrow> bool" where
  "result_ok specs node plan s \<longleftrightarrow> (ds_state s = Dec_BuildLogicalPlan \<longrightarrow> ds_node s = Some node) \<and>
     (ds_state s = Dec_AwaitEof \<longrightarrow> ds_ready_plan s = Some (resolve_scans (map_of (spec_table specs)) plan))"

definition decode_inv ::
  "mpk \<Rightarrow> ('d, 'm, 'e) df \<Rightarrow> 'd pg_scan_spec list \<Rightarrow> 'm \<Rightarrow> 'd lplan \<Rightarrow> ('d, 'm, 'e) decode_session \<Rightarrow> nat \<Rightarrow> bytes \<Rightarrow> bool"
where
  "decode_inv K D specs node plan s j fut \<longleftrightarrow>
     ds_failed s = None \<and> \<not> ds_finished s \<and> ds_state s \<noteq> Dec_Failed \<and> ds_state s \<noteq> Dec_Done \<and>
     due_ok K D specs node s j fut \<and> table_ok specs s j \<and> payload_ok D node s \<and> result_ok specs node plan s"

text \<open>How many passes of the loop are left at most.\<close>

fun passes_left :: "decode_state \<Rightarrow> nat \<Rightarrow> nat" where
  "passes_left Dec_Start n = 9 + n"
| "passes_left Dec_EnvelopeArrayLen n = 8 + n"
| "passes_left Dec_Magic n = 7 + n"
| "passes_left Dec_Version n = 6 + n"
| "passes_left Dec_ScanSpecsArrayLen n = 5 + n"
| "passes_left Dec_ScanSpecs n = 4 + n"
| "passes_left Dec_LogicalPlanBinLen n = 3"
| "passes_left Dec_LogicalPlanBin n = 2"
| "passes_left Dec_BuildLogicalPlan n = 1"
| "passes_left _ n = 0"

text \<open>An atom is parsed when it is all there; otherwise more input is asked for, and there is more to come.\<close>

lemma parse_atom_effect:
  assumes reads: "reads_as g (is_incomplete_decode_error D) b v" and due: "b @ rest = ds_control_buf s @ fut"
  obtains (more) "parse_atom D eof s g k = Some (Return s (decode_need_more s eof))" "fut \<noteq> []"
  | (parsed) buf where "ds_control_buf s = b @ buf" "rest = buf @ fut"
      "\<And>s1 ev. k v = Some (s1, Inr ev) \<Longrightarrow> ds_control_buf s1 = b @ buf \<Longrightarrow>
         parse_atom D eof s g k = Some (case consume_decode_event (s1\<lparr>ds_control_buf := buf\<rparr>) ev of
           (s2, Inl e) \<Rightarrow> Return s2 (Inl e) | (s2, Inr _) \<Rightarrow> Again s2)"
proof -
  from due obtain us where "b = ds_control_buf s @ us \<and> us @ rest = fut \<or> ds_control_buf s = b @ us \<and> rest = us @ fut"
    unfolding append_eq_append_conv2 by (metis)
  then consider buf where "ds_control_buf s = b @ buf" "rest = buf @ fut"
    | us where "b = ds_control_buf s @ us" "us \<noteq> []" "us @ rest = fut"
    by (cases "us = []") fastforce+
  then show thesis
  proof cases
    case 1
    have "g (b @ buf) = Inr (v, buf)" using reads unfolding reads_as_def by blast
    then have tp: "try_parse_prefix D g (ds_control_buf s) = Inr (Some (v, length b))"
      by (simp add: try_parse_prefix_def 1(1))
    show thesis
      by (rule parsed [OF 1]) (simp add: parse_atom_def tp)
  next
    case 2
    then obtain e where "g (ds_control_buf s) = Inl e" "is_incomplete_decode_error D e"
      using reads unfolding reads_as_def by blast
    then have "parse_atom D eof s g k = Some (Return s (decode_need_more s eof))"
      by (simp add: parse_atom_def try_parse_prefix_def)
    with 2 more show thesis by auto
  qed
qed

text \<open>A pass of the loop asks for input that is still to come, or goes on with less to do.\<close>

definition progresses ::
  "mpk \<Rightarrow> ('d, 'm, 'e) df \<Rightarrow> 'd pg_scan_spec list \<Rightarrow> 'm \<Rightarrow> 'd lplan \<Rightarrow> bool \<Rightarrow> ('d, 'm, 'e) decode_session \<Rightarrow> nat \<Rightarrow> bytes \<Rightarrow>
     bool" where
  "progresses K D specs node plan eof s j fut \<longleftrightarrow>
     (\<exists>s1. drive_pass K D eof s = Some (Return s1 (decode_need_more s1 eof)) \<and>
        decode_inv K D specs node plan s1 j fut \<and> fut \<noteq> []) \<or>
     (\<exists>s1 j1. drive_pass K D eof s = Some (Again s1) \<and> decode_inv K D specs node plan s1 j1 fut \<and>
        passes_left (ds_state s1) (length specs - j1) < passes_left (ds_state s) (length specs - j))"

lemma atom_pass:
  assumes inv: "decode_inv K D specs node plan s j fut" and segs: "ds_plan_segments s = []"
    and pass: "drive_pass K D eof s = parse_atom D eof s g k"
    and reads: "reads_as g (is_incomplete_decode_error D) b v"
    and due: "bytes_due K D specs node (ds_state s) j = b @ rest"
    and k: "k v = Some (sa, Inr ev)" "ds_control_buf sa = ds_control_buf s"
    and st: "fsm_next decode_flow (ds_state sa) ev = Some st"
      "passes_left st (length specs - ja) < passes_left (ds_state s) (length specs - j)"
    and keep: "\<And>buf. rest = buf @ fut \<Longrightarrow>
      decode_inv K D specs node plan (sa\<lparr>ds_control_buf := buf, ds_state := st\<rparr>) ja fut"
  shows "progresses K D specs node plan eof s j fut"
proof -
  have "b @ rest = ds_control_buf s @ fut" using inv due segs by (simp add: decode_inv_def due_ok_def)
  with reads show ?thesis
  proof (cases rule: parse_atom_effect [where eof = eof and k = k])
    case more
    with pass inv show ?thesis by (auto simp: progresses_def)
  next
    case (parsed buf)
    from parsed(3) [OF k(1)] k(2) parsed(1) pass have "drive_pass K D eof s =
        Some (case consume_decode_event (sa\<lparr>ds_control_buf := buf\<rparr>) ev of
          (s2, Inl e) \<Rightarrow> Return s2 (Inl e) | (s2, Inr _) \<Rightarrow> Again s2)"
      by simp
    with st(1) have "drive_pass K D eof s = Some (Again (sa\<lparr>ds_control_buf := buf, ds_state := st\<rparr>))"
      by (simp add: consume_decode_event_def)
    with keep [OF parsed(2)] st(2) show ?thesis
      unfolding progresses_def by (intro disjI2 exI conjI) (assumption | simp)+
  qed
qed

lemma magic_ok: "string_ok plan_codec_magic"
  by (simp add: string_ok_def plan_codec_magic_def)

lemma drop_nth_tail: "j < length specs \<Longrightarrow>
    tail_bytes K D specs node j = spec_bytes K D (specs ! j) @ tail_bytes K D specs node (Suc j)"
  by (simp add: tail_bytes_def Cons_nth_drop_Suc [symmetric])

lemma tail_bytes_end: "tail_bytes K D specs node (length specs) =
    k_bin_len K (of_nat (length (concat (pb_encode D node)))) @ concat (pb_encode D node)"
  by (simp add: tail_bytes_def)

lemmas next_state = fsm_next_def decode_flow_def

lemmas inv_parts = decode_inv_def due_ok_def payload_ok_def table_ok_def result_ok_def

lemma reads_atoms:
  assumes "mpk_ok K"
  shows "reads_as (rd_mp (g_array_len K)) (is_incomplete_decode_error D) (k_array_len K n) n"
    "reads_as (rd_mp (g_bin_len K)) (is_incomplete_decode_error D) (k_bin_len K n) n"
    "reads_as (rd_mp (g_u8 K)) (is_incomplete_decode_error D) (k_u8 K v) v"
    "reads_as (read_string_from K) (is_incomplete_decode_error D) (k_str K plan_codec_magic) plan_codec_magic"
  using assms wire_string [OF assms magic_ok, of D]
  by (auto intro: reads_as_mp simp: mpk_ok_def wire_def put_def)

lemma start_pass:
  assumes "decode_inv K D specs node plan s j fut" and "ds_state s = Dec_Start"
  shows "progresses K D specs node plan eof s j fut"
proof -
  let ?s = "s\<lparr>ds_state := Dec_EnvelopeArrayLen\<rparr>"
  have "drive_pass K D eof s = Some (Again ?s)"
    using assms(2) by (simp add: drive_pass_def consume_decode_event_def next_state)
  moreover have "decode_inv K D specs node plan ?s j fut" using assms by (simp add: inv_parts)
  ultimately show ?thesis
    using assms(2) unfolding progresses_def by (intro disjI2 exI conjI) (assumption | simp)+
qed

lemma header_pass:
  assumes K: "mpk_ok K" and inv: "decode_inv K D specs node plan s j fut"
    and st: "ds_state s \<in> {Dec_EnvelopeArrayLen, Dec_Magic, Dec_Version}"
  shows "progresses K D specs node plan eof s j fut"
proof -
  have z: "ds_plan_segments s = []" "j = 0" using inv st by (auto simp: decode_inv_def payload_ok_def table_ok_def)
  note reads = reads_atoms [OF K, where D = D]
  have keep: "decode_inv K D specs node plan (s\<lparr>ds_control_buf := buf, ds_state := st'\<rparr>) 0 fut"
    if "st' \<in> {Dec_Magic, Dec_Version, Dec_ScanSpecsArrayLen}" "bytes_due K D specs node st' 0 = buf @ fut" for st' buf
    using inv st that z by (auto simp: inv_parts)
  from st show ?thesis
  proof (elim insertE emptyE)
    assume s: "ds_state s = Dec_EnvelopeArrayLen"
    have pass: "drive_pass K D eof s = parse_atom D eof s (rd_mp (g_array_len K)) (\<lambda>len.
        Some (s, if len \<noteq> plan_codec_envelope_len then Inl (Pde_InvalidEnvelope plan_codec_envelope_len len)
                 else Inr Dv_AtomDecoded))"
      by (simp add: drive_pass_def s)
    show ?thesis
      by (rule atom_pass [OF inv z(1) pass reads(1) [of plan_codec_envelope_len] _ _ _ _ _ keep])
        (auto simp: s plan_stream_def tail_bytes_def next_state z)
  next
    assume s: "ds_state s = Dec_Magic"
    have pass: "drive_pass K D eof s = parse_atom D eof s (read_string_from K) (\<lambda>magic.
        Some (s, if magic \<noteq> plan_codec_magic then Inl (Pde_InvalidMagic magic) else Inr Dv_AtomDecoded))"
      by (simp add: drive_pass_def s)
    show ?thesis
      by (rule atom_pass [OF inv z(1) pass reads(4) _ _ _ _ _ keep]) (auto simp: s next_state z)
  next
    assume s: "ds_state s = Dec_Version"
    have pass: "drive_pass K D eof s = parse_atom D eof s (rd_mp (g_u8 K)) (\<lambda>version.
        Some (s, if version \<noteq> plan_codec_version then Inl (Pde_UnsupportedVersion version) else Inr Dv_AtomDecoded))"
      by (simp add: drive_pass_def s)
    show ?thesis
      by (rule atom_pass [OF inv z(1) pass reads(3) [of plan_codec_version] _ _ _ _ _ keep]) (auto simp: s next_state z)
  qed
qed

lemma specs_len_pass:
  assumes trav: "travels K D specs node plan" and inv: "decode_inv K D specs node plan s j fut"
    and s: "ds_state s = Dec_ScanSpecsArrayLen"
  shows "progresses K D specs node plan eof s j fut"
proof -
  have K: "mpk_ok K" and n: "length specs < 2 ^ 32" using trav by (simp_all add: travels_def)
  have z: "ds_plan_segments s = []" "j = 0" using inv s by (auto simp: decode_inv_def payload_ok_def table_ok_def)
  have len: "unat (of_nat (length specs) :: u32) = length specs" using n by (rule unat_of_nat_u32)
  have "(of_nat (length specs) :: u32) = 0 \<longleftrightarrow> unat (of_nat (length specs) :: u32) = 0"
    by (simp only: unsigned_eq_0_iff)
  then have zero: "(of_nat (length specs) :: u32) = 0 \<longleftrightarrow> specs = []" by (simp only: len length_0_conv)
  have pass: "drive_pass K D eof s = parse_atom D eof s (rd_mp (g_array_len K)) (\<lambda>len.
      Some (s\<lparr>ds_specs_remaining := Some (unat len)\<rparr>,
        Inr (if len = 0 then Dv_ScanSpecsFinished else Dv_ScanSpecsStarted)))"
    by (simp add: drive_pass_def s)
  show ?thesis
    by (rule atom_pass [OF inv z(1) pass reads_atoms(1) [OF K, of D "of_nat (length specs)"], where
          st = "if specs = [] then Dec_LogicalPlanBinLen else Dec_ScanSpecs" and ja = 0 and
          ev = "if specs = [] then Dv_ScanSpecsFinished else Dv_ScanSpecsStarted" and
          sa = "s\<lparr>ds_specs_remaining := Some (length specs)\<rparr>" and rest = "tail_bytes K D specs node 0"])
      (use inv s z len zero in \<open>auto simp: next_state inv_parts\<close>)
qed

lemma scan_spec_pass:
  assumes trav: "travels K D specs node plan" and inv: "decode_inv K D specs node plan s j fut"
    and s: "ds_state s = Dec_ScanSpecs"
  shows "progresses K D specs node plan eof s j fut"
proof -
  have K: "mpk_ok K" and D: "df_ok D" and sorted: "sorted_wrt (<) (map sp_scan_id specs)"
    using trav by (simp_all add: travels_def)
  have z: "ds_plan_segments s = []" "ds_specs s = spec_table (take j specs)" "j < length specs"
    "ds_specs_remaining s = Some (Suc (length specs - Suc j))"
    using inv s by (auto simp: decode_inv_def payload_ok_def table_ok_def)
  let ?spec = "specs ! j" and ?n = "length specs - Suc j"
  have "?spec \<in> set specs" using z(3) by simp
  then have spec: "spec_ok D ?spec" "snd (encode_pg_scan_spec_into K D ?spec) = Inr ()"
    using trav by (auto simp: travels_def)
  have reads: "reads_as (decode_pg_scan_spec_from K D) (is_incomplete_decode_error D) (spec_bytes K D ?spec) (wire_spec ?spec)"
    using wire_scan_spec [OF K D spec(1)] spec(2) by (simp add: wire_def spec_bytes_def)
  have pass: "drive_pass K D eof s = parse_atom D eof s (decode_pg_scan_spec_from K D) (scan_spec_decoded s)"
    by (simp add: drive_pass_def s)
  have id: "sp_scan_id (wire_spec ?spec) = sp_scan_id ?spec" by (simp add: wire_spec_def)
  define ev where "ev = (if ?n = 0 then Dv_ScanSpecsFinished else Dv_ScanSpecDecoded)"
  define st where "st = (if ?n = 0 then Dec_LogicalPlanBinLen else Dec_ScanSpecs)"
  define sa where "sa = s\<lparr>ds_specs := spec_table (take (Suc j) specs), ds_specs_remaining := Some ?n\<rparr>"
  have "scan_spec_decoded s (wire_spec ?spec) = Some (sa, Inr ev)"
    using spec_table_insert [OF sorted z(3)] z(2,4) by (simp add: scan_spec_decoded_def Let_def id sa_def ev_def)
  moreover have "fsm_next decode_flow (ds_state sa) ev = Some st"
    by (simp add: sa_def s ev_def st_def next_state)
  moreover have "passes_left st (length specs - Suc j) < passes_left (ds_state s) (length specs - j)"
    using z(3) by (simp add: s st_def) linarith
  moreover have "decode_inv K D specs node plan (sa\<lparr>ds_control_buf := buf, ds_state := st\<rparr>) (Suc j) fut"
    if "tail_bytes K D specs node (Suc j) = buf @ fut" for buf
    using inv s z that by (auto simp: inv_parts sa_def st_def Suc_diff_Suc le_Suc_eq)
  ultimately show ?thesis
    using atom_pass [OF inv z(1) pass reads, of "tail_bytes K D specs node (Suc j)" sa ev st "Suc j"]
      drop_nth_tail [OF z(3), of K D node] by (simp add: s sa_def)
qed

lemma bin_len_pass:
  assumes trav: "travels K D specs node plan" and inv: "decode_inv K D specs node plan s j fut"
    and s: "ds_state s = Dec_LogicalPlanBinLen"
  shows "progresses K D specs node plan eof s j fut"
proof -
  let ?len = "length (concat (pb_encode D node))"
  have K: "mpk_ok K" and n: "?len < 2 ^ 32" using trav by (simp_all add: travels_def)
  have z: "ds_plan_segments s = []" "j = length specs" using inv s by (auto simp: decode_inv_def payload_ok_def table_ok_def)
  have len: "unat (of_nat ?len :: u32) = ?len" using n by (rule unat_of_nat_u32)
  have pass: "drive_pass K D eof s = parse_atom D eof s (rd_mp (g_bin_len K)) (\<lambda>len.
      Some (s\<lparr>ds_plan_len := Some (unat len)\<rparr>, Inr Dv_AtomDecoded))"
    by (simp add: drive_pass_def s)
  show ?thesis
    by (rule atom_pass [OF inv z(1) pass reads_atoms(2) [OF K, of D "of_nat ?len"], where
          st = Dec_LogicalPlanBin and ja = j and ev = Dv_AtomDecoded and
          sa = "s\<lparr>ds_plan_len := Some ?len\<rparr>" and rest = "concat (pb_encode D node)"])
      (use inv s z len in \<open>auto simp: next_state inv_parts tail_bytes_end simp del: length_concat\<close>)
qed

text \<open>Draining moves the buffered bytes of the payload to its segments.\<close>

lemma drain_control_effect:
  assumes inv: "decode_inv K D specs node plan s j fut" and s: "ds_state s = Dec_LogicalPlanBin"
  shows "decode_inv K D specs node plan (drain_control s) j fut" and "ds_control_buf (drain_control s) = []"
    and "ds_state (drain_control s) = ds_state s"
proof -
  let ?nb = "concat (pb_encode D node)" and ?segs = "concat (ds_plan_segments s)"
  have due: "?nb = ?segs @ ds_control_buf s @ fut" and len: "ds_plan_len s = Some (length ?nb)"
    and rec: "ds_plan_received s = length ?segs"
    using inv s by (simp_all add: decode_inv_def due_ok_def payload_ok_def)
  have n: "min (length ?nb - ds_plan_received s) (length (ds_control_buf s)) = length (ds_control_buf s)"
    unfolding due rec by simp
  have dr: "drain_control s = (if ds_control_buf s = [] then s
      else s\<lparr>ds_control_buf := [], ds_plan_received := length ?segs + length (ds_control_buf s),
             ds_plan_segments := ds_plan_segments s @ [ds_control_buf s]\<rparr>)"
    using len n rec by (simp add: drain_control_def Let_def push_logical_plan_segment_def del: length_concat)
  then show "ds_control_buf (drain_control s) = []" "ds_state (drain_control s) = ds_state s" by simp_all
  show "decode_inv K D specs node plan (drain_control s) j fut"
    using inv s due len rec dr by (auto simp: inv_parts simp del: length_concat)
qed

lemma payload_pass:
  assumes trav: "travels K D specs node plan" and inv: "decode_inv K D specs node plan s j fut"
    and s: "ds_state s = Dec_LogicalPlanBin"
  shows "progresses K D specs node plan eof s j fut"
proof -
  let ?nb = "concat (pb_encode D node)" and ?s = "drain_control s"
  note dr = drain_control_effect [OF inv s]
  have st: "ds_state ?s = Dec_LogicalPlanBin" using dr(3) s by simp
  have due: "?nb = concat (ds_plan_segments ?s) @ fut" and rec: "ds_plan_received ?s = length (concat (ds_plan_segments ?s))"
    using dr(1,2) st by (simp_all add: decode_inv_def due_ok_def payload_ok_def)
  have len: "ds_plan_len s = Some (length ?nb)" and j: "j = length specs"
    using inv s by (simp_all add: decode_inv_def payload_ok_def table_ok_def)
  have pass: "drive_pass K D eof s = decode_logical_plan_bin D eof s" by (simp add: drive_pass_def s)
  show ?thesis
  proof (cases "fut = []")
    case False
    then have "ds_plan_received ?s < length ?nb" by (simp only: due rec length_append) simp
    then have "drive_pass K D eof s = Some (Return ?s (decode_need_more ?s eof))"
      using pass len by (simp add: decode_logical_plan_bin_def Let_def del: length_concat)
    with dr(1) False show ?thesis unfolding progresses_def by blast
  next
    case True
    then have whole: "?nb = concat (ds_plan_segments ?s)" "\<not> ds_plan_received ?s < length ?nb"
      using due rec by (simp_all del: length_concat)
    have "pb_decode D Pb_plan ?nb = Inr (node, [])" using trav unfolding travels_def df_ok_def by blast
    then have msg: "pb_message D Pb_plan (take (length ?nb) (concat (ds_plan_segments ?s))) = Inr node"
      using whole(1) by (simp add: pb_message_def)
    let ?s2 = "?s\<lparr>ds_node := Some node, ds_plan_len := None, ds_plan_received := 0, ds_plan_segments := [],
      ds_state := Dec_BuildLogicalPlan\<rparr>"
    have "drive_pass K D eof s = Some (Again ?s2)"
      using pass len whole(2) msg st
      by (simp add: decode_logical_plan_bin_def Let_def consume_decode_event_def next_state del: length_concat)
    moreover have "decode_inv K D specs node plan ?s2 j fut"
      using dr(1,2) st True j by (simp add: inv_parts)
    ultimately show ?thesis
      using s unfolding progresses_def by (intro disjI2 exI conjI) (assumption | simp)+
  qed
qed

lemma build_pass:
  assumes trav: "travels K D specs node plan" and inv: "decode_inv K D specs node plan s j fut"
    and s: "ds_state s = Dec_BuildLogicalPlan"
  shows "progresses K D specs node plan eof s j fut"
proof -
  have parts: "ds_node s = Some node" "ds_specs s = spec_table specs" "ds_control_buf s = []"
    using inv s by (auto simp: inv_parts)
  let ?s2 = "s\<lparr>ds_node := None, ds_state := Dec_AwaitEof,
    ds_ready_plan := Some (resolve_scans (map_of (spec_table specs)) plan)\<rparr>"
  have "drive_pass K D eof s = Some (Again ?s2)"
    using s parts
    by (simp add: drive_pass_def decode_build_def build_decoded_plan_def consume_decode_event_def next_state
        decoded_plan_valid [OF trav])
  moreover have "decode_inv K D specs node plan ?s2 j fut" using inv s by (simp add: inv_parts)
  ultimately show ?thesis
    using s unfolding progresses_def by (intro disjI2 exI conjI) (assumption | simp)+
qed

lemma drive_pass_progresses:
  assumes "travels K D specs node plan" and "decode_inv K D specs node plan s j fut" and "ds_state s \<noteq> Dec_AwaitEof"
  shows "progresses K D specs node plan eof s j fut"
proof (cases "ds_state s")
  case Dec_Start
  with assms show ?thesis by (simp add: start_pass)
next
  case Dec_ScanSpecsArrayLen
  with assms show ?thesis by (simp add: specs_len_pass)
next
  case Dec_ScanSpecs
  with assms show ?thesis by (simp add: scan_spec_pass)
next
  case Dec_LogicalPlanBinLen
  with assms show ?thesis by (simp add: bin_len_pass)
next
  case Dec_LogicalPlanBin
  with assms show ?thesis by (simp add: payload_pass)
next
  case Dec_BuildLogicalPlan
  with assms show ?thesis by (simp add: build_pass)
next
  case Dec_Done
  with assms show ?thesis by (simp add: decode_inv_def)
next
  case Dec_Failed
  with assms show ?thesis by (simp add: decode_inv_def)
qed (use assms in \<open>simp_all add: header_pass [OF conjunct1 [OF travels_def [THEN iffD1]]]\<close>)

section \<open>Driving a session\<close>

lemma drive_decode_cases:
  assumes "travels K D specs node plan" and "decode_inv K D specs node plan s j fut"
  obtains (short) s1 j1 where "decode_inv K D specs node plan s1 j1 fut" "fut \<noteq> []"
      "drive_decode K D eof s = Some (s1, decode_need_more s1 eof)"
  | (await) s1 j1 where "decode_inv K D specs node plan s1 j1 fut" "ds_state s1 = Dec_AwaitEof"
      "drive_decode K D eof s = drive_decode K D eof s1"
  using assms(2)
proof (induction "passes_left (ds_state s) (length specs - j)" arbitrary: s j thesis rule: less_induct)
  case less
  show ?case
  proof (cases "ds_state s = Dec_AwaitEof")
    case True
    with less.prems show ?thesis by blast
  next
    case False
    from drive_pass_progresses [OF assms(1) less.prems(3) False, of eof] consider
      (ret) s1 where "drive_pass K D eof s = Some (Return s1 (decode_need_more s1 eof))"
        "decode_inv K D specs node plan s1 j fut" "fut \<noteq> []"
    | (again) s1 j1 where "drive_pass K D eof s = Some (Again s1)" "decode_inv K D specs node plan s1 j1 fut"
        "passes_left (ds_state s1) (length specs - j1) < passes_left (ds_state s) (length specs - j)"
      unfolding progresses_def by blast
    then show ?thesis
    proof cases
      case ret
      then show ?thesis using less.prems(1) by (subst (asm) drive_decode.simps) simp
    next
      case again
      have "drive_decode K D eof s = drive_decode K D eof s1" using again(1) by (subst drive_decode.simps) simp
      with less.hyps [OF again(3) _ _ again(2)] less.prems(1,2) show ?thesis by metis
    qed
  qed
qed

lemma await_parts:
  assumes "decode_inv K D specs node plan s j fut" and "ds_state s = Dec_AwaitEof"
  shows "fut = []" and "ds_control_buf s = []"
    and "ds_ready_plan s = Some (resolve_scans (map_of (spec_table specs)) plan)"
  using assms by (simp_all add: inv_parts)

lemma decode_guarded_open:
  assumes "travels K D specs node plan" and "decode_inv K D specs node plan s j fut"
  obtains s1 j1 where "decode_guarded K D False s = Some (s1, Inr Dec_NeedMoreInput)"
    "decode_inv K D specs node plan s1 j1 fut" "fut = [] \<longrightarrow> ds_state s1 = Dec_AwaitEof"
  using assms
proof (cases rule: drive_decode_cases [where eof = False])
  case (short s1 j1)
  then show ?thesis using that by (simp add: decode_guarded_def decode_need_more_def)
next
  case (await s1 j1)
  have "drive_decode K D False s1 = Some (s1, Inr Dec_NeedMoreInput)"
    using await(2) await_parts [OF await(1,2)]
    by (subst drive_decode.simps) (simp add: drive_pass_def decode_await_eof_def)
  with await show ?thesis using that by (simp add: decode_guarded_def)
qed

lemma decode_guarded_eof:
  assumes "travels K D specs node plan" and "decode_inv K D specs node plan s j fut"
  shows "\<exists>s1. if fut = []
     then decode_guarded K D True s = Some (s1, Inr (Dec_Finished (resolve_scans (map_of (spec_table specs)) plan))) \<and>
       ds_finished s1 \<and> ds_state s1 = Dec_Done
     else \<exists>st n. decode_guarded K D True s = Some (s1, Inl (Pde_UnexpectedEof st n)) \<and>
       ds_failed s1 = Some (st, Pde_UnexpectedEof st n)"
  using assms
proof (cases rule: drive_decode_cases [where eof = True])
  case (short s1 j1)
  have "ds_failed s1 = None" "\<not> ds_finished s1" using short(1) by (simp_all add: decode_inv_def)
  then have "ds_failed (poison_decode s1 e) = Some (ds_state s1, e)" for e
    by (simp add: poison_decode_def consume_decode_event_def Let_def split: option.split)
  with short show ?thesis by (simp add: decode_guarded_def decode_need_more_def)
next
  case (await s1 j1)
  note parts = await_parts [OF await(1,2)]
  have "drive_decode K D True s1 = Some (s1\<lparr>ds_state := Dec_Done, ds_finished := True, ds_ready_plan := None\<rparr>,
      Inr (Dec_Finished (resolve_scans (map_of (spec_table specs)) plan)))"
    using await(2) parts
    by (subst drive_decode.simps) (simp add: drive_pass_def decode_await_eof_def consume_decode_event_def next_state)
  with await parts show ?thesis by (simp add: decode_guarded_def)
qed

lemma buffer_chunk_inv:
  assumes inv: "decode_inv K D specs node plan s j (chunk @ fut)"
  shows "decode_inv K D specs node plan (buffer_decode_chunk s chunk) j fut"
proof (cases "chunk \<noteq> [] \<and> ds_state s = Dec_LogicalPlanBin")
  case True
  let ?nb = "concat (pb_encode D node)" and ?s = "drain_control s"
  note dr = drain_control_effect [OF inv conjunct2 [OF True]]
  have st: "ds_state ?s = Dec_LogicalPlanBin" using dr(3) True by simp
  have due: "?nb = concat (ds_plan_segments ?s) @ chunk @ fut" and rec: "ds_plan_received ?s = length (concat (ds_plan_segments ?s))"
    and len: "ds_plan_len ?s = Some (length ?nb)" "ds_plan_len s = Some (length ?nb)"
    using dr(1,2) st inv True by (simp_all add: decode_inv_def due_ok_def payload_ok_def)
  have n: "0 < length ?nb - ds_plan_received ?s" "min (length ?nb - ds_plan_received ?s) (length chunk) = length chunk"
    using True unfolding due rec by simp_all
  have "buffer_decode_chunk s chunk = ?s\<lparr>ds_plan_received := ds_plan_received ?s + length chunk,
      ds_plan_segments := ds_plan_segments ?s @ [chunk]\<rparr>"
    using True len n by (simp add: buffer_decode_chunk_def push_logical_plan_segment_def Let_def del: length_concat)
  then show ?thesis using dr(1,2) st due rec by (simp add: inv_parts del: length_concat)
next
  case False
  then consider "chunk = []" | "chunk \<noteq> []" "ds_state s \<noteq> Dec_LogicalPlanBin" by blast
  then show ?thesis
  proof cases
    case 1
    with inv show ?thesis by (simp add: buffer_decode_chunk_def)
  next
    case 2
    then have "buffer_decode_chunk s chunk = s\<lparr>ds_control_buf := ds_control_buf s @ chunk\<rparr>"
      by (simp add: buffer_decode_chunk_def)
    with inv show ?thesis
      by (simp add: decode_inv_def due_ok_def table_ok_def payload_ok_def result_ok_def cong: decode_state.case_cong)
  qed
qed

text \<open>A receiver pushes the chunks it gets, one after the other, as long as more input is asked for.\<close>

fun push_all ::
  "mpk \<Rightarrow> ('d, 'm, 'e) df \<Rightarrow> ('d, 'm, 'e) decode_session \<Rightarrow> bytes list \<Rightarrow>
     (('d, 'm, 'e) decode_session \<times> ('e plan_decode_error + 'd decode_progress)) option" where
  "push_all K D s [] = Some (s, Inr Dec_NeedMoreInput)"
| "push_all K D s (chunk # chunks) = do {
     (s1, res) \<leftarrow> push_chunk K D s chunk;
     case res of Inr Dec_NeedMoreInput \<Rightarrow> push_all K D s1 chunks | _ \<Rightarrow> Some (s1, res)
   }"

lemma push_all_effect:
  assumes "travels K D specs node plan" and "decode_inv K D specs node plan s j (concat chunks @ fut)"
  obtains s1 j1 where "push_all K D s chunks = Some (s1, Inr Dec_NeedMoreInput)"
    "decode_inv K D specs node plan s1 j1 fut" "chunks \<noteq> [] \<and> fut = [] \<longrightarrow> ds_state s1 = Dec_AwaitEof"
  using assms(2)
proof (induction chunks arbitrary: s j thesis)
  case Nil
  then show ?case by simp
next
  case (Cons c chunks)
  have "decode_inv K D specs node plan s j (c @ concat chunks @ fut)" using Cons.prems(2) by simp
  from decode_guarded_open [OF assms(1) buffer_chunk_inv [OF this]] obtain s1 j1 where
    g: "decode_guarded K D False (buffer_decode_chunk s c) = Some (s1, Inr Dec_NeedMoreInput)"
    and inv: "decode_inv K D specs node plan s1 j1 (concat chunks @ fut)"
    and await: "concat chunks @ fut = [] \<longrightarrow> ds_state s1 = Dec_AwaitEof" .
  have "push_chunk K D s c = Some (s1, Inr Dec_NeedMoreInput)"
    using g Cons.prems(2) by (simp add: push_chunk_def decode_inv_def)
  then have run: "push_all K D s (c # chunks) = push_all K D s1 chunks" by simp
  show ?case
  proof (rule Cons.IH [OF _ inv])
    fix s2 j2 assume s2: "push_all K D s1 chunks = Some (s2, Inr Dec_NeedMoreInput)"
      "decode_inv K D specs node plan s2 j2 fut" "chunks \<noteq> [] \<and> fut = [] \<longrightarrow> ds_state s2 = Dec_AwaitEof"
    have "fut = [] \<longrightarrow> ds_state s2 = Dec_AwaitEof" using s2(1,3) await by (cases chunks) simp_all
    with s2(1,2) run show thesis by (intro Cons.prems(1)) simp_all
  qed
qed

lemma decode_session_new_inv:
  "decode_inv K D specs node plan decode_session_new 0 (plan_stream K D specs node)"
  by (simp add: inv_parts decode_session_new_def spec_table_def)

text \<open>Bytes after the end of the stream.\<close>

lemma await_trailing:
  assumes inv: "decode_inv K D specs node plan s j fut" and st: "ds_state s = Dec_AwaitEof" and c: "c \<noteq> []"
  shows "\<exists>s1. push_chunk K D s c = Some (s1, Inl (Pde_TrailingBytes (length c))) \<and>
    ds_failed s1 = Some (Dec_AwaitEof, Pde_TrailingBytes (length c))"
proof -
  let ?s = "s\<lparr>ds_control_buf := c\<rparr>"
  have buf: "buffer_decode_chunk s c = ?s" using await_parts [OF inv st] c st by (simp add: buffer_decode_chunk_def)
  have "drive_decode K D False ?s = Some (?s, Inl (Pde_TrailingBytes (length c)))"
    using c st by (subst drive_decode.simps) (simp add: drive_pass_def decode_await_eof_def)
  then show ?thesis
    using inv buf st by (simp add: push_chunk_def decode_guarded_def poison_decode_def consume_decode_event_def
        decode_inv_def Let_def split: option.split)
qed

lemma decode_stream:
  assumes "travels K D specs node plan" and "plan_stream K D specs node = concat chunks @ fut"
  shows "\<exists>s1 s2. push_all K D decode_session_new chunks = Some (s1, Inr Dec_NeedMoreInput) \<and>
    (fut = [] \<longrightarrow> (\<forall>c. c \<noteq> [] \<longrightarrow> (\<exists>s3. push_chunk K D s1 c = Some (s3, Inl (Pde_TrailingBytes (length c))) \<and>
       ds_failed s3 = Some (Dec_AwaitEof, Pde_TrailingBytes (length c))))) \<and>
    (if fut = []
     then finish_input K D s1 = Some (s2, Inr (Dec_Finished (resolve_scans (map_of (spec_table specs)) plan))) \<and>
       ds_finished s2 \<and> ds_state s2 = Dec_Done
     else \<exists>st n. finish_input K D s1 = Some (s2, Inl (Pde_UnexpectedEof st n)) \<and>
       ds_failed s2 = Some (st, Pde_UnexpectedEof st n))"
proof -
  have "decode_inv K D specs node plan decode_session_new 0 (concat chunks @ fut)"
    using decode_session_new_inv [of K D specs node plan] assms(2) by simp
  from push_all_effect [OF assms(1) this] obtain s1 j1 where
    p: "push_all K D decode_session_new chunks = Some (s1, Inr Dec_NeedMoreInput)"
      "decode_inv K D specs node plan s1 j1 fut" "chunks \<noteq> [] \<and> fut = [] \<longrightarrow> ds_state s1 = Dec_AwaitEof" .
  have "k_array_len K plan_codec_envelope_len \<noteq> []"
    using assms(1) unfolding travels_def mpk_ok_def by (metis list.distinct(1))
  then have "fut = [] \<longrightarrow> chunks \<noteq> []" using assms(2) by (auto simp: plan_stream_def)
  with p(3) have "fut = [] \<longrightarrow> ds_state s1 = Dec_AwaitEof" by blast
  note trail = await_trailing [OF p(2) this [THEN mp]]
  have "finish_input K D s1 = decode_guarded K D True s1" using p(2) by (simp add: finish_input_def decode_inv_def)
  with decode_guarded_eof [OF assms(1) p(2)] p(1) trail show ?thesis by (cases "fut = []") simp_all
qed

end
