(* ===== verification/Plan_Props.thy ===== *)
theory Plan_Props
  imports Plan_Decode
begin

text \<open>
  What the plan codec promises to its users: the encoder writes one and the same stream whatever slices it is given,
  the decoder rebuilds the plan from any division of that stream into chunks, and a stream that is cut off or goes on
  is refused. A concrete MsgPack and a small concrete DataFusion show that the hypotheses can be met.
\<close>

section \<open>The specifications of a plan\<close>

definition table_inv :: "(u64 \<times> 'd pg_scan_spec) list \<Rightarrow> bool" where
  "table_inv m \<longleftrightarrow> sorted_wrt (<) (map fst m) \<and> (\<forall>(i, s) \<in> set m. sp_scan_id s = i)"

lemma btree_insert_set: "i \<notin> fst ` set m \<Longrightarrow> set (btree_insert i s m) = insert (i, s) (set m)"
  by (induction m) (auto split: if_splits)

lemma btree_insert_sorted:
  "sorted_wrt (<) (map fst m) \<Longrightarrow> i \<notin> fst ` set m \<Longrightarrow> sorted_wrt (<) (map fst (btree_insert i s m))"
proof (induction m)
  case (Cons x m)
  obtain k v where x: "x = (k, v)" by (cases x)
  have "i < k \<or> k < i" using Cons.prems(2) x by auto
  then show ?case
  proof
    assume "i < k"
    with Cons.prems x show ?thesis by fastforce
  next
    assume "k < i"
    with Cons x show ?thesis by (auto simp: btree_insert_set)
  qed
qed simp

definition collected :: "'d lplan \<Rightarrow> (u64 \<times> 'd pg_scan_spec) list \<Rightarrow> (u64 \<times> 'd pg_scan_spec) list \<Rightarrow> bool" where
  "collected p m m1 \<longleftrightarrow> table_inv m1 \<and> set m \<subseteq> set m1 \<and> fst ` set m1 = fst ` set m \<union> sp_scan_id ` set (plan_scans p) \<and>
     snd ` set m1 \<subseteq> snd ` set m \<union> set (plan_scans p)"

lemma collected_fold:
  assumes "\<And>q m. q \<in> set ps \<Longrightarrow> table_inv m \<Longrightarrow> collected q m (f q m)" and "table_inv m"
  shows "table_inv (fold f ps m) \<and> set m \<subseteq> set (fold f ps m) \<and>
    fst ` set (fold f ps m) = fst ` set m \<union> sp_scan_id ` (\<Union>q \<in> set ps. set (plan_scans q)) \<and>
    snd ` set (fold f ps m) \<subseteq> snd ` set m \<union> (\<Union>q \<in> set ps. set (plan_scans q))"
  using assms
proof (induction ps arbitrary: m)
  case (Cons q ps)
  have q: "collected q m (f q m)" using Cons.prems by simp
  then have inv: "table_inv (f q m)" by (simp add: collected_def)
  have "\<And>x m. x \<in> set ps \<Longrightarrow> table_inv m \<Longrightarrow> collected x m (f x m)" using Cons.prems(1) by simp
  note ih = Cons.IH [OF this inv]
  from q have q': "set m \<subseteq> set (f q m)" "fst ` set (f q m) = fst ` set m \<union> sp_scan_id ` set (plan_scans q)"
    "snd ` set (f q m) \<subseteq> snd ` set m \<union> set (plan_scans q)" by (simp_all add: collected_def)
  from ih have i: "table_inv (fold f ps (f q m))" "set (f q m) \<subseteq> set (fold f ps (f q m))"
    "fst ` set (fold f ps (f q m)) = fst ` set (f q m) \<union> sp_scan_id ` (\<Union>q \<in> set ps. set (plan_scans q))"
    "snd ` set (fold f ps (f q m)) \<subseteq> snd ` set (f q m) \<union> (\<Union>q \<in> set ps. set (plan_scans q))" by blast+
  have "fst ` set (fold f (q # ps) m) = fst ` set m \<union> sp_scan_id ` (\<Union>q \<in> set (q # ps). set (plan_scans q))"
    using i(3) q'(2) by (simp add: image_Un Un_assoc)
  moreover have "snd ` set (fold f (q # ps) m) \<subseteq> snd ` set m \<union> (\<Union>q \<in> set (q # ps). set (plan_scans q))"
    using i(4) q'(3) by auto
  ultimately show ?case using i(1,2) q'(1) by auto
qed simp

lemma collect_scan_specs: "table_inv m \<Longrightarrow> collected p m (collect_pg_scan_specs p m)"
proof (induction p arbitrary: m)
  case (Lp_Scan s)
  show ?case
  proof (cases "map_of m (sp_scan_id s)")
    case None
    then have new: "sp_scan_id s \<notin> fst ` set m" by (simp add: map_of_eq_None_iff)
    with Lp_Scan None show ?thesis by (auto simp: collected_def table_inv_def btree_insert_set btree_insert_sorted)
  next
    case (Some t)
    then have "(sp_scan_id s, t) \<in> set m" by (rule map_of_SomeD)
    then have "sp_scan_id s \<in> fst ` set m" by force
    with Lp_Scan Some show ?thesis by (auto simp: collected_def)
  qed
next
  case (Lp_Cte c p)
  then show ?case by (simp add: collected_def)
next
  case (Lp_Ext d ps)
  from collected_fold [of ps collect_pg_scan_specs m] Lp_Ext show ?case by (simp add: collected_def image_UN)
next
  case (Lp_Node d ps)
  from collected_fold [of ps collect_pg_scan_specs m] Lp_Node show ?case by (simp add: collected_def image_UN)
qed

text \<open>The plan as it arrives: every scan without the aliases of its relation.\<close>

fun strip_aliases :: "'d lplan \<Rightarrow> 'd lplan" where
  "strip_aliases (Lp_Scan s) = Lp_Scan (wire_spec s)"
| "strip_aliases (Lp_Cte c p) = Lp_Cte c (strip_aliases p)"
| "strip_aliases (Lp_Ext d ps) = Lp_Ext d (map strip_aliases ps)"
| "strip_aliases (Lp_Node d ps) = Lp_Node d (map strip_aliases ps)"

lemma resolve_strips:
  "\<forall>s \<in> set (plan_scans p). m (sp_scan_id s) = Some (wire_spec s) \<Longrightarrow> resolve_scans m p = strip_aliases p"
  by (induction p) auto

text \<open>A plan the codec is meant for.\<close>

definition plan_ok :: "('d, 'm, 'e) df \<Rightarrow> 'd lplan \<Rightarrow> bool" where
  "plan_ok D plan \<longleftrightarrow> plan_names_ok plan \<and> (\<forall>s \<in> set (plan_scans plan). spec_ok D s) \<and>
     (\<forall>s \<in> set (plan_scans plan). \<forall>t \<in> set (plan_scans plan). sp_scan_id s = sp_scan_id t \<longrightarrow> s = t)"

definition session_fits :: "('d, 'm, 'e) encode_session \<Rightarrow> bool" where
  "session_fits s \<longleftrightarrow> length (es_specs s) < 2 ^ 32 \<and> es_plan_len s < 2 ^ 32"

lemma session_travels:
  assumes K: "mpk_ok K" and D: "df_ok D" and new: "encode_session_new K D plan = Inr s"
    and fits: "session_fits s" and plan: "plan_ok D plan"
  shows "travels K D (es_specs s) (es_node s) plan"
    and "resolve_scans (map_of (spec_table (es_specs s))) plan = strip_aliases plan"
proof -
  define m where "m = collect_pg_scan_specs plan []"
  have c: "collected plan [] m" unfolding m_def by (rule collect_scan_specs) (simp add: table_inv_def)
  note new' = encode_session_new_inv [OF D new fits [unfolded session_fits_def, THEN conjunct1]
      fits [unfolded session_fits_def, THEN conjunct2]]
  have specs: "es_specs s = map snd m" using new'(4) by (simp add: m_def)
  have ids: "map sp_scan_id (es_specs s) = map fst m" using c by (auto simp: specs collected_def table_inv_def)
  have sub: "set (es_specs s) \<subseteq> set (plan_scans plan)" using c by (simp add: specs collected_def)
  have len: "es_plan_len s = length (concat (pb_encode D (es_node s)))"
    using new'(1) D by (simp add: encode_inv_def encodable_def df_ok_def)
  have sorted: "sorted_wrt (<) (map sp_scan_id (es_specs s))" unfolding ids using c by (simp add: collected_def table_inv_def)
  have "sp_scan_id ` set (es_specs s) = set (map sp_scan_id (es_specs s))" by simp
  also have "\<dots> = set (collect_used_scan_ids plan)" unfolding ids using c by (simp add: collected_def used_scan_ids)
  finally have used: "sp_scan_id ` set (es_specs s) = set (collect_used_scan_ids plan)" .
  have ok: "\<forall>t \<in> set (es_specs s). spec_ok D t" using plan sub by (auto simp: plan_ok_def)
  have names: "plan_names_ok plan" using plan by (simp add: plan_ok_def)
  show "travels K D (es_specs s) (es_node s) plan"
    unfolding travels_def len [symmetric] using K D fits new'(5,6) sorted used ok names
    by (simp add: session_fits_def)
  have "map_of (spec_table (es_specs s)) (sp_scan_id t) = Some (wire_spec t)" if t: "t \<in> set (plan_scans plan)" for t
  proof -
    have "sp_scan_id t \<in> fst ` set m" using c t by (simp add: collected_def)
    then have "sp_scan_id t \<in> set (map sp_scan_id (es_specs s))" by (simp only: ids list.set_map)
    then obtain u where u: "u \<in> set (es_specs s)" "sp_scan_id u = sp_scan_id t" by auto
    then have "u = t" using plan sub t by (auto simp: plan_ok_def)
    moreover have "distinct (map fst (spec_table (es_specs s)))"
      using sorted by (simp add: strict_sorted_iff)
    ultimately show ?thesis using u(1) by (auto simp: spec_table_def image_iff intro!: map_of_is_SomeI)
  qed
  then show "resolve_scans (map_of (spec_table (es_specs s))) plan = strip_aliases plan" by (simp add: resolve_strips)
qed

lemma session_stream:
  assumes D: "df_ok D" and new: "encode_session_new K D plan = Inr s" and fits: "session_fits s"
  shows "encode_inv K D s" and "snd (encode_envelope_into K D (es_specs s) (es_node s)) = Inr ()"
    and "concat (fst (encode_envelope_into K D (es_specs s) (es_node s))) = plan_stream K D (es_specs s) (es_node s)"
    and "rest_bytes K D s = plan_stream K D (es_specs s) (es_node s)"
proof -
  have n: "length (es_specs s) < 2 ^ 32" "es_plan_len s < 2 ^ 32" using fits by (simp_all add: session_fits_def)
  note inv = encode_session_new_inv [OF D new n]
  have "pb_encoded_len D (es_node s) < 2 ^ 32" using inv(1) n(2) D by (simp add: encode_inv_def encodable_def df_ok_def)
  then show "snd (encode_envelope_into K D (es_specs s) (es_node s)) = Inr ()"
    "concat (fst (encode_envelope_into K D (es_specs s) (es_node s))) = plan_stream K D (es_specs s) (es_node s)"
    by (rule encode_envelope_stream [OF D n(1) _ inv(6)])+
  show "encode_inv K D s" "rest_bytes K D s = plan_stream K D (es_specs s) (es_node s)" by (rule inv)+
qed

section \<open>A concrete MsgPack and a concrete DataFusion\<close>

text \<open>The formats of fixed width; a boolean is one of its two markers.\<close>

definition mp_read :: "u8 \<Rightarrow> nat \<Rightarrow> bytes \<Rightarrow> mp_error + ('a :: len) word \<times> bytes" where
  "mp_read m n bs = (case bs of
     [] \<Rightarrow> Inl Mp_InvalidMarkerRead
   | b # rest \<Rightarrow> if b \<noteq> m then Inl Mp_TypeMismatch
       else if length rest < n then Inl Mp_InvalidDataRead
       else Inr (of_nat (be_decode (take n rest)), drop n rest))"

definition mp_read_bool :: "bytes \<Rightarrow> mp_error + bool \<times> bytes" where
  "mp_read_bool bs = (case bs of
     [] \<Rightarrow> Inl Mp_InvalidMarkerRead
   | b # rest \<Rightarrow> if b = 0xc2 then Inr (False, rest) else if b = 0xc3 then Inr (True, rest) else Inl Mp_TypeMismatch)"

definition mpk0 :: mpk where
  "mpk0 = \<lparr>k_array_len = marked_write 0xdd 4, k_str = (\<lambda>s. marked_write 0xdb 4 (of_nat (length s) :: u32) @ s),
     k_u8 = marked_write 0xcc 1, k_u32 = marked_write 0xce 4, k_u64 = marked_write 0xcf 8,
     k_bool = (\<lambda>b. [if b then 0xc3 else 0xc2]), k_bin_len = marked_write 0xc6 4,
     g_array_len = mp_read 0xdd 4, g_str_len = mp_read 0xdb 4, g_u8 = mp_read 0xcc 1, g_u32 = mp_read 0xce 4,
     g_u64 = mp_read 0xcf 8, g_bool = mp_read_bool, g_bin_len = mp_read 0xc6 4\<rparr>"

lemma mp_read_reads:
  fixes v :: "('a :: len) word"
  assumes "256 ^ n = (2 :: nat) ^ LENGTH('a)"
  shows "reads_as (mp_read m n) mp_short (marked_write m n v) v"
  unfolding reads_as_def
proof (intro conjI allI impI)
  fix rest
  have "be_decode (be_encode n (unat v)) = unat v" using assms by (intro be_decode_encode) (simp add: unsigned_less)
  then show "mp_read m n (marked_write m n v @ rest) = Inr (v, rest)"
    by (simp add: mp_read_def marked_write_def)
next
  fix p s assume "marked_write m n v = p @ s" "s \<noteq> []"
  then have "p = [] \<or> (\<exists>q. p = m # q \<and> length q < n)"
    by (cases p) (auto simp: marked_write_def dest!: arg_cong [where f = length])
  then show "\<exists>e. mp_read m n p = Inl e \<and> mp_short e" by (auto simp: mp_read_def mp_short_def)
qed

lemma mpk0_ok: "mpk_ok mpk0"
proof -
  have bool: "reads_as mp_read_bool mp_short [if b then 0xc3 else 0xc2] b" for b
    by (auto simp: reads_as_def mp_read_bool_def mp_short_def Cons_eq_append_conv)
  have str: "\<exists>hd. marked_write 0xdb 4 (of_nat (length s) :: u32) @ s = hd @ s \<and>
      reads_as (mp_read 0xdb 4) mp_short hd (of_nat (length s) :: u32)" for s :: bytes
    using mp_read_reads [of 4 "0xdb" "of_nat (length s) :: u32"] by auto
  show ?thesis
    unfolding mpk_ok_def mpk0_def mpk.simps using bool str
    by (intro conjI allI impI mp_read_reads) (simp_all add: marked_write_def word_le_nat_alt)
qed

text \<open>A DataFusion that knows plans of one scan, whose message is the payload of the scan.\<close>

definition df0 :: "(unit, bytes, unit) df" where
  "df0 = \<lparr>df_plan_proto = (\<lambda>enc p. case p of Lp_Scan s \<Rightarrow> enc (Lp_Scan s) | _ \<Rightarrow> Inl ()),
     df_expr_proto = (\<lambda>_. Inr []), df_schema_proto = (\<lambda>_. Inr []), df_plan_parse = (\<lambda>dec m. dec m []),
     df_expr_parse = (\<lambda>_. Inr ()), df_schema_parse = (\<lambda>_. Inr ()), df_schema_fields = (\<lambda>_. 1),
     df_plan_error = (\<lambda>_. ()), pb_encode = (\<lambda>m. [m]), pb_encoded_len = length, pb_decode = (\<lambda>_ b. Inr (b, [])),
     pb_underflow = (\<lambda>_. False)\<rparr>"

lemma df0_ok: "df_ok df0"
  by (auto simp: df_ok_def df0_def split: lplan.splits)

definition spec0 :: "unit pg_scan_spec" where
  "spec0 = \<lparr>sp_scan_id = 7, sp_table_oid = 16384,
     sp_relation = \<lparr>rel_schema = None, rel_table = [0x74], rel_aliases = [[0x61]]\<rparr>,
     sp_compiled_scan = \<lparr>cs_sql = [0x53], cs_requested_limit = Some 3, cs_sql_limit = None, cs_selected_columns = [0],
       cs_output_columns = [0], cs_filter_only_columns = [], cs_residual_filter_columns = [],
       cs_pushed_filters = [\<lparr>cf_original_index = 0, cf_sql = [0x78]\<rparr>], cs_residual_filters = [()],
       cs_all_filters_compiled = False, cs_uses_dummy_projection = False\<rparr>,
     sp_fetch_hints = \<lparr>fh_planner_fetch_hint = Some 3, fh_local_row_cap = None\<rparr>, sp_schema = ()\<rparr>"

definition session0 :: "(unit, bytes, unit) encode_session" where
  "session0 = \<lparr>es_node = encode_scan_id_payload 7, es_specs = [spec0],
     es_spec_lens = [length (spec_bytes mpk0 df0 spec0)], es_plan_len = 9,
     es_state = Enc_Start, es_spec_index = 0, es_active = None, es_finished = False, es_failed = None\<rparr>"

lemma spec0_encodes: "snd (encode_pg_scan_spec_into mpk0 df0 spec0) = Inr ()"
  by (simp add: encode_pg_scan_spec_into_def encode_pg_relation_into_def encode_compiled_scan_into_def
      encode_fetch_hints_into_def encode_pushed_filters_into_def encode_residual_filters_into_def encode_df_schema_into_def
      write_array_of_def write_usize_vec_to_def write_optional_usize_to_def write_optional_string_to_def
      write_protobuf_bin_to_def write_bin_len_to_def u32_try_from_def emit_result_def put_def emits.simps
      spec0_def df0_def)

lemma session0_new: "encode_session_new mpk0 df0 (Lp_Scan spec0) = Inr session0"
proof -
  have "encoded_len_with (encode_pg_scan_spec_into mpk0 df0 spec0) = Inr (length (spec_bytes mpk0 df0 spec0))"
    using spec0_encodes encoded_len_with_concat unfolding spec_bytes_def by (metis prod.collapse)
  moreover have "sp_scan_id spec0 = 7" by (simp add: spec0_def)
  then have "df_plan_proto df0 (try_encode mpk0 df0) (Lp_Scan spec0) = Inr (encode_scan_id_payload 7)"
    by (simp add: df0_def try_encode_def)
  moreover have "pb_encoded_len df0 (encode_scan_id_payload 7) = 9" by (simp add: df0_def encode_scan_id_payload_def)
  ultimately show ?thesis by (simp add: encode_session_new_def session0_def)
qed

lemma session0_fits: "session_fits session0"
  by (simp add: session_fits_def session0_def)

lemma plan0_ok: "plan_ok df0 (Lp_Scan spec0)"
  by (simp add: plan_ok_def spec_ok_def spec0_def relation_ok_def scan_ok_def string_ok_def df0_def word_less_nat_alt)

section \<open>Encoding\<close>

text \<open>C24: However the caller cuts its output into non-empty slices, the streaming encoder writes, in order and with
  nothing added or left out, the bytes that encoding the whole envelope at once would give, as far as the slices go;
  no call panics, loops or fails, and once the slices hold more bytes than the envelope the session is finished.\<close>

theorem plan_encoder_any_slices:
  assumes "df_ok D" and "encode_session_new K D plan = Inr s" and "session_fits s" and "[] \<notin> set outs"
  shows "\<exists>s1 chunks. encode_all K D s outs = Some (s1, chunks) \<and>
    snd (encode_envelope_into K D (es_specs s) (es_node s)) = Inr () \<and>
    concat chunks = take (sum_list (map length outs)) (concat (fst (encode_envelope_into K D (es_specs s) (es_node s)))) \<and>
    (length (concat (fst (encode_envelope_into K D (es_specs s) (es_node s)))) < sum_list (map length outs) \<longrightarrow>
       es_finished s1)"
proof -
  note env = session_stream [OF assms(1-3)]
  from encode_all_effect [OF env(1) assms(4)] show ?thesis unfolding env by blast
qed

theorem plan_encoder_any_slices_witness:
  "\<exists>s1 chunks. encode_all mpk0 df0 session0 [[0, 0, 0], [0, 0]] = Some (s1, chunks) \<and>
    concat chunks = take 5 (concat (fst (encode_envelope_into mpk0 df0 [spec0] (es_node session0))))"
  using plan_encoder_any_slices [OF df0_ok session0_new session0_fits, of "[[0, 0, 0], [0, 0]]"]
  by (auto simp: session0_def eval_nat_numeral simp del: encode_all.simps length_concat)

text \<open>C25: Every call of the encoder ends: whatever has been written before, a further non-empty slice is either filled
  to its last byte or the session is finished, and a finished session writes nothing more.\<close>

theorem plan_encoder_progress:
  assumes "df_ok D" and "encode_session_new K D plan = Inr s" and "session_fits s" and "[] \<notin> set outs"
    and "encode_all K D s outs = Some (s1, chunks)" and "out \<noteq> []"
  shows "\<exists>s2 out2 n. write_chunk K D s1 out =
      Some (s2, out2, Inr (if es_finished s2 then Enc_Finished n else Enc_NeedMoreOutput n)) \<and>
    length out2 = length out \<and> n \<le> length out \<and> drop n out2 = drop n out \<and>
    (\<not> es_finished s2 \<longrightarrow> n = length out) \<and> (es_finished s1 \<longrightarrow> s2 = s1 \<and> n = 0)"
proof -
  have inv: "encode_inv K D s1" using encode_all_effect [OF session_stream(1) [OF assms(1-3)] assms(4)] assms(5) by auto
  show ?thesis
  proof (cases "es_finished s1")
    case True
    with inv show ?thesis by (simp add: write_chunk_def encode_inv_def)
  next
    case False
    from write_chunk_effect [OF inv False assms(6)] obtain s2 w where
      "write_chunk K D s1 out = Some (s2, copy_at out 0 w,
          Inr (if es_finished s2 then Enc_Finished (length w) else Enc_NeedMoreOutput (length w)))"
      "w = take (length out) (rest_bytes K D s1)" "\<not> es_finished s2 \<longrightarrow> length w = length out" .
    then show ?thesis using False by (intro exI [of _ s2] exI conjI) (assumption | simp add: copy_at_def)+
  qed
qed

theorem plan_encoder_progress_witness:
  "\<exists>s2 out2 n. write_chunk mpk0 df0 session0 [0, 0] =
      Some (s2, out2, Inr (if es_finished s2 then Enc_Finished n else Enc_NeedMoreOutput n)) \<and> length out2 = 2 \<and>
      (\<not> es_finished s2 \<longrightarrow> n = 2)"
  using plan_encoder_progress [OF df0_ok session0_new session0_fits, of "[]" session0 "[]" "[0, 0]"]
  by (auto simp: numeral_2_eq_2)

section \<open>Decoding\<close>

text \<open>C23: A plan survives its journey: the stream the encoder writes for it, cut into chunks in any way, is taken by
  the decoder chunk by chunk without an error, and at the end of the input the decoder gives the plan back, complete
  but for the aliases of the scanned relations, which the format does not carry.\<close>

theorem plan_roundtrip_any_chunks:
  assumes "mpk_ok K" and "df_ok D" and "plan_ok D plan" and "encode_session_new K D plan = Inr s" and "session_fits s"
    and "concat chunks = concat (fst (encode_envelope_into K D (es_specs s) (es_node s)))"
  shows "\<exists>s1 s2. push_all K D decode_session_new chunks = Some (s1, Inr Dec_NeedMoreInput) \<and>
    finish_input K D s1 = Some (s2, Inr (Dec_Finished (strip_aliases plan))) \<and> ds_finished s2"
proof -
  note trav = session_travels [OF assms(1,2,4,5,3)]
  have "plan_stream K D (es_specs s) (es_node s) = concat chunks @ []" using assms(6) session_stream(3) [OF assms(2,4,5)] by simp
  from decode_stream [OF trav(1) this] trav(2) show ?thesis by auto
qed

theorem plan_roundtrip_any_chunks_witness:
  "\<exists>s1 s2. push_all mpk0 df0 decode_session_new [concat (fst (encode_envelope_into mpk0 df0 [spec0] (es_node session0)))] =
      Some (s1, Inr Dec_NeedMoreInput) \<and>
    finish_input mpk0 df0 s1 = Some (s2, Inr (Dec_Finished (Lp_Scan (spec0\<lparr>sp_relation :=
      \<lparr>rel_schema = None, rel_table = [0x74], rel_aliases = []\<rparr>\<rparr>)))) \<and> ds_finished s2"
  using plan_roundtrip_any_chunks [OF mpk0_ok df0_ok plan0_ok session0_new session0_fits,
      of "[concat (fst (encode_envelope_into mpk0 df0 [spec0] (es_node session0)))]"]
  by (simp add: session0_def wire_spec_def spec0_def del: push_all.simps)

text \<open>C26: A stream that ends early is never mistaken for a plan: the decoder asks for more input as long as it comes,
  reports an unexpected end of input at the end, and from then on fails every call with that error. Bytes after a
  complete stream are refused as trailing bytes.\<close>

theorem plan_truncation_refused:
  assumes "mpk_ok K" and "df_ok D" and "plan_ok D plan" and "encode_session_new K D plan = Inr s" and "session_fits s"
    and "concat chunks @ fut = concat (fst (encode_envelope_into K D (es_specs s) (es_node s)))"
  shows "\<exists>s1. push_all K D decode_session_new chunks = Some (s1, Inr Dec_NeedMoreInput) \<and>
    (if fut \<noteq> []
     then \<exists>s2 st n. finish_input K D s1 = Some (s2, Inl (Pde_UnexpectedEof st n)) \<and>
       (\<forall>c. push_chunk K D s2 c = Some (s2, Inl (Pde_SessionFailed st (Pde_UnexpectedEof st n)))) \<and>
       finish_input K D s2 = Some (s2, Inl (Pde_SessionFailed st (Pde_UnexpectedEof st n)))
     else \<forall>c. c \<noteq> [] \<longrightarrow> (\<exists>s2. push_chunk K D s1 c = Some (s2, Inl (Pde_TrailingBytes (length c)))))"
proof -
  note trav = session_travels(1) [OF assms(1,2,4,5,3)]
  have "plan_stream K D (es_specs s) (es_node s) = concat chunks @ fut" using assms(6) session_stream(3) [OF assms(2,4,5)] by simp
  note stream = decode_stream [OF trav this]
  show ?thesis
  proof (cases "fut = []")
    case True
    with stream show ?thesis by (simp only: if_False not_True_eq_False simp_thms) blast
  next
    case False
    with stream obtain s1 s2 st n where "push_all K D decode_session_new chunks = Some (s1, Inr Dec_NeedMoreInput)"
      "finish_input K D s1 = Some (s2, Inl (Pde_UnexpectedEof st n))" "ds_failed s2 = Some (st, Pde_UnexpectedEof st n)"
      by auto
    then show ?thesis using False
      by (intro exI [of _ s1]) (auto simp: push_chunk_def finish_input_def [of K D s2] intro!: exI [of _ s2])
  qed
qed

theorem plan_truncation_refused_witness:
  "\<exists>s1 s2 st n. push_all mpk0 df0 decode_session_new
      [butlast (concat (fst (encode_envelope_into mpk0 df0 [spec0] (es_node session0))))] = Some (s1, Inr Dec_NeedMoreInput) \<and>
    finish_input mpk0 df0 s1 = Some (s2, Inl (Pde_UnexpectedEof st n))"
proof -
  let ?b = "concat (fst (encode_envelope_into mpk0 df0 [spec0] (es_node session0)))"
  have "?b \<noteq> []" by (simp add: encode_envelope_into_def emits.simps put_def mpk0_def marked_write_def)
  then have "concat [butlast ?b] @ [last ?b] = concat (fst (encode_envelope_into mpk0 df0 (es_specs session0) (es_node session0)))"
    by (simp add: session0_def)
  from plan_truncation_refused [OF mpk0_ok df0_ok plan0_ok session0_new session0_fits this] show ?thesis
    by (auto simp del: push_all.simps)
qed

end
