(* ===== verification/Plan_Transfer.thy ===== *)
theory Plan_Transfer
  imports Plan_Flow Plan_Props
begin

text \<open>
  A backend role and a worker role at the two ends of an issued page stream: the bytes a plan's encoder has still
  to write, the bytes in the pages under way and the bytes the decoder has had are always the plan's stream.
  The transport between the roles hands every frame on, in order. The page stream is the one of
  \<open>Issuance_Stream\<close>, so its invariants are used as they are.
\<close>

section \<open>The system\<close>

record ('d, 'm, 'e) plan_sys =
  ps_pages :: pool_region
  ps_permits :: iss_region
  ps_backend :: "('d, 'm, 'e) backend_role"
  ps_worker :: "('d, 'm, 'e) worker_role"
  ps_rx :: issued_rx
  ps_wire :: "issued_owned_frame list"
  ps_plan :: "'d lplan option"
  ps_failed :: bool

datatype plan_op = Backend_steps | Worker_accepts

text \<open>A page the backend emits is encoded as a frame, sent, and marked sent; a terminal backend is not stepped.\<close>

definition backend_turn ::
  "rmp \<Rightarrow> mpk \<Rightarrow> ('d, 'm, 'e) df \<Rightarrow> ('d, 'm, 'e) plan_sys \<Rightarrow> ('d, 'm, 'e) plan_sys option" where
  "backend_turn M K D s =
     (if bp_state (ps_backend s) \<noteq> Bps_Opened \<and> bp_state (ps_backend s) \<noteq> Bps_Streaming then Some s
      else do {
        (r, q, b, res) \<leftarrow> backend_step M K D (ps_pages s) (ps_permits s) (ps_backend s);
        (case res of
           Inr (Bstep_OutboundPage _ ob) \<Rightarrow> do {
             f \<leftarrow> issued_frame ob;
             (r1, q1, tx1) \<leftarrow> issued_mark_sent r q (bp_tx b) ob;
             Some (s\<lparr>ps_pages := r1, ps_permits := q1, ps_backend := b\<lparr>bp_tx := tx1\<rparr>, ps_wire := ps_wire s @ [f]\<rparr>)
           }
         | Inr (Bstep_CloseFrame _ f) \<Rightarrow>
             Some (s\<lparr>ps_pages := r, ps_permits := q, ps_backend := b, ps_wire := ps_wire s @ [f]\<rparr>)
         | Inr (Bstep_Blocked _) \<Rightarrow> Some (s\<lparr>ps_pages := r, ps_permits := q, ps_backend := b\<rparr>)
         | _ \<Rightarrow> Some (s\<lparr>ps_pages := r, ps_permits := q, ps_backend := b, ps_failed := True\<rparr>))
      })"

definition worker_turn ::
  "rmp \<Rightarrow> mpk \<Rightarrow> ('d, 'm, 'e) df \<Rightarrow> flow_id \<Rightarrow> ('d, 'm, 'e) plan_sys \<Rightarrow> ('d, 'm, 'e) plan_sys option" where
  "worker_turn M K D flow s = (case ps_wire s of
     [] \<Rightarrow> Some s
   | f # fs \<Rightarrow> do {
       (r, q, rx, w, res) \<leftarrow> accept_frame M K D (ps_pages s) (ps_permits s) (ps_rx s) (ps_worker s) flow f;
       let s1 = s\<lparr>ps_pages := r, ps_permits := q, ps_rx := rx, ps_worker := w, ps_wire := fs\<rparr>;
       Some (case res of
          Inr Wstep_Idle \<Rightarrow> s1
        | Inr (Wstep_Plan _ plan) \<Rightarrow> s1\<lparr>ps_plan := Some plan\<rparr>
        | _ \<Rightarrow> s1\<lparr>ps_failed := True\<rparr>)
     })"

definition plan_turn ::
  "rmp \<Rightarrow> mpk \<Rightarrow> ('d, 'm, 'e) df \<Rightarrow> flow_id \<Rightarrow> plan_op \<Rightarrow> ('d, 'm, 'e) plan_sys \<Rightarrow> ('d, 'm, 'e) plan_sys option" where
  "plan_turn M K D flow op s = (case op of Backend_steps \<Rightarrow> backend_turn M K D s | Worker_accepts \<Rightarrow> worker_turn M K D flow s)"

fun plan_run ::
  "rmp \<Rightarrow> mpk \<Rightarrow> ('d, 'm, 'e) df \<Rightarrow> flow_id \<Rightarrow> plan_op list \<Rightarrow> ('d, 'm, 'e) plan_sys \<Rightarrow> ('d, 'm, 'e) plan_sys option" where
  "plan_run M K D flow [] s = Some s"
| "plan_run M K D flow (op # ops) s = do { s1 \<leftarrow> plan_turn M K D flow op s; plan_run M K D flow ops s1 }"

text \<open>Both roles opened for a plan, over a fresh page pool and a fresh permit pool.\<close>

definition plan_sys_new ::
  "mpk \<Rightarrow> ('d, 'm, 'e) df \<Rightarrow> pool_handle \<Rightarrow> pool_region \<Rightarrow> iss_pool \<Rightarrow> iss_region \<Rightarrow> plan_open \<Rightarrow> 'd lplan \<Rightarrow>
     ('d, 'm, 'e) plan_sys" where
  "plan_sys_new K D h r hp q descr plan =
     \<lparr>ps_pages = r, ps_permits = q,
      ps_backend = fst (backend_plan_open K D (backend_plan_new \<lparr>itx_tx = page_tx_new h, itx_permits = hp\<rparr>) descr plan),
      ps_worker = fst (worker_plan_open worker_plan_new descr),
      ps_rx = \<lparr>irx_rx = page_rx_new h, irx_permits = hp\<rparr>, ps_wire = [], ps_plan = None, ps_failed = False\<rparr>"

section \<open>Sending a chunk\<close>

lemma issued_begin_effect:
  assumes q: "iss_inv hp q pl" "itx_permits itx = hp"
    and r: "pool_inv h r fl" "tx_pool (itx_tx itx) = h" "tx_sendable (itx_tx itx)"
  obtains (blocked) r1 q1 err fl' pl' where "issued_begin r q itx kind flags = Some (r1, q1, itx, Inl err)"
      "is_retryable_backpressure err" "pl = [] \<or> fl = []"
      "pool_inv h r1 fl'" "detached_kept h {} r r1" "leased_set h r1 = leased_set h r"
      "iss_inv hp q1 pl'" "leased_permits q1 = leased_permits q"
  | (begun) r1 q1 d xs x ys where "fl = pd_page_id d # xs" "pl = x # ys" "pool_inv h r1 xs" "valid_desc h r1 d Attached"
      "issued_begin r q itx kind flags = Some (r1, q1, itx\<lparr>itx_tx := (itx_tx itx)\<lparr>tx_phase_of := Phase_Writing\<rparr>\<rparr>,
         Inr \<lparr>iw_writer = \<lparr>pw_lease = Some (lease_of h d), pw_kind = kind, pw_flags = flags, pw_position = 0,
                pw_finished = False\<rparr>,
              iw_permit = Some \<lparr>il_pool = hp, il_permit_id = x, il_detached = False\<rparr>, iw_permits = hp\<rparr>)"
      "detached_kept h {} r r1" "leased_set h r1 = insert (pd_page_id d) (leased_set h r)" "pd_page_id d \<notin> leased_set h r"
      "iss_inv hp q1 ys" "leased_permits q1 = insert x (leased_permits q)" "x \<notin> leased_permits q"
  using q(1)
proof (cases rule: iss_try_acquire_effect)
  case (empty q1)
  have "issued_begin r q itx kind flags = Some (r, q1, itx, Inl Itx_NoPermits)"
    using empty q(2) by (simp add: issued_begin_def)
  then show thesis by (rule blocked [OF _ _ _ r(1) _ _ empty(3,4)]) (simp_all add: empty(1) detached_kept_same)
next
  case (permit x xs q1)
  have tx: "tx_validate_page_size (ph_page_size (tx_pool (itx_tx itx))) = Inr ()" "tx_phase_of (itx_tx itx) = Phase_Idle"
    using r(3) by (auto simp: tx_sendable_def tx_validate_page_size_def)
  from r(1) show thesis
  proof (cases rule: acquire_effect)
    case (empty r1)
    have "x \<in> leased_permits q1" using permit(4) by simp
    from iss_release_effect [OF permit(3) this] obtain q2 where
      rel: "iss_release hp q1 x = Some (q2, Inr ())" "iss_inv hp q2 (x # xs)" "leased_permits q2 = leased_permits q1 - {x}" .
    have idle: "itx\<lparr>itx_tx := (itx_tx itx)\<lparr>tx_phase_of := Phase_Idle\<rparr>\<rparr> = itx" using tx(2) by simp
    have "issued_begin r q itx kind flags = Some (r1, q2, itx, Inl (Itx_Tx (Tx_Acquire Acquire_Empty)))"
      using rel(1) empty permit q(2) r(2) tx idle
      by (simp add: issued_begin_def tx_begin_def enter_writing_def cancel_writer_def permit_drop_def)
    then show thesis
      by (rule blocked [OF _ _ _ empty(3,4,5) rel(2)]) (use empty(1) rel(3) permit(4,5) in auto)
  next
    case (page r1 d ys)
    have "issued_begin r q itx kind flags = Some (r1, q1, itx\<lparr>itx_tx := (itx_tx itx)\<lparr>tx_phase_of := Phase_Writing\<rparr>\<rparr>,
         Inr \<lparr>iw_writer = \<lparr>pw_lease = Some (lease_of h d), pw_kind = kind, pw_flags = flags, pw_position = 0,
                pw_finished = False\<rparr>,
              iw_permit = Some \<lparr>il_pool = hp, il_permit_id = x, il_detached = False\<rparr>, iw_permits = hp\<rparr>)"
      using page permit q(2) r(2) tx by (simp add: issued_begin_def tx_begin_def enter_writing_def)
    then show thesis by (rule begun [OF page(1) permit(1) page(3,4) _ page(5,6,7) permit(3,4,5)])
  qed
qed

text \<open>
  Filling the slice of a page and finishing it with the number of bytes written is writing these bytes and
  finishing: the rest of the slice has not changed.
\<close>

lemma copy_at_again:
  assumes "length w \<le> n" and "start + n \<le> length xs"
  shows "copy_at xs start (copy_at (take n (drop start xs)) 0 w) = copy_at xs start w"
proof -
  let ?ys = "drop start xs"
  have "drop (length w) (take n ?ys) @ drop (n - length w) (drop (length w) ?ys) = drop (length w) ?ys"
    by (simp only: drop_take append_take_drop_id)
  moreover have "drop (n - length w) (drop (length w) ?ys) = drop (start + n) xs"
    using assms(1) by (simp add: add.commute)
  moreover have "length (copy_at (take n ?ys) 0 w) = n" using assms by simp
  ultimately show ?thesis by (simp add: copy_at_def [of xs] copy_at_def [of "take n ?ys"] add.commute)
qed

lemma writer_finish_len_position:
  "writer_finish_with_payload_len M r tx (w\<lparr>pw_position := n\<rparr>) len = writer_finish_with_payload_len M r tx w len"
proof (cases w)
  case (fields lease kind flags position finished)
  show ?thesis
    unfolding fields writer_finish_with_payload_len_def writer_payload_capacity_def writer_drop_def Let_def
      page_writer.simps ..
qed

lemma finish_len_position:
  "issued_finish_with_payload_len M r q itx (w\<lparr>iw_writer := (iw_writer w)\<lparr>pw_position := n\<rparr>\<rparr>) len =
   issued_finish_with_payload_len M r q itx w len"
proof (cases w)
  case (fields writer permit permits)
  show ?thesis
    unfolding fields issued_finish_with_payload_len_def issued_writer.simps writer_finish_len_position ..
qed

lemma fill_page:
  assumes inv: "pool_inv h r xs" and v: "valid_desc h r d Attached" and ps: "page_header_len \<le> ph_page_size h"
    and w: "pw_lease w = Some (lease_of h d)" "pw_position w = 0"
    and n: "length bs \<le> ph_page_size h - page_header_len"
  obtains out r2 where "writer_payload r w = Some out" "length out = ph_page_size h - page_header_len"
    "writer_fill_payload r w (copy_at out 0 bs) = Some r2"
    "writer_write_all r w bs = Some (r2, w\<lparr>pw_position := length bs\<rparr>, Inr ())"
proof -
  have len: "length (lease_bytes r (lease_of h d)) = ph_page_size h"
    using v length_page_slice [OF inv] by (simp add: lease_bytes_of valid_desc_def)
  let ?cap = "ph_page_size h - page_header_len" and ?l = "lease_of h d"
  let ?out = "take ?cap (drop page_header_len (lease_bytes r ?l))"
  have cap: "writer_payload_capacity r w = Some ?cap" using w len by (simp add: writer_payload_capacity_def)
  have out: "writer_payload r w = Some ?out" "length ?out = ?cap" using cap w len ps by (simp_all add: writer_payload_def)
  have fill: "writer_fill_payload r w (copy_at ?out 0 bs) = Some (lease_write r ?l page_header_len (copy_at ?out 0 bs))"
    using cap w len ps n out(2) by (simp add: writer_fill_payload_def)
  let ?start = "unat (pd_page_id d) * ph_page_size h + page_header_len"
  have in_data: "?start + ?cap \<le> length (rg_data r)"
    using page_in_data [OF inv, of "unat (pd_page_id d)"] v ps by (simp add: valid_desc_def)
  have "?out = take ?cap (drop ?start (rg_data r))"
    by (simp add: lease_bytes_of page_slice_def drop_take add.commute)
  then have "lease_write r ?l page_header_len (copy_at ?out 0 bs) = lease_write r ?l page_header_len bs"
    using copy_at_again [OF n in_data] by (simp add: lease_write_def page_write_def lease_of_def)
  note fill = fill [unfolded this]
  have "writer_write_all r w bs = Some (lease_write r ?l page_header_len bs, w\<lparr>pw_position := length bs\<rparr>, Inr ())"
  proof (cases "bs = []")
    case True
    then show ?thesis
      using w by (subst writer_write_all.simps) (simp add: lease_write_def page_write_def copy_at_def)
  next
    case False
    then have "page_header_len < ph_page_size h" "page_header_len + length bs \<le> ph_page_size h"
      using n by (cases bs; simp)+
    then have "writer_write r w bs = Some (lease_write r ?l page_header_len bs, w\<lparr>pw_position := length bs\<rparr>, length bs)"
      using cap w len n by (simp add: writer_write_def writer_remaining_def Let_def)
    with False show ?thesis
      by (subst writer_write_all.simps) (simp add: writer_write_all.simps [of _ _ "[]"])
  qed
  with out fill show thesis by (rule that)
qed

lemma backend_emits:
  "bp_state b = Bps_Opened \<or> bp_state b = Bps_Streaming \<Longrightarrow>
     backend_emit b Bpv_EmitPage step = (b\<lparr>bp_state := Bps_Streaming\<rparr>, Inr step)"
  "bp_state b = Bps_Opened \<or> bp_state b = Bps_Streaming \<Longrightarrow>
     backend_emit b Bpv_EmitClose step = (b\<lparr>bp_state := Bps_SuccessTerminal\<rparr>, Inr step)"
  by (auto simp: backend_emit_def consume_backend_event_def backend_plan_flow_def fsm_next_def)

text \<open>
  A step of the backend that is not the close is the send of one message over the stream: the next bytes of the plan,
  as many as the page holds.
\<close>

definition next_message :: "mpk \<Rightarrow> ('d, 'm, 'e) df \<Rightarrow> pool_handle \<Rightarrow> plan_open \<Rightarrow> ('d, 'm, 'e) encode_session \<Rightarrow> message" where
  "next_message K D h descr enc = (po_page_kind descr, po_page_flags descr,
     take (ph_page_size h - page_header_len) (rest_bytes K D enc))"

lemma backend_page_step_effect:
  assumes M: "rmp_ok M" and plain: "stream_inv M h (plain_stream ist) ms" and permits: "permits_inv hp ist"
    and pl: "iss_inv hp (is_permits ist) pl" and fl: "pool_inv h (is_pages ist) fl" and ps: "page_header_len < ph_page_size h"
    and enc: "encode_inv K D enc" "\<not> es_finished enc" "item_pending enc" "0 < es_plan_len enc"
    and b: "bp_tx b = is_tx ist" "bp_state b = Bps_Opened \<or> bp_state b = Bps_Streaming"
  obtains (blocked) r q tx where
      "backend_page_step M K D (is_pages ist) (is_permits ist) b descr enc =
         Some (r, q, b\<lparr>bp_tx := tx\<rparr>, Inr (Bstep_Blocked (po_flow descr)))"
      "issued_send_message M (is_pages ist) (is_permits ist) (is_tx ist) (next_message K D h descr enc) = Some (r, q, tx, None)"
      "pl = [] \<or> fl = []"
  | (page) r q tx enc' ob f r' q' tx' where
      "backend_page_step M K D (is_pages ist) (is_permits ist) b descr enc =
         Some (r, q, b\<lparr>bp_state := Bps_Streaming, bp_tx := tx, bp_runtime := Some (descr, enc')\<rparr>,
           Inr (Bstep_OutboundPage (po_flow descr) ob))"
      "issued_frame ob = Some f" "issued_mark_sent r q tx ob = Some (r', q', tx')"
      "issued_send_message M (is_pages ist) (is_permits ist) (is_tx ist) (next_message K D h descr enc) =
         Some (r', q', tx', Some f)"
      "encode_inv K D enc'" "item_pending enc'" "same_plan enc enc'"
      "rest_bytes K D enc = snd (snd (next_message K D h descr enc)) @ rest_bytes K D enc'"
      "snd (snd (next_message K D h descr enc)) \<noteq> []"
proof -
  let ?r = "is_pages ist" and ?q = "is_permits ist" and ?tx = "is_tx ist" and ?kind = "po_page_kind descr"
    and ?flags = "po_page_flags descr" and ?m = "next_message K D h descr enc"
  have tx: "itx_permits ?tx = hp" "tx_pool (itx_tx ?tx) = h" "tx_sendable (itx_tx ?tx)"
    using plain permits by (auto simp: stream_inv_def ends_ok_def plain_stream_def permits_inv_def)
  from pl tx(1) fl tx(2,3) show thesis
  proof (cases rule: issued_begin_effect [where kind = ?kind and flags = ?flags])
    case (blocked r q err)
    have "backend_page_step M K D ?r ?q b descr enc = Some (r, q, b\<lparr>bp_tx := ?tx\<rparr>, Inr (Bstep_Blocked (po_flow descr)))"
      using blocked(1,2) b(1) by (simp add: backend_page_step_def Let_def)
    moreover have "issued_send_message M ?r ?q ?tx ?m = Some (r, q, ?tx, None)"
      using blocked(1) by (simp add: issued_send_message_def next_message_def)
    ultimately show thesis using blocked(3) by (rule that(1))
  next
    case (begun r1 q1 d xs x ys)
    define W where "W = \<lparr>iw_writer = \<lparr>pw_lease = Some (lease_of h d), pw_kind = ?kind, pw_flags = ?flags, pw_position = 0,
      pw_finished = False\<rparr>, iw_permit = Some \<lparr>il_pool = hp, il_permit_id = x, il_detached = False\<rparr>, iw_permits = hp\<rparr>"
    define tx1 where "tx1 = ?tx\<lparr>itx_tx := (itx_tx ?tx)\<lparr>tx_phase_of := Phase_Writing\<rparr>\<rparr>"
    note started = begun(5) [folded W_def tx1_def]
    define w where "w = take (ph_page_size h - page_header_len) (rest_bytes K D enc)"
    have W: "pw_lease (iw_writer W) = Some (lease_of h d)" "pw_position (iw_writer W) = 0" by (simp_all add: W_def)
    have len: "length w \<le> ph_page_size h - page_header_len" by (simp add: w_def)
    from fill_page [OF begun(3,4) less_imp_le [OF ps] W len] obtain out r2 where
      out: "writer_payload r1 (iw_writer W) = Some out" "length out = ph_page_size h - page_header_len"
        "writer_fill_payload r1 (iw_writer W) (copy_at out 0 w) = Some r2"
        "writer_write_all r1 (iw_writer W) w = Some (r2, (iw_writer W)\<lparr>pw_position := length w\<rparr>, Inr ())" .
    have "out \<noteq> []" using out(2) ps by auto
    from write_chunk_effect [OF enc(1,2) this] obtain enc' w' where
      chunk: "write_chunk K D enc out = Some (enc', copy_at out 0 w',
          Inr (if es_finished enc' then Enc_Finished (length w') else Enc_NeedMoreOutput (length w')))"
      "w' = take (length out) (rest_bytes K D enc)" "encode_inv K D enc'" "same_plan enc enc'"
      "rest_bytes K D enc' = drop (length w') (rest_bytes K D enc)" "item_pending enc'" .
    have w': "w' = w" using chunk(2) out(2) by (simp add: w_def)
    have w_ne: "w \<noteq> []" using rest_bytes_left [OF enc] ps by (simp add: w_def)
    let ?fin = "issued_finish_with_payload_len M r2 q1 tx1 W (length w)"
    have send: "issued_send_message M ?r ?q ?tx ?m = do {
        (r3, q3, itx3, fin) \<leftarrow> ?fin;
        (case fin of Inl _ \<Rightarrow> Some (r3, q3, itx3, None)
         | Inr ob \<Rightarrow> do { f \<leftarrow> issued_frame ob; (r4, q4, itx4) \<leftarrow> issued_mark_sent r3 q3 itx3 ob; Some (r4, q4, itx4, Some f) }) }"
      using started out(4)
      by (simp add: issued_send_message_def next_message_def w_def [symmetric] issued_write_all_def issued_finish_def
          finish_len_position)
    have "\<exists>r' q' tx' f. issued_send_message M ?r ?q ?tx ?m = Some (r', q', tx', Some f)"
    proof -
      have fits: "page_header_len + length w \<le> ph_page_size h" using len ps by simp
      from M fl tx(2,3) obtain r' tx' f where
        msg: "send_message M ?r (itx_tx ?tx) ?m = Some (r', tx', Some f)"
      proof (cases rule: send_message_effect [where kind = ?kind and flags = ?flags and payload = w])
        case (refused r' fl')
        with begun(1) fits show ?thesis by simp
      next
        case (sent r' d' xs')
        with that show ?thesis by (simp add: next_message_def w_def [symmetric])
      qed
      from pl tx(1) msg show ?thesis by (cases rule: issued_send_message_effect) (use begun(2) in auto)
    qed
    then obtain r3 q3 tx3 ob f r' q' tx' where
      fin: "?fin = Some (r3, q3, tx3, Inr ob)" "issued_frame ob = Some f" "issued_mark_sent r3 q3 tx3 ob = Some (r', q', tx')"
      and sent: "issued_send_message M ?r ?q ?tx ?m = Some (r', q', tx', Some f)"
      unfolding send by (auto split: Option.bind_splits sum.splits prod.splits)
    have "backend_page_step M K D ?r ?q b descr enc =
         Some (r3, q3, b\<lparr>bp_state := Bps_Streaming, bp_tx := tx3, bp_runtime := Some (descr, enc')\<rparr>,
           Inr (Bstep_OutboundPage (po_flow descr) ob))"
      using started b out(1,3) chunk(1) w' w_ne fin(1)
      by (auto simp: backend_page_step_def Let_def backend_emits)
    moreover have "w = take (length w) (rest_bytes K D enc)" by (simp add: w_def min_def)
    then have "rest_bytes K D enc = w @ rest_bytes K D enc'" using chunk(5) w' by (metis append_take_drop_id)
    moreover have "snd (snd ?m) = w" by (simp add: next_message_def w_def)
    ultimately show thesis using w_ne by (intro that(2) [OF _ fin(2,3) sent chunk(3,6,4)]) simp_all
  qed
qed

section \<open>Taking a page\<close>

lemma stream_inv_unique: "stream_inv M h s ms \<Longrightarrow> st_sent s = st_got s @ ms' \<Longrightarrow> ms = ms'"
  by (simp add: stream_inv_def ends_ok_def)

text \<open>Accepting the next page, reading it and dropping it is delivering it and releasing it at once.\<close>

lemma worker_takes_page:
  assumes M: "rmp_ok M" and plain: "stream_inv M h (plain_stream ist) (m # ms)" and permits: "permits_inv hp ist"
    and held: "is_held ist = []"
  obtains f fs p page rx r q where "is_wire ist = f # fs"
    "issued_accept M (is_pages ist) (is_permits ist) (is_rx ist) f =
       Some (is_pages ist, is_permits ist, rx, Inr (Issue_Page p))"
    "irp_page p = Some page" "(rp_kind page, rp_flags page, snd (snd m)) = m"
    "issued_payload (rx_pool (irx_rx rx)) (is_pages ist) p = Some (snd (snd m))"
    "issued_received_drop (rx_pool (irx_rx rx)) (is_pages ist) (is_permits ist) p = Some (r, q)"
    "stream_inv M h (plain_stream (ist\<lparr>is_pages := r, is_permits := q, is_rx := rx, is_wire := fs,
       is_got := is_got ist @ [m]\<rparr>)) ms"
    "permits_inv hp (ist\<lparr>is_pages := r, is_permits := q, is_rx := rx, is_wire := fs, is_got := is_got ist @ [m]\<rparr>)"
proof -
  from istream_accept [OF M plain permits] obtain pf fs d rx' where
    wire: "is_wire ist = Issued_Page pf # fs" and rx: "rx_pool rx' = h"
    and acc: "issued_accept M (is_pages ist) (is_permits ist) (is_rx ist) (Issued_Page pf) =
       Some (is_pages ist, is_permits ist, (is_rx ist)\<lparr>irx_rx := rx'\<rparr>, Inr (Issue_Page \<lparr>irp_page = Some (received_of d m),
         irp_permits = hp, irp_permit_id = if_permit_id pf, irp_released = False\<rparr>))"
    and pay: "received_payload h (is_pages ist) (received_of d m) = Some (snd (snd m))"
      "(rp_kind (received_of d m), rp_flags (received_of d m), snd (snd m)) = m" .
  let ?p = "\<lparr>irp_page = Some (received_of d m), irp_permits = hp, irp_permit_id = if_permit_id pf, irp_released = False\<rparr>"
    and ?rx = "(is_rx ist)\<lparr>irx_rx := rx'\<rparr>"
  define s1 where "s1 = ist\<lparr>is_rx := ?rx, is_wire := fs, is_held := [(?p, m)], is_got := is_got ist @ [m]\<rparr>"
  have "istream_step M Deliver ist = Some s1"
    using wire acc pay rx held by (simp add: s1_def issued_payload_def Let_def)
  with istream_step_ok [OF M plain permits, of Deliver] obtain ms1 where
    inv1: "stream_inv M h (plain_stream s1) ms1" "permits_inv hp s1" by auto
  have sent: "is_sent ist = is_got ist @ m # ms" using plain by (simp add: stream_inv_def ends_ok_def plain_stream_def)
  from inv1(1) obtain fl where fl: "pool_inv h (is_pages ist) fl" by (auto simp: stream_inv_def plain_stream_def s1_def)
  from inv1(2) obtain pl where pl: "iss_inv hp (is_permits ist) pl" and leased: "if_permit_id pf \<in> leased_permits (is_permits ist)"
    by (auto simp: permits_inv_def live_permits_def s1_def)
  let ?d = "rp_descriptor (received_of d m)"
  have "valid_desc h (is_pages ist) ?d Detached"
    using live_page_detached [OF inv1(1), of ?d] by (simp add: live_pages_def plain_stream_def s1_def)
  from release_effect [OF fl this] obtain r where r: "pool_release h (is_pages ist) ?d = Some (r, Inr ())" .
  from iss_release_effect [OF pl leased] obtain q where q: "iss_release hp (is_permits ist) (if_permit_id pf) = Some (q, Inr ())" .
  define s2 where "s2 = ist\<lparr>is_pages := r, is_permits := q, is_rx := ?rx, is_wire := fs, is_got := is_got ist @ [m]\<rparr>"
  have "istream_step M (Release_held 0) s1 = Some s2"
    using r q rx held by (simp add: s1_def s2_def issued_release_def received_release_def issued_received_drop_def)
  with istream_step_ok [OF M inv1, of "Release_held 0"] obtain ms2 where
    inv2: "stream_inv M h (plain_stream s2) ms2" "permits_inv hp s2" by auto
  have "ms2 = ms" by (rule stream_inv_unique [OF inv2(1)]) (simp add: s2_def plain_stream_def sent)
  with inv2 have "stream_inv M h (plain_stream s2) ms" by simp
  moreover have "issued_received_drop (rx_pool (irx_rx ?rx)) (is_pages ist) (is_permits ist) ?p = Some (r, q)"
    using r q rx by (simp add: issued_received_drop_def received_drop_def)
  ultimately show thesis
    using that [OF wire acc _ pay(2)] inv2(2) pay(1) rx by (simp add: issued_payload_def s2_def)
qed

section \<open>The invariant\<close>

definition payload_bytes :: "message list \<Rightarrow> bytes" where
  "payload_bytes ms = concat (map (snd \<circ> snd) ms)"

lemma payload_bytes_simps [simp]:
  "payload_bytes [] = []" "payload_bytes (m # ms) = snd (snd m) @ payload_bytes ms"
  "payload_bytes (ms @ ms') = payload_bytes ms @ payload_bytes ms'"
  by (simp_all add: payload_bytes_def)

text \<open>The regions are those of a stream nobody holds a page of.\<close>

definition regions_inv ::
  "rmp \<Rightarrow> pool_handle \<Rightarrow> iss_pool \<Rightarrow> ('d, 'm, 'e) plan_sys \<Rightarrow> istream \<Rightarrow> message list \<Rightarrow> bool" where
  "regions_inv M h hp s ist ms \<longleftrightarrow> stream_inv M h (plain_stream ist) ms \<and> permits_inv hp ist \<and> is_held ist = [] \<and>
     ps_pages s = is_pages ist \<and> ps_permits s = is_permits ist \<and> \<not> ps_failed s"

text \<open>
  While the plan is under way, the worker expects the payloads of the pages on the wire and then \<open>fut\<close>; the frames
  on the wire are these pages and then \<open>tail\<close>.
\<close>

definition worker_inv ::
  "mpk \<Rightarrow> ('d, 'm, 'e) df \<Rightarrow> plan_open \<Rightarrow> 'd pg_scan_spec list \<Rightarrow> 'm \<Rightarrow> 'd lplan \<Rightarrow> ('d, 'm, 'e) plan_sys \<Rightarrow> istream \<Rightarrow>
     message list \<Rightarrow> issued_owned_frame list \<Rightarrow> bytes \<Rightarrow> bool" where
  "worker_inv K D descr specs node plan s ist ms tail fut \<longleftrightarrow>
     ps_rx s = is_rx ist \<and> ps_wire s = is_wire ist @ tail \<and> ps_plan s = None \<and>
     (wp_state (ps_worker s) = Wps_Opened \<or> wp_state (ps_worker s) = Wps_Receiving) \<and>
     (\<forall>m \<in> set ms. fst m = po_page_kind descr \<and> fst (snd m) = po_page_flags descr) \<and>
     (\<exists>dec j. wp_runtime (ps_worker s) = Some (descr, dec) \<and>
        decode_inv K D specs node plan dec j (payload_bytes ms @ fut))"

definition backend_inv ::
  "mpk \<Rightarrow> ('d, 'm, 'e) df \<Rightarrow> plan_open \<Rightarrow> ('d, 'm, 'e) plan_sys \<Rightarrow> istream \<Rightarrow> ('d, 'm, 'e) encode_session \<Rightarrow> bool" where
  "backend_inv K D descr s ist enc \<longleftrightarrow>
     (bp_state (ps_backend s) = Bps_Opened \<or> bp_state (ps_backend s) = Bps_Streaming) \<and>
     bp_tx (ps_backend s) = is_tx ist \<and> bp_runtime (ps_backend s) = Some (descr, enc) \<and>
     encode_inv K D enc \<and> item_pending enc \<and> 0 < es_plan_len enc"

definition close_frame :: "istream \<Rightarrow> issued_owned_frame" where
  "close_frame ist = Issued_Close (nth_id (length (is_sent ist)))"

text \<open>Streaming, closing, done.\<close>

definition plan_inv ::
  "rmp \<Rightarrow> mpk \<Rightarrow> ('d, 'm, 'e) df \<Rightarrow> pool_handle \<Rightarrow> iss_pool \<Rightarrow> plan_open \<Rightarrow> 'd pg_scan_spec list \<Rightarrow> 'm \<Rightarrow> 'd lplan \<Rightarrow>
     ('d, 'm, 'e) plan_sys \<Rightarrow> bool" where
  "plan_inv M K D h hp descr specs node plan s \<longleftrightarrow> (\<exists>ist ms. regions_inv M h hp s ist ms \<and>
     ((\<exists>enc. backend_inv K D descr s ist enc \<and>
         worker_inv K D descr specs node plan s ist ms [] (rest_bytes K D enc)) \<or>
      bp_state (ps_backend s) = Bps_SuccessTerminal \<and> worker_inv K D descr specs node plan s ist ms [close_frame ist] [] \<or>
      bp_state (ps_backend s) = Bps_SuccessTerminal \<and> ps_wire s = [] \<and> ms = [] \<and>
         ps_plan s = Some (resolve_scans (map_of (spec_table specs)) plan)))"

lemma finished_rest: "encode_inv K D enc \<Longrightarrow> es_finished enc \<Longrightarrow> rest_bytes K D enc = []"
  by (auto simp: encode_inv_def rest_bytes_def session_items_def items_bytes_def)

lemma backend_sends:
  assumes M: "rmp_ok M" and ps: "page_header_len < ph_page_size h"
    and reg: "regions_inv M h hp s ist ms" and bck: "backend_inv K D descr s ist enc"
    and work: "worker_inv K D descr specs node plan s ist ms [] (rest_bytes K D enc)" and "\<not> es_finished enc"
    and pl: "iss_inv hp (is_permits ist) pl" and fl: "pool_inv h (is_pages ist) fl"
  obtains s' ist' ms' enc' where "backend_turn M K D s = Some s'" "regions_inv M h hp s' ist' ms'"
    "backend_inv K D descr s' ist' enc'" "worker_inv K D descr specs node plan s' ist' ms' [] (rest_bytes K D enc')"
    "pl \<noteq> [] \<and> fl \<noteq> [] \<longrightarrow> (\<exists>m. ms' = ms @ [m]) \<and> length (rest_bytes K D enc') < length (rest_bytes K D enc)"
proof -
  let ?m = "next_message K D h descr enc" and ?b = "ps_backend s"
  have reg': "stream_inv M h (plain_stream ist) ms" "permits_inv hp ist" "is_held ist = []" "ps_pages s = is_pages ist"
    "ps_permits s = is_permits ist" "\<not> ps_failed s" using reg by (simp_all add: regions_inv_def)
  have bck': "bp_tx ?b = is_tx ist" "bp_state ?b = Bps_Opened \<or> bp_state ?b = Bps_Streaming" "encode_inv K D enc"
    "item_pending enc" "0 < es_plan_len enc" "bp_runtime ?b = Some (descr, enc)" using bck by (simp_all add: backend_inv_def)
  have step: "backend_step M K D (ps_pages s) (ps_permits s) ?b =
      backend_page_step M K D (is_pages ist) (is_permits ist) ?b descr enc"
    using bck' assms(6) reg'(4,5) by (auto simp: backend_step_def)
  have sent: "is_sent ist = is_got ist @ ms" using reg'(1) by (simp add: stream_inv_def ends_ok_def plain_stream_def)
  from M reg'(1,2) pl fl ps bck'(3) assms(6) bck'(4,5,1,2) show thesis
  proof (cases rule: backend_page_step_effect [where descr = descr])
    case (blocked r q tx)
    let ?ist = "ist\<lparr>is_pages := r, is_permits := q, is_tx := tx\<rparr>"
      and ?s = "s\<lparr>ps_pages := r, ps_permits := q, ps_backend := ?b\<lparr>bp_tx := tx\<rparr>\<rparr>"
    have "istream_step M (Send ?m) ist = Some ?ist" using blocked(2) by simp
    with istream_step_ok [OF M reg'(1,2), of "Send ?m"] obtain ms' where
      inv: "stream_inv M h (plain_stream ?ist) ms'" "permits_inv hp ?ist" by auto
    have "ms' = ms" by (rule stream_inv_unique [OF inv(1)]) (simp add: plain_stream_def sent)
    show thesis
    proof (rule that [of ?s ?ist ms enc])
      show "backend_turn M K D s = Some ?s" using step blocked(1) bck'(2) by (auto simp: backend_turn_def)
    qed (use inv \<open>ms' = ms\<close> reg' bck work blocked(3) in \<open>auto simp: regions_inv_def backend_inv_def worker_inv_def\<close>)
  next
    case (page r q tx enc' ob f r' q' tx')
    let ?ist = "ist\<lparr>is_pages := r', is_permits := q', is_tx := tx', is_wire := is_wire ist @ [f], is_sent := is_sent ist @ [?m]\<rparr>"
      and ?s = "s\<lparr>ps_pages := r', ps_permits := q', ps_wire := ps_wire s @ [f],
        ps_backend := ?b\<lparr>bp_state := Bps_Streaming, bp_tx := tx', bp_runtime := Some (descr, enc')\<rparr>\<rparr>"
    have "istream_step M (Send ?m) ist = Some ?ist" using page(4) by simp
    with istream_step_ok [OF M reg'(1,2), of "Send ?m"] obtain ms' where
      inv: "stream_inv M h (plain_stream ?ist) ms'" "permits_inv hp ?ist" by auto
    have ms': "ms' = ms @ [?m]" by (rule stream_inv_unique [OF inv(1)]) (simp add: plain_stream_def sent)
    have kind: "fst ?m = po_page_kind descr" "fst (snd ?m) = po_page_flags descr" by (simp_all add: next_message_def)
    have len: "es_plan_len enc' = es_plan_len enc" using page(7) by (simp add: same_plan_def)
    show thesis
    proof (rule that [of ?s ?ist ms' enc'])
      show "backend_turn M K D s = Some ?s"
        using step page(1-3) bck'(2) by (auto simp: backend_turn_def)
      show "worker_inv K D descr specs node plan ?s ?ist ms' [] (rest_bytes K D enc')"
        using work page(8) kind by (auto simp: worker_inv_def ms')
      show "pl \<noteq> [] \<and> fl \<noteq> [] \<longrightarrow> (\<exists>m. ms' = ms @ [m]) \<and> length (rest_bytes K D enc') < length (rest_bytes K D enc)"
        using page(8,9) by (auto simp: ms' simp del: split_paired_Ex)
    qed (use inv reg' bck' page ms' len in \<open>simp_all add: regions_inv_def backend_inv_def\<close>)
  qed
qed

lemma backend_closes:
  assumes reg: "regions_inv M h hp s ist ms" and bck: "backend_inv K D descr s ist enc" and "es_finished enc"
    and work: "worker_inv K D descr specs node plan s ist ms [] (rest_bytes K D enc)"
  obtains s' where "backend_turn M K D s = Some s'" "regions_inv M h hp s' ist ms"
    "bp_state (ps_backend s') = Bps_SuccessTerminal" "worker_inv K D descr specs node plan s' ist ms [close_frame ist] []"
proof -
  have bck': "bp_tx (ps_backend s) = is_tx ist" "bp_state (ps_backend s) = Bps_Opened \<or> bp_state (ps_backend s) = Bps_Streaming"
    "bp_runtime (ps_backend s) = Some (descr, enc)" "encode_inv K D enc" using bck by (simp_all add: backend_inv_def)
  have tx: "tx_phase_of (itx_tx (is_tx ist)) = Phase_Idle" "tx_next_transfer_id (itx_tx (is_tx ist)) = nth_id (length (is_sent ist))"
    using reg by (auto simp: regions_inv_def stream_inv_def ends_ok_def plain_stream_def tx_sendable_def)
  obtain tx' where close: "issued_close (is_tx ist) = Some (tx', Inr (close_frame ist))"
    using tx by (simp add: issued_close_def tx_close_def reserve_transfer_id_def close_frame_def Let_def)
  let ?s = "s\<lparr>ps_backend := (ps_backend s)\<lparr>bp_state := Bps_SuccessTerminal, bp_tx := tx'\<rparr>, ps_wire := ps_wire s @ [close_frame ist]\<rparr>"
  have "backend_step M K D (ps_pages s) (ps_permits s) (ps_backend s) =
      Some (ps_pages s, ps_permits s, (ps_backend s)\<lparr>bp_state := Bps_SuccessTerminal, bp_tx := tx'\<rparr>,
        Inr (Bstep_CloseFrame (po_flow descr) (close_frame ist)))"
    using bck' assms(3) close by (auto simp: backend_step_def backend_close_step_def backend_emits)
  then have "backend_turn M K D s = Some ?s" using bck'(2) by (auto simp: backend_turn_def)
  then show thesis
    by (rule that) (use reg work finished_rest [OF bck'(4) assms(3)] in \<open>simp_all add: regions_inv_def worker_inv_def\<close>)
qed

lemma worker_emits:
  "wp_state w = Wps_Opened \<or> wp_state w = Wps_Receiving \<Longrightarrow>
     worker_emit w Wpv_AcceptPage step = (w\<lparr>wp_state := Wps_Receiving\<rparr>, Inr step)"
  "wp_state w = Wps_Opened \<or> wp_state w = Wps_Receiving \<Longrightarrow>
     worker_emit w Wpv_AcceptClose step = (w\<lparr>wp_state := Wps_SuccessTerminal\<rparr>, Inr step)"
  by (auto simp: worker_emit_def consume_worker_event_def worker_plan_flow_def fsm_next_def)

lemma push_chunk_effect:
  assumes "travels K D specs node plan" and "decode_inv K D specs node plan dec j (chunk @ fut)"
  obtains dec' j' where "push_chunk K D dec chunk = Some (dec', Inr Dec_NeedMoreInput)"
    "decode_inv K D specs node plan dec' j' fut"
proof -
  have "decode_inv K D specs node plan dec j (concat [chunk] @ fut)" using assms(2) by simp
  from push_all_effect [OF assms(1) this] obtain dec' j' where
    push: "push_all K D dec [chunk] = Some (dec', Inr Dec_NeedMoreInput)" and inv: "decode_inv K D specs node plan dec' j' fut" .
  from push have "push_chunk K D dec chunk = Some (dec', Inr Dec_NeedMoreInput)"
    by (auto split: Option.bind_splits sum.splits prod.splits decode_progress.splits)
  then show thesis using inv by (rule that)
qed

lemma worker_takes:
  assumes M: "rmp_ok M" and trav: "travels K D specs node plan" and reg: "regions_inv M h hp s ist (m # ms)"
    and work: "worker_inv K D descr specs node plan s ist (m # ms) tail fut"
  obtains s' ist' where "worker_turn M K D (po_flow descr) s = Some s'" "regions_inv M h hp s' ist' ms"
    "worker_inv K D descr specs node plan s' ist' ms tail fut" "ps_backend s' = ps_backend s"
    "is_tx ist' = is_tx ist" "is_sent ist' = is_sent ist"
proof -
  have reg': "stream_inv M h (plain_stream ist) (m # ms)" "permits_inv hp ist" "is_held ist = []"
    "ps_pages s = is_pages ist" "ps_permits s = is_permits ist" "\<not> ps_failed s"
    using reg by (simp_all add: regions_inv_def)
  from worker_takes_page [OF M reg'(1-3)] obtain f fs p page rx r q where wire: "is_wire ist = f # fs"
    and acc: "issued_accept M (is_pages ist) (is_permits ist) (is_rx ist) f =
       Some (is_pages ist, is_permits ist, rx, Inr (Issue_Page p))"
    and p: "irp_page p = Some page" "(rp_kind page, rp_flags page, snd (snd m)) = m"
      "issued_payload (rx_pool (irx_rx rx)) (is_pages ist) p = Some (snd (snd m))"
      "issued_received_drop (rx_pool (irx_rx rx)) (is_pages ist) (is_permits ist) p = Some (r, q)"
    and inv: "stream_inv M h (plain_stream (ist\<lparr>is_pages := r, is_permits := q, is_rx := rx, is_wire := fs,
       is_got := is_got ist @ [m]\<rparr>)) ms"
      "permits_inv hp (ist\<lparr>is_pages := r, is_permits := q, is_rx := rx, is_wire := fs, is_got := is_got ist @ [m]\<rparr>)" .
  let ?ist = "ist\<lparr>is_pages := r, is_permits := q, is_rx := rx, is_wire := fs, is_got := is_got ist @ [m]\<rparr>"
  from work obtain dec j where w: "wp_runtime (ps_worker s) = Some (descr, dec)"
      "wp_state (ps_worker s) = Wps_Opened \<or> wp_state (ps_worker s) = Wps_Receiving"
      "ps_rx s = is_rx ist" "ps_wire s = is_wire ist @ tail" "ps_plan s = None"
    and kind: "\<forall>m \<in> set (m # ms). fst m = po_page_kind descr \<and> fst (snd m) = po_page_flags descr"
    and dec: "decode_inv K D specs node plan dec j (snd (snd m) @ payload_bytes ms @ fut)"
    by (auto simp: worker_inv_def)
  from push_chunk_effect [OF trav dec] obtain dec' j' where
    push: "push_chunk K D dec (snd (snd m)) = Some (dec', Inr Dec_NeedMoreInput)"
      "decode_inv K D specs node plan dec' j' (payload_bytes ms @ fut)" .
  let ?w = "(ps_worker s)\<lparr>wp_state := Wps_Receiving, wp_runtime := Some (descr, dec')\<rparr>"
  have "rp_kind page = po_page_kind descr" "rp_flags page = po_page_flags descr"
    using kind p(2) by (metis fst_conv snd_conv list.set_intros(1))+
  then have "accept_page K D (is_pages ist) (is_permits ist) rx (ps_worker s) (po_flow descr) p =
      Some (r, q, rx, ?w, Inr Wstep_Idle)"
    using w(1,2) p(1,3,4) push(1) by (auto simp: accept_page_def worker_emits)
  then have "accept_frame M K D (ps_pages s) (ps_permits s) (ps_rx s) (ps_worker s) (po_flow descr) f =
      Some (r, q, rx, ?w, Inr Wstep_Idle)"
    using w acc reg'(4,5) by (auto simp: accept_frame_def validate_active_flow_def)
  then have "worker_turn M K D (po_flow descr) s =
      Some (s\<lparr>ps_pages := r, ps_permits := q, ps_rx := rx, ps_worker := ?w, ps_wire := fs @ tail\<rparr>)"
    using w(4) wire by (simp add: worker_turn_def Let_def)
  then show thesis
    by (rule that [where ist' = ?ist])
      (use inv reg' w(5) kind push(2) in \<open>auto simp: regions_inv_def worker_inv_def\<close>)
qed

lemma worker_finishes:
  assumes trav: "travels K D specs node plan" and reg: "regions_inv M h hp s ist []"
    and work: "worker_inv K D descr specs node plan s ist [] [close_frame ist] []"
  obtains s' where "worker_turn M K D (po_flow descr) s = Some s'" "regions_inv M h hp s' ist []" "ps_wire s' = []"
    "ps_backend s' = ps_backend s" "ps_plan s' = Some (resolve_scans (map_of (spec_table specs)) plan)"
proof -
  have rx: "rx_phase_of (irx_rx (is_rx ist)) = Rx_Phase_Idle" "is_wire ist = []"
    "rx_next_transfer_id (irx_rx (is_rx ist)) = nth_id (length (is_sent ist))"
    using reg wire_ok_length [of M h "is_pages ist" "length (is_got ist)" "map plain_frame (is_wire ist)" "[]"]
    by (auto simp: regions_inv_def stream_inv_def ends_ok_def plain_stream_def)
  obtain rx' where acc: "issued_accept M (ps_pages s) (ps_permits s) (is_rx ist) (close_frame ist) =
      Some (ps_pages s, ps_permits s, rx', Inr Issue_Closed)"
    using rx by (simp add: issued_accept_def close_frame_def rx_accept_def begin_accept_def leave_accept_def
        advance_transfer_id_def Let_def)
  from work obtain dec j where w: "wp_runtime (ps_worker s) = Some (descr, dec)"
      "wp_state (ps_worker s) = Wps_Opened \<or> wp_state (ps_worker s) = Wps_Receiving"
      "ps_rx s = is_rx ist" "ps_wire s = [close_frame ist]"
    and dec: "decode_inv K D specs node plan dec j []"
    using rx(2) by (auto simp: worker_inv_def)
  from decode_guarded_eof [OF trav dec] obtain dec' where
    "decode_guarded K D True dec = Some (dec', Inr (Dec_Finished (resolve_scans (map_of (spec_table specs)) plan)))" by auto
  with dec have fin: "finish_input K D dec = Some (dec', Inr (Dec_Finished (resolve_scans (map_of (spec_table specs)) plan)))"
    by (simp add: finish_input_def decode_inv_def)
  let ?w = "(ps_worker s)\<lparr>wp_state := Wps_SuccessTerminal, wp_runtime := Some (descr, dec')\<rparr>"
  have "accept_frame M K D (ps_pages s) (ps_permits s) (ps_rx s) (ps_worker s) (po_flow descr) (close_frame ist) =
      Some (ps_pages s, ps_permits s, rx', ?w,
        Inr (Wstep_Plan (po_flow descr) (resolve_scans (map_of (spec_table specs)) plan)))"
    using w acc fin by (auto simp: accept_frame_def validate_active_flow_def accept_close_def worker_emits)
  then have "worker_turn M K D (po_flow descr) s = Some (s\<lparr>ps_rx := rx', ps_worker := ?w, ps_wire := [],
      ps_plan := Some (resolve_scans (map_of (spec_table specs)) plan)\<rparr>)"
    using w(4) by (simp add: worker_turn_def Let_def)
  then show thesis by (rule that) (use reg in \<open>simp_all add: regions_inv_def\<close>)
qed

lemma backend_turn_inv:
  assumes M: "rmp_ok M" and ps: "page_header_len < ph_page_size h" and inv: "plan_inv M K D h hp descr specs node plan s"
  shows "\<exists>s'. backend_turn M K D s = Some s' \<and> plan_inv M K D h hp descr specs node plan s'"
proof (cases "bp_state (ps_backend s) = Bps_SuccessTerminal")
  case True
  with inv show ?thesis by (auto simp: backend_turn_def)
next
  case False
  with inv obtain ist ms enc where reg: "regions_inv M h hp s ist ms" and bck: "backend_inv K D descr s ist enc"
    and work: "worker_inv K D descr specs node plan s ist ms [] (rest_bytes K D enc)" by (auto simp: plan_inv_def)
  show ?thesis
  proof (cases "es_finished enc")
    case True
    from backend_closes [OF reg bck True work] show ?thesis unfolding plan_inv_def by metis
  next
    case False
    from reg obtain pl fl where pl: "iss_inv hp (is_permits ist) pl" "pool_inv h (is_pages ist) fl"
      by (auto simp: regions_inv_def permits_inv_def stream_inv_def plain_stream_def)
    from backend_sends [OF M ps reg bck work False pl] show ?thesis unfolding plan_inv_def by metis
  qed
qed

lemma worker_turn_inv:
  assumes M: "rmp_ok M" and trav: "travels K D specs node plan" and inv: "plan_inv M K D h hp descr specs node plan s"
  shows "\<exists>s'. worker_turn M K D (po_flow descr) s = Some s' \<and> plan_inv M K D h hp descr specs node plan s'"
proof (cases "ps_wire s")
  case Nil
  with inv show ?thesis by (auto simp: worker_turn_def)
next
  case (Cons f fs)
  with inv obtain ist ms where reg: "regions_inv M h hp s ist ms" and
    "(\<exists>enc. backend_inv K D descr s ist enc \<and> worker_inv K D descr specs node plan s ist ms [] (rest_bytes K D enc)) \<or>
     bp_state (ps_backend s) = Bps_SuccessTerminal \<and> worker_inv K D descr specs node plan s ist ms [close_frame ist] []"
    by (auto simp: plan_inv_def)
  then consider (streaming) enc where "backend_inv K D descr s ist enc"
      "worker_inv K D descr specs node plan s ist ms [] (rest_bytes K D enc)"
    | (closing) "bp_state (ps_backend s) = Bps_SuccessTerminal" "worker_inv K D descr specs node plan s ist ms [close_frame ist] []"
    by blast
  then show ?thesis
  proof cases
    case streaming
    have "is_wire ist \<noteq> []" using streaming(2) Cons by (auto simp: worker_inv_def)
    then obtain m ms' where ms: "ms = m # ms'"
      using reg by (cases ms) (auto simp: regions_inv_def stream_inv_def plain_stream_def neq_Nil_conv)
    from worker_takes [OF M trav reg [unfolded ms] streaming(2) [unfolded ms]] obtain s' ist' where
      "worker_turn M K D (po_flow descr) s = Some s'" "regions_inv M h hp s' ist' ms'"
      "worker_inv K D descr specs node plan s' ist' ms' [] (rest_bytes K D enc)" "ps_backend s' = ps_backend s"
      "is_tx ist' = is_tx ist" .
    with streaming(1) show ?thesis unfolding plan_inv_def backend_inv_def by metis
  next
    case closing
    show ?thesis
    proof (cases ms)
      case Nil
      from worker_finishes [OF trav reg [unfolded Nil] closing(2) [unfolded Nil]] closing(1) show ?thesis
        unfolding plan_inv_def by metis
    next
      case (Cons m ms')
      from worker_takes [OF M trav reg [unfolded Cons] closing(2) [unfolded Cons]] obtain s' ist' where
        "worker_turn M K D (po_flow descr) s = Some s'" "regions_inv M h hp s' ist' ms'"
        "worker_inv K D descr specs node plan s' ist' ms' [close_frame ist] []" "ps_backend s' = ps_backend s"
        "is_sent ist' = is_sent ist" .
      moreover from this have "close_frame ist' = close_frame ist" by (simp add: close_frame_def)
      ultimately show ?thesis using closing(1) unfolding plan_inv_def by metis
    qed
  qed
qed

lemma plan_run_inv:
  assumes "rmp_ok M" and "page_header_len < ph_page_size h" and "travels K D specs node plan"
    and "plan_inv M K D h hp descr specs node plan s"
  shows "\<exists>s'. plan_run M K D (po_flow descr) ops s = Some s' \<and> plan_inv M K D h hp descr specs node plan s'"
  using assms(4)
proof (induction ops arbitrary: s)
  case Nil
  then show ?case by simp
next
  case (Cons op ops)
  have "\<exists>s'. plan_turn M K D (po_flow descr) op s = Some s' \<and> plan_inv M K D h hp descr specs node plan s'"
    using backend_turn_inv [OF assms(1,2) Cons.prems] worker_turn_inv [OF assms(1,3) Cons.prems]
    by (cases op) (simp_all add: plan_turn_def)
  with Cons.IH show ?case by auto
qed

lemma plan_sys_new_inv:
  assumes K: "mpk_ok K" and D: "df_ok D" and plan: "plan_ok D plan" and enc: "encode_session_new K D plan = Inr enc"
    "session_fits enc" "0 < es_plan_len enc"
    and r: "pool_init_in_place base len cfg pid = Some (Inr (r, h))" "tx_validate_page_size (ph_page_size h) = Inr ()"
    and q: "iss_init_in_place base' len' count iid = Some (Inr (q, hp))"
  shows "plan_inv M K D h hp descr (es_specs enc) (es_node enc) plan (plan_sys_new K D h r hp q descr plan)"
proof -
  let ?s = "plan_sys_new K D h r hp q descr plan" and ?ist = "istream_new h r hp q"
  note ses = session_stream [OF D enc(1,2)]
  have "plain_stream ?ist = stream_new h r" by (simp add: plain_stream_def istream_new_def stream_new_def)
  then have "stream_inv M h (plain_stream ?ist) []" using stream_new_inv [OF r] by simp
  moreover have "permits_inv hp ?ist"
    using iss_init_inv [OF q] by (auto simp: permits_inv_def istream_new_def live_permits_def)
  ultimately have "regions_inv M h hp ?s ?ist []"
    by (simp add: regions_inv_def plan_sys_new_def istream_new_def)
  moreover have "item_pending enc"
    using enc(1) by (auto simp: encode_session_new_def item_pending_def Let_def try_bind_eq_Inr split: sum.splits)
  then have "backend_inv K D descr ?s ?ist enc"
    using enc ses(1) by (simp add: backend_inv_def plan_sys_new_def backend_plan_open_def backend_plan_new_def istream_new_def
        consume_backend_event_def backend_plan_flow_def fsm_next_def)
  moreover have "worker_inv K D descr (es_specs enc) (es_node enc) plan ?s ?ist [] [] (rest_bytes K D enc)"
    using decode_session_new_inv [of K D "es_specs enc" "es_node enc" plan]
    by (auto simp: worker_inv_def plan_sys_new_def istream_new_def worker_plan_open_def worker_plan_new_def
        consume_worker_event_def worker_plan_flow_def fsm_next_def ses(4))
  ultimately show ?thesis unfolding plan_inv_def by blast
qed

section \<open>Properties\<close>

fun is_page_frame :: "issued_owned_frame \<Rightarrow> bool" where
  "is_page_frame (Issued_Page _) \<longleftrightarrow> True"
| "is_page_frame (Issued_Close _) \<longleftrightarrow> False"

lemma regions_leased:
  assumes "regions_inv M h hp s ist ms"
  shows "card (leased_set h (ps_pages s)) = length (is_wire ist)" "card (leased_permits (ps_permits s)) = length (is_wire ist)"
    and "filter is_page_frame (is_wire ist) = is_wire ist" "length ms = length (is_wire ist)"
proof -
  have inv: "stream_inv M h (plain_stream ist) ms" "permits_inv hp ist" "is_held ist = []" "ps_pages s = is_pages ist"
    "ps_permits s = is_permits ist" using assms by (simp_all add: regions_inv_def)
  show "card (leased_set h (ps_pages s)) = length (is_wire ist)"
    using live_pages_card [OF inv(1)] inv(3,4) by (simp add: plain_stream_def)
  show "card (leased_permits (ps_permits s)) = length (is_wire ist)"
    using live_permits_bound(1) [OF inv(2)] inv(3,5) by simp
  show "filter is_page_frame (is_wire ist) = is_wire ist"
    using inv(2) by (auto simp: permits_inv_def issued_by_def filter_id_conv)
  show "length ms = length (is_wire ist)"
    using inv(1) wire_ok_length [of M h "is_pages ist" "length (is_got ist)" "map plain_frame (is_wire ist)" ms]
    by (simp add: stream_inv_def plain_stream_def)
qed

lemma plan_inv_parts:
  assumes "plan_inv M K D h hp descr specs node plan s"
  shows "\<not> ps_failed s" and "ps_plan s = None \<or> ps_plan s = Some (resolve_scans (map_of (spec_table specs)) plan) \<and> ps_wire s = []"
    and "card (leased_set h (ps_pages s)) = length (filter is_page_frame (ps_wire s))"
    and "card (leased_permits (ps_permits s)) = length (filter is_page_frame (ps_wire s))"
proof -
  from assms obtain ist ms where reg: "regions_inv M h hp s ist ms" and
    "ps_plan s = None \<and> (ps_wire s = is_wire ist \<or> ps_wire s = is_wire ist @ [close_frame ist]) \<or>
     ps_wire s = [] \<and> ms = [] \<and> ps_plan s = Some (resolve_scans (map_of (spec_table specs)) plan)"
    unfolding plan_inv_def worker_inv_def by auto
  then show "\<not> ps_failed s" "ps_plan s = None \<or> ps_plan s = Some (resolve_scans (map_of (spec_table specs)) plan) \<and> ps_wire s = []"
    "card (leased_set h (ps_pages s)) = length (filter is_page_frame (ps_wire s))"
    "card (leased_permits (ps_permits s)) = length (filter is_page_frame (ps_wire s))"
    using regions_leased [OF reg] by (auto simp: regions_inv_def close_frame_def)
qed

text \<open>C28: A plan reaches the worker whole or not at all, whatever the schedule: with a backend and a worker role opened
  for a plan over a fresh page pool and a fresh permit pool, any interleaving of backend steps and accepted frames
  runs without a panic, an error or a failed role; the worker hands out no plan, or the plan the backend was opened
  with (without the aliases of its relations) after everything sent has been received; and at every moment exactly
  as many pages, and as many permits, are leased as there are page frames under way, so nothing leaks.\<close>

theorem plan_transfer_safe:
  assumes "rmp_ok M" and "mpk_ok K" and "df_ok D" and "plan_ok D plan"
    and "encode_session_new K D plan = Inr enc" and "session_fits enc" and "0 < es_plan_len enc"
    and "pool_init_in_place base len cfg pid = Some (Inr (r, h))" and "tx_validate_page_size (ph_page_size h) = Inr ()"
    and "page_header_len < ph_page_size h" and "iss_init_in_place base' len' count iid = Some (Inr (q, hp))"
  shows "\<exists>s. plan_run M K D (po_flow descr) ops (plan_sys_new K D h r hp q descr plan) = Some s \<and> \<not> ps_failed s \<and>
    (ps_plan s = None \<or> ps_plan s = Some (strip_aliases plan) \<and> ps_wire s = []) \<and>
    card (leased_set h (ps_pages s)) = length (filter is_page_frame (ps_wire s)) \<and>
    card (leased_permits (ps_permits s)) = length (filter is_page_frame (ps_wire s))"
proof -
  note trav = session_travels [OF assms(2,3,5,6,4)]
  from plan_run_inv [OF assms(1,10) trav(1) plan_sys_new_inv [OF assms(2-9,11)]] obtain s where
    "plan_run M K D (po_flow descr) ops (plan_sys_new K D h r hp q descr plan) = Some s"
    "plan_inv M K D h hp descr (es_specs enc) (es_node enc) plan s" by blast
  with plan_inv_parts [OF this(2)] trav(2) show ?thesis by simp
qed

lemma demo_transfer:
  obtains r h q hp where "pool_init_in_place 0 4096 \<lparr>cfg_page_size = 64, cfg_page_count = 2\<rparr> 7 = Some (Inr (r, h))"
    "tx_validate_page_size (ph_page_size h) = Inr ()" "page_header_len < ph_page_size h"
    "iss_init_in_place 0 4096 2 9 = Some (Inr (q, hp))"
proof -
  from demo_pool obtain r h where
    "pool_init_in_place 0 4096 \<lparr>cfg_page_size = 64, cfg_page_count = 2\<rparr> 7 = Some (Inr (r, h))" and ps: "ph_page_size h = 64"
    by blast
  moreover from demo_permits obtain q hp where "iss_init_in_place 0 4096 2 9 = Some (Inr (q, hp))" by blast
  moreover have "tx_validate_page_size (ph_page_size h) = Inr ()" "page_header_len < ph_page_size h"
    by (simp_all add: ps tx_validate_page_size_def page_header_len_def max_payload_len_def)
  ultimately show thesis using that by blast
qed

theorem plan_transfer_safe_witness:
  "\<exists>r h q hp s. pool_init_in_place 0 4096 \<lparr>cfg_page_size = 64, cfg_page_count = 2\<rparr> 7 = Some (Inr (r, h)) \<and>
     iss_init_in_place 0 4096 2 9 = Some (Inr (q, hp)) \<and>
     plan_run msgpack mpk0 df0 \<lparr>fl_session_epoch = 1, fl_plan_id = 2\<rparr> [Backend_steps, Backend_steps, Worker_accepts]
       (plan_sys_new mpk0 df0 h r hp q
         \<lparr>po_flow = \<lparr>fl_session_epoch = 1, fl_plan_id = 2\<rparr>, po_page_kind = 3, po_page_flags = 0\<rparr> (Lp_Scan spec0)) = Some s \<and>
     \<not> ps_failed s"
proof -
  obtain r h q hp where d: "pool_init_in_place 0 4096 \<lparr>cfg_page_size = 64, cfg_page_count = 2\<rparr> 7 = Some (Inr (r, h))"
    "tx_validate_page_size (ph_page_size h) = Inr ()" "page_header_len < ph_page_size h"
    "iss_init_in_place 0 4096 2 9 = Some (Inr (q, hp))" by (rule demo_transfer)
  have "0 < es_plan_len session0" by (simp add: session0_def)
  from plan_transfer_safe [OF msgpack_ok mpk0_ok df0_ok plan0_ok session0_new session0_fits this d,
      of "\<lparr>po_flow = \<lparr>fl_session_epoch = 1, fl_plan_id = 2\<rparr>, po_page_kind = 3, po_page_flags = 0\<rparr>"
        "[Backend_steps, Backend_steps, Worker_accepts]"] d(1,4)
  show ?thesis by (simp only: plan_open.simps) blast
qed

text \<open>The bytes the backend has still to write.\<close>

definition backlog :: "mpk \<Rightarrow> ('d, 'm, 'e) df \<Rightarrow> ('d, 'm, 'e) plan_sys \<Rightarrow> nat" where
  "backlog K D s = (case bp_runtime (ps_backend s) of None \<Rightarrow> 0 | Some (_, enc) \<Rightarrow> length (rest_bytes K D enc))"

lemma plan_run_append: "plan_run M K D flow (xs @ ys) s = do { s1 \<leftarrow> plan_run M K D flow xs s; plan_run M K D flow ys s1 }"
  by (induction xs arbitrary: s) (auto split: Option.bind_splits)

lemma round_moves:
  assumes M: "rmp_ok M" and ps: "page_header_len < ph_page_size h" and trav: "travels K D specs node plan"
    and inv: "plan_inv M K D h hp descr specs node plan s" and wire: "ps_wire s = []" and plan: "ps_plan s = None"
    and page: "unat v < unat (ph_page_count h)" "snd (page_at (ps_pages s) v) = Free" and permits: "ip_permit_count hp \<noteq> 0"
  obtains s' where "plan_run M K D (po_flow descr) [Backend_steps, Worker_accepts] s = Some s'"
    "ps_plan s' = Some (resolve_scans (map_of (spec_table specs)) plan) \<or>
     ps_plan s' = None \<and> ps_wire s' = [] \<and> backlog K D s' < backlog K D s"
proof -
  have "\<not> worker_inv K D descr specs node plan s ist ms [close_frame ist] []" for ist ms by (simp add: worker_inv_def wire)
  with inv plan obtain ist ms enc where reg: "regions_inv M h hp s ist ms" and bck: "backend_inv K D descr s ist enc"
    and work: "worker_inv K D descr specs node plan s ist ms [] (rest_bytes K D enc)"
    by (auto simp: plan_inv_def)
  have ms: "ms = []" using work wire regions_leased(4) [OF reg] by (simp add: worker_inv_def)
  have old: "backlog K D s = length (rest_bytes K D enc)" using bck by (simp add: backlog_def backend_inv_def)
  show thesis
  proof (cases "es_finished enc")
    case True
    from backend_closes [OF reg bck True work] obtain s1 where s1: "backend_turn M K D s = Some s1"
      "regions_inv M h hp s1 ist ms" "worker_inv K D descr specs node plan s1 ist ms [close_frame ist] []" .
    from worker_finishes [OF trav s1(2,3) [unfolded ms]] obtain s2 where
      "worker_turn M K D (po_flow descr) s1 = Some s2" "ps_plan s2 = Some (resolve_scans (map_of (spec_table specs)) plan)" .
    with s1(1) show thesis by (intro that [of s2] disjI1) (simp_all add: plan_turn_def)
  next
    case False
    from reg obtain pl fl where pl: "iss_inv hp (is_permits ist) pl" and fl: "pool_inv h (is_pages ist) fl"
      by (auto simp: regions_inv_def permits_inv_def stream_inv_def plain_stream_def)
    have "fl \<noteq> []" using fl page reg by (auto simp: pool_inv_def pages_ok_def regions_inv_def)
    moreover have "is_wire ist = []" using regions_leased(4) [OF reg] ms by simp
    then have "leased_permits (is_permits ist) = {}" using reg by (auto simp: regions_inv_def permits_inv_def live_permits_def)
    then have "pl \<noteq> []" using leased_permits_card [OF pl] permits by (auto simp: unat_eq_0)
    ultimately obtain s1 ist1 m enc1 where s1: "backend_turn M K D s = Some s1" "regions_inv M h hp s1 ist1 [m]"
      "backend_inv K D descr s1 ist1 enc1" "worker_inv K D descr specs node plan s1 ist1 [m] [] (rest_bytes K D enc1)"
      "length (rest_bytes K D enc1) < length (rest_bytes K D enc)"
      using backend_sends [OF M ps reg bck work False pl fl] unfolding ms by (metis append_Nil)
    from worker_takes [OF M trav s1(2,4)] obtain s2 ist2 where
      s2: "worker_turn M K D (po_flow descr) s1 = Some s2" "regions_inv M h hp s2 ist2 []"
        "worker_inv K D descr specs node plan s2 ist2 [] [] (rest_bytes K D enc1)" "ps_backend s2 = ps_backend s1" .
    have "backlog K D s2 = length (rest_bytes K D enc1)" using s1(3) s2(4) by (simp add: backlog_def backend_inv_def)
    moreover have "ps_plan s2 = None" "ps_wire s2 = []"
      using s2(3) regions_leased(4) [OF s2(2)] by (simp_all add: worker_inv_def)
    ultimately show thesis using s1(1,5) s2(1) old by (intro that [of s2] disjI2) (simp_all add: plan_turn_def)
  qed
qed

lemma rounds_deliver:
  assumes M: "rmp_ok M" and ps: "page_header_len < ph_page_size h" and trav: "travels K D specs node plan"
    and "plan_inv M K D h hp descr specs node plan s" and "ps_wire s = []" and "ps_plan s = None" and "ip_permit_count hp \<noteq> 0"
  shows "\<exists>n s'. n \<le> Suc (backlog K D s) \<and>
    plan_run M K D (po_flow descr) (concat (replicate n [Backend_steps, Worker_accepts])) s = Some s' \<and>
    (ps_plan s' = Some (resolve_scans (map_of (spec_table specs)) plan) \<or>
     (\<forall>v. unat v < unat (ph_page_count h) \<longrightarrow> snd (page_at (ps_pages s') v) \<noteq> Free))"
  using assms(4-7)
proof (induction "backlog K D s" arbitrary: s rule: less_induct)
  case less
  show ?case
  proof (cases "\<exists>v. unat v < unat (ph_page_count h) \<and> snd (page_at (ps_pages s) v) = Free")
    case False
    then show ?thesis by (intro exI [of _ 0] exI [of _ s]) auto
  next
    case True
    then obtain v where "unat v < unat (ph_page_count h)" "snd (page_at (ps_pages s) v) = Free" by blast
    from round_moves [OF M ps trav less.prems(1-3) this less.prems(4)] obtain s1 where
      run: "plan_run M K D (po_flow descr) [Backend_steps, Worker_accepts] s = Some s1"
      and s1: "ps_plan s1 = Some (resolve_scans (map_of (spec_table specs)) plan) \<or>
        ps_plan s1 = None \<and> ps_wire s1 = [] \<and> backlog K D s1 < backlog K D s" .
    from s1 show ?thesis
    proof
      assume "ps_plan s1 = Some (resolve_scans (map_of (spec_table specs)) plan)"
      with run show ?thesis by (intro exI [of _ 1] exI [of _ s1]) (simp del: plan_run.simps)
    next
      assume "ps_plan s1 = None \<and> ps_wire s1 = [] \<and> backlog K D s1 < backlog K D s"
      then have later: "ps_plan s1 = None" "ps_wire s1 = []" "backlog K D s1 < backlog K D s" by simp_all
      have inv1: "plan_inv M K D h hp descr specs node plan s1"
        using plan_run_inv [OF M ps trav less.prems(1), of "[Backend_steps, Worker_accepts]"] run by auto
      from less.hyps [OF later(3) inv1 later(2,1) less.prems(4)] obtain n s' where n: "n \<le> Suc (backlog K D s1)"
        "plan_run M K D (po_flow descr) (concat (replicate n [Backend_steps, Worker_accepts])) s1 = Some s'"
        "ps_plan s' = Some (resolve_scans (map_of (spec_table specs)) plan) \<or>
         (\<forall>v. unat v < unat (ph_page_count h) \<longrightarrow> snd (page_at (ps_pages s') v) \<noteq> Free)" by blast
      have "concat (replicate (Suc n) [Backend_steps, Worker_accepts]) =
          [Backend_steps, Worker_accepts] @ concat (replicate n [Backend_steps, Worker_accepts])" by simp
      then have "plan_run M K D (po_flow descr) (concat (replicate (Suc n) [Backend_steps, Worker_accepts])) s = Some s'"
        using run n(2) by (simp only: plan_run_append) simp
      moreover have "Suc n \<le> Suc (backlog K D s)" using n(1) later(3) by simp
      ultimately show ?thesis using n(3) by blast
    qed
  qed
qed

text \<open>C29: A transfer ends: from any reachable moment at which nothing is under way and the plan has not been
  delivered, alternating one step of the backend with one frame accepted by the worker delivers the plan, after at
  most one round for each byte the backend has still to write and one for the close. Only a pool that has no
  page left to give (every page has reached its last generation) can prevent it.\<close>

theorem plan_transfer_completes:
  assumes "rmp_ok M" and "mpk_ok K" and "df_ok D" and "plan_ok D plan"
    and "encode_session_new K D plan = Inr enc" and "session_fits enc" and "0 < es_plan_len enc"
    and "pool_init_in_place base len cfg pid = Some (Inr (r, h))" and "tx_validate_page_size (ph_page_size h) = Inr ()"
    and "page_header_len < ph_page_size h" and "iss_init_in_place base' len' count iid = Some (Inr (q, hp))"
    and "plan_run M K D (po_flow descr) ops (plan_sys_new K D h r hp q descr plan) = Some s"
    and "ps_wire s = []" and "ps_plan s = None" and "count \<noteq> 0"
  shows "\<exists>n s'. n \<le> Suc (backlog K D s) \<and>
    plan_run M K D (po_flow descr) (concat (replicate n [Backend_steps, Worker_accepts])) s = Some s' \<and>
    (ps_plan s' = Some (strip_aliases plan) \<or>
     (\<forall>v. unat v < unat (ph_page_count h) \<longrightarrow> snd (page_at (ps_pages s') v) \<noteq> Free))"
proof -
  note trav = session_travels [OF assms(2,3,5,6,4)]
  have "plan_inv M K D h hp descr (es_specs enc) (es_node enc) plan s"
    using plan_run_inv [OF assms(1,10) trav(1) plan_sys_new_inv [OF assms(2-9,11)], of descr ops] assms(12) by auto
  moreover have "ip_permit_count hp \<noteq> 0" using iss_init_parts [OF assms(11)] assms(15) by (metis iss_pool.select_convs(1))
  ultimately show ?thesis using rounds_deliver [OF assms(1,10) trav(1) _ assms(13,14)] trav(2) by simp
qed

theorem plan_transfer_completes_witness:
  "\<exists>r h q hp n s'. pool_init_in_place 0 4096 \<lparr>cfg_page_size = 64, cfg_page_count = 2\<rparr> 7 = Some (Inr (r, h)) \<and>
     iss_init_in_place 0 4096 2 9 = Some (Inr (q, hp)) \<and>
     plan_run msgpack mpk0 df0 \<lparr>fl_session_epoch = 1, fl_plan_id = 2\<rparr> (concat (replicate n [Backend_steps, Worker_accepts]))
       (plan_sys_new mpk0 df0 h r hp q
         \<lparr>po_flow = \<lparr>fl_session_epoch = 1, fl_plan_id = 2\<rparr>, po_page_kind = 3, po_page_flags = 0\<rparr> (Lp_Scan spec0)) = Some s' \<and>
     (ps_plan s' = Some (strip_aliases (Lp_Scan spec0)) \<or>
      (\<forall>v. unat v < unat (ph_page_count h) \<longrightarrow> snd (page_at (ps_pages s') v) \<noteq> Free))"
proof -
  obtain r h q hp where d: "pool_init_in_place 0 4096 \<lparr>cfg_page_size = 64, cfg_page_count = 2\<rparr> 7 = Some (Inr (r, h))"
    "tx_validate_page_size (ph_page_size h) = Inr ()" "page_header_len < ph_page_size h"
    "iss_init_in_place 0 4096 2 9 = Some (Inr (q, hp))" by (rule demo_transfer)
  let ?descr = "\<lparr>po_flow = \<lparr>fl_session_epoch = 1, fl_plan_id = 2\<rparr>, po_page_kind = 3, po_page_flags = 0\<rparr>"
  let ?s = "plan_sys_new mpk0 df0 h r hp q ?descr (Lp_Scan spec0)"
  have len: "0 < es_plan_len session0" by (simp add: session0_def)
  have run: "plan_run msgpack mpk0 df0 (po_flow ?descr) [] ?s = Some ?s" by simp
  have "ps_wire ?s = []" "ps_plan ?s = None" "(2 :: u32) \<noteq> 0" by (simp_all add: plan_sys_new_def)
  from plan_transfer_completes [OF msgpack_ok mpk0_ok df0_ok plan0_ok session0_new session0_fits len d run this] d(1,4)
  show ?thesis unfolding plan_open.simps by blast
qed

end
