(* ===== verification/Scan_Flow.thy ===== *)
theory Scan_Flow
  imports Plan_Transfer
begin

text \<open>
  The page flow of a table scan, \<^verbatim>\<open>src/page/scan_flow/src\<close>: producers that fill issued pages from a source, the
  backend's coordinator and the worker's fan-in role, which both gather the ends of all declared producers, with their
  state machines. A page source is a parameter; the texts of messages are tags; \<open>None\<close> is a panic (an event
  the machine refuses, an \<open>expect\<close>).
\<close>

section \<open>types.rs\<close>

record scan_flow_id =
  sf_session_epoch :: u64
  sf_scan_id :: u64

datatype producer_role_kind = Role_Leader | Role_Worker

record producer_descriptor =
  pr_producer_id :: u16
  pr_role :: producer_role_kind

record scan_open =
  so_flow :: scan_flow_id
  so_page_kind :: u16
  so_page_flags :: u16
  so_producers :: "producer_descriptor list"

datatype scan_open_error = EmptyProducerSet | DuplicateProducerId u16 | MultipleLeaders

text \<open>The loop of \<open>ScanOpen::validate\<close>: the producers before, whether one of them is the leader, and those to come.\<close>

fun validate_producers :: "producer_descriptor list \<Rightarrow> bool \<Rightarrow> producer_descriptor list \<Rightarrow> scan_open_error + unit" where
  "validate_producers before leader_seen [] = Inr ()"
| "validate_producers before leader_seen (p # ps) =
     (if pr_role p = Role_Leader \<and> leader_seen then Inl MultipleLeaders
      else if \<exists>q \<in> set before. pr_producer_id q = pr_producer_id p then Inl (DuplicateProducerId (pr_producer_id p))
      else validate_producers (before @ [p]) (leader_seen \<or> pr_role p = Role_Leader) ps)"

definition scan_validate :: "scan_open \<Rightarrow> scan_open_error + unit" where
  "scan_validate scan = (if so_producers scan = [] then Inl EmptyProducerSet else validate_producers [] False (so_producers scan))"

definition leader_descriptor :: "u16 \<Rightarrow> producer_descriptor" where
  "leader_descriptor producer_id = \<lparr>pr_producer_id = producer_id, pr_role = Role_Leader\<rparr>"

definition worker_descriptor :: "u16 \<Rightarrow> producer_descriptor" where
  "worker_descriptor producer_id = \<lparr>pr_producer_id = producer_id, pr_role = Role_Worker\<rparr>"

definition scan_open_new :: "scan_flow_id \<Rightarrow> u16 \<Rightarrow> u16 \<Rightarrow> producer_descriptor list \<Rightarrow> scan_open_error + scan_open" where
  "scan_open_new flow page_kind page_flags producers =
     (let scan = \<lparr>so_flow = flow, so_page_kind = page_kind, so_page_flags = page_flags, so_producers = producers\<rparr>
      in try_bind (scan_validate scan) (\<lambda>_. Inr scan))"

datatype source_page_status = Source_Page nat | Source_Eof

datatype producer_terminal_state = Producer_Active | Producer_Eof | Producer_Failed

section \<open>fsm.rs\<close>

datatype backend_producer_event = Bpe_Open | Bpe_EmitPage | Bpe_EmitEof | Bpe_EmitError | Bpe_Close

datatype backend_producer_state = Bp_Closed | Bp_Opened | Bp_Streaming | Bp_CloseTerminal

definition backend_producer_flow ::
  "(backend_producer_state \<times> (backend_producer_event \<times> backend_producer_state) list) list" where
  "backend_producer_flow = [
     (Bp_Closed, [(Bpe_Open, Bp_Opened)]),
     (Bp_Opened, [(Bpe_EmitPage, Bp_Streaming), (Bpe_EmitEof, Bp_CloseTerminal), (Bpe_EmitError, Bp_CloseTerminal)]),
     (Bp_Streaming, [(Bpe_EmitPage, Bp_Streaming), (Bpe_EmitEof, Bp_CloseTerminal), (Bpe_EmitError, Bp_CloseTerminal)]),
     (Bp_CloseTerminal, [(Bpe_Close, Bp_Closed)])]"

datatype backend_coordinator_event = Bce_Open | Bce_ObserveProducerEof | Bce_ObserveLogicalEof | Bce_ObserveProducerError | Bce_Close

datatype backend_coordinator_state = Bc_Closed | Bc_Opened | Bc_Running | Bc_CloseTerminal

definition backend_coordinator_flow ::
  "(backend_coordinator_state \<times> (backend_coordinator_event \<times> backend_coordinator_state) list) list" where
  "backend_coordinator_flow = [
     (Bc_Closed, [(Bce_Open, Bc_Opened)]),
     (Bc_Opened, [(Bce_ObserveProducerEof, Bc_Running), (Bce_ObserveLogicalEof, Bc_CloseTerminal),
        (Bce_ObserveProducerError, Bc_CloseTerminal)]),
     (Bc_Running, [(Bce_ObserveProducerEof, Bc_Running), (Bce_ObserveLogicalEof, Bc_CloseTerminal),
        (Bce_ObserveProducerError, Bc_CloseTerminal)]),
     (Bc_CloseTerminal, [(Bce_Close, Bc_Closed)])]"

datatype worker_scan_event =
    Wse_Open | Wse_AcceptPage | Wse_ObserveProducerEof | Wse_ObserveLogicalEof | Wse_ObserveProducerError | Wse_Close

datatype worker_scan_state = Ws_Closed | Ws_Opened | Ws_Streaming | Ws_CloseTerminal

definition worker_scan_flow :: "(worker_scan_state \<times> (worker_scan_event \<times> worker_scan_state) list) list" where
  "worker_scan_flow = [
     (Ws_Closed, [(Wse_Open, Ws_Opened)]),
     (Ws_Opened, [(Wse_AcceptPage, Ws_Streaming), (Wse_ObserveProducerEof, Ws_Opened),
        (Wse_ObserveLogicalEof, Ws_CloseTerminal), (Wse_ObserveProducerError, Ws_CloseTerminal)]),
     (Ws_Streaming, [(Wse_AcceptPage, Ws_Streaming), (Wse_ObserveProducerEof, Ws_Streaming),
        (Wse_ObserveLogicalEof, Ws_CloseTerminal), (Wse_ObserveProducerError, Ws_CloseTerminal)]),
     (Ws_CloseTerminal, [(Wse_Close, Ws_Closed)])]"

section \<open>backend.rs: a producer\<close>

text \<open>
  A source of pages: it is opened for a flow, fills the slice it is given (the bytes afterwards are its second result),
  and is closed. Its state and its errors are its own.
\<close>

record ('s, 'x) page_source =
  src_open :: "scan_flow_id \<Rightarrow> 's \<Rightarrow> 's \<times> ('x + unit)"
  src_fill_next_page :: "bytes \<Rightarrow> 's \<Rightarrow> 's \<times> bytes \<times> ('x + source_page_status)"
  src_close :: "'s \<Rightarrow> 's \<times> ('x + unit)"

datatype 'x backend_stream_error =
    Stream_Source 'x
  | Stream_Transport issued_tx_error
  | Stream_InvalidPayloadLen nat nat

datatype 'x backend_producer_error =
    Bpx_InvalidScanOpen scan_open_error
  | Bpx_InvalidState backend_producer_state
  | Bpx_UnknownProducer u16
  | Bpx_SourceOpen 'x
  | Bpx_SourceClose 'x

datatype 'x backend_producer_step =
    Pstep_OutboundPage scan_flow_id u16 issued_outbound
  | Pstep_Blocked scan_flow_id u16
  | Pstep_ProducerEof scan_flow_id u16
  | Pstep_ProducerError scan_flow_id u16 "'x backend_stream_error"

record 's active_producer =
  ap_flow :: scan_flow_id
  ap_producer_id :: u16
  ap_page_kind :: u16
  ap_page_flags :: u16
  ap_source :: 's

record 's backend_producer =
  bpr_state :: backend_producer_state
  bpr_tx :: issued_tx
  bpr_active :: "'s active_producer option"

definition backend_producer_new :: "issued_tx \<Rightarrow> 's backend_producer" where
  "backend_producer_new tx = \<lparr>bpr_state = Bp_Closed, bpr_tx = tx, bpr_active = None\<rparr>"

definition producer_consume :: "'s backend_producer \<Rightarrow> backend_producer_event \<Rightarrow> 's backend_producer option" where
  "producer_consume b ev = do {
     st \<leftarrow> fsm_next backend_producer_flow (bpr_state b) ev;
     Some (b\<lparr>bpr_state := st\<rparr>)
   }"

definition producer_open ::
  "('s, 'x) page_source \<Rightarrow> 's backend_producer \<Rightarrow> scan_open \<Rightarrow> u16 \<Rightarrow> 's \<Rightarrow>
     ('s backend_producer \<times> ('x backend_producer_error + unit)) option" where
  "producer_open S b scan producer_id source =
     (if bpr_state b \<noteq> Bp_Closed then Some (b, Inl (Bpx_InvalidState (bpr_state b)))
      else case scan_validate scan of
          Inl e \<Rightarrow> Some (b, Inl (Bpx_InvalidScanOpen e))
        | Inr _ \<Rightarrow>
            if \<not> (\<exists>p \<in> set (so_producers scan). pr_producer_id p = producer_id)
            then Some (b, Inl (Bpx_UnknownProducer producer_id))
            else (case src_open S (so_flow scan) source of
                (_, Inl e) \<Rightarrow> Some (b, Inl (Bpx_SourceOpen e))
              | (source1, Inr _) \<Rightarrow> do {
                  b1 \<leftarrow> producer_consume b Bpe_Open;
                  Some (b1\<lparr>bpr_active := Some \<lparr>ap_flow = so_flow scan, ap_producer_id = producer_id,
                    ap_page_kind = so_page_kind scan, ap_page_flags = so_page_flags scan, ap_source = source1\<rparr>\<rparr>, Inr ())
                }))"

text \<open>An event of the machine and then the result of the step, and the same after the writer has been dropped.\<close>

type_synonym ('s, 'x) producer_result =
  "(pool_region \<times> iss_region \<times> 's backend_producer \<times> ('x backend_producer_error + 'x backend_producer_step)) option"

definition producer_emit ::
  "pool_region \<Rightarrow> iss_region \<Rightarrow> 's backend_producer \<Rightarrow> backend_producer_event \<Rightarrow> 'x backend_producer_step \<Rightarrow> ('s, 'x) producer_result" where
  "producer_emit r q b ev step = do { b1 \<leftarrow> producer_consume b ev; Some (r, q, b1, Inr step) }"

definition producer_drop_emit ::
  "pool_region \<Rightarrow> iss_region \<Rightarrow> 's backend_producer \<Rightarrow> issued_writer \<Rightarrow> backend_producer_event \<Rightarrow> 'x backend_producer_step \<Rightarrow>
     ('s, 'x) producer_result" where
  "producer_drop_emit r q b writer ev step = do {
     (r1, q1, tx1) \<leftarrow> issued_writer_drop r q (bpr_tx b) writer;
     producer_emit r1 q1 (b\<lparr>bpr_tx := tx1\<rparr>) ev step
   }"

text \<open>What a step makes of the answer of the source, and the step.\<close>

definition producer_answer ::
  "rmp \<Rightarrow> pool_region \<Rightarrow> iss_region \<Rightarrow> 's backend_producer \<Rightarrow> scan_flow_id \<Rightarrow> u16 \<Rightarrow> issued_writer \<Rightarrow> 'x + source_page_status \<Rightarrow>
     ('s, 'x) producer_result" where
  "producer_answer M r q b flow pid writer status = (case status of
     Inr (Source_Page payload_len) \<Rightarrow> do {
       capacity \<leftarrow> map_option length (writer_payload r (iw_writer writer));
       if capacity < payload_len
       then producer_drop_emit r q b writer Bpe_EmitError
              (Pstep_ProducerError flow pid (Stream_InvalidPayloadLen payload_len capacity))
       else do {
         (r1, q1, tx1, fin) \<leftarrow> issued_finish_with_payload_len M r q (bpr_tx b) writer payload_len;
         let b1 = b\<lparr>bpr_tx := tx1\<rparr>;
         (case fin of
            Inl err \<Rightarrow> producer_emit r1 q1 b1 Bpe_EmitError (Pstep_ProducerError flow pid (Stream_Transport err))
          | Inr outbound \<Rightarrow> producer_emit r1 q1 b1 Bpe_EmitPage (Pstep_OutboundPage flow pid outbound))
       }
     }
   | Inr Source_Eof \<Rightarrow> producer_drop_emit r q b writer Bpe_EmitEof (Pstep_ProducerEof flow pid)
   | Inl err \<Rightarrow> producer_drop_emit r q b writer Bpe_EmitError (Pstep_ProducerError flow pid (Stream_Source err)))"

definition producer_step ::
  "rmp \<Rightarrow> ('s, 'x) page_source \<Rightarrow> pool_region \<Rightarrow> iss_region \<Rightarrow> 's backend_producer \<Rightarrow> ('s, 'x) producer_result" where
  "producer_step M S r q b =
     (if bpr_state b \<noteq> Bp_Opened \<and> bpr_state b \<noteq> Bp_Streaming then Some (r, q, b, Inl (Bpx_InvalidState (bpr_state b)))
      else do {
        active \<leftarrow> bpr_active b;
        let flow = ap_flow active;
        let pid = ap_producer_id active;
        (r1, q1, tx1, begun) \<leftarrow> issued_begin r q (bpr_tx b) (ap_page_kind active) (ap_page_flags active);
        let b1 = b\<lparr>bpr_tx := tx1\<rparr>;
        (case begun of
           Inl err \<Rightarrow>
             if is_retryable_backpressure err then Some (r1, q1, b1, Inr (Pstep_Blocked flow pid))
             else producer_emit r1 q1 b1 Bpe_EmitError (Pstep_ProducerError flow pid (Stream_Transport err))
         | Inr writer \<Rightarrow> do {
             payload \<leftarrow> writer_payload r1 (iw_writer writer);
             let (source1, payload1, status) = src_fill_next_page S payload (ap_source active);
             r2 \<leftarrow> writer_fill_payload r1 (iw_writer writer) payload1;
             producer_answer M r2 q1 (b1\<lparr>bpr_active := Some (active\<lparr>ap_source := source1\<rparr>)\<rparr>) flow pid writer status
           })
      })"

definition producer_close ::
  "('s, 'x) page_source \<Rightarrow> 's backend_producer \<Rightarrow> ('s backend_producer \<times> ('x backend_producer_error + unit)) option" where
  "producer_close S b =
     (if bpr_state b \<noteq> Bp_CloseTerminal then Some (b, Inl (Bpx_InvalidState (bpr_state b)))
      else do {
        active \<leftarrow> bpr_active b;
        (case src_close S (ap_source active) of
           (source1, Inl e) \<Rightarrow> Some (b\<lparr>bpr_active := Some (active\<lparr>ap_source := source1\<rparr>)\<rparr>, Inl (Bpx_SourceClose e))
         | (_, Inr _) \<Rightarrow> do { b1 \<leftarrow> producer_consume (b\<lparr>bpr_active := None\<rparr>) Bpe_Close; Some (b1, Inr ()) })
      })"

definition producer_abort ::
  "('s, 'x) page_source \<Rightarrow> 's backend_producer \<Rightarrow> 's backend_producer \<times> ('x backend_producer_error + unit)" where
  "producer_abort S b =
     (b\<lparr>bpr_state := Bp_Closed, bpr_active := None\<rparr>,
      case bpr_active b of None \<Rightarrow> Inr () | Some active \<Rightarrow> map_err Bpx_SourceClose (snd (src_close S (ap_source active))))"

section \<open>The ends of the declared producers\<close>

text \<open>Coordinator and worker keep the same table; \<open>find\<close> meets the first entry of an id.\<close>

type_synonym producer_table = "(u16 \<times> producer_terminal_state) list"

fun set_producer :: "u16 \<Rightarrow> producer_terminal_state \<Rightarrow> producer_table \<Rightarrow> producer_table" where
  "set_producer pid st [] = []"
| "set_producer pid st ((p, st0) # ps) = (if p = pid then (p, st) # ps else (p, st0) # set_producer pid st ps)"

definition producer_table_of :: "scan_open \<Rightarrow> producer_table" where
  "producer_table_of scan = map (\<lambda>p. (pr_producer_id p, Producer_Active)) (so_producers scan)"

definition all_eof :: "producer_table \<Rightarrow> bool" where
  "all_eof ps \<longleftrightarrow> (\<forall>p \<in> set ps. snd p = Producer_Eof)"

section \<open>backend.rs: the coordinator\<close>

datatype logical_terminal = Terminal_Eof scan_flow_id | Terminal_Error scan_flow_id u16 string

datatype backend_coordinator_error =
    Bcx_InvalidScanOpen scan_open_error
  | Bcx_InvalidState backend_coordinator_state
  | Bcx_UnexpectedFlow scan_flow_id scan_flow_id
  | Bcx_UnknownProducer u16
  | Bcx_ProducerAlreadyTerminal u16

record scan_coordinator =
  sc_state :: backend_coordinator_state
  sc_runtime :: "(scan_flow_id \<times> producer_table) option"

definition coordinator_new :: scan_coordinator where
  "coordinator_new = \<lparr>sc_state = Bc_Closed, sc_runtime = None\<rparr>"

definition coordinator_consume :: "scan_coordinator \<Rightarrow> backend_coordinator_event \<Rightarrow> scan_coordinator option" where
  "coordinator_consume c ev = do {
     st \<leftarrow> fsm_next backend_coordinator_flow (sc_state c) ev;
     Some (c\<lparr>sc_state := st\<rparr>)
   }"

definition coordinator_open :: "scan_coordinator \<Rightarrow> scan_open \<Rightarrow> (scan_coordinator \<times> (backend_coordinator_error + unit)) option" where
  "coordinator_open c scan =
     (if sc_state c \<noteq> Bc_Closed then Some (c, Inl (Bcx_InvalidState (sc_state c)))
      else case scan_validate scan of
          Inl e \<Rightarrow> Some (c, Inl (Bcx_InvalidScanOpen e))
        | Inr _ \<Rightarrow> do {
            c1 \<leftarrow> coordinator_consume c Bce_Open;
            Some (c1\<lparr>sc_runtime := Some (so_flow scan, producer_table_of scan)\<rparr>, Inr ())
          })"

text \<open>The checks both calls of the coordinator begin with: the flow, and a producer that is still active.\<close>

definition coordinator_admit ::
  "scan_coordinator \<Rightarrow> scan_flow_id \<Rightarrow> u16 \<Rightarrow> (backend_coordinator_error + producer_table) option" where
  "coordinator_admit c flow pid =
     (if sc_state c \<noteq> Bc_Opened \<and> sc_state c \<noteq> Bc_Running then Some (Inl (Bcx_InvalidState (sc_state c)))
      else do {
        (flow0, ps) \<leftarrow> sc_runtime c;
        Some (if flow0 \<noteq> flow then Inl (Bcx_UnexpectedFlow flow0 flow)
              else case map_of ps pid of
                  None \<Rightarrow> Inl (Bcx_UnknownProducer pid)
                | Some st \<Rightarrow> if st \<noteq> Producer_Active then Inl (Bcx_ProducerAlreadyTerminal pid) else Inr ps)
      })"

definition coordinator_accept_eof ::
  "scan_coordinator \<Rightarrow> scan_flow_id \<Rightarrow> u16 \<Rightarrow> (scan_coordinator \<times> (backend_coordinator_error + logical_terminal option)) option" where
  "coordinator_accept_eof c flow pid = do {
     admitted \<leftarrow> coordinator_admit c flow pid;
     (case admitted of
        Inl e \<Rightarrow> Some (c, Inl e)
      | Inr ps \<Rightarrow>
          (let ps1 = set_producer pid Producer_Eof ps; c1 = c\<lparr>sc_runtime := Some (flow, ps1)\<rparr> in
           if all_eof ps1 then do { c2 \<leftarrow> coordinator_consume c1 Bce_ObserveLogicalEof; Some (c2, Inr (Some (Terminal_Eof flow))) }
           else do { c2 \<leftarrow> coordinator_consume c1 Bce_ObserveProducerEof; Some (c2, Inr None) }))
   }"

definition coordinator_accept_error ::
  "scan_coordinator \<Rightarrow> scan_flow_id \<Rightarrow> u16 \<Rightarrow> string \<Rightarrow> (scan_coordinator \<times> (backend_coordinator_error + logical_terminal)) option" where
  "coordinator_accept_error c flow pid message = do {
     admitted \<leftarrow> coordinator_admit c flow pid;
     (case admitted of
        Inl e \<Rightarrow> Some (c, Inl e)
      | Inr ps \<Rightarrow> do {
          c1 \<leftarrow> coordinator_consume (c\<lparr>sc_runtime := Some (flow, set_producer pid Producer_Failed ps)\<rparr>) Bce_ObserveProducerError;
          Some (c1, Inr (Terminal_Error flow pid message))
        })
   }"

definition coordinator_close :: "scan_coordinator \<Rightarrow> (scan_coordinator \<times> (backend_coordinator_error + unit)) option" where
  "coordinator_close c =
     (if sc_state c \<noteq> Bc_CloseTerminal then Some (c, Inl (Bcx_InvalidState (sc_state c)))
      else do { c1 \<leftarrow> coordinator_consume (c\<lparr>sc_runtime := None\<rparr>) Bce_Close; Some (c1, Inr ()) })"

definition coordinator_abort :: "scan_coordinator \<Rightarrow> scan_coordinator" where
  "coordinator_abort c = c\<lparr>sc_state := Bc_Closed, sc_runtime := None\<rparr>"

section \<open>worker.rs\<close>

datatype worker_role_error =
    Wrx_InvalidScanOpen scan_open_error
  | Wrx_InvalidState worker_scan_state
  | Wrx_UnexpectedFlow scan_flow_id scan_flow_id
  | Wrx_UnknownProducer u16
  | Wrx_ProducerAlreadyTerminal u16
  | Wrx_Ingress issued_rx_error

datatype scan_message =
    Smsg_Envelope u16 u16 u16 u16 u16
  | Smsg_CloseFrame
  | Smsg_Accept issued_rx_error
  | Smsg_Given string

datatype worker_scan_step =
    Sstep_Idle
  | Sstep_Page scan_flow_id u16 issued_received
  | Sstep_LogicalEof scan_flow_id
  | Sstep_LogicalError scan_flow_id u16 scan_message

record worker_runtime =
  wr_flow :: scan_flow_id
  wr_page_kind :: u16
  wr_page_flags :: u16
  wr_producers :: producer_table

record worker_scan =
  wsr_state :: worker_scan_state
  wsr_runtime :: "worker_runtime option"

definition worker_scan_new :: worker_scan where
  "worker_scan_new = \<lparr>wsr_state = Ws_Closed, wsr_runtime = None\<rparr>"

definition worker_consume :: "worker_scan \<Rightarrow> worker_scan_event \<Rightarrow> worker_scan option" where
  "worker_consume w ev = do {
     st \<leftarrow> fsm_next worker_scan_flow (wsr_state w) ev;
     Some (w\<lparr>wsr_state := st\<rparr>)
   }"

definition worker_scan_open :: "worker_scan \<Rightarrow> scan_open \<Rightarrow> (worker_scan \<times> (worker_role_error + unit)) option" where
  "worker_scan_open w scan =
     (if wsr_state w \<noteq> Ws_Closed then Some (w, Inl (Wrx_InvalidState (wsr_state w)))
      else case scan_validate scan of
          Inl e \<Rightarrow> Some (w, Inl (Wrx_InvalidScanOpen e))
        | Inr _ \<Rightarrow> do {
            w1 \<leftarrow> worker_consume w Wse_Open;
            Some (w1\<lparr>wsr_runtime := Some \<lparr>wr_flow = so_flow scan, wr_page_kind = so_page_kind scan,
              wr_page_flags = so_page_flags scan, wr_producers = producer_table_of scan\<rparr>\<rparr>, Inr ())
          })"

definition scan_is_ingress_error :: "issued_rx_error \<Rightarrow> bool" where
  "scan_is_ingress_error err = (case err of
     Irx_PermitPoolMismatch _ _ \<Rightarrow> True
   | Irx_Rx e \<Rightarrow> (case e of
        Rx_Busy \<Rightarrow> True | Rx_Closed \<Rightarrow> True | Rx_Access _ \<Rightarrow> True | Rx_Release _ \<Rightarrow> True
      | Rx_UnexpectedTransferId _ _ \<Rightarrow> True | Rx_InvalidPage _ \<Rightarrow> False | Rx_Decode _ \<Rightarrow> False)
   | Irx_PermitRelease _ \<Rightarrow> False
   | Irx_RxAndPermitRelease _ _ \<Rightarrow> False)"

definition scan_drain_rejected ::
  "rmp \<Rightarrow> pool_region \<Rightarrow> iss_region \<Rightarrow> issued_rx \<Rightarrow> issued_owned_frame \<Rightarrow>
     (pool_region \<times> iss_region \<times> issued_rx \<times> (worker_role_error + unit)) option" where
  "scan_drain_rejected M r q rx frame = (case frame of
     Issued_Close _ \<Rightarrow> Some (r, q, rx, Inr ())
   | Issued_Page _ \<Rightarrow> do {
       (r1, q1, rx1, res) \<leftarrow> issued_accept M r q rx frame;
       (case res of
          Inr (Issue_Page page) \<Rightarrow> do {
            (r2, q2) \<leftarrow> issued_received_drop (rx_pool (irx_rx rx1)) r1 q1 page;
            Some (r2, q2, rx1, Inr ())
          }
        | Inr Issue_Closed \<Rightarrow> Some (r1, q1, rx1, Inr ())
        | Inl err \<Rightarrow> Some (r1, q1, rx1, Inl (Wrx_Ingress err)))
     })"

definition scan_validate_flow :: "worker_scan \<Rightarrow> scan_flow_id \<Rightarrow> (worker_role_error + unit) option" where
  "scan_validate_flow w flow = do {
     rt \<leftarrow> wsr_runtime w;
     Some (if wr_flow rt \<noteq> flow then Inl (Wrx_UnexpectedFlow (wr_flow rt) flow) else Inr ())
   }"

definition worker_producer_state :: "worker_scan \<Rightarrow> u16 \<Rightarrow> (worker_role_error + producer_terminal_state) option" where
  "worker_producer_state w pid = do {
     rt \<leftarrow> wsr_runtime w;
     Some (ok_or (Wrx_UnknownProducer pid) (map_of (wr_producers rt) pid))
   }"

definition fail_logical :: "worker_scan \<Rightarrow> scan_flow_id \<Rightarrow> u16 \<Rightarrow> scan_message \<Rightarrow> (worker_scan \<times> worker_scan_step) option" where
  "fail_logical w flow pid msg = do {
     rt \<leftarrow> wsr_runtime w;
     let ps = (if map_of (wr_producers rt) pid = Some Producer_Active then set_producer pid Producer_Failed (wr_producers rt)
               else wr_producers rt);
     w1 \<leftarrow> worker_consume (w\<lparr>wsr_runtime := Some (rt\<lparr>wr_producers := ps\<rparr>)\<rparr>) Wse_ObserveProducerError;
     Some (w1, Sstep_LogicalError flow pid msg)
   }"

type_synonym scan_worker_result =
  "(pool_region \<times> iss_region \<times> issued_rx \<times> worker_scan \<times> (worker_role_error + worker_scan_step)) option"

text \<open>The frame of a call that is refused is still taken off the stream.\<close>

definition scan_reject ::
  "rmp \<Rightarrow> pool_region \<Rightarrow> iss_region \<Rightarrow> issued_rx \<Rightarrow> worker_scan \<Rightarrow> issued_owned_frame \<Rightarrow> worker_role_error \<Rightarrow> scan_worker_result" where
  "scan_reject M r q rx w frame err = do {
     (r1, q1, rx1, res) \<leftarrow> scan_drain_rejected M r q rx frame;
     Some (r1, q1, rx1, w, case res of Inl e \<Rightarrow> Inl e | Inr _ \<Rightarrow> Inl err)
   }"

definition accept_page_frame ::
  "rmp \<Rightarrow> pool_region \<Rightarrow> iss_region \<Rightarrow> issued_rx \<Rightarrow> worker_scan \<Rightarrow> scan_flow_id \<Rightarrow> u16 \<Rightarrow> issued_owned_frame \<Rightarrow> scan_worker_result" where
  "accept_page_frame M r q rx w flow pid frame =
     (if wsr_state w \<noteq> Ws_Opened \<and> wsr_state w \<noteq> Ws_Streaming then scan_reject M r q rx w frame (Wrx_InvalidState (wsr_state w))
      else do {
        valid \<leftarrow> scan_validate_flow w flow;
        (case valid of
           Inl err \<Rightarrow> scan_reject M r q rx w frame err
         | Inr _ \<Rightarrow> do {
             known \<leftarrow> worker_producer_state w pid;
             (case known of
                Inl err \<Rightarrow> scan_reject M r q rx w frame err
              | Inr st \<Rightarrow>
                  if st \<noteq> Producer_Active then scan_reject M r q rx w frame (Wrx_ProducerAlreadyTerminal pid)
                  else do {
                    (r1, q1, rx1, res) \<leftarrow> issued_accept M r q rx frame;
                    (case res of
                       Inr (Issue_Page page) \<Rightarrow> do {
                         rt \<leftarrow> wsr_runtime w;
                         inner \<leftarrow> irp_page page;
                         if rp_kind inner \<noteq> wr_page_kind rt \<or> rp_flags inner \<noteq> wr_page_flags rt
                         then do {
                           (r2, q2) \<leftarrow> issued_received_drop (rx_pool (irx_rx rx1)) r1 q1 page;
                           (w1, step) \<leftarrow> fail_logical w flow pid (Smsg_Envelope (rp_kind inner) (rp_flags inner) pid (wr_page_kind rt) (wr_page_flags rt));
                           Some (r2, q2, rx1, w1, Inr step)
                         }
                         else do { w1 \<leftarrow> worker_consume w Wse_AcceptPage; Some (r1, q1, rx1, w1, Inr (Sstep_Page flow pid page)) }
                       }
                     | Inr Issue_Closed \<Rightarrow> do { (w1, step) \<leftarrow> fail_logical w flow pid Smsg_CloseFrame; Some (r1, q1, rx1, w1, Inr step) }
                     | Inl err \<Rightarrow>
                         if scan_is_ingress_error err then Some (r1, q1, rx1, w, Inl (Wrx_Ingress err))
                         else do { (w1, step) \<leftarrow> fail_logical w flow pid (Smsg_Accept err); Some (r1, q1, rx1, w1, Inr step) })
                  })
           })
      })"

definition worker_accept_eof :: "worker_scan \<Rightarrow> scan_flow_id \<Rightarrow> u16 \<Rightarrow> (worker_scan \<times> (worker_role_error + worker_scan_step)) option" where
  "worker_accept_eof w flow pid =
     (if wsr_state w \<noteq> Ws_Opened \<and> wsr_state w \<noteq> Ws_Streaming then Some (w, Inl (Wrx_InvalidState (wsr_state w)))
      else do {
        valid \<leftarrow> scan_validate_flow w flow;
        (case valid of
           Inl err \<Rightarrow> Some (w, Inl err)
         | Inr _ \<Rightarrow> do {
             rt \<leftarrow> wsr_runtime w;
             (case map_of (wr_producers rt) pid of
                None \<Rightarrow> Some (w, Inl (Wrx_UnknownProducer pid))
              | Some st \<Rightarrow>
                  if st \<noteq> Producer_Active then Some (w, Inl (Wrx_ProducerAlreadyTerminal pid))
                  else let ps = set_producer pid Producer_Eof (wr_producers rt); w1 = w\<lparr>wsr_runtime := Some (rt\<lparr>wr_producers := ps\<rparr>)\<rparr> in
                    if all_eof ps
                    then do { w2 \<leftarrow> worker_consume w1 Wse_ObserveLogicalEof; Some (w2, Inr (Sstep_LogicalEof flow)) }
                    else do { w2 \<leftarrow> worker_consume w1 Wse_ObserveProducerEof; Some (w2, Inr Sstep_Idle) })
           })
      })"

definition worker_accept_error ::
  "worker_scan \<Rightarrow> scan_flow_id \<Rightarrow> u16 \<Rightarrow> string \<Rightarrow> (worker_scan \<times> (worker_role_error + worker_scan_step)) option" where
  "worker_accept_error w flow pid message =
     (if wsr_state w \<noteq> Ws_Opened \<and> wsr_state w \<noteq> Ws_Streaming then Some (w, Inl (Wrx_InvalidState (wsr_state w)))
      else do {
        valid \<leftarrow> scan_validate_flow w flow;
        (case valid of
           Inl err \<Rightarrow> Some (w, Inl err)
         | Inr _ \<Rightarrow> do {
             known \<leftarrow> worker_producer_state w pid;
             (case known of
                Inl err \<Rightarrow> Some (w, Inl err)
              | Inr st \<Rightarrow>
                  if st \<noteq> Producer_Active then Some (w, Inl (Wrx_ProducerAlreadyTerminal pid))
                  else do { (w1, step) \<leftarrow> fail_logical w flow pid (Smsg_Given message); Some (w1, Inr step) })
           })
      })"

definition worker_scan_close :: "worker_scan \<Rightarrow> (worker_scan \<times> (worker_role_error + unit)) option" where
  "worker_scan_close w =
     (if wsr_state w \<noteq> Ws_CloseTerminal then Some (w, Inl (Wrx_InvalidState (wsr_state w)))
      else do { w1 \<leftarrow> worker_consume (w\<lparr>wsr_runtime := None\<rparr>) Wse_Close; Some (w1, Inr ()) })"

definition worker_scan_abort :: "worker_scan \<Rightarrow> worker_scan" where
  "worker_scan_abort w = w\<lparr>wsr_state := Ws_Closed, wsr_runtime := None\<rparr>"


section \<open>Fan-in\<close>

text \<open>
  What coordinator and worker promise, over the sets of the producers still awaited and of those that have ended: an
  end is noted, the last one finishes the scan, an error fails it, and then nothing more is taken.
\<close>

datatype scan_note = Note_Eof scan_flow_id u16 | Note_Error scan_flow_id u16 string

datatype scan_answer =
    Ans_Noted | Ans_Finished | Ans_Failed u16 string | Ans_Closed | Ans_WrongFlow | Ans_Unknown | Ans_Already

datatype fan_state = Fan_Waiting "u16 set" "u16 set" | Fan_Over

fun fan_step :: "scan_flow_id \<Rightarrow> scan_note \<Rightarrow> fan_state \<Rightarrow> fan_state \<times> scan_answer" where
  "fan_step flow n Fan_Over = (Fan_Over, Ans_Closed)"
| "fan_step flow n (Fan_Waiting W D) =
     (let (flow1, pid) = (case n of Note_Eof f p \<Rightarrow> (f, p) | Note_Error f p _ \<Rightarrow> (f, p)) in
      if flow1 \<noteq> flow then (Fan_Waiting W D, Ans_WrongFlow)
      else if pid \<in> D then (Fan_Waiting W D, Ans_Already)
      else if pid \<notin> W then (Fan_Waiting W D, Ans_Unknown)
      else case n of
          Note_Error _ _ message \<Rightarrow> (Fan_Over, Ans_Failed pid message)
        | Note_Eof _ _ \<Rightarrow>
            if W - {pid} = {} then (Fan_Over, Ans_Finished) else (Fan_Waiting (W - {pid}) (insert pid D), Ans_Noted))"

fun fan_answers :: "scan_flow_id \<Rightarrow> scan_note list \<Rightarrow> fan_state \<Rightarrow> scan_answer list" where
  "fan_answers flow [] f = []"
| "fan_answers flow (n # ns) f = snd (fan_step flow n f) # fan_answers flow ns (fst (fan_step flow n f))"

fun notes_run :: "('s \<Rightarrow> scan_note \<Rightarrow> ('s \<times> scan_answer) option) \<Rightarrow> scan_note list \<Rightarrow> 's \<Rightarrow> ('s \<times> scan_answer list) option" where
  "notes_run step [] s = Some (s, [])"
| "notes_run step (n # ns) s = do {
     (s1, a) \<leftarrow> step s n;
     (s2, as) \<leftarrow> notes_run step ns s1;
     Some (s2, a # as)
   }"

fun coordinator_refusal :: "backend_coordinator_error \<Rightarrow> scan_answer option" where
  "coordinator_refusal (Bcx_InvalidState _) = Some Ans_Closed"
| "coordinator_refusal (Bcx_UnexpectedFlow _ _) = Some Ans_WrongFlow"
| "coordinator_refusal (Bcx_UnknownProducer _) = Some Ans_Unknown"
| "coordinator_refusal (Bcx_ProducerAlreadyTerminal _) = Some Ans_Already"
| "coordinator_refusal (Bcx_InvalidScanOpen _) = None"

fun terminal_answer :: "logical_terminal \<Rightarrow> scan_answer" where
  "terminal_answer (Terminal_Eof _) = Ans_Finished"
| "terminal_answer (Terminal_Error _ pid message) = Ans_Failed pid message"

definition coordinator_note :: "scan_coordinator \<Rightarrow> scan_note \<Rightarrow> (scan_coordinator \<times> scan_answer) option" where
  "coordinator_note c n = (case n of
     Note_Eof flow pid \<Rightarrow> do {
       (c1, res) \<leftarrow> coordinator_accept_eof c flow pid;
       a \<leftarrow> (case res of Inl e \<Rightarrow> coordinator_refusal e | Inr None \<Rightarrow> Some Ans_Noted | Inr (Some t) \<Rightarrow> Some (terminal_answer t));
       Some (c1, a)
     }
   | Note_Error flow pid message \<Rightarrow> do {
       (c1, res) \<leftarrow> coordinator_accept_error c flow pid message;
       a \<leftarrow> (case res of Inl e \<Rightarrow> coordinator_refusal e | Inr t \<Rightarrow> Some (terminal_answer t));
       Some (c1, a)
     })"

fun worker_answer :: "worker_role_error + worker_scan_step \<Rightarrow> scan_answer option" where
  "worker_answer (Inl (Wrx_InvalidState _)) = Some Ans_Closed"
| "worker_answer (Inl (Wrx_UnexpectedFlow _ _)) = Some Ans_WrongFlow"
| "worker_answer (Inl (Wrx_UnknownProducer _)) = Some Ans_Unknown"
| "worker_answer (Inl (Wrx_ProducerAlreadyTerminal _)) = Some Ans_Already"
| "worker_answer (Inr Sstep_Idle) = Some Ans_Noted"
| "worker_answer (Inr (Sstep_LogicalEof _)) = Some Ans_Finished"
| "worker_answer (Inr (Sstep_LogicalError _ pid (Smsg_Given message))) = Some (Ans_Failed pid message)"
| "worker_answer _ = None"

definition worker_note :: "worker_scan \<Rightarrow> scan_note \<Rightarrow> (worker_scan \<times> scan_answer) option" where
  "worker_note w n = do {
     (w1, res) \<leftarrow> (case n of Note_Eof flow pid \<Rightarrow> worker_accept_eof w flow pid
                        | Note_Error flow pid message \<Rightarrow> worker_accept_error w flow pid message);
     a \<leftarrow> worker_answer res;
     Some (w1, a)
   }"

locale fan_in =
  fixes step :: "'s \<Rightarrow> scan_note \<Rightarrow> ('s \<times> scan_answer) option"
    and rel :: "scan_flow_id \<Rightarrow> 's \<Rightarrow> fan_state \<Rightarrow> bool"
  assumes sim: "rel flow s f \<Longrightarrow> \<exists>s'. step s n = Some (s', snd (fan_step flow n f)) \<and> rel flow s' (fst (fan_step flow n f))"
begin

lemma notes_answered: "rel flow s f \<Longrightarrow> \<exists>s'. notes_run step ns s = Some (s', fan_answers flow ns f)"
proof (induction ns arbitrary: s f)
  case (Cons n ns)
  from sim [OF Cons.prems, of n] obtain s1 where
    s1: "step s n = Some (s1, snd (fan_step flow n f))" "rel flow s1 (fst (fan_step flow n f))" by blast
  from Cons.IH [OF s1(2)] s1(1) show ?case by auto
qed simp

end

text \<open>The table of the producers, as the two sets.\<close>

definition table_sets :: "producer_table \<Rightarrow> u16 set \<Rightarrow> u16 set \<Rightarrow> bool" where
  "table_sets ps W D \<longleftrightarrow> W \<noteq> {} \<and> (\<forall>pid. map_of ps pid =
     (if pid \<in> W then Some Producer_Active else if pid \<in> D then Some Producer_Eof else None)) \<and> W \<inter> D = {} \<and> distinct (map fst ps)"

lemma map_of_set_producer:
  "map_of (set_producer pid st ps) = (if map_of ps pid = None then map_of ps else (map_of ps)(pid \<mapsto> st))"
  by (induction ps) (auto simp: fun_eq_iff)

lemma set_producer_ids: "map fst (set_producer pid st ps) = map fst ps"
  by (induction ps) auto

lemma all_eof_iff: "distinct (map fst ps) \<Longrightarrow> all_eof ps \<longleftrightarrow> (\<forall>pid st. map_of ps pid = Some st \<longrightarrow> st = Producer_Eof)"
  by (fastforce simp: all_eof_def map_of_eq_Some_iff)

lemma table_sets_eof:
  assumes "table_sets ps W D" and "pid \<in> W"
  shows "all_eof (set_producer pid Producer_Eof ps) \<longleftrightarrow> W - {pid} = {}"
    and "W - {pid} \<noteq> {} \<Longrightarrow> table_sets (set_producer pid Producer_Eof ps) (W - {pid}) (insert pid D)"
proof -
  have m: "map_of (set_producer pid Producer_Eof ps) = (map_of ps)(pid \<mapsto> Producer_Eof)"
    using assms by (simp add: table_sets_def map_of_set_producer)
  have "all_eof (set_producer pid Producer_Eof ps) \<longleftrightarrow>
      (\<forall>p st. ((map_of ps)(pid \<mapsto> Producer_Eof)) p = Some st \<longrightarrow> st = Producer_Eof)"
    using assms(1) all_eof_iff [of "set_producer pid Producer_Eof ps"] by (simp add: m set_producer_ids table_sets_def)
  also have "\<dots> \<longleftrightarrow> W - {pid} = {}"
    using assms by (auto simp: table_sets_def split: if_splits)
  finally show "all_eof (set_producer pid Producer_Eof ps) \<longleftrightarrow> W - {pid} = {}" .
  show "table_sets (set_producer pid Producer_Eof ps) (W - {pid}) (insert pid D)" if "W - {pid} \<noteq> {}"
    using that assms unfolding table_sets_def m set_producer_ids by auto
qed

definition coordinator_fan :: "scan_flow_id \<Rightarrow> scan_coordinator \<Rightarrow> fan_state \<Rightarrow> bool" where
  "coordinator_fan flow c f = (case f of
     Fan_Over \<Rightarrow> sc_state c = Bc_CloseTerminal
   | Fan_Waiting W D \<Rightarrow> (sc_state c = Bc_Opened \<or> sc_state c = Bc_Running) \<and>
       (\<exists>ps. sc_runtime c = Some (flow, ps) \<and> table_sets ps W D))"

definition worker_fan :: "scan_flow_id \<Rightarrow> worker_scan \<Rightarrow> fan_state \<Rightarrow> bool" where
  "worker_fan flow w f = (case f of
     Fan_Over \<Rightarrow> wsr_state w = Ws_CloseTerminal
   | Fan_Waiting W D \<Rightarrow> (wsr_state w = Ws_Opened \<or> wsr_state w = Ws_Streaming) \<and>
       (\<exists>rt. wsr_runtime w = Some rt \<and> wr_flow rt = flow \<and> table_sets (wr_producers rt) W D))"

lemmas coordinator_defs = coordinator_note_def coordinator_accept_eof_def coordinator_accept_error_def
  coordinator_admit_def coordinator_consume_def backend_coordinator_flow_def fsm_next_def

lemmas worker_defs = worker_note_def worker_accept_eof_def worker_accept_error_def scan_validate_flow_def
  worker_producer_state_def fail_logical_def worker_consume_def worker_scan_flow_def fsm_next_def ok_or_def

lemma coordinator_sim:
  assumes "coordinator_fan flow c f"
  shows "\<exists>c'. coordinator_note c n = Some (c', snd (fan_step flow n f)) \<and> coordinator_fan flow c' (fst (fan_step flow n f))"
proof (cases f)
  case Fan_Over
  with assms show ?thesis by (cases n) (auto simp: coordinator_fan_def coordinator_defs)
next
  case (Fan_Waiting W D)
  with assms obtain ps where c: "sc_state c = Bc_Opened \<or> sc_state c = Bc_Running" "sc_runtime c = Some (flow, ps)"
    and t: "table_sets ps W D" by (auto simp: coordinator_fan_def)
  have look: "map_of ps p = (if p \<in> W then Some Producer_Active else if p \<in> D then Some Producer_Eof else None)"
    "p \<in> W \<Longrightarrow> p \<notin> D" for p using t by (auto simp: table_sets_def)
  note eof = table_sets_eof [OF t]
  show ?thesis
  proof (cases n)
    case (Note_Eof flow1 pid)
    show ?thesis
    proof (cases "pid \<in> W")
      case True
      with Note_Eof Fan_Waiting c look [of pid] eof [OF True] assms show ?thesis
        by (cases "W - {pid} = {}") (auto simp: coordinator_fan_def coordinator_defs Let_def)
    next
      case False
      with Note_Eof Fan_Waiting c look [of pid] assms show ?thesis by (auto simp: coordinator_fan_def coordinator_defs)
    qed
  next
    case (Note_Error flow1 pid message)
    with Fan_Waiting c look [of pid] assms show ?thesis by (auto simp: coordinator_fan_def coordinator_defs)
  qed
qed

lemma worker_sim:
  assumes "worker_fan flow w f"
  shows "\<exists>w'. worker_note w n = Some (w', snd (fan_step flow n f)) \<and> worker_fan flow w' (fst (fan_step flow n f))"
proof (cases f)
  case Fan_Over
  with assms show ?thesis by (cases n) (auto simp: worker_fan_def worker_defs)
next
  case (Fan_Waiting W D)
  with assms obtain rt where w: "wsr_state w = Ws_Opened \<or> wsr_state w = Ws_Streaming" "wsr_runtime w = Some rt"
    "wr_flow rt = flow" and t: "table_sets (wr_producers rt) W D" by (auto simp: worker_fan_def)
  have look: "map_of (wr_producers rt) p =
      (if p \<in> W then Some Producer_Active else if p \<in> D then Some Producer_Eof else None)"
    "p \<in> W \<Longrightarrow> p \<notin> D" for p using t by (auto simp: table_sets_def)
  note eof = table_sets_eof [OF t]
  show ?thesis
  proof (cases n)
    case (Note_Eof flow1 pid)
    show ?thesis
    proof (cases "pid \<in> W")
      case True
      with Note_Eof Fan_Waiting w look [of pid] eof [OF True] assms show ?thesis
        by (cases "W - {pid} = {}") (auto simp: worker_fan_def worker_defs Let_def)
    next
      case False
      with Note_Eof Fan_Waiting w look [of pid] assms show ?thesis by (auto simp: worker_fan_def worker_defs)
    qed
  next
    case (Note_Error flow1 pid message)
    with Fan_Waiting w look [of pid] assms show ?thesis by (auto simp: worker_fan_def worker_defs Let_def)
  qed
qed

interpretation coordinator: fan_in coordinator_note coordinator_fan
  by unfold_locales (rule coordinator_sim)

interpretation worker: fan_in worker_note worker_fan
  by unfold_locales (rule worker_sim)

section \<open>What the answers say\<close>

lemma fan_over: "fan_answers flow ns Fan_Over = replicate (length ns) Ans_Closed"
  by (induction ns) auto

fun ends_scan :: "scan_answer \<Rightarrow> bool" where
  "ends_scan Ans_Finished = True"
| "ends_scan (Ans_Failed _ _) = True"
| "ends_scan _ = False"

lemma fan_ends_once: "length (filter ends_scan (fan_answers flow ns f)) \<le> 1"
proof (induction ns arbitrary: f)
  case (Cons n ns)
  then show ?case
  proof (cases "ends_scan (snd (fan_step flow n f))")
    case True
    then have "fst (fan_step flow n f) = Fan_Over"
      by (cases f; cases n) (auto split: if_splits)
    with True show ?thesis by (simp add: fan_over)
  qed simp
qed simp

lemma fan_finished_notes:
  "Ans_Finished \<in> set (fan_answers flow ns (Fan_Waiting W D)) \<Longrightarrow> pid \<in> W \<Longrightarrow> Note_Eof flow pid \<in> set ns"
proof (induction ns arbitrary: W D)
  case (Cons n ns)
  show ?case
  proof (cases "n = Note_Eof flow pid")
    case False
    with Cons show ?thesis by (cases n) (auto simp: fan_over split: if_splits)
  qed simp
qed simp

lemma fan_completes:
  assumes "W \<noteq> {}" and "\<forall>p \<in> W. Note_Eof flow p \<in> set ns" and "W \<inter> D = {}"
    and "\<forall>n \<in> set ns. \<exists>f p. n = Note_Eof f p"
  shows "Ans_Finished \<in> set (fan_answers flow ns (Fan_Waiting W D))"
  using assms
proof (induction ns arbitrary: W D)
  case (Cons n ns)
  from Cons.prems(4) obtain f p where n: "n = Note_Eof f p" by auto
  show ?case
  proof (cases "f = flow \<and> p \<in> W")
    case True
    with Cons.prems(3) n Cons.IH [of "W - {p}" "insert p D"] Cons.prems show ?thesis by (cases "W - {p} = {}") auto
  next
    case False
    then have "fst (fan_step flow n (Fan_Waiting W D)) = Fan_Waiting W D" using n by auto
    moreover have "\<forall>p \<in> W. Note_Eof flow p \<in> set ns" using Cons.prems(2) n False by auto
    with Cons.IH [OF Cons.prems(1) _ Cons.prems(3)] Cons.prems(4)
    have "Ans_Finished \<in> set (fan_answers flow ns (Fan_Waiting W D))" by simp
    ultimately show ?thesis by (simp del: fan_step.simps)
  qed
qed auto

lemma validate_distinct:
  "validate_producers before leader ps = Inr () \<Longrightarrow> distinct (map pr_producer_id before) \<Longrightarrow>
     distinct (map pr_producer_id (before @ ps))"
proof (induction before leader ps rule: validate_producers.induct)
  case (2 before leader p ps)
  have ok: "\<not> (pr_role p = Role_Leader \<and> leader)" "\<not> (\<exists>q \<in> set before. pr_producer_id q = pr_producer_id p)"
    "validate_producers (before @ [p]) (leader \<or> pr_role p = Role_Leader) ps = Inr ()"
    using 2(2) by (simp_all split: if_split_asm)
  have "distinct (map pr_producer_id (before @ [p]))" using 2(3) ok(2) by auto
  from 2(1) [OF ok this] show ?case by simp
qed simp

definition declared :: "scan_open \<Rightarrow> u16 set" where
  "declared scan = pr_producer_id ` set (so_producers scan)"

lemma scan_table:
  assumes "scan_validate scan = Inr ()"
  shows "table_sets (producer_table_of scan) (declared scan) {}"
proof -
  have "distinct (map pr_producer_id (so_producers scan))" "so_producers scan \<noteq> []"
    using assms validate_distinct [of "[]" False "so_producers scan"] by (auto simp: scan_validate_def split: if_splits)
  then show ?thesis
    by (auto simp: table_sets_def declared_def producer_table_of_def comp_def map_of_eq_None_iff image_iff
        intro!: map_of_is_SomeI)
qed

section \<open>Properties\<close>

text \<open>C39: Backend and worker agree on how a scan ends. Opened for the same declared producers and told the same ends
  and errors, in any order, with repeated, unknown and foreign ones among them, the coordinator and the worker
  role answer every call alike, without a panic, and as the specification over sets does. The scan ends
  at most once; it is finished only if every declared producer has ended, and when all have ended
  and none has failed it is finished.\<close>

theorem scan_fan_in_refines:
  assumes "scan_validate scan = Inr ()"
  shows "\<exists>c w c' w' answers.
    coordinator_open coordinator_new scan = Some (c, Inr ()) \<and> worker_scan_open worker_scan_new scan = Some (w, Inr ()) \<and>
    answers = fan_answers (so_flow scan) ns (Fan_Waiting (declared scan) {}) \<and>
    notes_run coordinator_note ns c = Some (c', answers) \<and> notes_run worker_note ns w = Some (w', answers) \<and>
    length (filter ends_scan answers) \<le> 1 \<and>
    (Ans_Finished \<in> set answers \<longrightarrow> (\<forall>p \<in> declared scan. Note_Eof (so_flow scan) p \<in> set ns)) \<and>
    ((\<forall>p \<in> declared scan. Note_Eof (so_flow scan) p \<in> set ns) \<and> (\<forall>n \<in> set ns. \<exists>f p. n = Note_Eof f p) \<longrightarrow>
       Ans_Finished \<in> set answers)"
proof -
  let ?f = "Fan_Waiting (declared scan) {}" and ?flow = "so_flow scan"
  note t = scan_table [OF assms]
  let ?c = "\<lparr>sc_state = Bc_Opened, sc_runtime = Some (?flow, producer_table_of scan)\<rparr>"
  let ?w = "\<lparr>wsr_state = Ws_Opened, wsr_runtime = Some \<lparr>wr_flow = ?flow, wr_page_kind = so_page_kind scan,
    wr_page_flags = so_page_flags scan, wr_producers = producer_table_of scan\<rparr>\<rparr>"
  have c: "coordinator_open coordinator_new scan = Some (?c, Inr ())"
    using assms by (simp add: coordinator_open_def coordinator_new_def coordinator_defs)
  have w: "worker_scan_open worker_scan_new scan = Some (?w, Inr ())"
    using assms by (simp add: worker_scan_open_def worker_scan_new_def worker_defs)
  have "coordinator_fan ?flow ?c ?f" "worker_fan ?flow ?w ?f" using t by (simp_all add: coordinator_fan_def worker_fan_def)
  from coordinator.notes_answered [OF this(1), of ns] worker.notes_answered [OF this(2), of ns] obtain c' w' where
    runs: "notes_run coordinator_note ns ?c = Some (c', fan_answers ?flow ns ?f)"
      "notes_run worker_note ns ?w = Some (w', fan_answers ?flow ns ?f)" by blast
  have "declared scan \<noteq> {}" using t by (simp add: table_sets_def)
  then show ?thesis
    using c w runs fan_ends_once [of ?flow ns ?f] fan_finished_notes [of ?flow ns "declared scan" "{}"]
      fan_completes [of "declared scan" ?flow ns "{}"] by blast
qed

definition demo_scan :: scan_open where
  "demo_scan = \<lparr>so_flow = \<lparr>sf_session_epoch = 3, sf_scan_id = 5\<rparr>, so_page_kind = 7, so_page_flags = 0,
     so_producers = [leader_descriptor 0, worker_descriptor 1]\<rparr>"

theorem scan_fan_in_refines_witness:
  "\<exists>w w'. worker_scan_open worker_scan_new demo_scan = Some (w, Inr ()) \<and>
     notes_run worker_note [Note_Eof (so_flow demo_scan) 1, Note_Eof (so_flow demo_scan) 1, Note_Eof (so_flow demo_scan) 0] w =
       Some (w', [Ans_Noted, Ans_Already, Ans_Finished])"
proof -
  let ?notes = "[Note_Eof (so_flow demo_scan) 1, Note_Eof (so_flow demo_scan) 1, Note_Eof (so_flow demo_scan) 0]"
  have "scan_validate demo_scan = Inr ()"
    by (simp add: scan_validate_def demo_scan_def leader_descriptor_def worker_descriptor_def)
  moreover have "fan_answers (so_flow demo_scan) ?notes (Fan_Waiting (declared demo_scan) {}) = [Ans_Noted, Ans_Already, Ans_Finished]"
    by (auto simp: declared_def demo_scan_def leader_descriptor_def worker_descriptor_def)
  ultimately show ?thesis using scan_fan_in_refines [of demo_scan ?notes] by metis
qed

end
