(* ===== verification/Scan_Steps.thy ===== *)
theory Scan_Steps
  imports Scan_Flow
begin

text \<open>
  What one step of a scan's producer does to the two pools and to the page stream: it is blocked and has changed nothing, or its
  source has filled a page that is then on its way, or the page it had begun has been given back and the producer is at
  its end. The page stream is the one of \<open>Issuance_Stream\<close>.
\<close>

section \<open>The two pools under a stream\<close>

lemma istream_pools_kept:
  assumes "stream_inv M h (plain_stream s) ms" and "permits_inv hp s"
    and "pool_inv h r fl" "detached_kept h {} (is_pages s) r" "leased_set h r = leased_set h (is_pages s)"
    and "iss_inv hp q pl" "leased_permits q = leased_permits (is_permits s)"
  shows "stream_inv M h (plain_stream (s\<lparr>is_pages := r, is_permits := q\<rparr>)) ms"
    "permits_inv hp (s\<lparr>is_pages := r, is_permits := q\<rparr>)"
proof -
  have "plain_stream (s\<lparr>is_pages := r, is_permits := q\<rparr>) = (plain_stream s)\<lparr>st_region := r\<rparr>"
    by (simp add: plain_stream_def)
  moreover have "st_region (plain_stream s) = is_pages s" by (simp add: plain_stream_def)
  ultimately show "stream_inv M h (plain_stream (s\<lparr>is_pages := r, is_permits := q\<rparr>)) ms"
    using stream_region_kept [OF assms(1,3)] assms(4,5) by simp
  show "permits_inv hp (s\<lparr>is_pages := r, is_permits := q\<rparr>)"
    using assms(2,6,7) by (auto simp: permits_inv_def live_permits_def)
qed

lemma istream_page_sent:
  assumes inv: "stream_inv M h (plain_stream s) ms" and permits: "permits_inv hp s"
    and r: "pool_inv h r xs" "detached_kept h {} (is_pages s) r" "page_holds M h r d m"
      "leased_set h r = insert (pd_page_id d) (leased_set h (is_pages s))" "pd_page_id d \<notin> leased_set h (is_pages s)"
    and q: "iss_inv hp q pl" "leased_permits q = insert x (leased_permits (is_permits s))" "x \<notin> leased_permits (is_permits s)"
  defines "tid \<equiv> tx_next_transfer_id (itx_tx (is_tx s))"
  defines "s' \<equiv> s\<lparr>is_pages := r, is_permits := q,
      is_tx := (is_tx s)\<lparr>itx_tx := (itx_tx (is_tx s))\<lparr>tx_next_transfer_id := saturating_add_u64 tid 1\<rparr>\<rparr>,
      is_wire := is_wire s @ [Issued_Page \<lparr>if_pool_instance_id = ip_instance_id hp, if_permit_id = x,
        if_inner = \<lparr>pf_transfer_id = tid, pf_descriptor = d\<rparr>\<rparr>],
      is_sent := is_sent s @ [m]\<rparr>"
  shows "stream_inv M h (plain_stream s') (ms @ [m])" "permits_inv hp s'"
proof -
  show "stream_inv M h (plain_stream s') (ms @ [m])"
    using stream_page_sent [OF inv r(1) _ r(3)] r(2,4,5) by (simp add: plain_stream_def s'_def tid_def)
  show "permits_inv hp s'"
    using permits q by (auto simp: permits_inv_def live_permits_def s'_def issued_by_def)
qed

section \<open>A page of a source\<close>

text \<open>The writer a sender has begun with a page and a permit.\<close>

definition begun_writer :: "pool_handle \<Rightarrow> iss_pool \<Rightarrow> page_descriptor \<Rightarrow> u32 \<Rightarrow> u16 \<Rightarrow> u16 \<Rightarrow> issued_writer" where
  "begun_writer h hp d x kind flags =
     \<lparr>iw_writer = \<lparr>pw_lease = Some (lease_of h d), pw_kind = kind, pw_flags = flags, pw_position = 0, pw_finished = False\<rparr>,
      iw_permit = Some \<lparr>il_pool = hp, il_permit_id = x, il_detached = False\<rparr>, iw_permits = hp\<rparr>"

lemma fill_effect:
  assumes inv: "pool_inv h r fl" and v: "valid_desc h r d Attached" and ps: "page_header_len \<le> ph_page_size h"
  obtains out where "writer_payload r (iw_writer (begun_writer h hp d x kind flags)) = Some out"
    "length out = ph_page_size h - page_header_len"
    "\<And>src. length src = length out \<Longrightarrow> \<exists>r'. writer_fill_payload r (iw_writer (begun_writer h hp d x kind flags)) src = Some r' \<and>
       writer_payload r' (iw_writer (begun_writer h hp d x kind flags)) = Some src \<and> pool_inv h r' fl \<and> valid_desc h r' d Attached \<and>
       detached_kept h {} r r' \<and> leased_set h r' = leased_set h r \<and>
       take (length src) (drop page_header_len (page_slice h r' (unat (pd_page_id d)))) = src"
proof -
  let ?w = "iw_writer (begun_writer h hp d x kind flags)" and ?cap = "ph_page_size h - page_header_len"
  have w: "pw_lease ?w = Some (lease_of h d)" by (simp add: begun_writer_def)
  have len: "length (lease_bytes r' (lease_of h d)) = ph_page_size h" if "pool_inv h r' fl" for r'
    using v length_page_slice [OF that] by (simp add: lease_bytes_of valid_desc_def)
  have pay: "writer_payload r' ?w = Some (take ?cap (drop page_header_len (page_slice h r' (unat (pd_page_id d)))))"
    if "pool_inv h r' fl" for r'
    using w len [OF that] ps by (simp add: writer_payload_def writer_payload_capacity_def lease_bytes_of)
  show thesis
  proof (rule that [OF pay [OF inv]])
    show out: "length (take ?cap (drop page_header_len (page_slice h r (unat (pd_page_id d))))) = ?cap"
      using len [OF inv] by (simp add: lease_bytes_of)
    fix src :: bytes
    assume "length src = length (take ?cap (drop page_header_len (page_slice h r (unat (pd_page_id d)))))"
    then have src: "length src = ?cap" using out by simp
    let ?r = "lease_write r (lease_of h d) page_header_len src"
    have fits: "page_header_len + length src \<le> ph_page_size h" using src ps by simp
    note wr = lease_write_effect [OF inv v fits]
    have "writer_fill_payload r ?w src = Some ?r"
      using w len [OF inv] ps src by (simp add: writer_fill_payload_def writer_payload_capacity_def)
    moreover have "take (length src) (drop page_header_len (page_slice h ?r (unat (pd_page_id d)))) = src"
      using wr(5) len [OF inv] fits by (simp add: lease_bytes_of copy_at_def)
    ultimately show "\<exists>r'. writer_fill_payload r ?w src = Some r' \<and> writer_payload r' ?w = Some src \<and> pool_inv h r' fl \<and>
        valid_desc h r' d Attached \<and> detached_kept h {} r r' \<and> leased_set h r' = leased_set h r \<and>
        take (length src) (drop page_header_len (page_slice h r' (unat (pd_page_id d)))) = src"
      using wr(1-4) pay [OF wr(1)] src by auto
  qed
qed

lemma finish_effect:
  assumes M: "rmp_ok M" and inv: "pool_inv h r fl" and v: "valid_desc h r d Attached"
    and tx: "tx_phase_of (itx_tx itx) = Phase_Writing"
    and ps: "page_header_len \<le> ph_page_size h" "ph_page_size h \<le> page_header_len + max_payload_len"
    and n: "n \<le> ph_page_size h - page_header_len"
  obtains r' tx' ob where
    "issued_finish_with_payload_len M r q itx (begun_writer h hp d x kind flags) n = Some (r', q, tx', Inr ob)"
    "issued_frame ob = Some (Issued_Page \<lparr>if_pool_instance_id = ip_instance_id hp, if_permit_id = x,
       if_inner = \<lparr>pf_transfer_id = tx_next_transfer_id (itx_tx itx), pf_descriptor = d\<rparr>\<rparr>)"
    "issued_mark_sent r' q tx' ob = Some (r', q, itx\<lparr>itx_tx := (itx_tx itx)\<lparr>tx_phase_of := Phase_Idle,
       tx_next_transfer_id := saturating_add_u64 (tx_next_transfer_id (itx_tx itx)) 1\<rparr>\<rparr>)"
    "pool_inv h r' fl" "detached_kept h {} r r'" "leased_set h r' = leased_set h r"
    "page_holds M h r' d (kind, flags, take n (drop page_header_len (page_slice h r (unat (pd_page_id d)))))"
proof -
  let ?W = "begun_writer h hp d x kind flags"
  let ?w = "(iw_writer ?W)\<lparr>pw_position := n\<rparr>"
  let ?payload = "take n (drop page_header_len (page_slice h r (unat (pd_page_id d))))"
  have on: "writer_on h r d ?w" using v ps n by (simp add: writer_on_def begun_writer_def)
  have len: "length (page_slice h r (unat (pd_page_id d))) = ph_page_size h"
    using v length_page_slice [OF inv] by (simp add: valid_desc_def)
  have "length ?payload = pw_position ?w" using len n by simp
  moreover have "take (pw_position ?w) (drop page_header_len (page_slice h r (unat (pd_page_id d)))) = ?payload" by simp
  ultimately obtain r' where
    fin: "writer_finish M r (itx_tx itx) ?w = Some (r', (itx_tx itx)\<lparr>tx_phase_of := Phase_OutboundPending,
        tx_next_transfer_id := saturating_add_u64 (tx_next_transfer_id (itx_tx itx)) 1\<rparr>,
        Inr \<lparr>ob_descriptor = d, ob_transfer_id = tx_next_transfer_id (itx_tx itx), ob_sent = False\<rparr>)"
    and r': "pool_inv h r' fl" "detached_kept h {} r r'" "page_holds M h r' d (pw_kind ?w, pw_flags ?w, ?payload)"
      "leased_set h r' = leased_set h r"
    using writer_finish_effect [OF M inv on tx ps(2)] by metis
  have "writer_finish_with_payload_len M r (itx_tx itx) (iw_writer ?W) n = writer_finish M r (itx_tx itx) ?w"
    by (simp add: writer_finish_def writer_finish_len_position)
  then have "issued_finish_with_payload_len M r q itx ?W n = Some (r', q, itx\<lparr>itx_tx := (itx_tx itx)\<lparr>
      tx_phase_of := Phase_OutboundPending, tx_next_transfer_id := saturating_add_u64 (tx_next_transfer_id (itx_tx itx)) 1\<rparr>\<rparr>,
      Inr \<lparr>io_outbound = Some \<lparr>ob_descriptor = d, ob_transfer_id = tx_next_transfer_id (itx_tx itx), ob_sent = False\<rparr>,
        io_permits = hp, io_permit_id = x, io_payload_len = n, io_sent = False\<rparr>)"
    using fin by (simp add: issued_finish_with_payload_len_def begun_writer_def permit_into_id_def permit_drop_def)
  then show thesis
    by (rule that) (use r' in \<open>simp_all add: issued_frame_def issued_mark_sent_def outbound_mark_sent_def
        finish_outbound_def outbound_drop_def issued_outbound_drop_def begun_writer_def\<close>)
qed

lemma drop_effect:
  assumes inv: "pool_inv h r fl" and v: "valid_desc h r d Attached" and tx: "tx_phase_of (itx_tx itx) = Phase_Writing"
    and q: "iss_inv hp q pl" "x \<in> leased_permits q"
  obtains r' q' fl' pl' where "issued_writer_drop r q itx (begun_writer h hp d x kind flags) =
      Some (r', q', itx\<lparr>itx_tx := (itx_tx itx)\<lparr>tx_phase_of := Phase_Idle\<rparr>\<rparr>)"
    "pool_inv h r' fl'" "detached_kept h {} r r'" "leased_set h r' = leased_set h r - {pd_page_id d}"
    "iss_inv hp q' pl'" "leased_permits q' = leased_permits q - {x}"
proof -
  from lease_drop_effect [OF inv v] obtain r' fl' where
    r': "lease_drop r (lease_of h d) = Some r'" "pool_inv h r' fl'" "detached_kept h {} r r'"
      "leased_set h r' = leased_set h r - {pd_page_id d}" .
  from iss_release_effect [OF q] obtain q' where
    q': "iss_release hp q x = Some (q', Inr ())" "iss_inv hp q' (x # pl)" "leased_permits q' = leased_permits q - {x}" .
  have "issued_writer_drop r q itx (begun_writer h hp d x kind flags) =
      Some (r', q', itx\<lparr>itx_tx := (itx_tx itx)\<lparr>tx_phase_of := Phase_Idle\<rparr>\<rparr>)"
    using r'(1) q'(1) tx
    by (simp add: issued_writer_drop_def begun_writer_def writer_drop_def cancel_writer_def permit_option_drop_def permit_drop_def)
  then show thesis by (rule that) (rule r' q')+
qed

section \<open>One step of a producer\<close>

lemma producer_consumes:
  assumes "bpr_state b = Bp_Opened \<or> bpr_state b = Bp_Streaming"
  shows "producer_consume b Bpe_EmitPage = Some (b\<lparr>bpr_state := Bp_Streaming\<rparr>)"
    "producer_consume b Bpe_EmitEof = Some (b\<lparr>bpr_state := Bp_CloseTerminal\<rparr>)"
    "producer_consume b Bpe_EmitError = Some (b\<lparr>bpr_state := Bp_CloseTerminal\<rparr>)"
  using assms by (auto simp: producer_consume_def backend_producer_flow_def fsm_next_def)

definition keeps_length :: "('s, 'x) page_source \<Rightarrow> bool" where
  "keeps_length S \<longleftrightarrow> (\<forall>payload s. length (fst (snd (src_fill_next_page S payload s))) = length payload)"

text \<open>The end of a producer, by what its source answered.\<close>

definition producer_end :: "'s active_producer \<Rightarrow> bytes \<Rightarrow> 'x + source_page_status \<Rightarrow> 'x backend_producer_step" where
  "producer_end a payload status = (case status of
     Inr Source_Eof \<Rightarrow> Pstep_ProducerEof (ap_flow a) (ap_producer_id a)
   | Inr (Source_Page n) \<Rightarrow> Pstep_ProducerError (ap_flow a) (ap_producer_id a) (Stream_InvalidPayloadLen n (length payload))
   | Inl e \<Rightarrow> Pstep_ProducerError (ap_flow a) (ap_producer_id a) (Stream_Source e))"

text \<open>A page and a permit are leased for a page that is being written; everything else is as the stream has it.\<close>

definition writing :: "pool_handle \<Rightarrow> iss_pool \<Rightarrow> istream \<Rightarrow> pool_region \<Rightarrow> iss_region \<Rightarrow> page_descriptor \<Rightarrow> u32 \<Rightarrow> bool" where
  "writing h hp ist r q d x \<longleftrightarrow> (\<exists>fl. pool_inv h r fl) \<and> valid_desc h r d Attached \<and> detached_kept h {} (is_pages ist) r \<and>
     leased_set h r = insert (pd_page_id d) (leased_set h (is_pages ist)) \<and> pd_page_id d \<notin> leased_set h (is_pages ist) \<and>
     (\<exists>pl. iss_inv hp q pl) \<and> leased_permits q = insert x (leased_permits (is_permits ist)) \<and> x \<notin> leased_permits (is_permits ist)"

definition writing_tx :: "issued_tx \<Rightarrow> issued_tx" where
  "writing_tx tx = tx\<lparr>itx_tx := (itx_tx tx)\<lparr>tx_phase_of := Phase_Writing\<rparr>\<rparr>"

lemma istream_ends:
  assumes "stream_inv M h (plain_stream ist) ms" and "permits_inv hp ist"
  shows "itx_permits (is_tx ist) = hp" "tx_pool (itx_tx (is_tx ist)) = h" "tx_sendable (itx_tx (is_tx ist))"
    "page_header_len \<le> ph_page_size h" "ph_page_size h \<le> page_header_len + max_payload_len"
  using assms by (auto simp: stream_inv_def ends_ok_def plain_stream_def permits_inv_def tx_sendable_def)

lemma writing_filled:
  assumes w: "writing h hp ist r q d x" and ps: "page_header_len \<le> ph_page_size h"
  obtains out where "writer_payload r (iw_writer (begun_writer h hp d x kind flags)) = Some out"
    "length out = ph_page_size h - page_header_len"
    "\<And>src. length src = length out \<Longrightarrow> \<exists>r'. writer_fill_payload r (iw_writer (begun_writer h hp d x kind flags)) src = Some r' \<and>
       writer_payload r' (iw_writer (begun_writer h hp d x kind flags)) = Some src \<and> writing h hp ist r' q d x \<and>
       take (length src) (drop page_header_len (page_slice h r' (unat (pd_page_id d)))) = src"
proof -
  from w obtain fl where fl: "pool_inv h r fl" "valid_desc h r d Attached" by (auto simp: writing_def)
  from fill_effect [OF this ps, of hp x kind flags] obtain out where
    out: "writer_payload r (iw_writer (begun_writer h hp d x kind flags)) = Some out" "length out = ph_page_size h - page_header_len"
    and fill: "\<And>src. length src = length out \<Longrightarrow> \<exists>r'. writer_fill_payload r (iw_writer (begun_writer h hp d x kind flags)) src = Some r' \<and>
       writer_payload r' (iw_writer (begun_writer h hp d x kind flags)) = Some src \<and> pool_inv h r' fl \<and> valid_desc h r' d Attached \<and>
       detached_kept h {} r r' \<and> leased_set h r' = leased_set h r \<and>
       take (length src) (drop page_header_len (page_slice h r' (unat (pd_page_id d)))) = src" by blast
  have "writing h hp ist r' q d x"
    if "pool_inv h r' fl" "valid_desc h r' d Attached" "detached_kept h {} r r'" "leased_set h r' = leased_set h r" for r'
    using w that detached_kept_trans [of h "{}" "is_pages ist" r r'] by (auto simp: writing_def)
  with fill show thesis by (intro that [OF out]) blast
qed

lemma writing_sent:
  assumes M: "rmp_ok M" and plain: "stream_inv M h (plain_stream ist) ms" and permits: "permits_inv hp ist"
    and w: "writing h hp ist r q d x" and n: "n \<le> ph_page_size h - page_header_len"
    and data: "take n (drop page_header_len (page_slice h r (unat (pd_page_id d)))) = payload"
  obtains r' tx ob f tx' where
    "issued_finish_with_payload_len M r q (writing_tx (is_tx ist)) (begun_writer h hp d x kind flags) n = Some (r', q, tx, Inr ob)"
    "issued_frame ob = Some f" "issued_mark_sent r' q tx ob = Some (r', q, tx')"
    "stream_inv M h (plain_stream (ist\<lparr>is_pages := r', is_permits := q, is_tx := tx', is_wire := is_wire ist @ [f],
       is_sent := is_sent ist @ [(kind, flags, payload)]\<rparr>)) (ms @ [(kind, flags, payload)])"
    "permits_inv hp (ist\<lparr>is_pages := r', is_permits := q, is_tx := tx', is_wire := is_wire ist @ [f],
       is_sent := is_sent ist @ [(kind, flags, payload)]\<rparr>)"
proof -
  let ?tx = "is_tx ist"
  note ends = istream_ends [OF plain permits]
  from w obtain fl pl where fl: "pool_inv h r fl" "valid_desc h r d Attached" "detached_kept h {} (is_pages ist) r"
    "leased_set h r = insert (pd_page_id d) (leased_set h (is_pages ist))" "pd_page_id d \<notin> leased_set h (is_pages ist)"
    and pl: "iss_inv hp q pl" "leased_permits q = insert x (leased_permits (is_permits ist))" "x \<notin> leased_permits (is_permits ist)"
    by (auto simp: writing_def)
  have phase: "tx_phase_of (itx_tx (writing_tx ?tx)) = Phase_Writing" by (simp add: writing_tx_def)
  have tx: "(writing_tx ?tx)\<lparr>itx_tx := (itx_tx (writing_tx ?tx))\<lparr>tx_phase_of := Phase_Idle, tx_next_transfer_id := t\<rparr>\<rparr> =
      ?tx\<lparr>itx_tx := (itx_tx ?tx)\<lparr>tx_next_transfer_id := t\<rparr>\<rparr>"
    "tx_next_transfer_id (itx_tx (writing_tx ?tx)) = tx_next_transfer_id (itx_tx ?tx)" for t
    using ends(3) by (simp_all add: writing_tx_def tx_sendable_def)
  from finish_effect [OF M fl(1,2) phase ends(4,5) n, of q hp x kind flags, unfolded data tx] obtain r' tx' ob where
    fin: "issued_finish_with_payload_len M r q (writing_tx ?tx) (begun_writer h hp d x kind flags) n = Some (r', q, tx', Inr ob)"
      "issued_frame ob = Some (Issued_Page \<lparr>if_pool_instance_id = ip_instance_id hp, if_permit_id = x,
         if_inner = \<lparr>pf_transfer_id = tx_next_transfer_id (itx_tx ?tx), pf_descriptor = d\<rparr>\<rparr>)"
      "issued_mark_sent r' q tx' ob = Some (r', q, ?tx\<lparr>itx_tx := (itx_tx ?tx)\<lparr>
         tx_next_transfer_id := saturating_add_u64 (tx_next_transfer_id (itx_tx ?tx)) 1\<rparr>\<rparr>)"
    and r': "pool_inv h r' fl" "detached_kept h {} r r'" "leased_set h r' = leased_set h r" "page_holds M h r' d (kind, flags, payload)" .
  from that [OF fin istream_page_sent [OF plain permits r'(1) detached_kept_trans [OF fl(3) r'(2)] r'(4) _ fl(5) pl]]
  show thesis using r'(3) fl(4) by simp
qed

lemma writing_dropped:
  assumes plain: "stream_inv M h (plain_stream ist) ms" and permits: "permits_inv hp ist" and w: "writing h hp ist r q d x"
  obtains r' q' where
    "issued_writer_drop r q (writing_tx (is_tx ist)) (begun_writer h hp d x kind flags) = Some (r', q', is_tx ist)"
    "stream_inv M h (plain_stream (ist\<lparr>is_pages := r', is_permits := q'\<rparr>)) ms"
    "permits_inv hp (ist\<lparr>is_pages := r', is_permits := q'\<rparr>)"
proof -
  let ?tx = "is_tx ist"
  from w obtain fl pl where fl: "pool_inv h r fl" "valid_desc h r d Attached" "detached_kept h {} (is_pages ist) r"
    "leased_set h r = insert (pd_page_id d) (leased_set h (is_pages ist))" "pd_page_id d \<notin> leased_set h (is_pages ist)"
    and pl: "iss_inv hp q pl" "leased_permits q = insert x (leased_permits (is_permits ist))" "x \<notin> leased_permits (is_permits ist)"
    by (auto simp: writing_def)
  have phase: "tx_phase_of (itx_tx (writing_tx ?tx)) = Phase_Writing" by (simp add: writing_tx_def)
  have idle: "(writing_tx ?tx)\<lparr>itx_tx := (itx_tx (writing_tx ?tx))\<lparr>tx_phase_of := Phase_Idle\<rparr>\<rparr> = ?tx"
    using istream_ends(3) [OF plain permits] by (simp add: writing_tx_def tx_sendable_def)
  have "x \<in> leased_permits q" using pl(2) by simp
  from drop_effect [OF fl(1,2) phase pl(1) this, of kind flags, unfolded idle] obtain r' q' fl' pl' where
    r': "issued_writer_drop r q (writing_tx ?tx) (begun_writer h hp d x kind flags) = Some (r', q', ?tx)"
      "pool_inv h r' fl'" "detached_kept h {} r r'" "leased_set h r' = leased_set h r - {pd_page_id d}"
      "iss_inv hp q' pl'" "leased_permits q' = leased_permits q - {x}" .
  from that [OF r'(1) istream_pools_kept [OF plain permits r'(2) detached_kept_trans [OF fl(3) r'(3)] _ r'(5)]]
  show thesis using r'(4,6) fl(4,5) pl(2,3) by simp
qed

text \<open>A step is blocked, or its source has filled a page that is then sent or dropped.\<close>

lemma producer_fills:
  assumes S: "keeps_length S"
    and plain: "stream_inv M h (plain_stream ist) ms" and permits: "permits_inv hp ist"
    and b: "bpr_tx b = is_tx ist" "bpr_active b = Some a" "bpr_state b = Bp_Opened \<or> bpr_state b = Bp_Streaming"
  obtains (blocked) r q where
      "producer_step M S (is_pages ist) (is_permits ist) b =
         Some (r, q, b, Inr (Pstep_Blocked (ap_flow a) (ap_producer_id a)))"
      "stream_inv M h (plain_stream (ist\<lparr>is_pages := r, is_permits := q\<rparr>)) ms"
      "permits_inv hp (ist\<lparr>is_pages := r, is_permits := q\<rparr>)"
  | (filled) out src payload status r q d x W where
      "W = begun_writer h hp d x (ap_page_kind a) (ap_page_flags a)"
      "src_fill_next_page S out (ap_source a) = (src, payload, status)" "length payload = ph_page_size h - page_header_len"
      "producer_step M S (is_pages ist) (is_permits ist) b =
         producer_answer M r q (b\<lparr>bpr_tx := writing_tx (is_tx ist), bpr_active := Some (a\<lparr>ap_source := src\<rparr>)\<rparr>)
           (ap_flow a) (ap_producer_id a) W status"
      "writing h hp ist r q d x" "writer_payload r (iw_writer W) = Some payload"
      "take (length payload) (drop page_header_len (page_slice h r (unat (pd_page_id d)))) = payload"
proof -
  let ?r = "is_pages ist" and ?q = "is_permits ist" and ?kind = "ap_page_kind a" and ?flags = "ap_page_flags a"
  note ends = istream_ends [OF plain permits]
  from plain obtain fl where fl: "pool_inv h ?r fl" by (auto simp: stream_inv_def plain_stream_def)
  from permits obtain pl where pl: "iss_inv hp ?q pl" by (auto simp: permits_inv_def)
  from pl ends(1) fl ends(2,3) show thesis
  proof (cases rule: issued_begin_effect [where kind = ?kind and flags = ?flags])
    case (blocked r q err fl' pl')
    have "producer_step M S ?r ?q b = Some (r, q, b, Inr (Pstep_Blocked (ap_flow a) (ap_producer_id a)))"
      using blocked(1,2) b(3) by (auto simp: producer_step_def Let_def b(1,2))
    then show thesis
      using istream_pools_kept [OF plain permits blocked(4-8)] by (rule that(1))
  next
    case (begun r1 q1 d xs x ys)
    define W where "W = begun_writer h hp d x ?kind ?flags"
    have "writing h hp ist r1 q1 d x" using begun by (auto simp: writing_def)
    from writing_filled [OF this ends(4), of ?kind ?flags, folded W_def] obtain out where
      out: "writer_payload r1 (iw_writer W) = Some out" "length out = ph_page_size h - page_header_len"
      and fill: "\<And>src. length src = length out \<Longrightarrow> \<exists>r'. writer_fill_payload r1 (iw_writer W) src = Some r' \<and>
         writer_payload r' (iw_writer W) = Some src \<and> writing h hp ist r' q1 d x \<and>
         take (length src) (drop page_header_len (page_slice h r' (unat (pd_page_id d)))) = src" by blast
    obtain src payload status where src: "src_fill_next_page S out (ap_source a) = (src, payload, status)"
      by (cases "src_fill_next_page S out (ap_source a)")
    have len: "length payload = length out" using S src unfolding keeps_length_def by (metis fst_conv snd_conv)
    from fill [OF this] obtain r2 where r2: "writer_fill_payload r1 (iw_writer W) payload = Some r2"
      "writer_payload r2 (iw_writer W) = Some payload" "writing h hp ist r2 q1 d x"
      "take (length payload) (drop page_header_len (page_slice h r2 (unat (pd_page_id d)))) = payload" by blast
    have "producer_step M S ?r ?q b = producer_answer M r2 q1
        (b\<lparr>bpr_tx := writing_tx (is_tx ist), bpr_active := Some (a\<lparr>ap_source := src\<rparr>)\<rparr>) (ap_flow a) (ap_producer_id a) W status"
      using begun(5) [folded begun_writer_def writing_tx_def, folded W_def] out(1) src r2(1) b(3)
      by (auto simp: producer_step_def Let_def b(1,2))
    then show thesis by (rule that(2) [OF W_def src len [unfolded out(2)] _ r2(3,2,4)])
  qed
qed

lemma producer_step_effect:
  assumes M: "rmp_ok M" and S: "keeps_length S"
    and plain: "stream_inv M h (plain_stream ist) ms" and permits: "permits_inv hp ist"
    and b: "bpr_tx b = is_tx ist" "bpr_active b = Some a" "bpr_state b = Bp_Opened \<or> bpr_state b = Bp_Streaming"
  obtains (blocked) r q where
      "producer_step M S (is_pages ist) (is_permits ist) b =
         Some (r, q, b, Inr (Pstep_Blocked (ap_flow a) (ap_producer_id a)))"
      "stream_inv M h (plain_stream (ist\<lparr>is_pages := r, is_permits := q\<rparr>)) ms"
      "permits_inv hp (ist\<lparr>is_pages := r, is_permits := q\<rparr>)"
  | (page) out src payload n r q tx ob f r' q' tx' m where
      "src_fill_next_page S out (ap_source a) = (src, payload, Inr (Source_Page n))" "n \<le> length payload"
      "producer_step M S (is_pages ist) (is_permits ist) b =
         Some (r, q, b\<lparr>bpr_state := Bp_Streaming, bpr_tx := tx, bpr_active := Some (a\<lparr>ap_source := src\<rparr>)\<rparr>,
           Inr (Pstep_OutboundPage (ap_flow a) (ap_producer_id a) ob))"
      "issued_frame ob = Some f" "issued_mark_sent r q tx ob = Some (r', q', tx')"
      "m = (ap_page_kind a, ap_page_flags a, take n payload)"
      "stream_inv M h (plain_stream (ist\<lparr>is_pages := r', is_permits := q', is_tx := tx', is_wire := is_wire ist @ [f],
         is_sent := is_sent ist @ [m]\<rparr>)) (ms @ [m])"
      "permits_inv hp (ist\<lparr>is_pages := r', is_permits := q', is_tx := tx', is_wire := is_wire ist @ [f],
         is_sent := is_sent ist @ [m]\<rparr>)"
  | (ended) out src payload status r q where
      "src_fill_next_page S out (ap_source a) = (src, payload, status)"
      "\<And>n. status = Inr (Source_Page n) \<Longrightarrow> length payload < n"
      "producer_step M S (is_pages ist) (is_permits ist) b =
         Some (r, q, b\<lparr>bpr_state := Bp_CloseTerminal, bpr_active := Some (a\<lparr>ap_source := src\<rparr>)\<rparr>,
           Inr (producer_end a payload status))"
      "stream_inv M h (plain_stream (ist\<lparr>is_pages := r, is_permits := q\<rparr>)) ms"
      "permits_inv hp (ist\<lparr>is_pages := r, is_permits := q\<rparr>)"
  using S plain permits b
proof (cases rule: producer_fills [where M = M])
  case (blocked r q)
  then show thesis by (rule that(1))
next
  case (filled out src payload status r q d x W)
  let ?b = "b\<lparr>bpr_tx := writing_tx (is_tx ist), bpr_active := Some (a\<lparr>ap_source := src\<rparr>)\<rparr>"
  have b': "bpr_state ?b = Bp_Opened \<or> bpr_state ?b = Bp_Streaming" using b(3) by simp
  have tx: "b\<lparr>bpr_tx := is_tx ist\<rparr> = b" using b(1) by simp
  show thesis
  proof (cases "\<exists>n. status = Inr (Source_Page n) \<and> n \<le> length payload")
    case True
    then obtain n where n: "status = Inr (Source_Page n)" "n \<le> length payload" by blast
    let ?m = "(ap_page_kind a, ap_page_flags a, take n payload)"
    have "n \<le> ph_page_size h - page_header_len" using n(2) filled(3) by simp
    moreover have "take n (drop page_header_len (page_slice h r (unat (pd_page_id d)))) = take n payload"
      using filled(7) n(2) by (metis min.absorb1 take_take)
    ultimately obtain r' tx ob f tx' where
      fin: "issued_finish_with_payload_len M r q (writing_tx (is_tx ist)) W n = Some (r', q, tx, Inr ob)"
      and sent: "issued_frame ob = Some f" "issued_mark_sent r' q tx ob = Some (r', q, tx')"
        "stream_inv M h (plain_stream (ist\<lparr>is_pages := r', is_permits := q, is_tx := tx', is_wire := is_wire ist @ [f],
           is_sent := is_sent ist @ [?m]\<rparr>)) (ms @ [?m])"
        "permits_inv hp (ist\<lparr>is_pages := r', is_permits := q, is_tx := tx', is_wire := is_wire ist @ [f],
           is_sent := is_sent ist @ [?m]\<rparr>)"
      unfolding filled(1) by (rule writing_sent [OF M plain permits filled(5)])
    have "producer_answer M r q ?b (ap_flow a) (ap_producer_id a) W status =
       Some (r', q, b\<lparr>bpr_state := Bp_Streaming, bpr_tx := tx, bpr_active := Some (a\<lparr>ap_source := src\<rparr>)\<rparr>,
         Inr (Pstep_OutboundPage (ap_flow a) (ap_producer_id a) ob))"
      using n fin filled(6) b' by (simp add: producer_answer_def Let_def producer_emit_def producer_consumes)
    from that(2) [OF filled(2) [unfolded n(1)] n(2) this [folded filled(4)] sent(1,2) refl sent(3,4)] show thesis .
  next
    case False
    from writing_dropped [OF plain permits filled(5), folded filled(1)] obtain r' q' where
      r': "issued_writer_drop r q (writing_tx (is_tx ist)) W = Some (r', q', is_tx ist)"
        "stream_inv M h (plain_stream (ist\<lparr>is_pages := r', is_permits := q'\<rparr>)) ms"
        "permits_inv hp (ist\<lparr>is_pages := r', is_permits := q'\<rparr>)" unfolding filled(1) by metis
    have "producer_answer M r q ?b (ap_flow a) (ap_producer_id a) W status =
       Some (r', q', b\<lparr>bpr_state := Bp_CloseTerminal, bpr_active := Some (a\<lparr>ap_source := src\<rparr>)\<rparr>,
         Inr (producer_end a payload status))"
      using False r'(1) filled(6) b' b(1)
      by (auto simp: producer_answer_def producer_drop_emit_def producer_emit_def producer_consumes producer_end_def
          split: sum.splits source_page_status.splits)
    from that(3) [OF filled(2) _ this [folded filled(4)] r'(2,3)] False show thesis by (meson not_le)
  qed
qed

end
