(* ===== verification/Scan_Transfer.thy ===== *)
theory Scan_Transfer
  imports Scan_Steps
begin

text \<open>
  A producer and a worker role of \<^verbatim>\<open>src/page/scan_flow/src\<close> at the two ends of an issued page stream. The wire between them
  carries page frames and the notice of the producer's end in one order. What drives the roles (polling, control
  messages) is not part of that crate: the turns below are the calls a driver makes, in any order.
\<close>

section \<open>The two roles at work\<close>

text \<open>A source that keeps a record of the pages it has filled and of whether it has come to its end.\<close>

definition logged :: "('s, 'x) page_source \<Rightarrow> ('s \<times> bytes list \<times> bool, 'x) page_source" where
  "logged S = \<lparr>
     src_open = (\<lambda>flow (s, pages, ended). case src_open S flow s of (s1, res) \<Rightarrow> ((s1, pages, ended), res)),
     src_fill_next_page = (\<lambda>out (s, pages, ended). case src_fill_next_page S out s of (s1, out1, status) \<Rightarrow>
       (case status of
          Inr (Source_Page n) \<Rightarrow> ((s1, if n \<le> length out1 then pages @ [take n out1] else pages, ended), out1, status)
        | Inr Source_Eof \<Rightarrow> ((s1, pages, True), out1, status)
        | Inl _ \<Rightarrow> ((s1, pages, ended), out1, status))),
     src_close = (\<lambda>(s, pages, ended). case src_close S s of (s1, res) \<Rightarrow> ((s1, pages, ended), res))\<rparr>"

datatype scan_item =
    Item_Frame scan_flow_id u16 issued_owned_frame
  | Item_Eof scan_flow_id u16
  | Item_Error scan_flow_id u16 string

record 's scan_sys =
  ss_pages :: pool_region
  ss_permits :: iss_region
  ss_producer :: "('s \<times> bytes list \<times> bool) backend_producer"
  ss_worker :: worker_scan
  ss_rx :: issued_rx
  ss_wire :: "scan_item list"
  ss_held :: "(issued_received \<times> message) list"
  ss_got :: "bytes list"
  ss_reports :: "(worker_role_error + worker_scan_step) list"

datatype scan_op = Producer_steps | Worker_takes | Reader_releases nat

text \<open>A page of a step is put on the wire and marked as sent, its end is announced behind the pages.\<close>

definition producer_turn ::
  "rmp \<Rightarrow> ('s, 'x) page_source \<Rightarrow> ('x backend_stream_error \<Rightarrow> string) \<Rightarrow> 's scan_sys \<Rightarrow> 's scan_sys option" where
  "producer_turn M S fmt s = do {
     (r, q, b, res) \<leftarrow> producer_step M (logged S) (ss_pages s) (ss_permits s) (ss_producer s);
     let s1 = s\<lparr>ss_pages := r, ss_permits := q, ss_producer := b\<rparr>;
     (case res of
        Inl _ \<Rightarrow> Some s1
      | Inr (Pstep_Blocked _ _) \<Rightarrow> Some s1
      | Inr (Pstep_OutboundPage flow pid outbound) \<Rightarrow> do {
          f \<leftarrow> issued_frame outbound;
          (r1, q1, tx) \<leftarrow> issued_mark_sent r q (bpr_tx b) outbound;
          Some (s1\<lparr>ss_pages := r1, ss_permits := q1, ss_producer := b\<lparr>bpr_tx := tx\<rparr>,
            ss_wire := ss_wire s @ [Item_Frame flow pid f]\<rparr>)
        }
      | Inr (Pstep_ProducerEof flow pid) \<Rightarrow> Some (s1\<lparr>ss_wire := ss_wire s @ [Item_Eof flow pid]\<rparr>)
      | Inr (Pstep_ProducerError flow pid err) \<Rightarrow> Some (s1\<lparr>ss_wire := ss_wire s @ [Item_Error flow pid (fmt err)]\<rparr>))
   }"

definition scan_worker_turn :: "rmp \<Rightarrow> 's scan_sys \<Rightarrow> 's scan_sys option" where
  "scan_worker_turn M s = (case ss_wire s of
     [] \<Rightarrow> Some s
   | Item_Frame flow pid f # rest \<Rightarrow> do {
       (r, q, rx, w, res) \<leftarrow> accept_page_frame M (ss_pages s) (ss_permits s) (ss_rx s) (ss_worker s) flow pid f;
       let s1 = s\<lparr>ss_pages := r, ss_permits := q, ss_rx := rx, ss_worker := w, ss_wire := rest\<rparr>;
       (case res of
          Inr (Sstep_Page _ _ page) \<Rightarrow> do {
            inner \<leftarrow> irp_page page;
            payload \<leftarrow> issued_payload (rx_pool (irx_rx rx)) r page;
            Some (s1\<lparr>ss_held := ss_held s @ [(page, (rp_kind inner, rp_flags inner, payload))], ss_got := ss_got s @ [payload]\<rparr>)
          }
        | _ \<Rightarrow> Some (s1\<lparr>ss_reports := ss_reports s @ [res]\<rparr>))
     }
   | Item_Eof flow pid # rest \<Rightarrow> do {
       (w, res) \<leftarrow> worker_accept_eof (ss_worker s) flow pid;
       Some (s\<lparr>ss_worker := w, ss_wire := rest, ss_reports := ss_reports s @ [res]\<rparr>)
     }
   | Item_Error flow pid msg # rest \<Rightarrow> do {
       (w, res) \<leftarrow> worker_accept_error (ss_worker s) flow pid msg;
       Some (s\<lparr>ss_worker := w, ss_wire := rest, ss_reports := ss_reports s @ [res]\<rparr>)
     })"

definition reader_turn :: "nat \<Rightarrow> 's scan_sys \<Rightarrow> 's scan_sys option" where
  "reader_turn i s =
     (if i < length (ss_held s) then do {
        (r, q, _) \<leftarrow> issued_release (rx_pool (irx_rx (ss_rx s))) (ss_pages s) (ss_permits s) (fst (ss_held s ! i));
        Some (s\<lparr>ss_pages := r, ss_permits := q, ss_held := take i (ss_held s) @ drop (Suc i) (ss_held s)\<rparr>)
      } else Some s)"

fun scan_turn ::
  "rmp \<Rightarrow> ('s, 'x) page_source \<Rightarrow> ('x backend_stream_error \<Rightarrow> string) \<Rightarrow> scan_op \<Rightarrow> 's scan_sys \<Rightarrow> 's scan_sys option" where
  "scan_turn M S fmt Producer_steps s = producer_turn M S fmt s"
| "scan_turn M S fmt Worker_takes s = scan_worker_turn M s"
| "scan_turn M S fmt (Reader_releases i) s = reader_turn i s"

fun scan_run ::
  "rmp \<Rightarrow> ('s, 'x) page_source \<Rightarrow> ('x backend_stream_error \<Rightarrow> string) \<Rightarrow> scan_op list \<Rightarrow> 's scan_sys \<Rightarrow> 's scan_sys option" where
  "scan_run M S fmt [] s = Some s"
| "scan_run M S fmt (op # ops) s = do { s1 \<leftarrow> scan_turn M S fmt op s; scan_run M S fmt ops s1 }"

text \<open>Roles that have been opened, over fresh pools.\<close>

definition scan_sys_new ::
  "pool_handle \<Rightarrow> pool_region \<Rightarrow> iss_pool \<Rightarrow> iss_region \<Rightarrow> ('s \<times> bytes list \<times> bool) backend_producer \<Rightarrow> worker_scan \<Rightarrow> 's scan_sys" where
  "scan_sys_new h r hp q b w = \<lparr>ss_pages = r, ss_permits = q, ss_producer = b, ss_worker = w,
     ss_rx = \<lparr>irx_rx = page_rx_new h, irx_permits = hp\<rparr>, ss_wire = [], ss_held = [], ss_got = [], ss_reports = []\<rparr>"

text \<open>The pages the source has filled, and whether it has ended.\<close>

definition source_log :: "'s scan_sys \<Rightarrow> (bytes list \<times> bool) option" where
  "source_log s = map_option (snd \<circ> ap_source) (bpr_active (ss_producer s))"

section \<open>The invariant\<close>

lemma logged_keeps_length: "keeps_length S \<Longrightarrow> keeps_length (logged S)"
  by (auto simp: keeps_length_def logged_def split: prod.splits sum.splits source_page_status.splits) (metis fst_conv snd_conv)+

text \<open>What the system shares with the page stream, and what the roles know of the scan.\<close>

definition scan_stream ::
  "rmp \<Rightarrow> pool_handle \<Rightarrow> iss_pool \<Rightarrow> 's scan_sys \<Rightarrow> istream \<Rightarrow> message list \<Rightarrow> bool" where
  "scan_stream M h hp s ist ms \<longleftrightarrow> stream_inv M h (plain_stream ist) ms \<and> permits_inv hp ist \<and>
     ss_pages s = is_pages ist \<and> ss_permits s = is_permits ist \<and> ss_rx s = is_rx ist \<and> ss_held s = is_held ist \<and>
     bpr_tx (ss_producer s) = is_tx ist \<and> ss_got s = map (snd \<circ> snd) (is_got ist)"

definition producer_knows :: "scan_open \<Rightarrow> u16 \<Rightarrow> 's scan_sys \<Rightarrow> istream \<Rightarrow> bool \<Rightarrow> bool" where
  "producer_knows scan pid s ist ended \<longleftrightarrow> (\<exists>a src pages. bpr_active (ss_producer s) = Some a \<and>
     ap_flow a = so_flow scan \<and> ap_producer_id a = pid \<and> ap_page_kind a = so_page_kind scan \<and> ap_page_flags a = so_page_flags scan \<and>
     ap_source a = (src, pages, ended) \<and> is_sent ist = map (\<lambda>p. (so_page_kind scan, so_page_flags scan, p)) pages)"

definition worker_waits :: "scan_open \<Rightarrow> u16 \<Rightarrow> 's scan_sys \<Rightarrow> bool" where
  "worker_waits scan pid s \<longleftrightarrow> (wsr_state (ss_worker s) = Ws_Opened \<or> wsr_state (ss_worker s) = Ws_Streaming) \<and>
     wsr_runtime (ss_worker s) = Some \<lparr>wr_flow = so_flow scan, wr_page_kind = so_page_kind scan,
       wr_page_flags = so_page_flags scan, wr_producers = [(pid, Producer_Active)]\<rparr> \<and> ss_reports s = []"

definition end_item :: "scan_open \<Rightarrow> u16 \<Rightarrow> bool \<Rightarrow> string \<Rightarrow> scan_item" where
  "end_item scan pid ended msg = (if ended then Item_Eof (so_flow scan) pid else Item_Error (so_flow scan) pid msg)"

definition end_report :: "scan_open \<Rightarrow> u16 \<Rightarrow> bool \<Rightarrow> string \<Rightarrow> worker_role_error + worker_scan_step" where
  "end_report scan pid ended msg =
     Inr (if ended then Sstep_LogicalEof (so_flow scan) else Sstep_LogicalError (so_flow scan) pid (Smsg_Given msg))"

definition producing :: "'s scan_sys \<Rightarrow> bool" where
  "producing s \<longleftrightarrow> bpr_state (ss_producer s) = Bp_Opened \<or> bpr_state (ss_producer s) = Bp_Streaming"

text \<open>Streaming; the end announced; the end reported.\<close>

definition scan_phase :: "scan_open \<Rightarrow> u16 \<Rightarrow> 's scan_sys \<Rightarrow> istream \<Rightarrow> bool \<Rightarrow> bool" where
  "scan_phase scan pid s ist ended \<longleftrightarrow>
     (let frames = map (Item_Frame (so_flow scan) pid) (is_wire ist) in
      producing s \<and> \<not> ended \<and> ss_wire s = frames \<and> worker_waits scan pid s \<or>
      bpr_state (ss_producer s) = Bp_CloseTerminal \<and> (\<exists>msg. ss_wire s = frames @ [end_item scan pid ended msg]) \<and> worker_waits scan pid s \<or>
      bpr_state (ss_producer s) = Bp_CloseTerminal \<and> is_wire ist = [] \<and> ss_wire s = [] \<and>
        (\<exists>msg. ss_reports s = [end_report scan pid ended msg]))"

definition scan_inv :: "rmp \<Rightarrow> pool_handle \<Rightarrow> iss_pool \<Rightarrow> scan_open \<Rightarrow> u16 \<Rightarrow> 's scan_sys \<Rightarrow> bool" where
  "scan_inv M h hp scan pid s \<longleftrightarrow> (\<exists>ist ms ended. scan_stream M h hp s ist ms \<and> producer_knows scan pid s ist ended \<and>
     scan_phase scan pid s ist ended)"

lemma scan_invI:
  "scan_stream M h hp s ist ms \<Longrightarrow> producer_knows scan pid s ist ended \<Longrightarrow> scan_phase scan pid s ist ended \<Longrightarrow> scan_inv M h hp scan pid s"
  unfolding scan_inv_def by blast

section \<open>The turns\<close>

lemma producer_turn_inv:
  assumes M: "rmp_ok M" and S: "keeps_length S" and inv: "scan_inv M h hp scan pid s"
  shows "\<exists>s'. producer_turn M S fmt s = Some s' \<and> scan_inv M h hp scan pid s'"
proof -
  from inv obtain ist ms ended where str: "scan_stream M h hp s ist ms" and prod: "producer_knows scan pid s ist ended"
    and phase: "scan_phase scan pid s ist ended" unfolding scan_inv_def by blast
  let ?b = "ss_producer s"
  have ist: "stream_inv M h (plain_stream ist) ms" "permits_inv hp ist" "bpr_tx ?b = is_tx ist"
    "is_pages ist = ss_pages s" "is_permits ist = ss_permits s" using str by (simp_all add: scan_stream_def)
  show ?thesis
  proof (cases "producing s")
    case False
    then have "bpr_state ?b = Bp_CloseTerminal" using phase by (auto simp: scan_phase_def Let_def)
    then have "producer_turn M S fmt s = Some (s\<lparr>ss_pages := ss_pages s, ss_permits := ss_permits s, ss_producer := ?b\<rparr>)"
      by (simp add: producer_turn_def producer_step_def Let_def)
    with inv show ?thesis by simp
  next
    case True
    then have wire: "ss_wire s = map (Item_Frame (so_flow scan) pid) (is_wire ist)" "worker_waits scan pid s" "\<not> ended"
      using phase by (auto simp: scan_phase_def Let_def producing_def)
    from prod obtain a src pages where a: "bpr_active ?b = Some a" "ap_flow a = so_flow scan" "ap_producer_id a = pid"
      "ap_page_kind a = so_page_kind scan" "ap_page_flags a = so_page_flags scan" "ap_source a = (src, pages, ended)"
      "is_sent ist = map (\<lambda>p. (so_page_kind scan, so_page_flags scan, p)) pages" unfolding producer_knows_def by blast
    note b = ist(3) a(1) True [unfolded producing_def]
    from M logged_keeps_length [OF S] ist(1,2) b show ?thesis
    proof (cases rule: producer_step_effect)
      case (blocked r q)
      let ?s = "s\<lparr>ss_pages := r, ss_permits := q\<rparr>"
      have "producer_turn M S fmt s = Some ?s" using blocked(1) by (simp add: producer_turn_def ist(4,5) Let_def)
      moreover have "scan_stream M h hp ?s (ist\<lparr>is_pages := r, is_permits := q\<rparr>) ms"
        using str blocked(2,3) by (simp add: scan_stream_def)
      moreover have "producer_knows scan pid ?s (ist\<lparr>is_pages := r, is_permits := q\<rparr>) ended"
        "scan_phase scan pid ?s (ist\<lparr>is_pages := r, is_permits := q\<rparr>) ended"
        using prod phase by (simp_all add: producer_knows_def scan_phase_def producing_def worker_waits_def)
      ultimately show ?thesis using scan_invI by blast
    next
      case (page out src1 payload n r q tx ob f r' q' tx' m)
      let ?a = "a\<lparr>ap_source := src1\<rparr>" and ?ist = "ist\<lparr>is_pages := r', is_permits := q', is_tx := tx', is_wire := is_wire ist @ [f],
         is_sent := is_sent ist @ [m]\<rparr>"
      let ?s = "s\<lparr>ss_pages := r', ss_permits := q', ss_producer := ?b\<lparr>bpr_state := Bp_Streaming, bpr_tx := tx', bpr_active := Some ?a\<rparr>,
        ss_wire := ss_wire s @ [Item_Frame (ap_flow a) (ap_producer_id a) f]\<rparr>"
      from page(1,2) a(6) obtain src2 where src1: "src1 = (src2, pages @ [take n payload], ended)"
        by (auto simp: logged_def split: prod.splits sum.splits source_page_status.splits)
      have "producer_turn M S fmt s = Some ?s" using page(3,4,5) by (simp add: producer_turn_def ist(4,5) Let_def)
      moreover have "scan_stream M h hp ?s ?ist (ms @ [m])" using str page(7,8) by (simp add: scan_stream_def)
      moreover have "producer_knows scan pid ?s ?ist ended" using a src1 page(6) by (auto simp: producer_knows_def)
      moreover have "scan_phase scan pid ?s ?ist ended"
        using wire a(2,3) by (simp add: scan_phase_def producing_def worker_waits_def)
      ultimately show ?thesis using scan_invI by blast
    next
      case (ended out src1 payload status r q)
      let ?a = "a\<lparr>ap_source := src1\<rparr>" and ?ist = "ist\<lparr>is_pages := r, is_permits := q\<rparr>"
      let ?e = "(case status of Inr Source_Eof \<Rightarrow> True | _ \<Rightarrow> False)"
      from ended(1) a(6) obtain src2 where src1: "src1 = (src2, pages, ?e)"
        using ended(2) wire(3)
        by (auto simp: logged_def not_le split: prod.splits sum.splits source_page_status.splits if_splits)
      obtain it where it: "producer_turn M S fmt s = Some (s\<lparr>ss_pages := r, ss_permits := q,
          ss_producer := ?b\<lparr>bpr_state := Bp_CloseTerminal, bpr_active := Some ?a\<rparr>, ss_wire := ss_wire s @ [it]\<rparr>)"
        "\<exists>msg. it = end_item scan pid ?e msg"
        using ended(3) a(2,3)
        by (auto simp: producer_turn_def ist(4,5) Let_def producer_end_def end_item_def split: sum.splits source_page_status.splits)
      let ?s = "s\<lparr>ss_pages := r, ss_permits := q,
          ss_producer := ?b\<lparr>bpr_state := Bp_CloseTerminal, bpr_active := Some ?a\<rparr>, ss_wire := ss_wire s @ [it]\<rparr>"
      have "scan_stream M h hp ?s ?ist ms" using str ended(4,5) by (simp add: scan_stream_def)
      moreover have "producer_knows scan pid ?s ?ist ?e" using a src1 by (auto simp: producer_knows_def)
      moreover have "scan_phase scan pid ?s ?ist ?e"
        using wire(1,2) it(2) by (auto simp: scan_phase_def worker_waits_def Let_def)
      ultimately show ?thesis using it(1) scan_invI by blast
    qed
  qed
qed

text \<open>Taking a frame is delivering a page of the stream.\<close>

lemma scan_frame_taken:
  assumes M: "rmp_ok M" and str: "scan_stream M h hp s ist ms" and prod: "producer_knows scan pid s ist ended"
    and wait: "worker_waits scan pid s" and wire: "ss_wire s = map (Item_Frame (so_flow scan) pid) (is_wire ist) @ tail"
    and ne: "is_wire ist \<noteq> []"
  shows "\<exists>s' ist' ms'. scan_worker_turn M s = Some s' \<and> scan_stream M h hp s' ist' ms' \<and> producer_knows scan pid s' ist' ended \<and>
    worker_waits scan pid s' \<and> ss_wire s' = map (Item_Frame (so_flow scan) pid) (is_wire ist') @ tail \<and>
    ss_producer s' = ss_producer s"
proof -
  have ist: "stream_inv M h (plain_stream ist) ms" "permits_inv hp ist" using str by (simp_all add: scan_stream_def)
  from ist(1) ne obtain m ms1 where ms: "ms = m # ms1" by (cases ms) (auto simp: stream_inv_def plain_stream_def neq_Nil_conv)
  from istream_accept [OF M ist(1) [unfolded ms] ist(2)] obtain p fs d rx' where
    w: "is_wire ist = Issued_Page p # fs" and rx: "rx_pool rx' = h"
    and acc: "issued_accept M (is_pages ist) (is_permits ist) (is_rx ist) (Issued_Page p) =
       Some (is_pages ist, is_permits ist, (is_rx ist)\<lparr>irx_rx := rx'\<rparr>, Inr (Issue_Page \<lparr>irp_page = Some (received_of d m),
         irp_permits = hp, irp_permit_id = if_permit_id p, irp_released = False\<rparr>))"
    and pay: "received_payload h (is_pages ist) (received_of d m) = Some (snd (snd m))"
      "(rp_kind (received_of d m), rp_flags (received_of d m), snd (snd m)) = m" .
  let ?page = "\<lparr>irp_page = Some (received_of d m), irp_permits = hp, irp_permit_id = if_permit_id p, irp_released = False\<rparr>"
    and ?rx = "(is_rx ist)\<lparr>irx_rx := rx'\<rparr>"
  let ?ist = "ist\<lparr>is_rx := ?rx, is_wire := fs, is_held := is_held ist @ [(?page, m)], is_got := is_got ist @ [m]\<rparr>"
  have "istream_step M Deliver ist = Some ?ist" using w acc pay rx by (simp add: issued_payload_def Let_def)
  with istream_step_ok [OF M ist, of Deliver] obtain ms2 where
    inv: "stream_inv M h (plain_stream ?ist) ms2" "permits_inv hp ?ist" by auto
  have "m \<in> set (is_sent ist)" using ist(1) ms by (simp add: stream_inv_def ends_ok_def plain_stream_def)
  with prod pay(2) have kind: "rp_kind (received_of d m) = so_page_kind scan" "rp_flags (received_of d m) = so_page_flags scan"
    by (auto simp: producer_knows_def)
  let ?w = "(ss_worker s)\<lparr>wsr_state := Ws_Streaming\<rparr>"
  have "accept_page_frame M (ss_pages s) (ss_permits s) (ss_rx s) (ss_worker s) (so_flow scan) pid (Issued_Page p) =
      Some (is_pages ist, is_permits ist, ?rx, ?w, Inr (Sstep_Page (so_flow scan) pid ?page))"
    using wait str acc kind
    by (auto simp: accept_page_frame_def worker_waits_def scan_stream_def scan_validate_flow_def worker_producer_state_def ok_or_def
        worker_consume_def worker_scan_flow_def fsm_next_def)
  then have "scan_worker_turn M s = Some (s\<lparr>ss_pages := is_pages ist, ss_permits := is_permits ist, ss_rx := ?rx, ss_worker := ?w,
      ss_wire := map (Item_Frame (so_flow scan) pid) fs @ tail, ss_held := ss_held s @ [(?page, m)], ss_got := ss_got s @ [snd (snd m)]\<rparr>)"
    (is "_ = Some ?s") using wire w pay rx by (simp add: scan_worker_turn_def issued_payload_def Let_def)
  moreover have "scan_stream M h hp ?s ?ist ms2" using str inv by (simp add: scan_stream_def)
  moreover have "producer_knows scan pid ?s ?ist ended" using prod by (simp add: producer_knows_def)
  moreover have "worker_waits scan pid ?s" using wait by (simp add: worker_waits_def)
  ultimately show ?thesis by (intro exI [of _ ?s] exI [of _ ?ist] exI [of _ ms2]) simp
qed

lemma scan_end_taken:
  assumes "worker_waits scan pid s" and "ss_wire s = [end_item scan pid ended msg]"
  shows "\<exists>w. scan_worker_turn M s = Some (s\<lparr>ss_worker := w, ss_wire := [], ss_reports := [end_report scan pid ended msg]\<rparr>)"
proof (cases ended)
  case True
  with assms show ?thesis
    by (auto simp: worker_waits_def end_item_def end_report_def scan_worker_turn_def worker_accept_eof_def scan_validate_flow_def
        all_eof_def worker_consume_def worker_scan_flow_def fsm_next_def Let_def)
next
  case False
  with assms show ?thesis
    by (auto simp: worker_waits_def end_item_def end_report_def scan_worker_turn_def worker_accept_error_def scan_validate_flow_def
        worker_producer_state_def ok_or_def fail_logical_def worker_consume_def worker_scan_flow_def fsm_next_def Let_def)
qed

lemma scan_worker_turn_inv:
  assumes M: "rmp_ok M" and inv: "scan_inv M h hp scan pid s"
  shows "\<exists>s'. scan_worker_turn M s = Some s' \<and> scan_inv M h hp scan pid s'"
proof -
  from inv obtain ist ms ended where str: "scan_stream M h hp s ist ms" and prod: "producer_knows scan pid s ist ended"
    and phase: "scan_phase scan pid s ist ended" unfolding scan_inv_def by blast
  show ?thesis
  proof (cases "ss_wire s = []")
    case True
    with inv show ?thesis by (simp add: scan_worker_turn_def)
  next
    case False
    then obtain tail where t: "ss_wire s = map (Item_Frame (so_flow scan) pid) (is_wire ist) @ tail" "worker_waits scan pid s"
      "producing s \<and> \<not> ended \<and> tail = [] \<or>
       bpr_state (ss_producer s) = Bp_CloseTerminal \<and> (\<exists>msg. tail = [end_item scan pid ended msg])"
      using phase by (auto simp: scan_phase_def Let_def)
    show ?thesis
    proof (cases "is_wire ist = []")
      case True
      with t False obtain msg where e: "bpr_state (ss_producer s) = Bp_CloseTerminal" "ss_wire s = [end_item scan pid ended msg]" by auto
      from scan_end_taken [OF t(2) e(2)] obtain w where
        turn: "scan_worker_turn M s = Some (s\<lparr>ss_worker := w, ss_wire := [], ss_reports := [end_report scan pid ended msg]\<rparr>)"
        (is "_ = Some ?s") by blast
      have "scan_stream M h hp ?s ist ms" "producer_knows scan pid ?s ist ended" "scan_phase scan pid ?s ist ended"
        using str prod e(1) True by (auto simp: scan_stream_def producer_knows_def scan_phase_def Let_def)
      with turn scan_invI show ?thesis by blast
    next
      case False
      from scan_frame_taken [OF M str prod t(2,1) False] obtain s' ist' ms' where
        s': "scan_worker_turn M s = Some s'" "scan_stream M h hp s' ist' ms'" "producer_knows scan pid s' ist' ended"
          "worker_waits scan pid s'" "ss_wire s' = map (Item_Frame (so_flow scan) pid) (is_wire ist') @ tail"
          "ss_producer s' = ss_producer s" by blast
      have "scan_phase scan pid s' ist' ended" using s'(4-6) t(3) by (auto simp: scan_phase_def producing_def Let_def)
      with s' scan_invI show ?thesis by blast
    qed
  qed
qed

lemma reader_turn_inv:
  assumes M: "rmp_ok M" and inv: "scan_inv M h hp scan pid s"
  shows "\<exists>s'. reader_turn i s = Some s' \<and> scan_inv M h hp scan pid s'"
proof (cases "i < length (ss_held s)")
  case True
  from inv obtain ist ms ended where str: "scan_stream M h hp s ist ms" and prod: "producer_knows scan pid s ist ended"
    and phase: "scan_phase scan pid s ist ended" unfolding scan_inv_def by blast
  have ist: "stream_inv M h (plain_stream ist) ms" "permits_inv hp ist"
    and eqs: "ss_pages s = is_pages ist" "ss_permits s = is_permits ist" "ss_rx s = is_rx ist" "ss_held s = is_held ist"
    using str by (simp_all add: scan_stream_def)
  from istream_step_ok [OF M ist, of "Release_held i"] obtain ist' ms' where
    step: "istream_step M (Release_held i) ist = Some ist'" and inv': "stream_inv M h (plain_stream ist') ms'" "permits_inv hp ist'"
    by blast
  from step True eqs(4) obtain r q x where
    rel: "issued_release (rx_pool (irx_rx (is_rx ist))) (is_pages ist) (is_permits ist) (fst (is_held ist ! i)) = Some (r, q, x)"
    and ist': "ist' = ist\<lparr>is_pages := r, is_permits := q, is_held := take i (is_held ist) @ drop (Suc i) (is_held ist)\<rparr>"
    by (auto split: Option.bind_splits)
  let ?s = "s\<lparr>ss_pages := r, ss_permits := q, ss_held := take i (ss_held s) @ drop (Suc i) (ss_held s)\<rparr>"
  have "reader_turn i s = Some ?s" using True rel eqs by (simp add: reader_turn_def)
  moreover have "scan_stream M h hp ?s ist' ms'" using str inv' by (simp add: scan_stream_def ist')
  moreover have "producer_knows scan pid ?s ist' ended" "scan_phase scan pid ?s ist' ended"
    using prod phase by (simp_all add: producer_knows_def scan_phase_def producing_def worker_waits_def ist')
  ultimately show ?thesis using scan_invI by blast
qed (use inv in \<open>simp add: reader_turn_def\<close>)

lemma scan_run_inv:
  assumes "rmp_ok M" and "keeps_length S" and "scan_inv M h hp scan pid s"
  shows "\<exists>s'. scan_run M S fmt ops s = Some s' \<and> scan_inv M h hp scan pid s'"
  using assms(3)
proof (induction ops arbitrary: s)
  case Nil
  then show ?case by auto
next
  case (Cons op ops)
  have "\<exists>s'. scan_turn M S fmt op s = Some s' \<and> scan_inv M h hp scan pid s'"
    using producer_turn_inv [OF assms(1,2) Cons.prems] scan_worker_turn_inv [OF assms(1) Cons.prems]
      reader_turn_inv [OF assms(1) Cons.prems] by (cases op) simp_all
  with Cons.IH show ?case by auto
qed

lemma scan_sys_new_inv:
  assumes r: "pool_init_in_place base len cfg iid = Some (Inr (r, h))" "tx_validate_page_size (ph_page_size h) = Inr ()"
    and q: "iss_init_in_place base' len' count iid' = Some (Inr (q, hp))"
    and b: "producer_open (logged S) (backend_producer_new \<lparr>itx_tx = page_tx_new h, itx_permits = hp\<rparr>) scan pid (src, [], False) = Some (b, Inr ())"
    and w: "worker_scan_open worker_scan_new scan = Some (w, Inr ())" and one: "length (so_producers scan) = 1"
  shows "scan_inv M h hp scan pid (scan_sys_new h r hp q b w)"
proof -
  let ?ist = "istream_new h r hp q" and ?s = "scan_sys_new h r hp q b w"
  have "plain_stream ?ist = stream_new h r" by (simp add: plain_stream_def istream_new_def stream_new_def)
  then have "stream_inv M h (plain_stream ?ist) []" using stream_new_inv [OF r] by simp
  moreover have "permits_inv hp ?ist"
    using iss_init_inv [OF q] by (auto simp: permits_inv_def istream_new_def live_permits_def)
  moreover have bs: "bpr_tx b = is_tx ?ist" "bpr_state b = Bp_Opened" "\<exists>p \<in> set (so_producers scan). pr_producer_id p = pid"
    "\<exists>src'. bpr_active b = Some \<lparr>ap_flow = so_flow scan, ap_producer_id = pid, ap_page_kind = so_page_kind scan,
       ap_page_flags = so_page_flags scan, ap_source = (src', [], False)\<rparr>"
    using b by (auto simp: producer_open_def backend_producer_new_def producer_consume_def backend_producer_flow_def fsm_next_def
        istream_new_def logged_def split: sum.splits prod.splits if_splits)
  ultimately have "scan_stream M h hp ?s ?ist []" by (simp add: scan_stream_def scan_sys_new_def istream_new_def)
  moreover have "producer_knows scan pid ?s ?ist False" using bs(4) by (auto simp: producer_knows_def scan_sys_new_def istream_new_def)
  moreover from one bs(3) obtain p where p: "so_producers scan = [p]" "pr_producer_id p = pid" by (auto simp: length_Suc_conv)
  have "worker_waits scan pid ?s"
    using w p by (auto simp: worker_waits_def worker_scan_open_def worker_scan_new_def worker_consume_def worker_scan_flow_def fsm_next_def
        producer_table_of_def scan_sys_new_def split: sum.splits)
  then have "scan_phase scan pid ?s ?ist False"
    using bs(2) by (simp add: scan_phase_def producing_def scan_sys_new_def istream_new_def)
  ultimately show ?thesis by (rule scan_invI)
qed

fun is_frame_item :: "scan_item \<Rightarrow> bool" where
  "is_frame_item (Item_Frame _ _ _) \<longleftrightarrow> True"
| "is_frame_item _ \<longleftrightarrow> False"

lemma scan_inv_leased:
  assumes "scan_inv M h hp scan pid s"
  shows "card (leased_set h (ss_pages s)) = length (filter is_frame_item (ss_wire s)) + length (ss_held s)"
    "card (leased_permits (ss_permits s)) = length (filter is_frame_item (ss_wire s)) + length (ss_held s)"
proof -
  from assms obtain ist ms ended where str: "scan_stream M h hp s ist ms" and phase: "scan_phase scan pid s ist ended"
    unfolding scan_inv_def by blast
  have "length (filter is_frame_item (ss_wire s)) = length (is_wire ist)"
    using phase by (auto simp: scan_phase_def Let_def end_item_def filter_map comp_def)
  then show "card (leased_set h (ss_pages s)) = length (filter is_frame_item (ss_wire s)) + length (ss_held s)"
    "card (leased_permits (ss_permits s)) = length (filter is_frame_item (ss_wire s)) + length (ss_held s)"
    using str live_pages_card [of M h "plain_stream ist" ms] live_permits_bound(1) [of hp ist]
    by (simp_all add: scan_stream_def plain_stream_def)
qed

lemma scan_inv_delivery:
  assumes "scan_inv M h hp scan pid s"
  shows "\<exists>pages ended rest. source_log s = Some (pages, ended) \<and> pages = ss_got s @ rest \<and>
    length rest = length (filter is_frame_item (ss_wire s)) \<and>
    (ss_reports s = [] \<or> rest = [] \<and> (\<exists>msg. ss_reports s = [end_report scan pid ended msg]))"
proof -
  from assms obtain ist ms ended where str: "scan_stream M h hp s ist ms" and prod: "producer_knows scan pid s ist ended"
    and phase: "scan_phase scan pid s ist ended" unfolding scan_inv_def by blast
  from prod obtain pages where log: "source_log s = Some (pages, ended)"
    and sent: "is_sent ist = map (\<lambda>p. (so_page_kind scan, so_page_flags scan, p)) pages"
    by (auto simp: producer_knows_def source_log_def)
  have ms: "is_sent ist = is_got ist @ ms" "length ms = length (is_wire ist)"
    using str wire_ok_length [of M h "is_pages ist" "length (is_got ist)" "map plain_frame (is_wire ist)" ms]
    by (auto simp: scan_stream_def stream_inv_def ends_ok_def plain_stream_def)
  have "pages = map (snd \<circ> snd) (is_sent ist)" by (simp add: sent comp_def)
  then have "pages = ss_got s @ map (snd \<circ> snd) ms" using ms(1) str by (simp add: scan_stream_def)
  moreover have "length (filter is_frame_item (ss_wire s)) = length (is_wire ist)"
    using phase by (auto simp: scan_phase_def Let_def end_item_def filter_map comp_def)
  ultimately show ?thesis using log ms(2) phase
    by (intro exI [of _ pages] exI [of _ ended] exI [of _ "map (snd \<circ> snd) ms"])
      (auto simp: scan_phase_def worker_waits_def Let_def)
qed

section \<open>Properties\<close>

text \<open>C40: A scan delivers what its source yields: with a producer and a worker role opened for a scan of one producer over a
  fresh page pool and a fresh permit pool, and a source that writes within the slice it is given, any interleaving of
  producer steps, accepted frames and notices, and released pages runs without a panic. The payloads received, followed
  by one for each frame under way, are the pages the source has filled, in order. The worker reports no end, or, after
  the last page, exactly the end of the source: the end of the scan when the source has come to its end, and otherwise the error
  of the producer. As many pages, and as many permits, are leased as frames are under way and pages are held.\<close>

theorem scan_transfer_safe:
  assumes "rmp_ok M" and "keeps_length S"
    and "pool_init_in_place base len cfg iid = Some (Inr (r, h))" and "tx_validate_page_size (ph_page_size h) = Inr ()"
    and "iss_init_in_place base' len' count iid' = Some (Inr (q, hp))"
    and "producer_open (logged S) (backend_producer_new \<lparr>itx_tx = page_tx_new h, itx_permits = hp\<rparr>) scan pid (src, [], False) =
      Some (b, Inr ())"
    and "worker_scan_open worker_scan_new scan = Some (w, Inr ())" and "length (so_producers scan) = 1"
  shows "\<exists>s pages ended rest. scan_run M S fmt ops (scan_sys_new h r hp q b w) = Some s \<and>
    source_log s = Some (pages, ended) \<and> pages = ss_got s @ rest \<and> length rest = length (filter is_frame_item (ss_wire s)) \<and>
    (ss_reports s = [] \<or>
     rest = [] \<and> ended \<and> ss_reports s = [Inr (Sstep_LogicalEof (so_flow scan))] \<or>
     rest = [] \<and> \<not> ended \<and> (\<exists>msg. ss_reports s = [Inr (Sstep_LogicalError (so_flow scan) pid (Smsg_Given msg))])) \<and>
    card (leased_set h (ss_pages s)) = length rest + length (ss_held s) \<and>
    card (leased_permits (ss_permits s)) = length rest + length (ss_held s)"
proof -
  from scan_run_inv [OF assms(1,2) scan_sys_new_inv [OF assms(3-8)]] obtain s where
    run: "scan_run M S fmt ops (scan_sys_new h r hp q b w) = Some s" and inv: "scan_inv M h hp scan pid s" by blast
  from scan_inv_delivery [OF inv] obtain pages ended rest where "source_log s = Some (pages, ended)" "pages = ss_got s @ rest"
    "length rest = length (filter is_frame_item (ss_wire s))"
    "ss_reports s = [] \<or> rest = [] \<and> (\<exists>msg. ss_reports s = [end_report scan pid ended msg])" by blast
  with run scan_inv_leased [OF inv] show ?thesis
    by (intro exI [of _ s] exI [of _ pages] exI [of _ ended] exI [of _ rest]) (auto simp: end_report_def split: if_splits)
qed

text \<open>A source of one page of three bytes, which are the old bytes of the page, and a scan of one leader.\<close>

definition demo_source :: "(nat, unit) page_source" where
  "demo_source = \<lparr>src_open = \<lambda>flow s. (s, Inr ()),
     src_fill_next_page = \<lambda>out s. (s + 1, out, Inr (if s = 0 then Source_Page 3 else Source_Eof)), src_close = \<lambda>s. (s, Inr ())\<rparr>"

definition leader_scan :: scan_open where
  "leader_scan = \<lparr>so_flow = \<lparr>sf_session_epoch = 1, sf_scan_id = 2\<rparr>, so_page_kind = 3, so_page_flags = 0, so_producers = [leader_descriptor 5]\<rparr>"

theorem scan_transfer_safe_witness:
  "\<exists>r h q hp b w s pages ended rest. pool_init_in_place 0 4096 \<lparr>cfg_page_size = 64, cfg_page_count = 2\<rparr> 7 = Some (Inr (r, h)) \<and>
     iss_init_in_place 0 4096 2 9 = Some (Inr (q, hp)) \<and>
     producer_open (logged demo_source) (backend_producer_new \<lparr>itx_tx = page_tx_new h, itx_permits = hp\<rparr>) leader_scan 5 (0, [], False) =
       Some (b, Inr ()) \<and>
     worker_scan_open worker_scan_new leader_scan = Some (w, Inr ()) \<and>
     scan_run msgpack demo_source (\<lambda>_. []) [Producer_steps, Worker_takes, Producer_steps, Reader_releases 0, Worker_takes]
       (scan_sys_new h r hp q b w) = Some s \<and>
     source_log s = Some (pages, ended) \<and> pages = ss_got s @ rest"
proof -
  obtain r h q hp where d: "pool_init_in_place 0 4096 \<lparr>cfg_page_size = 64, cfg_page_count = 2\<rparr> 7 = Some (Inr (r, h))"
    "tx_validate_page_size (ph_page_size h) = Inr ()" "iss_init_in_place 0 4096 2 9 = Some (Inr (q, hp))" by (rule demo_transfer)
  let ?b0 = "backend_producer_new \<lparr>itx_tx = page_tx_new h, itx_permits = hp\<rparr>"
  obtain b where b: "producer_open (logged demo_source) ?b0 leader_scan 5 (0, [], False) = Some (b, Inr ())"
    by (simp add: producer_open_def backend_producer_new_def leader_scan_def demo_source_def logged_def scan_validate_def leader_descriptor_def
        producer_consume_def backend_producer_flow_def fsm_next_def)
  obtain w where w: "worker_scan_open worker_scan_new leader_scan = Some (w, Inr ())"
    by (simp add: worker_scan_open_def worker_scan_new_def leader_scan_def scan_validate_def leader_descriptor_def worker_consume_def
        worker_scan_flow_def fsm_next_def)
  have len: "keeps_length demo_source" "length (so_producers leader_scan) = 1"
    by (simp_all add: keeps_length_def demo_source_def leader_scan_def)
  from scan_transfer_safe [OF msgpack_ok len(1) d b w len(2), of "\<lambda>_. []"
      "[Producer_steps, Worker_takes, Producer_steps, Reader_releases 0, Worker_takes]"] d(1,3) b w show ?thesis by blast
qed

end
