(* ===== verification/Framed_Ring.thy ===== *)
theory Framed_Ring
  imports Rmp
begin

text \<open>
  The byte ring of the control transport, \<^verbatim>\<open>src/runtime/control_transport/src/ring.rs\<close>: frames with a length prefix
  in a circular buffer, one sender and one receiver, and a flag that tells the receiver's process to look. The
  operations are modelled as they run alone; \<open>Ring_Concurrent\<close> takes them apart into atomic steps.

  The ring's memory is a record that the operations take and return. Index sums are sums of \<open>u32\<close>, which wrap as they
  do in a release build. A copy outside the data area is \<open>None\<close>.
\<close>

section \<open>Layout and memory\<close>

datatype ring_config_error = Ring_TooSmall nat nat | Ring_TooLarge nat nat | Ring_LayoutOverflow

datatype ring_tx_error =
    Ring_PayloadTooLarge nat nat
  | Ring_Full nat nat
  | Ring_TxCorruptState u32 u32 u32

datatype ring_rx_error =
    Ring_BufferTooSmall nat nat
  | Ring_RxCorruptState u32 u32 u32
  | Ring_CorruptFrameLen u32 nat u32

definition frame_prefix_len :: nat where
  "frame_prefix_len = 4"

definition min_ring_capacity :: nat where
  "min_ring_capacity = frame_prefix_len + 1"

record ring_layout =
  fl_layout :: layout
  fl_head_offset :: nat
  fl_tail_offset :: nat
  fl_data_offset :: nat
  fl_data_len :: nat

definition framed_ring_layout :: "nat \<Rightarrow> ring_config_error + ring_layout" where
  "framed_ring_layout capacity =
     (if capacity < min_ring_capacity then Inl (Ring_TooSmall min_ring_capacity capacity)
      else if 2 ^ 32 - 1 < capacity then Inl (Ring_TooLarge (2 ^ 32 - 1) capacity)
      else
        let head = \<lparr>lsize = 4, lalign = 4\<rparr>; tail = \<lparr>lsize = 4, lalign = 4\<rparr> in
        try_bind (ok_or Ring_LayoutOverflow (layout_extend head tail)) (\<lambda>(ht, tail_offset).
        try_bind (ok_or Ring_LayoutOverflow (layout_array 1 1 capacity)) (\<lambda>data.
        try_bind (ok_or Ring_LayoutOverflow (layout_extend ht data)) (\<lambda>(combined, data_offset).
        Inr \<lparr>fl_layout = pad_to_align combined, fl_head_offset = 0, fl_tail_offset = tail_offset,
             fl_data_offset = data_offset, fl_data_len = capacity\<rparr>))))"

text \<open>
  What the two sides share: the ring's words and data, and the ready flag of the receiver. A handle knows the
  capacity.
\<close>

record ring_mem =
  rm_head :: u32
  rm_tail :: u32
  rm_data :: bytes
  rm_ready :: bool

text \<open>Initialisation sets the two indices; the data area keeps the bytes it had.\<close>

definition ring_init :: "ring_layout \<Rightarrow> bytes \<Rightarrow> u32 \<times> ring_mem" where
  "ring_init l old = (of_nat (fl_data_len l), \<lparr>rm_head = 0, rm_tail = 0, rm_data = take (fl_data_len l) old, rm_ready = False\<rparr>)"

definition ring_clear :: "ring_mem \<Rightarrow> ring_mem" where
  "ring_clear m = m\<lparr>rm_head := rm_tail m\<rparr>"

definition has_pending_frame :: "u32 \<Rightarrow> ring_mem \<Rightarrow> bool" where
  "has_pending_frame cap m \<longleftrightarrow> cap \<le> rm_head m \<or> cap \<le> rm_tail m \<or> rm_head m \<noteq> rm_tail m"

section \<open>Circular copies\<close>

definition wrap_index :: "u32 \<Rightarrow> u32 \<Rightarrow> u32" where
  "wrap_index idx cap = (if cap \<le> idx then idx mod cap else idx)"

definition write_bytes_wrapped :: "bytes \<Rightarrow> u32 \<Rightarrow> u32 \<Rightarrow> bytes \<Rightarrow> bytes option" where
  "write_bytes_wrapped data start cap src =
     (if src = [] then Some data
      else let n = min (length src) (unat (cap - start)) in
        if length data < unat start + n \<or> length data < length src - n then None
        else let data1 = copy_at data (unat start) (take n src) in
          Some (if n < length src then copy_at data1 0 (drop n src) else data1))"

definition read_bytes_wrapped :: "bytes \<Rightarrow> u32 \<Rightarrow> u32 \<Rightarrow> nat \<Rightarrow> bytes option" where
  "read_bytes_wrapped data start cap len =
     (if len = 0 then Some []
      else let n = min len (unat (cap - start)) in
        if length data < unat start + n \<or> length data < len - n then None
        else Some (take n (drop (unat start) data) @ (if n < len then take (len - n) data else [])))"

text \<open>\<open>to_ne_bytes\<close> and \<open>from_ne_bytes\<close> on a little-endian target.\<close>

definition to_ne_bytes :: "u32 \<Rightarrow> bytes" where
  "to_ne_bytes v = rev (be_encode 4 (unat v))"

definition from_ne_bytes :: "bytes \<Rightarrow> u32" where
  "from_ne_bytes bs = of_nat (be_decode (rev bs))"

definition write_u32_wrapped :: "bytes \<Rightarrow> u32 \<Rightarrow> u32 \<Rightarrow> u32 \<Rightarrow> bytes option" where
  "write_u32_wrapped data index cap val = write_bytes_wrapped data index cap (to_ne_bytes val)"

definition read_u32_wrapped :: "bytes \<Rightarrow> u32 \<Rightarrow> u32 \<Rightarrow> u32 option" where
  "read_u32_wrapped data index cap = map_option from_ne_bytes (read_bytes_wrapped data index cap frame_prefix_len)"

section \<open>Plans\<close>

record ring_snapshot =
  sn_head :: u32
  sn_tail :: u32
  sn_capacity :: u32

definition snapshot_is_empty :: "ring_snapshot \<Rightarrow> bool" where
  "snapshot_is_empty s \<longleftrightarrow> sn_head s = sn_tail s"

definition used_bytes :: "ring_snapshot \<Rightarrow> nat" where
  "used_bytes s = (if sn_head s \<le> sn_tail s then unat (sn_tail s - sn_head s)
     else unat (sn_capacity s - (sn_head s - sn_tail s)))"

definition available_bytes :: "ring_snapshot \<Rightarrow> nat" where
  "available_bytes s = unat (sn_capacity s) - used_bytes s - 1"

record publish_plan =
  pp_payload_start :: u32
  pp_publish_tail :: u32
  pp_prefix_index :: u32
  pp_prefix_value :: u32

record consume_plan =
  cp_len :: u32
  cp_payload_start :: u32
  cp_next_head :: u32

definition head_tail_checked :: "u32 \<Rightarrow> u32 \<Rightarrow> u32 \<Rightarrow> ring_tx_error + ring_snapshot" where
  "head_tail_checked cap head tail =
     (if cap \<le> head \<or> cap \<le> tail then Inl (Ring_TxCorruptState head tail cap)
      else Inr \<lparr>sn_head = head, sn_tail = tail, sn_capacity = cap\<rparr>)"

definition head_tail_checked_rx :: "u32 \<Rightarrow> u32 \<Rightarrow> u32 \<Rightarrow> ring_rx_error + ring_snapshot" where
  "head_tail_checked_rx cap head tail =
     (if cap \<le> head \<or> cap \<le> tail then Inl (Ring_RxCorruptState head tail cap)
      else Inr \<lparr>sn_head = head, sn_tail = tail, sn_capacity = cap\<rparr>)"

definition build_publish_plan :: "ring_snapshot \<Rightarrow> nat \<Rightarrow> ring_tx_error + publish_plan" where
  "build_publish_plan s payload_len =
     (let max_payload = unat (sn_capacity s) - frame_prefix_len - 1;
          required = frame_prefix_len + payload_len;
          available = available_bytes s in
      if max_payload < payload_len then Inl (Ring_PayloadTooLarge payload_len max_payload)
      else if available < required then Inl (Ring_Full required available)
      else Inr \<lparr>pp_payload_start = wrap_index (sn_tail s + of_nat frame_prefix_len) (sn_capacity s),
                pp_publish_tail = wrap_index (sn_tail s + of_nat required) (sn_capacity s),
                pp_prefix_index = sn_tail s, pp_prefix_value = of_nat payload_len\<rparr>)"

definition build_consume_plan :: "bytes \<Rightarrow> ring_snapshot \<Rightarrow> nat \<Rightarrow> (ring_rx_error + consume_plan) option" where
  "build_consume_plan data s dst_len = do {
     len \<leftarrow> read_u32_wrapped data (sn_head s) (sn_capacity s);
     let available = used_bytes s;
     Some (case checked_add_usize frame_prefix_len (unat len) of
        None \<Rightarrow> Inl (Ring_CorruptFrameLen len available (sn_capacity s))
      | Some frame_len \<Rightarrow>
          if available < frame_len then Inl (Ring_CorruptFrameLen len available (sn_capacity s))
          else if dst_len < unat len then Inl (Ring_BufferTooSmall (unat len) dst_len)
          else Inr \<lparr>cp_len = len,
                    cp_payload_start = wrap_index (sn_head s + of_nat frame_prefix_len) (sn_capacity s),
                    cp_next_head = wrap_index (sn_head s + of_nat frame_len) (sn_capacity s)\<rparr>)
   }"

section \<open>Sending and receiving\<close>

text \<open>
  \<open>signal_pid_usr1\<close> over the system call \<open>kill\<close>, a parameter: \<open>None\<close> for success, otherwise the error number.
\<close>

definition sigusr1 :: int where
  "sigusr1 = 10"

definition esrch :: int where
  "esrch = 3"

datatype commit_outcome = Notified | PeerMissing | NotifyFailed int

definition signal_pid_usr1 :: "(int \<Rightarrow> int \<Rightarrow> int option) \<Rightarrow> int \<Rightarrow> int + bool" where
  "signal_pid_usr1 kill pid =
     (if pid \<le> 0 then Inr False
      else case kill pid sigusr1 of
          None \<Rightarrow> Inr True
        | Some err \<Rightarrow> if err = esrch then Inr False else Inl err)"

definition commit_outcome_of :: "int + bool \<Rightarrow> commit_outcome" where
  "commit_outcome_of r = (case r of Inr True \<Rightarrow> Notified | Inr False \<Rightarrow> PeerMissing | Inl e \<Rightarrow> NotifyFailed e)"

definition send_frame ::
  "(int \<Rightarrow> int \<Rightarrow> int option) \<Rightarrow> u32 \<Rightarrow> ring_mem \<Rightarrow> int \<Rightarrow> bytes \<Rightarrow> (ring_mem \<times> (ring_tx_error + commit_outcome)) option" where
  "send_frame kill cap m peer_pid payload =
     (case try_bind (head_tail_checked cap (rm_head m) (rm_tail m)) (\<lambda>s. build_publish_plan s (length payload)) of
        Inl e \<Rightarrow> Some (m, Inl e)
      | Inr plan \<Rightarrow> do {
          data1 \<leftarrow> write_u32_wrapped (rm_data m) (pp_prefix_index plan) cap (pp_prefix_value plan);
          data2 \<leftarrow> write_bytes_wrapped data1 (pp_payload_start plan) cap payload;
          Some (m\<lparr>rm_data := data2, rm_tail := pp_publish_tail plan, rm_ready := True\<rparr>,
            Inr (commit_outcome_of (signal_pid_usr1 kill peer_pid)))
        })"

text \<open>\<open>update_ready_after_consume\<close> with nobody else at work: the tail is the same at both looks.\<close>

definition update_ready_after_consume :: "ring_mem \<Rightarrow> u32 \<Rightarrow> ring_mem" where
  "update_ready_after_consume m next_head =
     (if rm_tail m \<noteq> next_head then m
      else let m1 = m\<lparr>rm_ready := False\<rparr> in
        if rm_tail m1 \<noteq> next_head then m1\<lparr>rm_ready := True\<rparr> else m1)"

text \<open>The result carries the bytes written to the front of the caller's buffer, whose length is the number returned.\<close>

definition recv_frame_into ::
  "u32 \<Rightarrow> ring_mem \<Rightarrow> nat \<Rightarrow> (ring_mem \<times> (ring_rx_error + bytes option)) option" where
  "recv_frame_into cap m dst_len =
     (case head_tail_checked_rx cap (rm_head m) (rm_tail m) of
        Inl e \<Rightarrow> Some (m, Inl e)
      | Inr s \<Rightarrow>
          if snapshot_is_empty s then Some (m, Inr None)
          else do {
            planned \<leftarrow> build_consume_plan (rm_data m) s dst_len;
            (case planned of
               Inl e \<Rightarrow> Some (m, Inl e)
             | Inr plan \<Rightarrow> do {
                 payload \<leftarrow> read_bytes_wrapped (rm_data m) (cp_payload_start plan) cap (unat (cp_len plan));
                 let m1 = m\<lparr>rm_head := cp_next_head plan\<rparr>;
                 Some (if cp_next_head plan = sn_tail s then update_ready_after_consume m1 (cp_next_head plan) else m1,
                   Inr (Some payload))
               })
          })"

section \<open>The circular view\<close>

text \<open>\<open>n\<close> bytes from position \<open>p\<close> on, around the end.\<close>

definition circ :: "bytes \<Rightarrow> nat \<Rightarrow> nat \<Rightarrow> bytes" where
  "circ data p n = map (\<lambda>i. data ! ((p + i) mod length data)) [0..<n]"

lemma length_circ [simp]: "length (circ data p n) = n"
  by (simp add: circ_def)

lemma circ_0 [simp]: "circ data p 0 = []"
  by (simp add: circ_def)

lemma nth_circ [simp]: "i < n \<Longrightarrow> circ data p n ! i = data ! ((p + i) mod length data)"
  by (simp add: circ_def)

lemma circ_mod [simp]: "circ data (p mod length data) n = circ data p n"
  by (rule nth_equalityI) (simp_all add: mod_add_left_eq)

lemma circ_add: "circ data p (n + k) = circ data p n @ circ data (p + n) k"
  by (rule nth_equalityI) (auto simp: nth_append add.assoc)

lemma nth_copy_at:
  "start + length src \<le> length dst \<Longrightarrow> j < length dst \<Longrightarrow>
     copy_at dst start src ! j = (if start \<le> j \<and> j < start + length src then src ! (j - start) else dst ! j)"
  by (auto simp: copy_at_def nth_append min_def)

lemma read_circ:
  assumes "start < cap" and "length data = unat cap" and "n \<le> unat cap"
  shows "read_bytes_wrapped data start cap n = Some (circ data (unat start) n)"
proof -
  have lt: "unat start < unat cap" and sub: "unat (cap - start) = unat cap - unat start"
    using assms(1) by (auto simp: word_less_nat_alt unat_sub word_le_nat_alt)
  let ?k = "min n (unat cap - unat start)"
  have "circ data (unat start) n = circ data (unat start) (?k + (n - ?k))" by simp
  also have "\<dots> = circ data (unat start) ?k @ circ data (unat start + ?k) (n - ?k)" by (rule circ_add)
  also have "circ data (unat start) ?k = take ?k (drop (unat start) data)"
    by (rule nth_equalityI) (use assms(2) lt in auto)
  also have "circ data (unat start + ?k) (n - ?k) = take (n - ?k) data"
  proof (cases "n \<le> unat cap - unat start")
    case True
    then show ?thesis by simp
  next
    case False
    then have "unat start + ?k = length data" using lt assms(2) by simp
    then show ?thesis by (intro nth_equalityI) (use assms(2,3) in auto)
  qed
  finally show ?thesis
    using assms lt sub by (auto simp: read_bytes_wrapped_def Let_def min_def)
qed

text \<open>How far \<open>j\<close> lies behind \<open>start\<close>, going around.\<close>

lemma write_nth:
  assumes "start < cap" and "length data = unat cap" and "length src \<le> unat cap"
  shows "\<exists>data'. write_bytes_wrapped data start cap src = Some data' \<and> length data' = unat cap \<and>
    (\<forall>j < unat cap. data' ! j = (let d = (j + unat cap - unat start) mod unat cap in if d < length src then src ! d else data ! j))"
proof (cases "src = []")
  case True
  then show ?thesis using assms(2) by (simp add: write_bytes_wrapped_def Let_def)
next
  case False
  have lt: "unat start < unat cap" and sub: "unat (cap - start) = unat cap - unat start"
    using assms(1) by (auto simp: word_less_nat_alt unat_sub word_le_nat_alt)
  define n where "n = min (length src) (unat cap - unat start)"
  define d1 where "d1 = copy_at data (unat start) (take n src)"
  define d2 where "d2 = (if n < length src then copy_at d1 0 (drop n src) else d1)"
  have n: "n \<le> length src" "unat start + n \<le> unat cap" "length src - n \<le> unat start"
    using lt assms(3) by (auto simp: n_def)
  have len1: "length d1 = unat cap" using n assms(2) by (simp add: d1_def)
  have "write_bytes_wrapped data start cap src = Some d2"
    using False n lt assms(2) sub by (simp add: write_bytes_wrapped_def Let_def n_def d1_def d2_def)
  moreover have "length d2 = unat cap" using len1 n lt by (simp add: d2_def)
  moreover have "d2 ! j = (let d = (j + unat cap - unat start) mod unat cap in if d < length src then src ! d else data ! j)"
    if j: "j < unat cap" for j
  proof (cases "unat start \<le> j")
    case True
    then have "(j + unat cap - unat start) mod unat cap = (j - unat start + unat cap) mod unat cap"
      by (simp add: add.commute)
    also have "\<dots> = j - unat start" using j by simp
    finally have d: "(j + unat cap - unat start) mod unat cap = j - unat start" .
    have front: "j < unat start + n \<longleftrightarrow> j - unat start < length src" using True j by (auto simp: n_def)
    have "d2 ! j = d1 ! j" using n(3) True j len1 lt by (auto simp: d2_def nth_copy_at)
    also have "\<dots> = (if j - unat start < length src then src ! (j - unat start) else data ! j)"
      using n True j assms(2) front by (auto simp: d1_def nth_copy_at min_absorb2)
    finally show ?thesis by (simp add: d Let_def)
  next
    case False
    then have d: "(j + unat cap - unat start) mod unat cap = j + unat cap - unat start" using lt by simp
    have "d1 ! j = data ! j" using False j n assms(2) by (simp add: d1_def nth_copy_at)
    moreover have "n < length src \<longrightarrow> n = unat cap - unat start" by (simp add: n_def)
    ultimately show ?thesis
      using False j len1 lt n by (auto simp: d d2_def nth_copy_at Let_def n_def add.commute)
  qed
  ultimately show ?thesis by blast
qed

lemma offset_mod:
  fixes c :: nat
  assumes "s = (p + k) mod c" and "s < c" and "k \<le> c"
  shows "((p + i) mod c + c - s) mod c = (i + c - k) mod c"
proof -
  have "int (((p + i) mod c + c - s) mod c) = (int (p + i) mod int c + int c - int (p + k) mod int c) mod int c"
    using assms(2) by (simp add: assms(1) zmod_int of_nat_diff)
  also have "\<dots> = ((int (p + i) mod int c + int c) mod int c - int (p + k) mod int c mod int c) mod int c"
    by (simp only: mod_diff_eq)
  also have "\<dots> = (int (p + i) mod int c - int (p + k) mod int c) mod int c" by simp
  also have "\<dots> = (int i - int k) mod int c" by (simp add: mod_diff_eq)
  also have "\<dots> = int ((i + c - k) mod c)"
  proof -
    have "int ((i + c - k) mod c) = (int i + int c - int k) mod int c" using assms(3) by (simp add: zmod_int of_nat_diff)
    also have "\<dots> = (int i - int k + int c) mod int c" by (simp add: algebra_simps)
    finally show ?thesis by simp
  qed
  finally show ?thesis by simp
qed

text \<open>Writing behind \<open>k\<close> bytes that are in use.\<close>

lemma write_append:
  assumes "unat start = (p + k) mod unat cap" and "start < cap" and "length data = unat cap"
    and "k + length src \<le> unat cap"
  obtains data' where "write_bytes_wrapped data start cap src = Some data'" "length data' = unat cap"
    "circ data' p (k + length src) = circ data p k @ src"
proof -
  let ?c = "unat cap"
  from write_nth [OF assms(2,3), of src] assms(4) obtain data' where
    d: "write_bytes_wrapped data start cap src = Some data'" "length data' = ?c"
    and nth: "\<And>j. j < ?c \<Longrightarrow> data' ! j = (let d = (j + ?c - unat start) mod ?c in if d < length src then src ! d else data ! j)"
    by auto
  have c: "0 < ?c" using assms(2) by (auto simp: word_less_nat_alt)
  have lt: "unat start < ?c" using assms(2) by (simp add: word_less_nat_alt)
  have "circ data' p (k + length src) ! i = (circ data p k @ src) ! i" if i: "i < k + length src" for i
  proof -
    let ?j = "(p + i) mod ?c"
    have off: "(?j + ?c - unat start) mod ?c = (i + ?c - k) mod ?c"
      by (rule offset_mod [OF assms(1) lt]) (use assms(4) in simp)
    show ?thesis
    proof (cases "i < k")
      case True
      then have "(i + ?c - k) mod ?c = i + ?c - k" using assms(4) by simp
      moreover have "\<not> i + ?c - k < length src" using assms(4) by linarith
      ultimately have "data' ! ?j = data ! ?j" using nth [of ?j] c by (simp add: off Let_def)
      with True i show ?thesis by (simp add: nth_append d(2) assms(3))
    next
      case False
      then have "(i + ?c - k) mod ?c = (i - k + ?c) mod ?c" by (simp add: add.commute)
      also have "\<dots> = (i - k) mod ?c" by (rule mod_add_self2)
      also have "\<dots> = i - k" using i assms(4) False by (intro mod_less) linarith
      finally have "(i + ?c - k) mod ?c = i - k" .
      moreover have "i - k < length src" using i False by linarith
      ultimately have "data' ! ?j = src ! (i - k)" using nth [of ?j] c by (simp add: off Let_def)
      with False i show ?thesis by (simp add: nth_append d(2))
    qed
  qed
  then have "circ data' p (k + length src) = circ data p k @ src" by (intro nth_equalityI) simp_all
  with d show thesis by (rule that)
qed

section \<open>The frames in a ring\<close>

definition frame_bytes :: "bytes \<Rightarrow> bytes" where
  "frame_bytes p = to_ne_bytes (of_nat (length p)) @ p"

definition frames_bytes :: "bytes list \<Rightarrow> bytes" where
  "frames_bytes ps = concat (map frame_bytes ps)"

lemma length_to_ne_bytes [simp]: "length (to_ne_bytes v) = 4"
  by (simp add: to_ne_bytes_def)

lemma from_to_ne_bytes [simp]: "from_ne_bytes (to_ne_bytes v) = v"
  using be_decode_encode [of "unat v" 4] unat_u32_less [of v] by (simp add: from_ne_bytes_def to_ne_bytes_def)

lemma length_frame_bytes [simp]: "length (frame_bytes p) = 4 + length p"
  by (simp add: frame_bytes_def)

lemma frames_bytes_simps [simp]:
  "frames_bytes [] = []" "frames_bytes (p # ps) = frame_bytes p @ frames_bytes ps"
  "frames_bytes (ps @ qs) = frames_bytes ps @ frames_bytes qs"
  by (simp_all add: frames_bytes_def)

text \<open>
  The capacities for which the sums of indices do not wrap: an index and a frame are shorter than the ring.
\<close>

definition cap_ok :: "u32 \<Rightarrow> bool" where
  "cap_ok cap \<longleftrightarrow> min_ring_capacity \<le> unat cap \<and> unat cap \<le> 2 ^ 31"

text \<open>The ring holds the frames \<open>pend\<close>; behind them stand bytes that are not published.\<close>

definition ring_rep :: "u32 \<Rightarrow> ring_mem \<Rightarrow> bytes list \<Rightarrow> bytes \<Rightarrow> bool" where
  "ring_rep cap m pend extra \<longleftrightarrow> length (rm_data m) = unat cap \<and> rm_head m < cap \<and> rm_tail m < cap \<and>
     length (frames_bytes pend) + length extra < unat cap \<and>
     unat (rm_tail m) = (unat (rm_head m) + length (frames_bytes pend)) mod unat cap \<and>
     circ (rm_data m) (unat (rm_head m)) (length (frames_bytes pend) + length extra) = frames_bytes pend @ extra"

lemma wrap_index_sum:
  assumes "cap_ok cap" and "t < cap" and "n < unat cap"
  shows "unat (wrap_index (t + of_nat n) cap) = (unat t + n) mod unat cap" "wrap_index (t + of_nat n) cap < cap"
proof -
  have t: "unat t < unat cap" using assms(2) by (simp add: word_less_nat_alt)
  have n: "unat (of_nat n :: u32) = n" using assms(1,3) by (intro unat_of_nat_u32) (simp add: cap_ok_def)
  have sum: "unat (t + of_nat n) = unat t + n"
    using assms(1,3) t n by (subst unat_add_lem [THEN iffD1]) (simp_all add: cap_ok_def)
  show "unat (wrap_index (t + of_nat n) cap) = (unat t + n) mod unat cap"
    using sum by (simp add: wrap_index_def word_le_nat_alt unat_mod)
  then show "wrap_index (t + of_nat n) cap < cap" using t by (simp add: word_less_nat_alt)
qed

lemma used_bytes_eq:
  assumes "h < cap" and "t < cap" and "unat t = (unat h + n) mod unat cap" and "n < unat cap"
  shows "used_bytes \<lparr>sn_head = h, sn_tail = t, sn_capacity = cap\<rparr> = n"
proof -
  have lt: "unat h < unat cap" "unat t < unat cap" using assms(1,2) by (simp_all add: word_less_nat_alt)
  show ?thesis
  proof (cases "unat h + n < unat cap")
    case True
    then have t: "unat t = unat h + n" using assms(3) by simp
    then have "h \<le> t" by (simp add: word_le_nat_alt)
    with t show ?thesis by (simp add: used_bytes_def unat_sub word_le_nat_alt)
  next
    case False
    then have "(unat h + n) mod unat cap = unat h + n - unat cap" using lt assms(4) by (simp add: mod_if)
    then have t: "unat t = unat h + n - unat cap" using assms(3) by simp
    then have nle: "\<not> h \<le> t" "t \<le> h" using assms(4) False by (auto simp: word_le_nat_alt)
    have "unat (h - t) = unat h - unat t" using nle(2) by (simp add: unat_sub)
    moreover from this have "h - t \<le> cap" using lt by (simp add: word_le_nat_alt)
    ultimately have "unat (cap - (h - t)) = unat cap - (unat h - unat t)" by (simp add: unat_sub)
    with nle(1) t False lt assms(4) show ?thesis by (simp add: used_bytes_def)
  qed
qed

lemma publish_plan_eq:
  assumes "cap_ok cap" and "h < cap" and "t < cap" and "unat t = (unat h + n) mod unat cap" and "n < unat cap"
  shows "build_publish_plan \<lparr>sn_head = h, sn_tail = t, sn_capacity = cap\<rparr> len =
    (if unat cap - 5 < len then Inl (Ring_PayloadTooLarge len (unat cap - 5))
     else if unat cap \<le> n + 4 + len then Inl (Ring_Full (4 + len) (unat cap - n - 1))
     else Inr \<lparr>pp_payload_start = wrap_index (t + of_nat 4) cap, pp_publish_tail = wrap_index (t + of_nat (4 + len)) cap,
       pp_prefix_index = t, pp_prefix_value = of_nat len\<rparr>)"
  using assms(5) by (auto simp: build_publish_plan_def available_bytes_def used_bytes_eq [OF assms(2-5)] frame_prefix_len_def
      Let_def)

lemma circ_frame:
  assumes "circ data h n = frame_bytes p @ rest" and "n = 4 + length p + length rest"
  shows "circ data h 4 = to_ne_bytes (of_nat (length p))" "circ data (h + 4) (length p) = p"
    "circ data (h + (4 + length p)) (length rest) = rest"
proof -
  have "circ data h n = circ data h 4 @ circ data (h + 4) (length p) @ circ data (h + (4 + length p)) (length rest)"
    unfolding assms(2) circ_add by (simp add: add.assoc)
  then have "circ data h 4 @ circ data (h + 4) (length p) @ circ data (h + (4 + length p)) (length rest) =
      to_ne_bytes (of_nat (length p)) @ p @ rest"
    using assms(1) by (simp add: frame_bytes_def)
  then show "circ data h 4 = to_ne_bytes (of_nat (length p))" "circ data (h + 4) (length p) = p"
    "circ data (h + (4 + length p)) (length rest) = rest"
    by (simp_all add: append_eq_append_conv)
qed

lemma consume_plan_eq:
  assumes cap: "cap_ok cap" and "length data = unat cap" and h: "h < cap" "t < cap"
    and n: "unat t = (unat h + n) mod unat cap" "n < unat cap" "4 + length p \<le> n"
    and pre: "circ data (unat h) 4 = to_ne_bytes (of_nat (length p))"
  shows "build_consume_plan data \<lparr>sn_head = h, sn_tail = t, sn_capacity = cap\<rparr> dst_len =
    Some (if dst_len < length p then Inl (Ring_BufferTooSmall (length p) dst_len)
      else Inr \<lparr>cp_len = of_nat (length p), cp_payload_start = wrap_index (h + of_nat 4) cap,
        cp_next_head = wrap_index (h + of_nat (4 + length p)) cap\<rparr>)"
proof -
  have len: "unat (of_nat (length p) :: u32) = length p"
    using n cap by (intro unat_of_nat_u32) (simp add: cap_ok_def)
  have "read_u32_wrapped data h cap = Some (of_nat (length p))"
    using read_circ [OF h(1) assms(2), of 4] cap pre
    by (simp add: read_u32_wrapped_def frame_prefix_len_def cap_ok_def min_ring_capacity_def)
  moreover have "checked_add_usize 4 (length p) = Some (4 + length p)"
    using n cap by (simp add: checked_add_usize_def usize_max_def cap_ok_def)
  ultimately show ?thesis
    using n(3) by (simp add: build_consume_plan_def used_bytes_eq [OF h n(1,2)] len frame_prefix_len_def)
qed

text \<open>What a sender adds behind the frames, and what publishing and taking a frame change.\<close>

lemma rep_write:
  assumes rep: "ring_rep cap m pend extra" and start: "start < cap" "unat start = (unat (rm_tail m) + length extra) mod unat cap"
    and room: "length (frames_bytes pend) + length extra + length src < unat cap"
  obtains data' where "write_bytes_wrapped (rm_data m) start cap src = Some data'"
    "ring_rep cap (m\<lparr>rm_data := data'\<rparr>) pend (extra @ src)"
proof -
  let ?L = "length (frames_bytes pend)" and ?h = "unat (rm_head m)"
  have "unat start = (?h + (?L + length extra)) mod unat cap"
    using rep start(2) by (simp add: ring_rep_def mod_add_left_eq add.assoc)
  moreover have "?L + length extra + length src \<le> unat cap" "length (rm_data m) = unat cap"
    using room rep by (simp_all add: ring_rep_def)
  ultimately obtain data' where "write_bytes_wrapped (rm_data m) start cap src = Some data'" "length data' = unat cap"
    "circ data' ?h (?L + length extra + length src) = circ (rm_data m) ?h (?L + length extra) @ src"
    using write_append [OF _ start(1)] by metis
  then show thesis using that rep room by (simp add: ring_rep_def add.assoc)
qed

lemma rep_publish:
  assumes rep: "ring_rep cap m pend (frame_bytes p)" and "t < cap" "unat t = (unat (rm_tail m) + (4 + length p)) mod unat cap"
  shows "ring_rep cap (m\<lparr>rm_tail := t\<rparr>) (pend @ [p]) []"
  using assms by (simp add: ring_rep_def mod_add_left_eq add.assoc)

lemma rep_consume:
  assumes rep: "ring_rep cap m (p # ps) extra" and h: "h < cap" "unat h = (unat (rm_head m) + (4 + length p)) mod unat cap"
  shows "ring_rep cap (m\<lparr>rm_head := h\<rparr>) ps extra"
proof -
  let ?rest = "frames_bytes ps @ extra"
  have len: "length (rm_data m) = unat cap" using rep by (simp add: ring_rep_def)
  have "circ (rm_data m) (unat (rm_head m)) (length (frames_bytes (p # ps)) + length extra) = frame_bytes p @ ?rest"
    using rep by (simp add: ring_rep_def)
  from circ_frame(3) [OF this] have
    "circ (rm_data m) (unat (rm_head m) + (4 + length p)) (length ?rest) = ?rest" by simp
  then have "circ (rm_data m) (unat h) (length ?rest) = ?rest" unfolding h(2) len [symmetric] circ_mod .
  moreover have "(unat (rm_head m) + (4 + length p) + length (frames_bytes ps)) mod unat cap = unat (rm_tail m)"
    using rep by (simp add: ring_rep_def add.assoc)
  then have "unat (rm_tail m) = (unat h + length (frames_bytes ps)) mod unat cap" by (simp add: h(2) mod_add_left_eq)
  ultimately show ?thesis using rep h(1) by (simp add: ring_rep_def)
qed

lemma rep_first:
  assumes "ring_rep cap m (p # ps) extra"
  shows "circ (rm_data m) (unat (rm_head m)) 4 = to_ne_bytes (of_nat (length p))"
    and "circ (rm_data m) (unat (rm_head m) + 4) (length p) = p"
proof -
  have "circ (rm_data m) (unat (rm_head m)) (length (frames_bytes (p # ps)) + length extra) = frame_bytes p @ frames_bytes ps @ extra"
    using assms by (simp add: ring_rep_def)
  note parts = circ_frame [OF this]
  show "circ (rm_data m) (unat (rm_head m)) 4 = to_ne_bytes (of_nat (length p))"
    "circ (rm_data m) (unat (rm_head m) + 4) (length p) = p" using parts(1,2) by simp_all
qed

lemma rep_read_payload:
  assumes cap: "cap_ok cap" and rep: "ring_rep cap m (p # ps) extra"
  shows "read_bytes_wrapped (rm_data m) (wrap_index (rm_head m + of_nat 4) cap) cap (length p) = Some p"
proof -
  have h: "rm_head m < cap" and len: "length (rm_data m) = unat cap" and fits: "length p + 4 < unat cap"
    using rep by (simp_all add: ring_rep_def)
  note wrap = wrap_index_sum [OF cap h, of 4]
  have "read_bytes_wrapped (rm_data m) (wrap_index (rm_head m + of_nat 4) cap) cap (length p) =
      Some (circ (rm_data m) ((unat (rm_head m) + 4) mod length (rm_data m)) (length p))"
    using read_circ [OF wrap(2) len, of "length p"] wrap(1) fits len by simp
  then show ?thesis using rep_first(2) [OF rep] by simp
qed

lemma rep_empty_iff:
  assumes "ring_rep cap m (fs @ gs) extra" and "t < cap" and "unat t = (unat (rm_head m) + length (frames_bytes fs)) mod unat cap"
  shows "rm_head m = t \<longleftrightarrow> fs = []"
proof -
  let ?h = "unat (rm_head m)" and ?n = "length (frames_bytes fs)"
  have h: "?h < unat cap" and n: "?n < unat cap" using assms(1) by (simp_all add: ring_rep_def word_less_nat_alt)
  have "used_bytes \<lparr>sn_head = rm_head m, sn_tail = t, sn_capacity = cap\<rparr> = ?n"
    using used_bytes_eq [of "rm_head m" cap t ?n] assms n by (simp add: ring_rep_def)
  then have "rm_head m = t \<longrightarrow> ?n = 0" by (auto simp: used_bytes_def)
  moreover have "?n = 0 \<longleftrightarrow> fs = []" by (cases fs) (simp_all add: frame_bytes_def)
  moreover have "fs = [] \<longrightarrow> rm_head m = t" using assms(3) h by (auto simp: word_unat_eq_iff)
  ultimately show ?thesis by blast
qed

section \<open>The operations on a queue of frames\<close>

lemma ring_send_effect:
  assumes cap: "cap_ok cap" and rep: "ring_rep cap m pend []"
  shows "\<exists>m1 res. send_frame kill cap m pid p = Some (m1, res) \<and>
      (if unat cap \<le> length p + 4 then m1 = m \<and> res = Inl (Ring_PayloadTooLarge (length p) (unat cap - 5))
       else if unat cap \<le> length (frames_bytes pend) + 4 + length p
       then m1 = m \<and> res = Inl (Ring_Full (4 + length p) (unat cap - length (frames_bytes pend) - 1))
       else ring_rep cap m1 (pend @ [p]) [] \<and> rm_ready m1 \<and> res = Inr (commit_outcome_of (signal_pid_usr1 kill pid)))"
proof -
  let ?L = "length (frames_bytes pend)" and ?t = "rm_tail m"
  have b: "rm_head m < cap" "?t < cap" "unat ?t = (unat (rm_head m) + ?L) mod unat cap" "?L < unat cap"
    using rep by (simp_all add: ring_rep_def)
  have checked: "head_tail_checked cap (rm_head m) ?t = Inr \<lparr>sn_head = rm_head m, sn_tail = ?t, sn_capacity = cap\<rparr>"
    using b(1,2) by (simp add: head_tail_checked_def not_le)
  note plan = publish_plan_eq [OF cap b, of "length p"]
  have five: "5 \<le> unat cap" using cap by (simp add: cap_ok_def min_ring_capacity_def frame_prefix_len_def)
  show ?thesis
  proof (cases "?L + 4 + length p < unat cap")
    case False
    with five show ?thesis using checked plan b(4) by (auto simp: send_frame_def)
  next
    case True
    note w4 = wrap_index_sum [OF cap b(2), of 4] and wn = wrap_index_sum [OF cap b(2), of "4 + length p"]
    from rep_write [OF rep b(2), of "to_ne_bytes (of_nat (length p))"] True b(2) obtain d1 where
      d1: "write_bytes_wrapped (rm_data m) ?t cap (to_ne_bytes (of_nat (length p))) = Some d1"
      "ring_rep cap (m\<lparr>rm_data := d1\<rparr>) pend (to_ne_bytes (of_nat (length p)))" by (auto simp: word_less_nat_alt)
    from rep_write [OF d1(2) w4(2), of p] w4(1) True obtain d2 where
      d2: "write_bytes_wrapped d1 (wrap_index (?t + of_nat 4) cap) cap p = Some d2"
      "ring_rep cap (m\<lparr>rm_data := d2\<rparr>) pend (frame_bytes p)" by (auto simp: frame_bytes_def)
    from rep_publish [OF d2(2) wn(2)] wn(1) True have
      "ring_rep cap (m\<lparr>rm_data := d2, rm_tail := wrap_index (?t + of_nat (4 + length p)) cap, rm_ready := True\<rparr>) (pend @ [p]) []"
      by (simp add: ring_rep_def)
    with checked plan d1(1) d2(1) True show ?thesis by (auto simp: send_frame_def write_u32_wrapped_def)
  qed
qed

lemma ring_recv_effect:
  assumes cap: "cap_ok cap" and rep: "ring_rep cap m pend []"
  shows "\<exists>m1 res. recv_frame_into cap m n = Some (m1, res) \<and>
      (case pend of
         [] \<Rightarrow> m1 = m \<and> res = Inr None
       | f # fs \<Rightarrow> if n < length f then m1 = m \<and> res = Inl (Ring_BufferTooSmall (length f) n)
           else res = Inr (Some f) \<and> ring_rep cap m1 fs [] \<and> rm_ready m1 = (fs \<noteq> [] \<and> rm_ready m))"
proof -
  let ?L = "length (frames_bytes pend)" and ?h = "rm_head m"
  have b: "?h < cap" "rm_tail m < cap" "unat (rm_tail m) = (unat ?h + ?L) mod unat cap" "?L < unat cap" "length (rm_data m) = unat cap"
    using rep by (simp_all add: ring_rep_def)
  have checked: "head_tail_checked_rx cap ?h (rm_tail m) = Inr \<lparr>sn_head = ?h, sn_tail = rm_tail m, sn_capacity = cap\<rparr>"
    using b(1,2) by (simp add: head_tail_checked_rx_def not_le)
  have empty: "?h = rm_tail m \<longleftrightarrow> pend = []" using rep_empty_iff [of cap m pend "[]" "[]" "rm_tail m"] rep b by simp
  show ?thesis
  proof (cases pend)
    case Nil
    with empty checked show ?thesis by (simp add: recv_frame_into_def snapshot_is_empty_def)
  next
    case (Cons f fs)
    note rep = rep [unfolded Cons]
    have len: "4 + length f \<le> ?L" "4 + length f < unat cap" using b(4) Cons by simp_all
    note plan = consume_plan_eq [OF cap b(5,1,2,3,4) len(1) rep_first(1) [OF rep], of n]
    show ?thesis
    proof (cases "n < length f")
      case True
      with plan checked empty Cons show ?thesis by (simp add: recv_frame_into_def snapshot_is_empty_def)
    next
      case False
      define h1 where "h1 = wrap_index (?h + of_nat (4 + length f)) cap"
      have h1: "unat h1 = (unat ?h + (4 + length f)) mod unat cap" "h1 < cap"
        unfolding h1_def by (rule wrap_index_sum [OF cap b(1) len(2)])+
      have rep1: "ring_rep cap (m\<lparr>rm_head := h1\<rparr>) fs []" by (rule rep_consume [OF rep h1(2,1)])
      have last: "h1 = rm_tail m \<longleftrightarrow> fs = []"
        using rep_empty_iff [of cap "m\<lparr>rm_head := h1\<rparr>" fs "[]" "[]" "rm_tail m"] rep1 b(2) by (simp add: ring_rep_def)
      have "unat (of_nat (length f) :: u32) = length f"
        using len cap by (intro unat_of_nat_u32) (simp add: cap_ok_def)
      then have "recv_frame_into cap m n = Some (if h1 = rm_tail m then m\<lparr>rm_head := h1, rm_ready := False\<rparr> else m\<lparr>rm_head := h1\<rparr>,
          Inr (Some f))"
        using plan [folded h1_def] checked empty Cons False rep_read_payload [OF cap rep]
        by (simp add: recv_frame_into_def snapshot_is_empty_def update_ready_after_consume_def)
      with Cons False rep1 last show ?thesis by (auto simp: ring_rep_def)
    qed
  qed
qed

lemma ring_init_rep:
  assumes "framed_ring_layout n = Inr l" and "n \<le> 2 ^ 31" and "length old = n"
  shows "cap_ok (fst (ring_init l old))" "ring_rep (fst (ring_init l old)) (snd (ring_init l old)) [] []"
proof -
  have n: "5 \<le> n" "fl_data_len l = n"
    using assms(1) by (auto simp: framed_ring_layout_def min_ring_capacity_def frame_prefix_len_def Let_def try_bind_eq_Inr
        split: if_splits)
  have "unat (of_nat n :: u32) = n" using assms(2) by (intro unat_of_nat_u32) simp
  with n assms(2,3) show "cap_ok (fst (ring_init l old))" "ring_rep (fst (ring_init l old)) (snd (ring_init l old)) [] []"
    by (simp_all add: ring_init_def cap_ok_def min_ring_capacity_def frame_prefix_len_def ring_rep_def word_less_nat_alt)
qed

section \<open>The largest ring\<close>

text \<open>A ring of \<open>u32::MAX\<close> bytes, through which one frame of the greatest length passes before the next one.\<close>

lemma largest_ring_first_send:
  assumes "length data = 4294967295" and "length p = 4294967290"
  shows "\<exists>data'. send_frame kill 4294967295 \<lparr>rm_head = 0, rm_tail = 0, rm_data = data, rm_ready = r\<rparr> pid p =
      Some (\<lparr>rm_head = 0, rm_tail = 4294967294, rm_data = data', rm_ready = True\<rparr>,
        Inr (commit_outcome_of (signal_pid_usr1 kill pid))) \<and>
      length data' = 4294967295 \<and> take 4 data' = to_ne_bytes 4294967290 \<and> drop 4 data' = p @ drop 4294967294 data"
proof -
  let ?q = "to_ne_bytes 4294967290"
  have p: "p \<noteq> []" using assms(2) by auto
  have q: "length ?q = 4" "?q \<noteq> []" by simp (metis length_to_ne_bytes list.size(3) zero_neq_numeral)
  have wq: "write_bytes_wrapped data 0 4294967295 ?q = Some (copy_at data 0 ?q)"
    using assms(1) q by (simp add: write_bytes_wrapped_def)
  have wp: "write_bytes_wrapped (copy_at data 0 ?q) 4 4294967295 p = Some (copy_at (copy_at data 0 ?q) 4 p)"
    using assms q p by (simp add: write_bytes_wrapped_def copy_at_def)
  have "copy_at (copy_at data 0 ?q) 4 p = ?q @ p @ drop 4294967294 data"
    using assms q by (simp add: copy_at_def)
  with wq wp q assms show ?thesis
    by (simp add: send_frame_def head_tail_checked_def build_publish_plan_def available_bytes_def used_bytes_def
        frame_prefix_len_def wrap_index_def write_u32_wrapped_def)
qed

lemma largest_ring_first_recv:
  assumes "length data = 4294967295" and "length p = 4294967290" and "4294967290 \<le> n"
    and "take 4 data = to_ne_bytes 4294967290" and "take 4294967290 (drop 4 data) = p"
  shows "recv_frame_into 4294967295 \<lparr>rm_head = 0, rm_tail = 4294967294, rm_data = data, rm_ready = r\<rparr> n =
      Some (\<lparr>rm_head = 4294967294, rm_tail = 4294967294, rm_data = data, rm_ready = False\<rparr>, Inr (Some p))"
proof -
  have "read_u32_wrapped data 0 4294967295 = Some 4294967290"
    using assms(1,4) by (simp add: read_u32_wrapped_def read_bytes_wrapped_def frame_prefix_len_def)
  moreover have "read_bytes_wrapped data 4 4294967295 4294967290 = Some p"
    using assms(1,5) by (simp add: read_bytes_wrapped_def)
  ultimately show ?thesis
    using assms(3)
    by (simp add: recv_frame_into_def head_tail_checked_rx_def snapshot_is_empty_def build_consume_plan_def used_bytes_def
        frame_prefix_len_def wrap_index_def checked_add_usize_def usize_max_def update_ready_after_consume_def)
qed

lemma largest_ring_second_send:
  assumes "length data = 4294967295"
  shows "\<exists>data'. send_frame kill 4294967295 \<lparr>rm_head = 4294967294, rm_tail = 4294967294, rm_data = data, rm_ready = r\<rparr> pid [b] =
      Some (\<lparr>rm_head = 4294967294, rm_tail = 3, rm_data = data', rm_ready = True\<rparr>,
        Inr (commit_outcome_of (signal_pid_usr1 kill pid))) \<and>
      length data' = 4294967295 \<and> take 3 data' = [0, 0, b] \<and> drop 4294967294 data' = [1]"
proof -
  let ?q = "to_ne_bytes 1" and ?d = "[0, 0, 0] @ drop 3 (take 4294967294 data) @ [1]"
  have four: "(4 :: nat) = Suc (Suc (Suc (Suc 0)))" by simp
  have q: "?q = [1, 0, 0, 0]" unfolding to_ne_bytes_def four by simp
  have d: "copy_at (copy_at data 4294967294 [1]) 0 [0, 0, 0] = ?d" 
    using assms by (simp add: copy_at_def numeral_3_eq_3)
  have wq: "write_bytes_wrapped data 4294967294 4294967295 [1, 0, 0, 0] = Some ?d"
    using assms d by (simp add: write_bytes_wrapped_def)
  have wb: "write_bytes_wrapped ?d 2 4294967295 [b] = Some (copy_at ?d 2 [b])"
    using assms by (simp add: write_bytes_wrapped_def)
  have "copy_at ?d 2 [b] = [0, 0, b] @ drop 3 (take 4294967294 data) @ [1]"
    by (simp add: copy_at_def numeral_2_eq_2 numeral_3_eq_3)
  moreover have wraps: "(4294967298 :: u32) = 2" "(4294967299 :: u32) = 3" by (simp_all add: word_uint_eq_iff)
  ultimately show ?thesis
    using wq wb q assms
    by (simp add: send_frame_def head_tail_checked_def build_publish_plan_def available_bytes_def used_bytes_def
        frame_prefix_len_def wrap_index_def write_u32_wrapped_def numeral_3_eq_3 wraps)
qed

lemma largest_ring_second_recv:
  assumes "length data = 4294967295" and "take 3 data = [0, 0, b]" and "drop 4294967294 data = [1]"
  shows "recv_frame_into 4294967295 \<lparr>rm_head = 4294967294, rm_tail = 3, rm_data = data, rm_ready = r\<rparr> n =
      Some (\<lparr>rm_head = 4294967294, rm_tail = 3, rm_data = data, rm_ready = r\<rparr>,
        Inl (Ring_CorruptFrameLen (from_ne_bytes [1, 0, 0, b]) 4 4294967295))"
proof -
  have "read_u32_wrapped data 4294967294 4294967295 = Some (from_ne_bytes [1, 0, 0, b])"
    using assms by (simp add: read_u32_wrapped_def read_bytes_wrapped_def frame_prefix_len_def)
  moreover have "0 < unat (from_ne_bytes [1, 0, 0, b])"
  proof -
    have "be_decode (rev [1, 0, 0, b]) = unat b * 16777216 + 1" by (simp add: be_decode_def)
    moreover have "unat b * 16777216 + 1 < 2 ^ 32" using unat_u8_less [of b] by simp
    ultimately have "unat (from_ne_bytes [1, 0, 0, b]) = unat b * 16777216 + 1"
      unfolding from_ne_bytes_def by (simp only: unat_of_nat_u32)
    then show ?thesis by simp
  qed
  ultimately show ?thesis
    by (simp add: recv_frame_into_def head_tail_checked_rx_def snapshot_is_empty_def build_consume_plan_def used_bytes_def
        frame_prefix_len_def checked_add_usize_def usize_max_def)
qed

section \<open>Properties\<close>

text \<open>C30: The ring is a bounded queue of frames: on a ring whose capacity is at most half the range of its indices, a
  frame is accepted exactly when it fits beside the frames already there and one free byte, wherever the indices
  have got to; then it is the last frame and the ready flag is set. Receiving gives the frames back in order and
  byte for byte; a buffer that is too small leaves the frame in the ring; and taking the last frame clears the flag.\<close>

theorem ring_is_frame_queue:
  assumes "cap_ok cap" and "ring_rep cap m pend []"
  shows "(\<exists>m1 res. send_frame kill cap m pid p = Some (m1, res) \<and>
      (if unat cap \<le> length p + 4 then m1 = m \<and> res = Inl (Ring_PayloadTooLarge (length p) (unat cap - 5))
       else if unat cap \<le> length (frames_bytes pend) + 4 + length p
       then m1 = m \<and> res = Inl (Ring_Full (4 + length p) (unat cap - length (frames_bytes pend) - 1))
       else ring_rep cap m1 (pend @ [p]) [] \<and> rm_ready m1 \<and> res = Inr (commit_outcome_of (signal_pid_usr1 kill pid)))) \<and>
    (\<exists>m1 res. recv_frame_into cap m n = Some (m1, res) \<and>
      (case pend of
         [] \<Rightarrow> m1 = m \<and> res = Inr None
       | f # fs \<Rightarrow> if n < length f then m1 = m \<and> res = Inl (Ring_BufferTooSmall (length f) n)
           else res = Inr (Some f) \<and> ring_rep cap m1 fs [] \<and> rm_ready m1 = (fs \<noteq> [] \<and> rm_ready m)))"
  using ring_send_effect [OF assms] ring_recv_effect [OF assms] by blast

theorem ring_is_frame_queue_witness:
  "\<exists>m1. send_frame (\<lambda>_ _. None) 16 \<lparr>rm_head = 13, rm_tail = 13, rm_data = replicate 16 0, rm_ready = False\<rparr> 1 [7, 8, 9] =
     Some (m1, Inr Notified) \<and> ring_rep 16 m1 [[7, 8, 9]] []"
proof -
  let ?m = "\<lparr>rm_head = 13, rm_tail = 13, rm_data = replicate 16 0, rm_ready = False\<rparr>"
  have "cap_ok 16" by (simp add: cap_ok_def min_ring_capacity_def frame_prefix_len_def)
  moreover have "ring_rep 16 ?m [] []" by (simp add: ring_rep_def word_less_nat_alt)
  ultimately show ?thesis
    using ring_is_frame_queue [of 16 ?m "[]" "\<lambda>_ _. None" 1 "[7, 8, 9]" 0]
    by (auto simp: signal_pid_usr1_def commit_outcome_of_def)
qed

text \<open>C31: The bound on the capacity matters. The layout admits a ring of \<open>u32::MAX\<close> bytes, but there the \<open>u32\<close> sum of an index
  and a frame's length wraps. From a fresh ring of that size: a frame of the greatest length is sent and received, the next
  send, of one byte, succeeds, but has put its payload over the last byte of its own length prefix; no call of the receiver
  ever gets it: each one finds the frame length corrupt and leaves the ring as it is.\<close>

theorem ring_index_sum_wraps:
  assumes "framed_ring_layout (2 ^ 32 - 1) = Inr l" and "length old = 2 ^ 32 - 1" and "(cap, m) = ring_init l old"
    and "length p = unat cap - 5"
  shows "\<exists>m1 m2 m3 outcome len. send_frame kill cap m pid p = Some (m1, Inr outcome) \<and>
    recv_frame_into cap m1 (length p) = Some (m2, Inr (Some p)) \<and> send_frame kill cap m2 pid [b] = Some (m3, Inr outcome) \<and>
    circ (rm_data m3) (unat (rm_tail m2)) 4 = [1, 0, 0, b] \<and>
    (\<forall>n. recv_frame_into cap m3 n = Some (m3, Inl (Ring_CorruptFrameLen len 4 cap)))"
proof -
  have l: "fl_data_len l = 4294967295"
    using assms(1) is_power_of_two_pow [of 2]
    by (auto simp: framed_ring_layout_def min_ring_capacity_def frame_prefix_len_def layout_defs Let_def)
  with assms(2,3) have m: "cap = 4294967295" "m = \<lparr>rm_head = 0, rm_tail = 0, rm_data = old, rm_ready = False\<rparr>"
    by (simp_all add: ring_init_def)
  have len: "length old = 4294967295" "length p = 4294967290" using assms(2,4) m by simp_all
  let ?out = "commit_outcome_of (signal_pid_usr1 kill pid)"
  from largest_ring_first_send [OF len] obtain d1 where
    s1: "send_frame kill cap m pid p = Some (\<lparr>rm_head = 0, rm_tail = 4294967294, rm_data = d1, rm_ready = True\<rparr>, Inr ?out)"
    and d1: "length d1 = 4294967295" "take 4 d1 = to_ne_bytes 4294967290" "drop 4 d1 = p @ drop 4294967294 old"
    unfolding m by blast
  have "take 4294967290 (drop 4 d1) = p" unfolding d1(3) using len(2) by simp
  note r1 = largest_ring_first_recv [OF d1(1) len(2) order.refl d1(2) this, of True]
  from largest_ring_second_send [OF d1(1)] obtain d2 where
    s2: "send_frame kill cap \<lparr>rm_head = 4294967294, rm_tail = 4294967294, rm_data = d1, rm_ready = False\<rparr> pid [b] =
      Some (\<lparr>rm_head = 4294967294, rm_tail = 3, rm_data = d2, rm_ready = True\<rparr>, Inr ?out)"
    and d2: "length d2 = 4294967295" "take 3 d2 = [0, 0, b]" "drop 4294967294 d2 = [1]" unfolding m by blast
  have "read_bytes_wrapped d2 4294967294 4294967295 4 = Some [1, 0, 0, b]"
    using d2 by (simp add: read_bytes_wrapped_def)
  moreover have "read_bytes_wrapped d2 4294967294 4294967295 4 = Some (circ d2 4294967294 4)"
    using d2(1) by (subst read_circ) simp_all
  ultimately have "circ d2 4294967294 4 = [1, 0, 0, b]" by simp
  with s1 r1 s2 largest_ring_second_recv [OF d2, of True] show ?thesis
    unfolding m len(2) by (intro exI conjI allI) (assumption | simp)+
qed

theorem ring_index_sum_wraps_witness:
  "\<exists>cap p m m1 m2 m3 outcome len. send_frame (\<lambda>_ _. None) cap m 1 p = Some (m1, Inr outcome) \<and> rm_head m = rm_tail m \<and>
    recv_frame_into cap m1 (length p) = Some (m2, Inr (Some p)) \<and>
    send_frame (\<lambda>_ _. None) cap m2 1 [7] = Some (m3, Inr outcome) \<and>
    (\<forall>n. recv_frame_into cap m3 n = Some (m3, Inl (Ring_CorruptFrameLen len 4 cap)))"
proof -
  obtain l where l: "framed_ring_layout (2 ^ 32 - 1) = Inr l" "fl_data_len l = 4294967295"
    using is_power_of_two_pow [of 2]
    by (auto simp: framed_ring_layout_def min_ring_capacity_def frame_prefix_len_def layout_defs Let_def)
  let ?old = "replicate (2 ^ 32 - 1) (0 :: u8)"
  obtain cap m where init: "(cap, m) = ring_init l ?old" by (metis surj_pair)
  have len: "length ?old = 2 ^ 32 - 1" by (rule length_replicate)
  have "rm_head m = rm_tail m" using init by (simp add: ring_init_def del: replicate.simps)
  moreover have "length (replicate (unat cap - 5) (0 :: u8)) = unat cap - 5" by (rule length_replicate)
  note ring_index_sum_wraps [OF l(1) len init this, of "\<lambda>_ _. None" 1 7]
  ultimately show ?thesis by blast
qed

end
