(* ===== verification/Ring_Concurrent.thy ===== *)
theory Ring_Concurrent
  imports Framed_Ring "HOL-Library.Code_Target_Nat"
begin

text \<open>
  The sender and the receiver of a ring at work at the same time. The bodies of \<open>send_frame\<close> and
  \<open>recv_frame_into\<close> are taken apart at every access to shared memory; the steps of the two sides interleave in any
  way. Each side is a program over the memory it sees that issues writes, so that one program runs over two
  memories: one where a write is seen by both sides at once, and one with store buffers, where a side sees its own writes
  at once and the other side sees them later, in order. The latter is what the release stores and acquire loads
  of the code come down to on an x86 processor.
\<close>

section \<open>The two programs\<close>

datatype ring_write =
    Wr_Bytes u32 bytes
  | Wr_Head u32
  | Wr_Tail u32
  | Wr_Ready bool

fun apply_write :: "u32 \<Rightarrow> ring_write \<Rightarrow> ring_mem \<Rightarrow> ring_mem option" where
  "apply_write cap (Wr_Bytes start src) m = do {
     data \<leftarrow> write_bytes_wrapped (rm_data m) start cap src;
     Some (m\<lparr>rm_data := data\<rparr>)
   }"
| "apply_write cap (Wr_Head h) m = Some (m\<lparr>rm_head := h\<rparr>)"
| "apply_write cap (Wr_Tail t) m = Some (m\<lparr>rm_tail := t\<rparr>)"
| "apply_write cap (Wr_Ready b) m = Some (m\<lparr>rm_ready := b\<rparr>)"

text \<open>Where a sender stands in \<open>send_frame\<close>: after the load of the head, with a plan, and after each of its writes.\<close>

datatype sender_pc =
    S_Idle
  | S_Start bytes
  | S_Head bytes u32
  | S_Plan bytes publish_plan
  | S_Prefixed bytes publish_plan
  | S_Filled bytes publish_plan
  | S_Published
  | S_Done "ring_tx_error + unit"

fun sender_step :: "u32 \<Rightarrow> ring_mem \<Rightarrow> sender_pc \<Rightarrow> sender_pc \<times> ring_write list" where
  "sender_step cap m S_Idle = (S_Idle, [])"
| "sender_step cap m (S_Start payload) = (S_Head payload (rm_head m), [])"
| "sender_step cap m (S_Head payload h) =
     (case try_bind (head_tail_checked cap h (rm_tail m)) (\<lambda>s. build_publish_plan s (length payload)) of
        Inl e \<Rightarrow> (S_Done (Inl e), [])
      | Inr plan \<Rightarrow> (S_Plan payload plan, []))"
| "sender_step cap m (S_Plan payload plan) =
     (S_Prefixed payload plan, [Wr_Bytes (pp_prefix_index plan) (to_ne_bytes (pp_prefix_value plan))])"
| "sender_step cap m (S_Prefixed payload plan) =
     (S_Filled payload plan, [Wr_Bytes (pp_payload_start plan) payload])"
| "sender_step cap m (S_Filled payload plan) = (S_Published, [Wr_Tail (pp_publish_tail plan)])"
| "sender_step cap m S_Published = (S_Done (Inr ()), [Wr_Ready True])"
| "sender_step cap m (S_Done r) = (S_Idle, [])"

text \<open>
  Where a receiver stands in \<open>recv_frame_into\<close>, and in \<open>update_ready_after_consume\<close> once it has taken the last frame
  it had seen.
\<close>

datatype receiver_pc =
    R_Idle
  | R_Start nat
  | R_Head nat u32
  | R_Snapshot nat ring_snapshot
  | R_Plan ring_snapshot consume_plan
  | R_Copied ring_snapshot consume_plan bytes
  | R_Check u32 bytes
  | R_Clear u32 bytes
  | R_Recheck u32 bytes
  | R_Restore bytes
  | R_Done "ring_rx_error + bytes option"

fun receiver_step :: "u32 \<Rightarrow> ring_mem \<Rightarrow> receiver_pc \<Rightarrow> (receiver_pc \<times> ring_write list) option" where
  "receiver_step cap m R_Idle = Some (R_Idle, [])"
| "receiver_step cap m (R_Start n) = Some (R_Head n (rm_head m), [])"
| "receiver_step cap m (R_Head n h) = Some
     (case head_tail_checked_rx cap h (rm_tail m) of
        Inl e \<Rightarrow> (R_Done (Inl e), [])
      | Inr s \<Rightarrow> if snapshot_is_empty s then (R_Done (Inr None), []) else (R_Snapshot n s, []))"
| "receiver_step cap m (R_Snapshot n s) = do {
     planned \<leftarrow> build_consume_plan (rm_data m) s n;
     Some (case planned of Inl e \<Rightarrow> (R_Done (Inl e), []) | Inr plan \<Rightarrow> (R_Plan s plan, []))
   }"
| "receiver_step cap m (R_Plan s plan) = do {
     payload \<leftarrow> read_bytes_wrapped (rm_data m) (cp_payload_start plan) cap (unat (cp_len plan));
     Some (R_Copied s plan payload, [])
   }"
| "receiver_step cap m (R_Copied s plan payload) = Some
     (if cp_next_head plan = sn_tail s then R_Check (cp_next_head plan) payload else R_Done (Inr (Some payload)),
      [Wr_Head (cp_next_head plan)])"
| "receiver_step cap m (R_Check nh payload) = Some
     (if rm_tail m \<noteq> nh then R_Done (Inr (Some payload)) else R_Clear nh payload, [])"
| "receiver_step cap m (R_Clear nh payload) = Some (R_Recheck nh payload, [Wr_Ready False])"
| "receiver_step cap m (R_Recheck nh payload) = Some
     (if rm_tail m \<noteq> nh then R_Restore payload else R_Done (Inr (Some payload)), [])"
| "receiver_step cap m (R_Restore payload) = Some (R_Done (Inr (Some payload)), [Wr_Ready True])"
| "receiver_step cap m (R_Done r) = Some (R_Idle, [])"

section \<open>Interleaving over one memory\<close>

text \<open>The payloads are logged when the tail or the head that makes them sent or received is stored.\<close>

record ring_sys =
  rs_mem :: ring_mem
  rs_sender :: sender_pc
  rs_receiver :: receiver_pc
  rs_sent :: "bytes list"
  rs_got :: "bytes list"

datatype ring_op = Call_send bytes | Sender_moves | Call_recv nat | Receiver_moves

fun apply_writes :: "u32 \<Rightarrow> ring_write list \<Rightarrow> ring_mem \<Rightarrow> ring_mem option" where
  "apply_writes cap [] m = Some m"
| "apply_writes cap (w # ws) m = do { m1 \<leftarrow> apply_write cap w m; apply_writes cap ws m1 }"

fun published :: "sender_pc \<Rightarrow> bytes list" where
  "published (S_Filled payload _) = [payload]"
| "published _ = []"

fun consumed :: "receiver_pc \<Rightarrow> bytes list" where
  "consumed (R_Copied _ _ payload) = [payload]"
| "consumed _ = []"

fun ring_step :: "u32 \<Rightarrow> ring_op \<Rightarrow> ring_sys \<Rightarrow> ring_sys option" where
  "ring_step cap (Call_send payload) s =
     Some (if rs_sender s = S_Idle then s\<lparr>rs_sender := S_Start payload\<rparr> else s)"
| "ring_step cap (Call_recv n) s =
     Some (if rs_receiver s = R_Idle then s\<lparr>rs_receiver := R_Start n\<rparr> else s)"
| "ring_step cap Sender_moves s = (case sender_step cap (rs_mem s) (rs_sender s) of (pc, ws) \<Rightarrow> do {
     m \<leftarrow> apply_writes cap ws (rs_mem s);
     Some (s\<lparr>rs_mem := m, rs_sender := pc, rs_sent := rs_sent s @ published (rs_sender s)\<rparr>)
   })"
| "ring_step cap Receiver_moves s = do {
     (pc, ws) \<leftarrow> receiver_step cap (rs_mem s) (rs_receiver s);
     m \<leftarrow> apply_writes cap ws (rs_mem s);
     Some (s\<lparr>rs_mem := m, rs_receiver := pc, rs_got := rs_got s @ consumed (rs_receiver s)\<rparr>)
   }"

fun ring_run :: "u32 \<Rightarrow> ring_op list \<Rightarrow> ring_sys \<Rightarrow> ring_sys option" where
  "ring_run cap [] s = Some s"
| "ring_run cap (op # ops) s = do { s1 \<leftarrow> ring_step cap op s; ring_run cap ops s1 }"

definition ring_start :: "ring_mem \<Rightarrow> ring_sys" where
  "ring_start m = \<lparr>rs_mem = m, rs_sender = S_Idle, rs_receiver = R_Idle, rs_sent = [], rs_got = []\<rparr>"

section \<open>The invariant\<close>

text \<open>
  What the sender may rely on: a head it has loaded may have moved on since, which only makes more room; a plan
  reserves room behind the frames of the ring, in which nobody else writes.
\<close>

definition plan_fits :: "u32 \<Rightarrow> ring_mem \<Rightarrow> bytes list \<Rightarrow> bytes \<Rightarrow> publish_plan \<Rightarrow> bool" where
  "plan_fits cap m pend p plan \<longleftrightarrow> length (frames_bytes pend) + 4 + length p < unat cap \<and>
     plan = \<lparr>pp_payload_start = wrap_index (rm_tail m + of_nat 4) cap,
       pp_publish_tail = wrap_index (rm_tail m + of_nat (4 + length p)) cap,
       pp_prefix_index = rm_tail m, pp_prefix_value = of_nat (length p)\<rparr>"

fun sender_extra :: "sender_pc \<Rightarrow> bytes" where
  "sender_extra (S_Prefixed p plan) = to_ne_bytes (of_nat (length p))"
| "sender_extra (S_Filled p plan) = frame_bytes p"
| "sender_extra _ = []"

fun sender_ok :: "u32 \<Rightarrow> ring_mem \<Rightarrow> bytes list \<Rightarrow> sender_pc \<Rightarrow> bool" where
  "sender_ok cap m pend (S_Head p h) \<longleftrightarrow> h < cap \<and>
     (\<exists>k. unat (rm_head m) = (unat h + k) mod unat cap \<and> k + length (frames_bytes pend) < unat cap)"
| "sender_ok cap m pend (S_Plan p plan) \<longleftrightarrow> plan_fits cap m pend p plan"
| "sender_ok cap m pend (S_Prefixed p plan) \<longleftrightarrow> plan_fits cap m pend p plan"
| "sender_ok cap m pend (S_Filled p plan) \<longleftrightarrow> plan_fits cap m pend p plan"
| "sender_ok cap m pend (S_Done (Inl e)) \<longleftrightarrow> (\<forall>h t c. e \<noteq> Ring_TxCorruptState h t c)"
| "sender_ok cap m pend _ \<longleftrightarrow> True"

text \<open>What the receiver may rely on: the head is its own, and the tail it has loaded ends a prefix of the frames.\<close>

definition snapshot_ok :: "u32 \<Rightarrow> ring_mem \<Rightarrow> bytes list \<Rightarrow> ring_snapshot \<Rightarrow> bytes \<Rightarrow> bool" where
  "snapshot_ok cap m pend s p \<longleftrightarrow> (\<exists>fs gs. pend = p # fs @ gs \<and> sn_head s = rm_head m \<and> sn_capacity s = cap \<and> sn_tail s < cap \<and>
     unat (sn_tail s) = (unat (rm_head m) + length (frames_bytes (p # fs))) mod unat cap)"

definition consume_ok :: "u32 \<Rightarrow> ring_mem \<Rightarrow> bytes \<Rightarrow> consume_plan \<Rightarrow> bool" where
  "consume_ok cap m p plan \<longleftrightarrow> plan = \<lparr>cp_len = of_nat (length p), cp_payload_start = wrap_index (rm_head m + of_nat 4) cap,
     cp_next_head = wrap_index (rm_head m + of_nat (4 + length p)) cap\<rparr>"

fun receiver_ok :: "u32 \<Rightarrow> ring_mem \<Rightarrow> bytes list \<Rightarrow> receiver_pc \<Rightarrow> bool" where
  "receiver_ok cap m pend (R_Head n h) \<longleftrightarrow> h = rm_head m"
| "receiver_ok cap m pend (R_Snapshot n s) \<longleftrightarrow> (\<exists>p. snapshot_ok cap m pend s p)"
| "receiver_ok cap m pend (R_Plan s plan) \<longleftrightarrow> (\<exists>p. snapshot_ok cap m pend s p \<and> consume_ok cap m p plan)"
| "receiver_ok cap m pend (R_Copied s plan p) \<longleftrightarrow> snapshot_ok cap m pend s p \<and> consume_ok cap m p plan"
| "receiver_ok cap m pend (R_Check nh p) \<longleftrightarrow> nh = rm_head m"
| "receiver_ok cap m pend (R_Clear nh p) \<longleftrightarrow> nh = rm_head m"
| "receiver_ok cap m pend (R_Recheck nh p) \<longleftrightarrow> nh = rm_head m"
| "receiver_ok cap m pend (R_Done (Inl e)) \<longleftrightarrow> (\<exists>a b. e = Ring_BufferTooSmall a b)"
| "receiver_ok cap m pend _ \<longleftrightarrow> True"

text \<open>A ring that is not empty is flagged, or one of the two sides is about to flag it.\<close>

fun flags_soon :: "receiver_pc \<Rightarrow> bool" where
  "flags_soon (R_Recheck nh p) \<longleftrightarrow> True"
| "flags_soon (R_Restore p) \<longleftrightarrow> True"
| "flags_soon _ \<longleftrightarrow> False"

definition wake_ok :: "ring_sys \<Rightarrow> bytes list \<Rightarrow> bool" where
  "wake_ok s pend \<longleftrightarrow> (pend \<noteq> [] \<longrightarrow> rm_ready (rs_mem s) \<or> rs_sender s = S_Published \<or> flags_soon (rs_receiver s))"

definition ring_inv :: "u32 \<Rightarrow> ring_sys \<Rightarrow> bytes list \<Rightarrow> bool" where
  "ring_inv cap s pend \<longleftrightarrow> rs_sent s = rs_got s @ pend \<and> ring_rep cap (rs_mem s) pend (sender_extra (rs_sender s)) \<and>
     sender_ok cap (rs_mem s) pend (rs_sender s) \<and> receiver_ok cap (rs_mem s) pend (rs_receiver s) \<and> wake_ok s pend"

section \<open>The steps of the sender\<close>

lemma receiver_ok_mono:
  assumes "receiver_ok cap m pend pc" and "rm_head m' = rm_head m"
  shows "receiver_ok cap m' (pend @ qs) pc"
proof -
  have "snapshot_ok cap m' (pend @ qs) s p" if "snapshot_ok cap m pend s p" for s p
  proof -
    from that obtain fs gs where "pend = p # fs @ gs" "sn_head s = rm_head m" "sn_capacity s = cap" "sn_tail s < cap"
      "unat (sn_tail s) = (unat (rm_head m) + length (frames_bytes (p # fs))) mod unat cap" unfolding snapshot_ok_def by blast
    then show ?thesis unfolding snapshot_ok_def using assms(2) by (intro exI [of _ fs] exI [of _ "gs @ qs"]) simp
  qed
  moreover have "consume_ok cap m' = consume_ok cap m" using assms(2) by (simp add: consume_ok_def fun_eq_iff)
  ultimately show ?thesis using assms
    by (cases "(cap, m, pend, pc)" rule: receiver_ok.cases) auto
qed

lemma receiver_ok_cong: "receiver_ok cap m pend pc \<Longrightarrow> rm_head m' = rm_head m \<Longrightarrow> receiver_ok cap m' pend pc"
  using receiver_ok_mono [of cap m pend pc m' "[]"] by simp

lemma sender_ok_cong:
  "sender_ok cap m pend pc \<Longrightarrow> rm_head m' = rm_head m \<Longrightarrow> rm_tail m' = rm_tail m \<Longrightarrow> sender_ok cap m' pend pc"
  by (cases "(cap, m, pend, pc)" rule: sender_ok.cases) (auto simp: plan_fits_def)

lemma rep_cong:
  "ring_rep cap m pend extra \<Longrightarrow> rm_head m' = rm_head m \<Longrightarrow> rm_tail m' = rm_tail m \<Longrightarrow> rm_data m' = rm_data m \<Longrightarrow>
     ring_rep cap m' pend extra"
  by (simp add: ring_rep_def)

lemma sender_plans:
  assumes cap: "cap_ok cap" and rep: "ring_rep cap m pend extra" and ok: "sender_ok cap m pend (S_Head p h)"
  shows "\<exists>pc. sender_step cap m (S_Head p h) = (pc, []) \<and> sender_ok cap m pend pc \<and> sender_extra pc = [] \<and> pc \<noteq> S_Published"
proof -
  from ok obtain k where h: "h < cap" and k: "unat (rm_head m) = (unat h + k) mod unat cap"
    and room: "k + length (frames_bytes pend) < unat cap" by auto
  have t: "rm_tail m < cap" "unat (rm_tail m) = (unat h + (k + length (frames_bytes pend))) mod unat cap"
    using rep by (simp_all add: ring_rep_def k mod_add_left_eq add.assoc)
  have "head_tail_checked cap h (rm_tail m) = Inr \<lparr>sn_head = h, sn_tail = rm_tail m, sn_capacity = cap\<rparr>"
    using h t(1) by (simp add: head_tail_checked_def not_le)
  with publish_plan_eq [OF cap h t room, of "length p"] show ?thesis
    by (auto simp: plan_fits_def)
qed

lemma sender_moves_inv:
  assumes cap: "cap_ok cap" and inv: "ring_inv cap s pend"
  shows "\<exists>s' pend'. ring_step cap Sender_moves s = Some s' \<and> ring_inv cap s' pend'"
proof -
  let ?m = "rs_mem s"
  have log: "rs_sent s = rs_got s @ pend" and rep: "ring_rep cap ?m pend (sender_extra (rs_sender s))"
    and snd: "sender_ok cap ?m pend (rs_sender s)" and rcv: "receiver_ok cap ?m pend (rs_receiver s)" and wake: "wake_ok s pend"
    using inv by (simp_all add: ring_inv_def)
  have t: "rm_tail ?m < cap" "unat (rm_tail ?m) < unat cap" using rep by (simp_all add: ring_rep_def word_less_nat_alt)
  show ?thesis
  proof (cases "rs_sender s")
    case (S_Start p)
    have "\<exists>k. unat (rm_head ?m) = (unat (rm_head ?m) + k) mod unat cap \<and> k + length (frames_bytes pend) < unat cap"
      using rep by (intro exI [of _ 0]) (simp add: ring_rep_def word_less_nat_alt)
    moreover have "rm_head ?m < cap" using rep by (simp add: ring_rep_def)
    ultimately show ?thesis using inv S_Start
      by (intro exI [of _ "s\<lparr>rs_sender := S_Head p (rm_head ?m)\<rparr>"] exI [of _ pend]) (simp add: ring_inv_def wake_ok_def)
  next
    case (S_Head p h)
    from sender_plans [OF cap rep] snd S_Head obtain pc where
      "sender_step cap ?m (S_Head p h) = (pc, [])" "sender_ok cap ?m pend pc" "sender_extra pc = []" "pc \<noteq> S_Published" by metis
    with inv S_Head show ?thesis by (intro exI [of _ "s\<lparr>rs_sender := pc\<rparr>"] exI [of _ pend]) (simp add: ring_inv_def wake_ok_def)
  next
    case (S_Plan p plan)
    have fits: "plan_fits cap ?m pend p plan" using snd S_Plan by simp
    from rep_write [of cap ?m pend "[]" "rm_tail ?m" "to_ne_bytes (of_nat (length p))"] rep S_Plan t fits obtain d where
      "write_bytes_wrapped (rm_data ?m) (rm_tail ?m) cap (to_ne_bytes (of_nat (length p))) = Some d"
      "ring_rep cap (?m\<lparr>rm_data := d\<rparr>) pend (to_ne_bytes (of_nat (length p)))" by (auto simp: plan_fits_def)
    with S_Plan fits log rcv wake receiver_ok_cong [OF rcv, of "?m\<lparr>rm_data := d\<rparr>"] show ?thesis
      by (intro exI [of _ "s\<lparr>rs_mem := ?m\<lparr>rm_data := d\<rparr>, rs_sender := S_Prefixed p plan\<rparr>"] exI [of _ pend])
        (simp add: ring_inv_def wake_ok_def plan_fits_def)
  next
    case (S_Prefixed p plan)
    have fits: "plan_fits cap ?m pend p plan" using snd S_Prefixed by simp
    note w4 = wrap_index_sum [OF cap t(1), of 4]
    from rep_write [of cap ?m pend "to_ne_bytes (of_nat (length p))" "wrap_index (rm_tail ?m + of_nat 4) cap" p]
      rep S_Prefixed w4 fits obtain d where
      "write_bytes_wrapped (rm_data ?m) (wrap_index (rm_tail ?m + of_nat 4) cap) cap p = Some d"
      "ring_rep cap (?m\<lparr>rm_data := d\<rparr>) pend (frame_bytes p)" by (auto simp: plan_fits_def frame_bytes_def)
    with S_Prefixed fits log rcv wake receiver_ok_cong [OF rcv, of "?m\<lparr>rm_data := d\<rparr>"] show ?thesis
      by (intro exI [of _ "s\<lparr>rs_mem := ?m\<lparr>rm_data := d\<rparr>, rs_sender := S_Filled p plan\<rparr>"] exI [of _ pend])
        (simp add: ring_inv_def wake_ok_def plan_fits_def)
  next
    case (S_Filled p plan)
    have fits: "plan_fits cap ?m pend p plan" using snd S_Filled by simp
    then have "4 + length p < unat cap" by (simp add: plan_fits_def)
    note wn = wrap_index_sum [OF cap t(1) this]
    have "ring_rep cap (?m\<lparr>rm_tail := pp_publish_tail plan\<rparr>) (pend @ [p]) []"
      using rep_publish [of cap ?m pend p] rep S_Filled wn fits by (simp add: plan_fits_def)
    with S_Filled log receiver_ok_mono [OF rcv, of "?m\<lparr>rm_tail := pp_publish_tail plan\<rparr>" "[p]"] show ?thesis
      by (intro exI [of _ "s\<lparr>rs_mem := ?m\<lparr>rm_tail := pp_publish_tail plan\<rparr>, rs_sender := S_Published, rs_sent := rs_sent s @ [p]\<rparr>"]
          exI [of _ "pend @ [p]"]) (simp add: ring_inv_def wake_ok_def)
  next
    case S_Published
    with log rep receiver_ok_cong [OF rcv, of "?m\<lparr>rm_ready := True\<rparr>"] show ?thesis
      by (intro exI [of _ "s\<lparr>rs_mem := ?m\<lparr>rm_ready := True\<rparr>, rs_sender := S_Done (Inr ())\<rparr>"] exI [of _ pend])
        (simp add: ring_inv_def wake_ok_def ring_rep_def)
  qed (use inv in \<open>auto simp: ring_inv_def wake_ok_def\<close>)
qed

section \<open>The steps of the receiver\<close>

lemma sender_ok_consume:
  assumes "sender_ok cap m (p # ps) pc" and "unat h = (unat (rm_head m) + (4 + length p)) mod unat cap"
  shows "sender_ok cap (m\<lparr>rm_head := h\<rparr>) ps pc"
proof (cases pc)
  case (S_Head q h0)
  with assms(1) obtain k where "h0 < cap" "unat (rm_head m) = (unat h0 + k) mod unat cap"
    "k + (4 + length p + length (frames_bytes ps)) < unat cap" by (auto simp: add.assoc)
  with assms(2) S_Head show ?thesis
    by (auto intro!: exI [of _ "k + (4 + length p)"] simp: mod_add_left_eq add.assoc)
next
  case (S_Done r)
  with assms(1) show ?thesis by (cases r) auto
qed (use assms(1) in \<open>auto simp: plan_fits_def\<close>)

lemma snapshot_parts:
  assumes "cap_ok cap" and "ring_rep cap m pend extra" and "snapshot_ok cap m pend s p"
  obtains fs gs where "pend = p # fs @ gs" "s = \<lparr>sn_head = rm_head m, sn_tail = sn_tail s, sn_capacity = cap\<rparr>" "sn_tail s < cap"
    "unat (sn_tail s) = (unat (rm_head m) + length (frames_bytes (p # fs))) mod unat cap"
    "length (frames_bytes (p # fs)) < unat cap" "4 + length p < unat cap"
proof -
  from assms(3) obtain fs gs where "pend = p # fs @ gs" "sn_head s = rm_head m" "sn_capacity s = cap" "sn_tail s < cap"
    "unat (sn_tail s) = (unat (rm_head m) + length (frames_bytes (p # fs))) mod unat cap" unfolding snapshot_ok_def by blast
  then show thesis by (intro that [of fs gs]) (use assms(2) in \<open>simp_all add: ring_rep_def\<close>)
qed

text \<open>A step that does not change the memory or the log.\<close>

lemma receiver_moves_pc:
  assumes inv: "ring_inv cap s pend" and step: "receiver_step cap (rs_mem s) (rs_receiver s) = Some (pc, [])"
    and "consumed (rs_receiver s) = []" and "receiver_ok cap (rs_mem s) pend pc"
    and "flags_soon (rs_receiver s) \<and> pend \<noteq> [] \<Longrightarrow> flags_soon pc"
  shows "\<exists>s' pend'. ring_step cap Receiver_moves s = Some s' \<and> ring_inv cap s' pend'"
  using assms by (intro exI [of _ "s\<lparr>rs_receiver := pc\<rparr>"] exI [of _ pend]) (auto simp: ring_inv_def wake_ok_def)

lemma receiver_copies:
  assumes cap: "cap_ok cap" and inv: "ring_inv cap s pend" and pc: "rs_receiver s = R_Copied sn plan p"
  shows "\<exists>s' pend'. ring_step cap Receiver_moves s = Some s' \<and> ring_inv cap s' pend'"
proof -
  let ?m = "rs_mem s"
  have rep: "ring_rep cap ?m pend (sender_extra (rs_sender s))" and snd: "sender_ok cap ?m pend (rs_sender s)"
    and snap: "snapshot_ok cap ?m pend sn p" and plan: "consume_ok cap ?m p plan" and log: "rs_sent s = rs_got s @ pend"
    and wake: "wake_ok s pend" using inv pc by (simp_all add: ring_inv_def)
  from snapshot_parts [OF cap rep snap] obtain fs gs where pend: "pend = p # fs @ gs" and fits: "4 + length p < unat cap" .
  define nh where "nh = cp_next_head plan"
  have head: "rm_head ?m < cap" using rep by (simp add: ring_rep_def)
  have nh: "unat nh = (unat (rm_head ?m) + (4 + length p)) mod unat cap" "nh < cap"
    using wrap_index_sum [OF cap head fits] plan by (simp_all add: nh_def consume_ok_def)
  let ?m' = "?m\<lparr>rm_head := nh\<rparr>" and ?pc = "if nh = sn_tail sn then R_Check nh p else R_Done (Inr (Some p))"
  have "ring_rep cap ?m' (fs @ gs) (sender_extra (rs_sender s))" by (rule rep_consume [OF rep [unfolded pend] nh(2,1)])
  moreover have "sender_ok cap ?m' (fs @ gs) (rs_sender s)" by (rule sender_ok_consume [OF snd [unfolded pend] nh(1)])
  ultimately show ?thesis
    using pc log wake pend
    by (intro exI [of _ "s\<lparr>rs_mem := ?m', rs_receiver := ?pc, rs_got := rs_got s @ [p]\<rparr>"] exI [of _ "fs @ gs"])
      (auto simp: ring_inv_def wake_ok_def nh_def)
qed

lemma receiver_moves_inv:
  assumes cap: "cap_ok cap" and inv: "ring_inv cap s pend"
  shows "\<exists>s' pend'. ring_step cap Receiver_moves s = Some s' \<and> ring_inv cap s' pend'"
proof -
  let ?m = "rs_mem s"
  have rep: "ring_rep cap ?m pend (sender_extra (rs_sender s))" and rcv: "receiver_ok cap ?m pend (rs_receiver s)"
    and snd: "sender_ok cap ?m pend (rs_sender s)" and log: "rs_sent s = rs_got s @ pend"
    using inv by (simp_all add: ring_inv_def)
  have b: "rm_head ?m < cap" "rm_tail ?m < cap" "length (rm_data ?m) = unat cap"
    "unat (rm_tail ?m) = (unat (rm_head ?m) + length (frames_bytes pend)) mod unat cap" using rep by (simp_all add: ring_rep_def)
  have empty: "rm_head ?m = rm_tail ?m \<longleftrightarrow> pend = []" using rep_empty_iff [of cap ?m pend "[]"] rep b by simp
  note moves = receiver_moves_pc [OF inv]
  have flag: "\<exists>s' pend'. ring_step cap Receiver_moves s = Some s' \<and> ring_inv cap s' pend'"
    if "receiver_step cap ?m (rs_receiver s) = Some (pc, [Wr_Ready v])" "consumed (rs_receiver s) = []"
      "receiver_ok cap ?m pend pc" "v \<or> flags_soon pc" for pc v
    using that log rep_cong [OF rep, of "?m\<lparr>rm_ready := v\<rparr>"] sender_ok_cong [OF snd, of "?m\<lparr>rm_ready := v\<rparr>"]
      receiver_ok_cong [OF that(3), of "?m\<lparr>rm_ready := v\<rparr>"]
    by (intro exI [of _ "s\<lparr>rs_mem := ?m\<lparr>rm_ready := v\<rparr>, rs_receiver := pc\<rparr>"] exI [of _ pend])
      (auto simp: ring_inv_def wake_ok_def)
  show ?thesis
  proof (cases "rs_receiver s")
    case (R_Head n h)
    then have h: "h = rm_head ?m" using rcv by simp
    let ?s = "\<lparr>sn_head = h, sn_tail = rm_tail ?m, sn_capacity = cap\<rparr>"
    have checked: "head_tail_checked_rx cap h (rm_tail ?m) = Inr ?s"
      using h b(1,2) by (simp add: head_tail_checked_rx_def not_le)
    show ?thesis
    proof (cases pend)
      case Nil
      with R_Head checked empty h show ?thesis by (intro moves [of "R_Done (Inr None)"]) (simp_all add: snapshot_is_empty_def)
    next
      case (Cons p ps)
      have "snapshot_ok cap ?m pend ?s p" unfolding snapshot_ok_def using Cons h b by (intro exI [of _ ps] exI [of _ "[]"]) simp
      with R_Head checked empty h Cons show ?thesis
        by (intro moves [of "R_Snapshot n ?s"]) (auto simp: snapshot_is_empty_def)
    qed
  next
    case (R_Snapshot n sn)
    with rcv obtain p where snap: "snapshot_ok cap ?m pend sn p" by auto
    from snapshot_parts [OF cap rep snap] obtain fs gs where pend: "pend = p # fs @ gs"
      and sn: "sn = \<lparr>sn_head = rm_head ?m, sn_tail = sn_tail sn, sn_capacity = cap\<rparr>" and t: "sn_tail sn < cap"
      "unat (sn_tail sn) = (unat (rm_head ?m) + length (frames_bytes (p # fs))) mod unat cap"
      "length (frames_bytes (p # fs)) < unat cap" .
    have "4 + length p \<le> length (frames_bytes (p # fs))" by simp
    note plan = consume_plan_eq [OF cap b(3,1) t this rep_first(1) [OF rep [unfolded pend]], of n, folded sn]
    show ?thesis
    proof (cases "n < length p")
      case True
      with plan R_Snapshot show ?thesis
        by (intro moves [of "R_Done (Inl (Ring_BufferTooSmall (length p) n))"]) simp_all
    next
      case False
      with plan R_Snapshot snap show ?thesis
        by (intro moves [of "R_Plan sn \<lparr>cp_len = of_nat (length p), cp_payload_start = wrap_index (rm_head ?m + of_nat 4) cap,
          cp_next_head = wrap_index (rm_head ?m + of_nat (4 + length p)) cap\<rparr>"]) (auto simp: consume_ok_def)
    qed
  next
    case (R_Plan sn plan)
    with rcv obtain p where snap: "snapshot_ok cap ?m pend sn p" and plan: "consume_ok cap ?m p plan" by auto
    from snapshot_parts [OF cap rep snap] obtain fs gs where pend: "pend = p # fs @ gs" and fits: "4 + length p < unat cap" .
    have "unat (of_nat (length p) :: u32) = length p" using fits cap by (intro unat_of_nat_u32) (simp add: cap_ok_def)
    with R_Plan snap plan rep_read_payload [OF cap rep [unfolded pend]] show ?thesis
      by (intro moves [of "R_Copied sn plan p"]) (simp_all add: consume_ok_def)
  next
    case (R_Copied sn plan p)
    with receiver_copies [OF cap inv] show ?thesis by blast
  next
    case (R_Clear nh p)
    with rcv show ?thesis by (intro flag [of "R_Recheck nh p" False]) simp_all
  next
    case (R_Restore p)
    then show ?thesis by (intro flag [of "R_Done (Inr (Some p))" True]) simp_all
  next
    case (R_Check nh p)
    with rcv show ?thesis
      by (intro moves [of "if rm_tail ?m \<noteq> nh then R_Done (Inr (Some p)) else R_Clear nh p"]) simp_all
  next
    case (R_Recheck nh p)
    with rcv empty show ?thesis
      by (intro moves [of "if rm_tail ?m \<noteq> nh then R_Restore p else R_Done (Inr (Some p))"]) auto
  next
    case (R_Start n)
    then show ?thesis by (intro moves [of "R_Head n (rm_head ?m)"]) simp_all
  next
    case (R_Done r)
    then show ?thesis by (intro moves [of R_Idle]) simp_all
  next
    case R_Idle
    then show ?thesis by (intro moves [of R_Idle]) simp_all
  qed
qed

lemma ring_run_inv:
  assumes cap: "cap_ok cap" and "ring_inv cap s pend"
  shows "\<exists>s' pend'. ring_run cap ops s = Some s' \<and> ring_inv cap s' pend'"
  using assms(2)
proof (induction ops arbitrary: s pend)
  case Nil
  then show ?case by auto
next
  case (Cons op ops)
  have "\<exists>s' pend'. ring_step cap op s = Some s' \<and> ring_inv cap s' pend'"
  proof (cases op)
    case (Call_send p)
    with Cons.prems show ?thesis by (intro exI [of _ "if rs_sender s = S_Idle then s\<lparr>rs_sender := S_Start p\<rparr> else s"] exI [of _ pend])
        (auto simp: ring_inv_def wake_ok_def)
  next
    case (Call_recv n)
    with Cons.prems show ?thesis by (intro exI [of _ "if rs_receiver s = R_Idle then s\<lparr>rs_receiver := R_Start n\<rparr> else s"] exI [of _ pend])
        (auto simp: ring_inv_def wake_ok_def)
  qed (use sender_moves_inv [OF cap Cons.prems] receiver_moves_inv [OF cap Cons.prems] in simp_all)
  with Cons.IH show ?case by auto
qed

lemma ring_start_inv: "ring_rep cap m [] [] \<Longrightarrow> ring_inv cap (ring_start m) []"
  by (simp add: ring_inv_def ring_start_def wake_ok_def)

section \<open>Interleaving with store buffers\<close>

record tso_sys =
  tb_mem :: ring_mem
  tb_sender :: sender_pc
  tb_receiver :: receiver_pc
  tb_sender_buf :: "ring_write list"
  tb_receiver_buf :: "ring_write list"
  tb_sent :: "bytes list"
  tb_got :: "bytes list"

datatype tso_op = Tso_call_send bytes | Tso_sender | Tso_call_recv nat | Tso_receiver | Tso_drain_sender | Tso_drain_receiver

text \<open>
  A side reads memory through its own buffer; the oldest write of a buffer reaches memory at any time. A payload is
  logged when its side issues the store of the tail or the head.
\<close>

fun tso_step :: "u32 \<Rightarrow> tso_op \<Rightarrow> tso_sys \<Rightarrow> tso_sys option" where
  "tso_step cap (Tso_call_send payload) s =
     Some (if tb_sender s = S_Idle then s\<lparr>tb_sender := S_Start payload\<rparr> else s)"
| "tso_step cap (Tso_call_recv n) s =
     Some (if tb_receiver s = R_Idle then s\<lparr>tb_receiver := R_Start n\<rparr> else s)"
| "tso_step cap Tso_sender s = do {
     m \<leftarrow> apply_writes cap (tb_sender_buf s) (tb_mem s);
     let (pc, ws) = sender_step cap m (tb_sender s);
     Some (s\<lparr>tb_sender := pc, tb_sender_buf := tb_sender_buf s @ ws, tb_sent := tb_sent s @ published (tb_sender s)\<rparr>)
   }"
| "tso_step cap Tso_receiver s = do {
     m \<leftarrow> apply_writes cap (tb_receiver_buf s) (tb_mem s);
     (pc, ws) \<leftarrow> receiver_step cap m (tb_receiver s);
     Some (s\<lparr>tb_receiver := pc, tb_receiver_buf := tb_receiver_buf s @ ws, tb_got := tb_got s @ consumed (tb_receiver s)\<rparr>)
   }"
| "tso_step cap Tso_drain_sender s = (case tb_sender_buf s of
     [] \<Rightarrow> Some s
   | w # ws \<Rightarrow> do { m \<leftarrow> apply_write cap w (tb_mem s); Some (s\<lparr>tb_mem := m, tb_sender_buf := ws\<rparr>) })"
| "tso_step cap Tso_drain_receiver s = (case tb_receiver_buf s of
     [] \<Rightarrow> Some s
   | w # ws \<Rightarrow> do { m \<leftarrow> apply_write cap w (tb_mem s); Some (s\<lparr>tb_mem := m, tb_receiver_buf := ws\<rparr>) })"

fun tso_run :: "u32 \<Rightarrow> tso_op list \<Rightarrow> tso_sys \<Rightarrow> tso_sys option" where
  "tso_run cap [] s = Some s"
| "tso_run cap (op # ops) s = do { s1 \<leftarrow> tso_step cap op s; tso_run cap ops s1 }"

definition tso_start :: "ring_mem \<Rightarrow> tso_sys" where
  "tso_start m = \<lparr>tb_mem = m, tb_sender = S_Idle, tb_receiver = R_Idle, tb_sender_buf = [], tb_receiver_buf = [],
     tb_sent = [], tb_got = []\<rparr>"

section \<open>The invariant under store buffers\<close>

text \<open>
  Three views of the memory matter: memory itself with the head the receiver last issued, from which the receiver reads; memory
  behind the sender's buffer, from which the sender takes its tail; and memory after each single write of that buffer, which
  are the states the receiver will still see. \<open>trail\<close> says that the ring holds a growing list of frames in each of them.
\<close>

fun trail :: "u32 \<Rightarrow> u32 \<Rightarrow> ring_mem \<Rightarrow> bytes list \<Rightarrow> ring_write list \<Rightarrow> bytes list \<Rightarrow> bool" where
  "trail cap h m pend [] final \<longleftrightarrow> final = pend \<and> ring_rep cap (m\<lparr>rm_head := h\<rparr>) pend []"
| "trail cap h m pend (w # ws) final \<longleftrightarrow> ring_rep cap (m\<lparr>rm_head := h\<rparr>) pend [] \<and> (\<forall>x. w \<noteq> Wr_Head x) \<and>
     (\<exists>m' qs. apply_write cap w m = Some m' \<and> trail cap h m' (pend @ qs) ws final)"

text \<open>
  The heads in memory and in the receiver's buffer lag behind the head the receiver last issued, less and less; \<open>K\<close> is how
  far the one in memory does.
\<close>

fun lags :: "u32 \<Rightarrow> u32 \<Rightarrow> nat \<Rightarrow> u32 \<Rightarrow> ring_write list \<Rightarrow> bool" where
  "lags cap hF K h [] \<longleftrightarrow> h = hF \<and> K = 0"
| "lags cap hF K h (Wr_Head h' # ws) \<longleftrightarrow> h < cap \<and> unat hF = (unat h + K) mod unat cap \<and> (\<exists>K' \<le> K. lags cap hF K' h' ws)"
| "lags cap hF K h (Wr_Ready b # ws) \<longleftrightarrow> lags cap hF K h ws"
| "lags cap hF K h (_ # ws) \<longleftrightarrow> False"

fun reserved :: "sender_pc \<Rightarrow> nat" where
  "reserved (S_Plan p plan) = 4 + length p"
| "reserved (S_Prefixed p plan) = 4 + length p"
| "reserved (S_Filled p plan) = 4 + length p"
| "reserved _ = 0"

text \<open>The head the sender has loaded lags at least as far as the one that is in memory now.\<close>

fun loaded_head_ok :: "u32 \<Rightarrow> u32 \<Rightarrow> nat \<Rightarrow> bytes list \<Rightarrow> sender_pc \<Rightarrow> bool" where
  "loaded_head_ok cap hF K pend (S_Head p h) \<longleftrightarrow> h < cap \<and>
     (\<exists>k \<ge> K. unat hF = (unat h + k) mod unat cap \<and> k + length (frames_bytes pend) < unat cap)"
| "loaded_head_ok cap hF K pend _ \<longleftrightarrow> True"

definition tso_views :: "u32 \<Rightarrow> tso_sys \<Rightarrow> ring_mem \<Rightarrow> u32 \<Rightarrow> nat \<Rightarrow> bytes list \<Rightarrow> bytes list \<Rightarrow> bool" where
  "tso_views cap s mS hF K pendD pendF \<longleftrightarrow>
     apply_writes cap (tb_sender_buf s) (tb_mem s) = Some mS \<and> tb_sent s = tb_got s @ pendF \<and>
     trail cap hF (tb_mem s) pendD (tb_sender_buf s) pendF \<and> lags cap hF K (rm_head (tb_mem s)) (tb_receiver_buf s) \<and>
     ring_rep cap (mS\<lparr>rm_head := hF\<rparr>) pendF (sender_extra (tb_sender s)) \<and>
     sender_ok cap (mS\<lparr>rm_head := hF\<rparr>) pendF (tb_sender s) \<and> loaded_head_ok cap hF K pendF (tb_sender s) \<and>
     K + length (frames_bytes pendF) + reserved (tb_sender s) < unat cap \<and>
     receiver_ok cap ((tb_mem s)\<lparr>rm_head := hF\<rparr>) pendD (tb_receiver s)"

definition tso_inv :: "u32 \<Rightarrow> tso_sys \<Rightarrow> bool" where
  "tso_inv cap s \<longleftrightarrow> (\<exists>mS hF K pendD pendF. tso_views cap s mS hF K pendD pendF)"

section \<open>Buffers\<close>

lemma rep_less:
  assumes "ring_rep cap m pend (xs @ ys)"
  shows "ring_rep cap m pend xs"
proof -
  let ?n = "length (frames_bytes pend) + length xs"
  from assms circ_add [of "rm_data m" "unat (rm_head m)" ?n "length ys"]
  have "(frames_bytes pend @ xs) @ ys =
      circ (rm_data m) (unat (rm_head m)) ?n @ circ (rm_data m) (unat (rm_head m) + ?n) (length ys)"
    by (simp add: ring_rep_def add.assoc)
  then have "frames_bytes pend @ xs = circ (rm_data m) (unat (rm_head m)) ?n"
    by (subst (asm) append_eq_append_conv) simp_all
  with assms show ?thesis by (simp add: ring_rep_def)
qed

lemma trail_first: "trail cap h m pend ws final \<Longrightarrow> ring_rep cap (m\<lparr>rm_head := h\<rparr>) pend []"
  by (cases ws) auto

lemma trail_grows: "trail cap h m pend ws final \<Longrightarrow> \<exists>qs. final = pend @ qs"
proof (induction ws arbitrary: m pend)
  case (Cons w ws)
  then obtain m' rs where "trail cap h m' (pend @ rs) ws final" by auto
  from Cons.IH [OF this] show ?case by auto
qed simp

lemma trail_consume:
  assumes "trail cap h m (p # pend) ws final" and "nh < cap" "unat nh = (unat h + (4 + length p)) mod unat cap"
  shows "\<exists>final'. final = p # final' \<and> trail cap nh m pend ws final'"
  using assms(1)
proof (induction ws arbitrary: m pend)
  case Nil
  with rep_consume [of cap "m\<lparr>rm_head := h\<rparr>" p pend "[]" nh] assms(2,3) show ?case by auto
next
  case (Cons w ws)
  then obtain m' qs where w: "apply_write cap w m = Some m'" "trail cap h m' (p # pend @ qs) ws final" "\<forall>x. w \<noteq> Wr_Head x"
    and rep: "ring_rep cap (m\<lparr>rm_head := h\<rparr>) (p # pend) []" by auto
  from Cons.IH [OF w(2)] obtain final' where "final = p # final'" "trail cap nh m' (pend @ qs) ws final'" by blast
  moreover have "ring_rep cap (m\<lparr>rm_head := nh\<rparr>) pend []"
    using rep_consume [OF rep] assms(2,3) by simp
  ultimately show ?case using w(1,3) by auto
qed

lemma trail_snoc:
  assumes "trail cap h m pend ws final" and "apply_writes cap ws m = Some mS" and "apply_write cap w mS = Some mS'"
    and "\<forall>x. w \<noteq> Wr_Head x" and "ring_rep cap (mS'\<lparr>rm_head := h\<rparr>) (final @ qs) []"
  shows "trail cap h m pend (ws @ [w]) (final @ qs)" "apply_writes cap (ws @ [w]) m = Some mS'"
  using assms
proof (induction ws arbitrary: m pend)
  case Nil
  { case 1
    with Nil show ?case by auto
  next
    case 2
    with Nil show ?case by simp }
next
  case (Cons v ws)
  { case 1
    then obtain m' rs where v: "apply_write cap v m = Some m'" "trail cap h m' (pend @ rs) ws final" by auto
    with 1 Cons.IH(1) [OF v(2)] show ?case by auto
  next
    case 2
    then obtain m' rs where v: "apply_write cap v m = Some m'" "trail cap h m' (pend @ rs) ws final" by auto
    with 2 Cons.IH(2) [OF v(2)] show ?case by auto }
qed

text \<open>The sender's writes do not look at the head or the flag.\<close>

lemma apply_write_same:
  assumes "apply_write cap w m = Some m1" and "\<forall>x. w \<noteq> Wr_Head x" and "rm_data m' = rm_data m" "rm_tail m' = rm_tail m"
  shows "\<exists>m1'. apply_write cap w m' = Some m1' \<and> rm_data m1' = rm_data m1 \<and> rm_tail m1' = rm_tail m1"
  using assms by (cases w) (auto split: Option.bind_splits)

lemma trail_same:
  assumes "trail cap h m pend ws final" and "rm_data m' = rm_data m" and "rm_tail m' = rm_tail m"
  shows "trail cap h m' pend ws final"
  using assms
proof (induction ws arbitrary: m m' pend)
  case Nil
  then show ?case using rep_cong [of cap "m\<lparr>rm_head := h\<rparr>" pend "[]" "m'\<lparr>rm_head := h\<rparr>"] by simp
next
  case (Cons w ws)
  then obtain m1 qs where w: "apply_write cap w m = Some m1" "trail cap h m1 (pend @ qs) ws final" "\<forall>x. w \<noteq> Wr_Head x"
    and rep: "ring_rep cap (m\<lparr>rm_head := h\<rparr>) pend []" by auto
  from apply_write_same [OF w(1,3) Cons.prems(2,3)] obtain m1' where
    m1': "apply_write cap w m' = Some m1'" "rm_data m1' = rm_data m1" "rm_tail m1' = rm_tail m1" by blast
  with Cons.IH [OF w(2) m1'(2,3)] w(3) rep_cong [OF rep, of "m'\<lparr>rm_head := h\<rparr>"] Cons.prems(2,3) show ?case by auto
qed

lemma trail_writes_same:
  assumes "trail cap h m pend ws final" and "apply_writes cap ws m = Some mS" and "rm_data m' = rm_data m" "rm_tail m' = rm_tail m"
  shows "\<exists>mS'. apply_writes cap ws m' = Some mS' \<and> rm_data mS' = rm_data mS \<and> rm_tail mS' = rm_tail mS"
  using assms
proof (induction ws arbitrary: m m' pend)
  case (Cons w ws)
  then obtain m1 qs where w: "apply_write cap w m = Some m1" "trail cap h m1 (pend @ qs) ws final" "\<forall>x. w \<noteq> Wr_Head x"
    "apply_writes cap ws m1 = Some mS" by auto
  from apply_write_same [OF w(1,3) Cons.prems(3,4)] obtain m1' where
    m1': "apply_write cap w m' = Some m1'" "rm_data m1' = rm_data m1" "rm_tail m1' = rm_tail m1" by blast
  with Cons.IH [OF w(2,4) m1'(2,3)] show ?case by auto
qed simp

lemma trail_head: "trail cap h m pend ws final \<Longrightarrow> apply_writes cap ws m = Some mS \<Longrightarrow> rm_head mS = rm_head m"
proof (induction ws arbitrary: m pend)
  case (Cons w ws)
  then obtain m1 qs where w: "apply_write cap w m = Some m1" "trail cap h m1 (pend @ qs) ws final" "\<forall>x. w \<noteq> Wr_Head x"
    "apply_writes cap ws m1 = Some mS" by auto
  have "rm_head m1 = rm_head m" using w(1,3) by (cases w) (auto split: Option.bind_splits)
  with Cons.IH [OF w(2,4)] show ?case by simp
qed simp

lemma lags_now:
  "lags cap hF K h ws \<Longrightarrow> hF < cap \<Longrightarrow> h < cap \<and> unat hF = (unat h + K) mod unat cap"
  by (induction cap hF K h ws rule: lags.induct) (auto simp: word_less_nat_alt)

lemma lags_view:
  "lags cap hF K (rm_head m) ws \<Longrightarrow>
     \<exists>mR. apply_writes cap ws m = Some mR \<and> rm_head mR = hF \<and> rm_data mR = rm_data m \<and> rm_tail mR = rm_tail m"
proof (induction ws arbitrary: m K)
  case (Cons w ws)
  show ?case
  proof (cases w)
    case (Wr_Head h)
    with Cons.prems obtain K' where "lags cap hF K' (rm_head (m\<lparr>rm_head := h\<rparr>)) ws" by auto
    from Cons.IH [OF this] Wr_Head show ?thesis by auto
  next
    case (Wr_Ready b)
    with Cons.prems have "lags cap hF K (rm_head (m\<lparr>rm_ready := b\<rparr>)) ws" by simp
    from Cons.IH [OF this] Wr_Ready show ?thesis by auto
  qed (use Cons.prems in auto)
qed simp

lemma lags_ready: "lags cap hF K h ws \<Longrightarrow> lags cap hF K h (ws @ [Wr_Ready b])"
  by (induction cap hF K h ws rule: lags.induct) auto

lemma lags_advance:
  assumes "lags cap hF K h ws" and "hF < cap" and "nh < cap" "unat nh = (unat hF + d) mod unat cap"
  shows "lags cap nh (K + d) h (ws @ [Wr_Head nh])"
  using assms
proof (induction cap hF K h ws rule: lags.induct)
  case (2 cap hF K h h' ws)
  then obtain K' where K': "K' \<le> K" "lags cap hF K' h' ws" and h: "h < cap" "unat hF = (unat h + K) mod unat cap" by auto
  from 2(1) [OF K'(2)] 2(3-5) have "lags cap nh (K' + d) h' (ws @ [Wr_Head nh])" by simp
  moreover have "unat nh = (unat h + (K + d)) mod unat cap" using 2(5) h(2) by (simp add: mod_add_left_eq add.assoc)
  ultimately show ?case using h(1) K'(1) by (auto intro!: exI [of _ "K' + d"])
qed auto

section \<open>The steps under store buffers\<close>

lemma tso_viewsI: "tso_views cap s mS hF K pendD pendF \<Longrightarrow> tso_inv cap s"
  unfolding tso_inv_def by blast

lemma tso_plans:
  assumes cap: "cap_ok cap" and rep: "ring_rep cap m pend []" and h: "h < cap"
    and k: "K \<le> k" "unat (rm_head m) = (unat h + k) mod unat cap" "k + length (frames_bytes pend) < unat cap"
  shows "\<exists>pc. sender_step cap m (S_Head p h) = (pc, []) \<and> sender_ok cap m pend pc \<and> sender_extra pc = [] \<and>
    loaded_head_ok cap hF K pend pc \<and> K + length (frames_bytes pend) + reserved pc < unat cap"
proof -
  have t: "rm_tail m < cap" "unat (rm_tail m) = (unat h + (k + length (frames_bytes pend))) mod unat cap"
    using rep by (simp_all add: ring_rep_def k(2) mod_add_left_eq add.assoc)
  have "head_tail_checked cap h (rm_tail m) = Inr \<lparr>sn_head = h, sn_tail = rm_tail m, sn_capacity = cap\<rparr>"
    using h t(1) by (simp add: head_tail_checked_def not_le)
  with publish_plan_eq [OF cap h t k(3), of "length p"] k(1,3) show ?thesis
    by (auto simp: plan_fits_def)
qed

fun writing_pc :: "sender_pc \<Rightarrow> bool" where
  "writing_pc (S_Plan p plan) \<longleftrightarrow> True"
| "writing_pc (S_Prefixed p plan) \<longleftrightarrow> True"
| "writing_pc (S_Filled p plan) \<longleftrightarrow> True"
| "writing_pc S_Published \<longleftrightarrow> True"
| "writing_pc _ \<longleftrightarrow> False"

lemma writing_step:
  assumes "writing_pc pc"
  obtains pc' w where "\<And>m. sender_step cap m pc = (pc', [w])" "\<forall>x. w \<noteq> Wr_Head x" "\<And>hF K pend. loaded_head_ok cap hF K pend pc'"
    "reserved pc' + length (frames_bytes (published pc)) = reserved pc"
  using assms by (cases pc) auto

text \<open>A write of the sender does what it would do over one memory.\<close>

lemma write_effect:
  assumes cap: "cap_ok cap" and rep: "ring_rep cap F pend (sender_extra pc)" and ok: "sender_ok cap F pend pc"
    and step: "\<And>m. sender_step cap m pc = (pc', [w])" and w: "\<forall>x. w \<noteq> Wr_Head x"
  shows "\<exists>F'. apply_write cap w F = Some F' \<and> rm_head F' = rm_head F \<and> ring_rep cap F' (pend @ published pc) (sender_extra pc') \<and>
    sender_ok cap F' (pend @ published pc) pc'"
proof -
  let ?c = "\<lparr>rs_mem = F, rs_sender = pc, rs_receiver = R_Restore [], rs_sent = pend, rs_got = []\<rparr>"
  have "ring_inv cap ?c pend" using rep ok by (simp add: ring_inv_def wake_ok_def)
  from sender_moves_inv [OF cap this] obtain s' pend' where
    s': "ring_step cap Sender_moves ?c = Some s'" "ring_inv cap s' pend'" by blast
  then obtain F' where F': "apply_write cap w F = Some F'"
    "s' = ?c\<lparr>rs_mem := F', rs_sender := pc', rs_sent := pend @ published pc\<rparr>"
    using step by (auto split: Option.bind_splits)
  moreover have "rm_head F' = rm_head F" using F'(1) w by (cases w) (auto split: Option.bind_splits)
  ultimately show ?thesis using s'(2) by (auto simp: ring_inv_def)
qed

lemma tso_sender_writes:
  assumes cap: "cap_ok cap" and inv: "tso_views cap s mS hF K pendD pendF" and pc: "writing_pc (tb_sender s)"
  shows "\<exists>s'. tso_step cap Tso_sender s = Some s' \<and> tso_inv cap s'"
proof -
  let ?pc = "tb_sender s" and ?F = "mS\<lparr>rm_head := hF\<rparr>"
  from writing_step [OF pc, of cap] obtain pc' w where st: "\<And>m. sender_step cap m ?pc = (pc', [w])" and w: "\<forall>x. w \<noteq> Wr_Head x"
    and l: "\<And>hF K pend. loaded_head_ok cap hF K pend pc'" and r: "reserved pc' + length (frames_bytes (published ?pc)) = reserved ?pc"
    by blast
  have buf: "apply_writes cap (tb_sender_buf s) (tb_mem s) = Some mS" "trail cap hF (tb_mem s) pendD (tb_sender_buf s) pendF"
    and log: "tb_sent s = tb_got s @ pendF" and rep: "ring_rep cap ?F pendF (sender_extra ?pc)" and ok: "sender_ok cap ?F pendF ?pc"
    and room: "K + length (frames_bytes pendF) + reserved ?pc < unat cap"
    using inv by (simp_all add: tso_views_def)
  let ?pend = "pendF @ published ?pc"
  from write_effect [OF cap rep ok st w] obtain F' where F': "apply_write cap w ?F = Some F'" "rm_head F' = hF"
    "ring_rep cap F' ?pend (sender_extra pc')" "sender_ok cap F' ?pend pc'" by auto
  from apply_write_same [OF F'(1) w, of mS] obtain mS' where mS': "apply_write cap w mS = Some mS'"
    "rm_data mS' = rm_data F'" "rm_tail mS' = rm_tail F'" by auto
  have rep': "ring_rep cap (mS'\<lparr>rm_head := hF\<rparr>) ?pend (sender_extra pc')" using rep_cong [OF F'(3)] F'(2) mS' by simp
  have ok': "sender_ok cap (mS'\<lparr>rm_head := hF\<rparr>) ?pend pc'" using sender_ok_cong [OF F'(4)] F'(2) mS' by simp
  have "ring_rep cap (mS'\<lparr>rm_head := hF\<rparr>) ?pend []" using rep_less [of cap _ ?pend "[]" "sender_extra pc'"] rep' by simp
  note tr = trail_snoc [OF buf(2,1) mS'(1) w this]
  let ?s = "s\<lparr>tb_sender := pc', tb_sender_buf := tb_sender_buf s @ [w], tb_sent := tb_sent s @ published ?pc\<rparr>"
  have "tso_views cap ?s mS' hF K pendD ?pend"
    using inv tr rep' ok' l r room log by (simp add: tso_views_def)
  moreover have "tso_step cap Tso_sender s = Some ?s" using buf(1) st by simp
  ultimately show ?thesis using tso_viewsI by blast
qed

lemma tso_sender_inv:
  assumes cap: "cap_ok cap" and inv: "tso_views cap s mS hF K pendD pendF"
  shows "\<exists>s'. tso_step cap Tso_sender s = Some s' \<and> tso_inv cap s'"
proof -
  let ?F = "mS\<lparr>rm_head := hF\<rparr>"
  have buf: "apply_writes cap (tb_sender_buf s) (tb_mem s) = Some mS" "trail cap hF (tb_mem s) pendD (tb_sender_buf s) pendF"
    and lag: "lags cap hF K (rm_head (tb_mem s)) (tb_receiver_buf s)"
    and rep: "ring_rep cap ?F pendF (sender_extra (tb_sender s))"
    and room: "K + length (frames_bytes pendF) + reserved (tb_sender s) < unat cap"
    and load: "loaded_head_ok cap hF K pendF (tb_sender s)"
    using inv by (simp_all add: tso_views_def)
  have hF: "hF < cap" using rep by (simp add: ring_rep_def)
  have quiet: "\<exists>s'. tso_step cap Tso_sender s = Some s' \<and> tso_inv cap s'"
    if "sender_step cap mS (tb_sender s) = (pc, [])" "published (tb_sender s) = []" "sender_ok cap ?F pendF pc"
      "ring_rep cap ?F pendF (sender_extra pc)" "loaded_head_ok cap hF K pendF pc"
      "K + length (frames_bytes pendF) + reserved pc < unat cap" for pc
  proof -
    have "tso_views cap (s\<lparr>tb_sender := pc\<rparr>) mS hF K pendD pendF" using that inv by (simp add: tso_views_def)
    from tso_viewsI [OF this] show ?thesis using that(1,2) buf(1) by simp
  qed
  show ?thesis
  proof (cases "tb_sender s")
    case (S_Start p)
    let ?h = "rm_head (tb_mem s)"
    from lags_now [OF lag hF] trail_head [OF buf(2,1)] room S_Start rep show ?thesis
      by (intro quiet [of "S_Head p ?h"]) auto
  next
    case (S_Head p h)
    with load obtain k where "h < cap" "K \<le> k" "unat (rm_head ?F) = (unat h + k) mod unat cap"
      "k + length (frames_bytes pendF) < unat cap" by auto
    from tso_plans [OF cap _ this, of p hF] rep S_Head obtain pc where
      pc: "sender_step cap ?F (S_Head p h) = (pc, [])" "sender_ok cap ?F pendF pc" "sender_extra pc = []"
      "loaded_head_ok cap hF K pendF pc" "K + length (frames_bytes pendF) + reserved pc < unat cap" by auto
    moreover from pc(1) have "sender_step cap mS (S_Head p h) = (pc, [])" by simp
    ultimately show ?thesis using S_Head rep by (intro quiet [of pc]) simp_all
  qed (use tso_sender_writes [OF cap inv] quiet [of S_Idle] rep room in simp_all)
qed

lemma receiver_writes:
  assumes "receiver_step cap m pc = Some (pc', ws)" and "\<And>sn plan p. pc \<noteq> R_Copied sn plan p"
  shows "consumed pc = []" "ws = [] \<or> (\<exists>b. ws = [Wr_Ready b])"
  using assms by (cases pc; auto split: Option.bind_splits sum.splits if_splits)+

lemma loaded_head_consume:
  assumes "loaded_head_ok cap hF K (p # pend) pc" and "unat nh = (unat hF + (4 + length p)) mod unat cap"
  shows "loaded_head_ok cap nh (K + (4 + length p)) pend pc"
proof (cases pc)
  case (S_Head q h)
  with assms(1) obtain k where "h < cap" "K \<le> k" "unat hF = (unat h + k) mod unat cap"
    "k + (4 + length p + length (frames_bytes pend)) < unat cap" by (auto simp: add.assoc)
  with assms(2) S_Head show ?thesis
    by (auto intro!: exI [of _ "k + (4 + length p)"] simp: mod_add_left_eq add.assoc)
qed simp_all

lemma tso_receiver_inv:
  assumes cap: "cap_ok cap" and inv: "tso_views cap s mS hF K pendD pendF"
  shows "\<exists>s'. tso_step cap Tso_receiver s = Some s' \<and> tso_inv cap s'"
proof -
  let ?pc = "tb_receiver s"
  have tr: "trail cap hF (tb_mem s) pendD (tb_sender_buf s) pendF" and lag: "lags cap hF K (rm_head (tb_mem s)) (tb_receiver_buf s)"
    and rcv: "receiver_ok cap ((tb_mem s)\<lparr>rm_head := hF\<rparr>) pendD ?pc" and rep: "ring_rep cap (mS\<lparr>rm_head := hF\<rparr>) pendF (sender_extra (tb_sender s))"
    and snd: "sender_ok cap (mS\<lparr>rm_head := hF\<rparr>) pendF (tb_sender s)" and load: "loaded_head_ok cap hF K pendF (tb_sender s)"
    using inv by (simp_all add: tso_views_def)
  have hF: "hF < cap" using rep by (simp add: ring_rep_def)
  from lags_view [OF lag] obtain mR where mR: "apply_writes cap (tb_receiver_buf s) (tb_mem s) = Some mR" "rm_head mR = hF"
    "rm_data mR = rm_data (tb_mem s)" "rm_tail mR = rm_tail (tb_mem s)" by blast
  have repR: "ring_rep cap mR pendD []" using rep_cong [OF trail_first [OF tr], of mR] mR by simp
  have rcvR: "receiver_ok cap mR pendD ?pc" using receiver_ok_cong [OF rcv, of mR] mR by simp
  let ?c = "\<lparr>rs_mem = mR, rs_sender = S_Published, rs_receiver = ?pc, rs_sent = pendD, rs_got = []\<rparr>"
  have "ring_inv cap ?c pendD" using repR rcvR by (simp add: ring_inv_def wake_ok_def)
  from receiver_moves_inv [OF cap this] obtain c' pend' where
    "ring_step cap Receiver_moves ?c = Some c'" "ring_inv cap c' pend'" by blast
  then obtain pc' ws m' where st: "receiver_step cap mR ?pc = Some (pc', ws)" "apply_writes cap ws mR = Some m'"
    and pend': "pendD = consumed ?pc @ pend'" and ok': "receiver_ok cap m' pend' pc'"
    by (auto simp: ring_inv_def split: Option.bind_splits)
  let ?s = "s\<lparr>tb_receiver := pc', tb_receiver_buf := tb_receiver_buf s @ ws, tb_got := tb_got s @ consumed ?pc\<rparr>"
  have step: "tso_step cap Tso_receiver s = Some ?s" using mR(1) st(1) by simp
  have "tso_inv cap ?s"
  proof (cases "\<exists>sn plan p. ?pc = R_Copied sn plan p")
    case False
    from receiver_writes [OF st(1)] False have none: "consumed ?pc = []" and ws: "ws = [] \<or> (\<exists>b. ws = [Wr_Ready b])" by blast+
    then have "rm_head m' = hF" using st(2) mR(2) by auto
    then have "receiver_ok cap ((tb_mem s)\<lparr>rm_head := hF\<rparr>) pendD pc'" using receiver_ok_cong [OF ok'] pend' none by simp
    moreover have "lags cap hF K (rm_head (tb_mem s)) (tb_receiver_buf s @ ws)" using lag ws lags_ready by auto
    ultimately have "tso_views cap ?s mS hF K pendD pendF" using inv none by (simp add: tso_views_def)
    then show ?thesis by (rule tso_viewsI)
  next
    case True
    then obtain sn plan p where pc: "?pc = R_Copied sn plan p" by blast
    define nh where "nh = cp_next_head plan"
    from rcvR pc have snap: "snapshot_ok cap mR pendD sn p" and plan: "consume_ok cap mR p plan" by simp_all
    from snapshot_parts [OF cap repR snap] have fits: "4 + length p < unat cap" by blast
    have nh: "nh < cap" "unat nh = (unat hF + (4 + length p)) mod unat cap"
      using wrap_index_sum [OF cap hF fits] plan mR(2) by (simp_all add: nh_def consume_ok_def)
    have pend: "pendD = p # pend'" using pend' pc by simp
    from trail_consume [OF tr [unfolded pend] nh] obtain pendF' where F': "pendF = p # pendF'"
      "trail cap nh (tb_mem s) pend' (tb_sender_buf s) pendF'" by blast
    have ws: "ws = [Wr_Head nh]" using st(1) pc by (simp add: nh_def)
    then have "rm_head m' = nh" using st(2) by auto
    then have rcv': "receiver_ok cap ((tb_mem s)\<lparr>rm_head := nh\<rparr>) pend' pc'" using receiver_ok_cong [OF ok'] by simp
    have "tso_views cap ?s mS nh (K + (4 + length p)) pend' pendF'"
      using inv F' ws pc rcv' lags_advance [OF lag hF nh] rep_consume [OF rep [unfolded F'(1)] nh(1)]
        sender_ok_consume [OF snd [unfolded F'(1)], of nh] loaded_head_consume [OF load [unfolded F'(1)] nh(2)] nh(2)
      by (simp add: tso_views_def)
    then show ?thesis by (rule tso_viewsI)
  qed
  with step show ?thesis by blast
qed

lemma tso_drain_sender_inv:
  assumes inv: "tso_views cap s mS hF K pendD pendF"
  shows "\<exists>s'. tso_step cap Tso_drain_sender s = Some s' \<and> tso_inv cap s'"
proof (cases "tb_sender_buf s")
  case Nil
  with tso_viewsI [OF inv] show ?thesis by simp
next
  case (Cons w ws)
  with inv obtain m' qs where w: "apply_write cap w (tb_mem s) = Some m'" "trail cap hF m' (pendD @ qs) ws pendF"
    "\<forall>x. w \<noteq> Wr_Head x" and rcv: "receiver_ok cap ((tb_mem s)\<lparr>rm_head := hF\<rparr>) pendD (tb_receiver s)"
    by (auto simp: tso_views_def)
  have head: "rm_head m' = rm_head (tb_mem s)" using w(1,3) by (cases w) (auto split: Option.bind_splits)
  have "receiver_ok cap (m'\<lparr>rm_head := hF\<rparr>) (pendD @ qs) (tb_receiver s)" by (rule receiver_ok_mono [OF rcv]) simp
  then have "tso_views cap (s\<lparr>tb_mem := m', tb_sender_buf := ws\<rparr>) mS hF K (pendD @ qs) pendF"
    using inv Cons w head by (simp add: tso_views_def)
  with Cons w(1) tso_viewsI show ?thesis by auto
qed

lemma tso_drain_receiver_inv:
  assumes inv: "tso_views cap s mS hF K pendD pendF"
  shows "\<exists>s'. tso_step cap Tso_drain_receiver s = Some s' \<and> tso_inv cap s'"
proof (cases "tb_receiver_buf s")
  case Nil
  with tso_viewsI [OF inv] show ?thesis by simp
next
  case (Cons w ws)
  have tr: "trail cap hF (tb_mem s) pendD (tb_sender_buf s) pendF" "apply_writes cap (tb_sender_buf s) (tb_mem s) = Some mS"
    and lag: "lags cap hF K (rm_head (tb_mem s)) (w # ws)"
    and rep: "ring_rep cap (mS\<lparr>rm_head := hF\<rparr>) pendF (sender_extra (tb_sender s))"
    and snd: "sender_ok cap (mS\<lparr>rm_head := hF\<rparr>) pendF (tb_sender s)" and load: "loaded_head_ok cap hF K pendF (tb_sender s)"
    and rcv: "receiver_ok cap ((tb_mem s)\<lparr>rm_head := hF\<rparr>) pendD (tb_receiver s)"
    using inv Cons by (simp_all add: tso_views_def)
  have "\<exists>m' K'. apply_write cap w (tb_mem s) = Some m' \<and> rm_data m' = rm_data (tb_mem s) \<and> rm_tail m' = rm_tail (tb_mem s) \<and>
      K' \<le> K \<and> lags cap hF K' (rm_head m') ws"
    using lag by (cases w) auto
  then obtain m' K' where m': "apply_write cap w (tb_mem s) = Some m'" "rm_data m' = rm_data (tb_mem s)" "rm_tail m' = rm_tail (tb_mem s)"
    and K': "K' \<le> K" "lags cap hF K' (rm_head m') ws" by blast
  note tr' = trail_same [OF tr(1) m'(2,3)]
  from trail_writes_same [OF tr m'(2,3)] obtain mS' where mS': "apply_writes cap (tb_sender_buf s) m' = Some mS'"
    "rm_data mS' = rm_data mS" "rm_tail mS' = rm_tail mS" by blast
  have "loaded_head_ok cap hF K' pendF (tb_sender s)" using load K'(1) by (cases "tb_sender s") (auto intro: order_trans)
  moreover have "ring_rep cap (mS'\<lparr>rm_head := hF\<rparr>) pendF (sender_extra (tb_sender s))" using rep_cong [OF rep] mS' by simp
  moreover have "sender_ok cap (mS'\<lparr>rm_head := hF\<rparr>) pendF (tb_sender s)" using sender_ok_cong [OF snd] mS' by simp
  moreover have "receiver_ok cap (m'\<lparr>rm_head := hF\<rparr>) pendD (tb_receiver s)" using receiver_ok_cong [OF rcv] by simp
  ultimately have "tso_views cap (s\<lparr>tb_mem := m', tb_receiver_buf := ws\<rparr>) mS' hF K' pendD pendF"
    using inv tr' mS' K' by (simp add: tso_views_def)
  with Cons m'(1) tso_viewsI show ?thesis by auto
qed

lemma tso_run_inv:
  assumes cap: "cap_ok cap" and "tso_inv cap s"
  shows "\<exists>s'. tso_run cap ops s = Some s' \<and> tso_inv cap s'"
  using assms(2)
proof (induction ops arbitrary: s)
  case Nil
  then show ?case by auto
next
  case (Cons op ops)
  from Cons.prems obtain mS hF K pendD pendF where inv: "tso_views cap s mS hF K pendD pendF" unfolding tso_inv_def by blast
  have "\<exists>s'. tso_step cap op s = Some s' \<and> tso_inv cap s'"
  proof (cases op)
    case (Tso_call_send p)
    with inv show ?thesis by (cases "tb_sender s = S_Idle")
      (auto simp: tso_views_def intro!: tso_viewsI [of _ _ mS hF K pendD pendF])
  next
    case (Tso_call_recv n)
    with inv show ?thesis by (cases "tb_receiver s = R_Idle")
      (auto simp: tso_views_def intro!: tso_viewsI [of _ _ mS hF K pendD pendF])
  qed (use tso_sender_inv [OF cap inv] tso_receiver_inv [OF cap inv] tso_drain_sender_inv [OF inv] tso_drain_receiver_inv [OF inv]
      in simp_all)
  with Cons.IH show ?case by auto
qed

lemma tso_start_inv: "cap_ok cap \<Longrightarrow> ring_rep cap m [] [] \<Longrightarrow> tso_inv cap (tso_start m)"
  by (rule tso_viewsI [of _ _ m "rm_head m" 0 "[]" "[]"]) (simp add: tso_views_def tso_start_def cap_ok_def ring_rep_def)

text \<open>Once all writes have reached memory, the test of the ring tells whether a frame is left.\<close>

lemma tso_drained:
  assumes "tso_views cap s mS hF K pendD pendF" and "tb_sender_buf s = []" and "tb_receiver_buf s = []"
  shows "has_pending_frame cap (tb_mem s) \<longleftrightarrow> pendF \<noteq> []"
proof -
  have "ring_rep cap ((tb_mem s)\<lparr>rm_head := hF\<rparr>) pendF []" "rm_head (tb_mem s) = hF" using assms by (auto simp: tso_views_def)
  then have rep: "ring_rep cap (tb_mem s) pendF []" by (simp add: ring_rep_def)
  then have b: "rm_head (tb_mem s) < cap" "rm_tail (tb_mem s) < cap"
    "unat (rm_tail (tb_mem s)) = (unat (rm_head (tb_mem s)) + length (frames_bytes pendF)) mod unat cap"
    by (simp_all add: ring_rep_def)
  with rep_empty_iff [of cap "tb_mem s" pendF "[]" "[]"] rep show ?thesis by (simp add: has_pending_frame_def flip: not_less)
qed

section \<open>The flag over one memory\<close>

text \<open>
  Where a write is seen by both sides at once, the ready flag is reliable: whenever the receiver is not in the middle of a call
  and the sender not between publishing a frame and raising the flag, a ring that holds a frame is flagged. It is
  only the store buffers that can lose the flag (C34).
\<close>

lemma ring_flagged_without_reordering:
  assumes "cap_ok cap" and "ring_rep cap m [] []" and "ring_run cap ops (ring_start m) = Some s"
    and "rs_receiver s = R_Idle" and "rs_sender s \<noteq> S_Published" and "rs_got s \<noteq> rs_sent s"
  shows "rm_ready (rs_mem s)"
proof -
  from ring_run_inv [OF assms(1) ring_start_inv [OF assms(2)], of ops] assms(3) obtain pend where "ring_inv cap s pend" by auto
  with assms(4-6) show ?thesis by (auto simp: ring_inv_def wake_ok_def)
qed

section \<open>Properties\<close>

text \<open>C32: Sender and receiver may run at the same time: on a ring of at most \<open>2^31\<close> bytes, under every interleaving of their
  accesses to shared memory, no copy leaves the data area, neither side ever finds the ring corrupt, and the
  frames received are the first of the frames sent, in order, once each and byte for byte.\<close>

theorem ring_concurrent_in_order:
  assumes "framed_ring_layout n = Inr l" and "n \<le> 2 ^ 31" and "length old = n" and "(cap, m) = ring_init l old"
  shows "\<exists>s pend. ring_run cap ops (ring_start m) = Some s \<and> rs_sent s = rs_got s @ pend \<and>
    (\<forall>e. rs_sender s = S_Done (Inl e) \<longrightarrow> (\<forall>h t c. e \<noteq> Ring_TxCorruptState h t c)) \<and>
    (\<forall>e. rs_receiver s = R_Done (Inl e) \<longrightarrow> (\<exists>a b. e = Ring_BufferTooSmall a b))"
proof -
  have init: "cap_ok cap" "ring_rep cap m [] []"
    using ring_init_rep [OF assms(1-3)] assms(4) [symmetric] by simp_all
  from ring_run_inv [OF init(1) ring_start_inv [OF init(2)]] obtain s pend where
    run: "ring_run cap ops (ring_start m) = Some s" and inv: "ring_inv cap s pend" by blast
  then show ?thesis by (intro exI [of _ s] exI [of _ pend]) (auto simp: ring_inv_def)
qed

text \<open>A ring of 16 bytes.\<close>

lemma demo_ring: "\<exists>l. framed_ring_layout 16 = Inr l \<and>
    ring_init l (replicate 16 0) = (16, \<lparr>rm_head = 0, rm_tail = 0, rm_data = replicate 16 0, rm_ready = False\<rparr>)"
  using is_power_of_two_pow [of 2]
  by (simp add: framed_ring_layout_def ring_init_def min_ring_capacity_def frame_prefix_len_def layout_defs Let_def)

theorem ring_concurrent_in_order_witness:
  "\<exists>s pend. ring_run 16 (Call_send [1, 2, 3] # replicate 7 Sender_moves @ Call_recv 8 # replicate 6 Receiver_moves)
     (ring_start \<lparr>rm_head = 0, rm_tail = 0, rm_data = replicate 16 0, rm_ready = False\<rparr>) = Some s \<and>
     rs_sent s = rs_got s @ pend"
proof -
  from demo_ring obtain l where l: "framed_ring_layout 16 = Inr l"
    "(16, \<lparr>rm_head = 0, rm_tail = 0, rm_data = replicate 16 0, rm_ready = False\<rparr>) = ring_init l (replicate 16 0)" by auto
  have "(16 :: nat) \<le> 2 ^ 31" "length (replicate 16 (0 :: u8)) = 16" by simp_all
  from ring_concurrent_in_order [OF l(1) this l(2)] show ?thesis by blast
qed

text \<open>C33: Store buffers cost neither frames nor order: on a ring of at most \<open>2^31\<close> bytes, in every run in which a side's writes
  reach the other side later, in order, no copy leaves the data area, neither side finds the ring corrupt, and the
  frames received are the first of the frames sent. Once all writes have reached memory, the test of the ring itself finds
  a frame exactly when one is left, whatever the flag says.\<close>

theorem ring_store_buffers_in_order:
  assumes "framed_ring_layout n = Inr l" and "n \<le> 2 ^ 31" and "length old = n" and "(cap, m) = ring_init l old"
  shows "\<exists>s pend. tso_run cap ops (tso_start m) = Some s \<and> tb_sent s = tb_got s @ pend \<and>
    (\<forall>e. tb_sender s = S_Done (Inl e) \<longrightarrow> (\<forall>h t c. e \<noteq> Ring_TxCorruptState h t c)) \<and>
    (\<forall>e. tb_receiver s = R_Done (Inl e) \<longrightarrow> (\<exists>a b. e = Ring_BufferTooSmall a b)) \<and>
    (tb_sender_buf s = [] \<and> tb_receiver_buf s = [] \<longrightarrow> (has_pending_frame cap (tb_mem s) \<longleftrightarrow> pend \<noteq> []))"
proof -
  have init: "cap_ok cap" "ring_rep cap m [] []"
    using ring_init_rep [OF assms(1-3)] assms(4) [symmetric] by simp_all
  from tso_run_inv [OF init(1) tso_start_inv [OF init]] obtain s where
    run: "tso_run cap ops (tso_start m) = Some s" and "tso_inv cap s" by blast
  then obtain mS hF K pendD pendF where inv: "tso_views cap s mS hF K pendD pendF" unfolding tso_inv_def by blast
  with run tso_drained [OF inv] show ?thesis by (intro exI [of _ s] exI [of _ pendF]) (auto simp: tso_views_def)
qed

text \<open>A frame whose tail has not left the sender's buffer is sent and not yet to be seen; then it is received.\<close>

theorem ring_store_buffers_in_order_witness:
  "\<exists>s pend. tso_run 16 (Tso_call_send [1, 2, 3] # replicate 7 Tso_sender @ Tso_call_recv 8 # replicate 4 Tso_receiver @
       replicate 4 Tso_drain_sender @ Tso_call_recv 8 # replicate 9 Tso_receiver)
     (tso_start \<lparr>rm_head = 0, rm_tail = 0, rm_data = replicate 16 0, rm_ready = False\<rparr>) = Some s \<and>
     tb_sent s = tb_got s @ pend \<and> tb_got s = [[1, 2, 3]]"
proof -
  let ?ops = "Tso_call_send [1, 2, 3] # replicate 7 Tso_sender @ Tso_call_recv 8 # replicate 4 Tso_receiver @
       replicate 4 Tso_drain_sender @ Tso_call_recv 8 # replicate 9 Tso_receiver"
  let ?m = "\<lparr>rm_head = 0, rm_tail = 0, rm_data = replicate 16 0, rm_ready = False\<rparr> :: ring_mem"
  from demo_ring obtain l where l: "framed_ring_layout 16 = Inr l" "(16, ?m) = ring_init l (replicate 16 0)" by auto
  have n: "(16 :: nat) \<le> 2 ^ 31" "length (replicate 16 (0 :: u8)) = 16" by simp_all
  have "map_option tb_got (tso_run 16 ?ops (tso_start ?m)) = Some [[1, 2, 3]]" by code_simp
  with ring_store_buffers_in_order [OF l(1) n l(2), of ?ops] show ?thesis
    by (auto simp del: tso_run.simps replicate.simps)
qed

text \<open>C34: The flag is a hint and no more: with store buffers, the receiver's store that clears the flag can be overtaken by
  its second look at the tail. There is a run after which both sides are idle, all writes have reached memory, a
  frame is in the ring and the flag is down. The worker's test of the ring itself still finds the frame.\<close>

theorem ring_flag_alone_can_miss:
  "\<exists>ops s. tso_run 16 ops (tso_start \<lparr>rm_head = 0, rm_tail = 0, rm_data = replicate 16 0, rm_ready = False\<rparr>) = Some s \<and>
     tb_sender s = S_Idle \<and> tb_receiver s = R_Idle \<and> tb_sender_buf s = [] \<and> tb_receiver_buf s = [] \<and>
     \<not> rm_ready (tb_mem s) \<and> has_pending_frame 16 (tb_mem s)"
proof -
  let ?send = "\<lambda>p. Tso_call_send p # replicate 7 Tso_sender @ replicate 4 Tso_drain_sender"
  let ?ops = "?send [1] @ Tso_call_recv 8 # replicate 9 Tso_receiver @ ?send [2] @ replicate 2 Tso_drain_receiver"
  have "case tso_run 16 ?ops (tso_start \<lparr>rm_head = 0, rm_tail = 0, rm_data = replicate 16 0, rm_ready = False\<rparr>) of
      None \<Rightarrow> False
    | Some s \<Rightarrow> tb_sender s = S_Idle \<and> tb_receiver s = R_Idle \<and> tb_sender_buf s = [] \<and> tb_receiver_buf s = [] \<and>
        \<not> rm_ready (tb_mem s) \<and> has_pending_frame 16 (tb_mem s)"
    by code_simp
  then show ?thesis by (auto split: option.splits simp del: tso_run.simps replicate.simps intro!: exI [of _ ?ops])
qed

end
