(* ===== verification/Bloom_Filter.thy ===== *)
theory Bloom_Filter
  imports Rust_Base
begin

text \<open>
  The Bloom filter of the runtime filters, \<^verbatim>\<open>src/runtime/filter/src/bloom.rs\<close>, and the hashes of join keys,
  \<^verbatim>\<open>src/runtime/filter/src/lib.rs\<close>. The filter's words are a list; an index outside it is \<open>None\<close>.
  Floating-point numbers are the words of their bits.
\<close>

section \<open>Parameters\<close>

record bloom_params =
  bp_bit_count :: nat
  bp_word_count :: nat
  bp_hash_count :: nat
  bp_seed :: u64

datatype bloom_param_error =
    Bloom_ZeroBitCount
  | Bloom_ZeroHashCount
  | Bloom_ZeroExpectedItems
  | Bloom_InvalidFalsePositiveRate u64
  | Bloom_TooManyBits

definition bloom_params_new :: "nat \<Rightarrow> nat \<Rightarrow> u64 \<Rightarrow> bloom_param_error + bloom_params" where
  "bloom_params_new bit_count hash_count seed =
     (if bit_count = 0 then Inl Bloom_ZeroBitCount
      else if hash_count = 0 then Inl Bloom_ZeroHashCount
      else try_bind (ok_or Bloom_TooManyBits (checked_add_usize bit_count 63)) (\<lambda>n.
        Inr \<lparr>bp_bit_count = bit_count, bp_word_count = n div 64, bp_hash_count = hash_count, bp_seed = seed\<rparr>))"

section \<open>Hashing\<close>

definition hash_gamma :: u64 where
  "hash_gamma = 0x9E3779B97F4A7C15"

definition hash_salt :: u64 where
  "hash_salt = 0xD1B54A32D192ED03"

definition splitmix64 :: "u64 \<Rightarrow> u64" where
  "splitmix64 v =
     (let v1 = v + hash_gamma;
          v2 = (v1 XOR drop_bit 30 v1) * 0xBF58476D1CE4E5B9;
          v3 = (v2 XOR drop_bit 27 v2) * 0x94D049BB133111EB
      in v3 XOR drop_bit 31 v3)"

definition bit_index :: "bloom_params \<Rightarrow> u64 \<Rightarrow> nat \<Rightarrow> nat" where
  "bit_index p hash i =
     (let h1 = splitmix64 (hash XOR bp_seed p);
          h2 = splitmix64 (h1 XOR hash_salt) OR 1;
          v = h1 + of_nat i * h2
      in unat (v mod of_nat (bp_bit_count p)))"

definition word_mask :: "bloom_params \<Rightarrow> u64 \<Rightarrow> nat \<Rightarrow> nat \<times> u64" where
  "word_mask p hash i = (let b = bit_index p hash i in (b div 64, push_bit (b mod 64) 1))"

section \<open>The filter\<close>

datatype bloom_attach_error =
    Bloom_NullBits
  | Bloom_InsufficientWords nat nat

text \<open>Attaching gives the words the filter uses.\<close>

definition bloom_attach :: "u64 list \<Rightarrow> bloom_params \<Rightarrow> bloom_attach_error + u64 list" where
  "bloom_attach bits p =
     (if length bits < bp_word_count p then Inl (Bloom_InsufficientWords (bp_word_count p) (length bits))
      else Inr (take (bp_word_count p) bits))"

definition bloom_clear :: "u64 list \<Rightarrow> u64 list" where
  "bloom_clear bits = map (\<lambda>_. 0) bits"

fun insert_masks :: "bloom_params \<Rightarrow> u64 \<Rightarrow> nat list \<Rightarrow> u64 list \<Rightarrow> u64 list option" where
  "insert_masks p hash [] bits = Some bits"
| "insert_masks p hash (i # is) bits = (case word_mask p hash i of (w, msk) \<Rightarrow> do {
     old \<leftarrow> index_opt bits w;
     insert_masks p hash is (bits[w := old OR msk])
   })"

definition insert_hash :: "bloom_params \<Rightarrow> u64 \<Rightarrow> u64 list \<Rightarrow> u64 list option" where
  "insert_hash p hash bits = insert_masks p hash [0..<bp_hash_count p] bits"

fun probe_masks :: "bloom_params \<Rightarrow> u64 \<Rightarrow> nat list \<Rightarrow> u64 list \<Rightarrow> bool option" where
  "probe_masks p hash [] bits = Some True"
| "probe_masks p hash (i # is) bits = (case word_mask p hash i of (w, msk) \<Rightarrow> do {
     v \<leftarrow> index_opt bits w;
     if v AND msk = 0 then Some False else probe_masks p hash is bits
   })"

definition might_contain_hash :: "bloom_params \<Rightarrow> u64 \<Rightarrow> u64 list \<Rightarrow> bool option" where
  "might_contain_hash p hash bits = probe_masks p hash [0..<bp_hash_count p] bits"

section \<open>Hashes of join keys\<close>

definition hash_bool_key :: "bool \<Rightarrow> u64" where
  "hash_bool_key b = (if b then 1 else 0)"

definition hash_int_key :: "int \<Rightarrow> u64" where
  "hash_int_key i = of_int i"

definition hash_bytes_key :: "bytes \<Rightarrow> u64" where
  "hash_bytes_key bs = foldl (\<lambda>h b. (h XOR ucast b) * 0x100000001b3) 0xcbf29ce484222325 bs"

text \<open>The little-endian bytes of a signed integer of \<open>n\<close> bytes.\<close>

definition le_bytes :: "nat \<Rightarrow> int \<Rightarrow> bytes" where
  "le_bytes n v = map (\<lambda>i. of_int (v div 256 ^ i)) [0..<n]"

text \<open>The division is exact where it is done, so it does not matter which way it would round.\<close>

function strip_zeros :: "int \<Rightarrow> int \<Rightarrow> int \<times> int" where
  "strip_zeros v s = (if 0 < s \<and> v mod 10 = 0 then strip_zeros (v div 10) (s - 1) else (v, s))"
  by pat_completeness auto
termination
  by (relation "measure (\<lambda>(v, s). nat s)") auto

declare strip_zeros.simps [simp del]

definition hash_decimal128_key :: "int \<Rightarrow> int \<Rightarrow> u64" where
  "hash_decimal128_key v s = (case strip_zeros v s of (v1, s1) \<Rightarrow> hash_bytes_key (le_bytes 16 v1 @ [of_int s1]))"

definition hash_interval_month_day_nano_key :: "int \<Rightarrow> int \<Rightarrow> int \<Rightarrow> u64" where
  "hash_interval_month_day_nano_key months days nanos = hash_bytes_key (le_bytes 4 months @ le_bytes 4 days @ le_bytes 8 nanos)"

text \<open>IEEE 754 by its bits: a zero has nothing but a sign, a NaN all exponent bits and some of the fraction.\<close>

definition f32_is_zero :: "u32 \<Rightarrow> bool" where
  "f32_is_zero x \<longleftrightarrow> x AND 0x7FFFFFFF = 0"

definition f32_is_nan :: "u32 \<Rightarrow> bool" where
  "f32_is_nan x \<longleftrightarrow> 0x7F800000 < x AND 0x7FFFFFFF"

definition f64_is_zero :: "u64 \<Rightarrow> bool" where
  "f64_is_zero x \<longleftrightarrow> x AND 0x7FFFFFFFFFFFFFFF = 0"

definition f64_is_nan :: "u64 \<Rightarrow> bool" where
  "f64_is_nan x \<longleftrightarrow> 0x7FF0000000000000 < x AND 0x7FFFFFFFFFFFFFFF"

definition canonical_f32_bits :: "u32 \<Rightarrow> u32" where
  "canonical_f32_bits x = (if f32_is_zero x then 0 else if f32_is_nan x then 0x7FC00000 else x)"

definition canonical_f64_bits :: "u64 \<Rightarrow> u64" where
  "canonical_f64_bits x = (if f64_is_zero x then 0 else if f64_is_nan x then 0x7FF8000000000000 else x)"

definition hash_float32_key :: "u32 \<Rightarrow> u64" where
  "hash_float32_key x = ucast (canonical_f32_bits x)"

definition hash_float64_key :: "u64 \<Rightarrow> u64" where
  "hash_float64_key x = canonical_f64_bits x"

section \<open>Bits of a filter\<close>

definition bit_at :: "u64 list \<Rightarrow> nat \<Rightarrow> bool" where
  "bit_at bits b \<longleftrightarrow> bit (bits ! (b div 64)) (b mod 64)"

definition params_ok :: "bloom_params \<Rightarrow> bool" where
  "params_ok p \<longleftrightarrow> 0 < bp_bit_count p \<and> bp_bit_count p < 2 ^ 64 \<and> bp_bit_count p \<le> 64 * bp_word_count p \<and> 0 < bp_hash_count p"

lemma bloom_params_new_ok: "bloom_params_new n k seed = Inr p \<Longrightarrow> params_ok p"
  by (auto simp: bloom_params_new_def params_ok_def try_bind_eq_Inr checked_add_usize_def usize_max_def split: if_splits)

lemma bit_index_less:
  assumes "params_ok p"
  shows "bit_index p hash i < bp_bit_count p" "bit_index p hash i div 64 < bp_word_count p"
proof -
  have "unat (of_nat (bp_bit_count p) :: u64) = bp_bit_count p"
    using assms by (intro unat_of_nat_u64) (simp add: params_ok_def)
  then show "bit_index p hash i < bp_bit_count p" using assms by (simp add: bit_index_def Let_def unat_mod params_ok_def)
  with assms show "bit_index p hash i div 64 < bp_word_count p" by (simp add: params_ok_def less_mult_imp_div_less)
qed

lemma insert_masks_effect:
  assumes "params_ok p" and "length bits = bp_word_count p"
  shows "\<exists>bits'. insert_masks p hash is bits = Some bits' \<and> length bits' = bp_word_count p \<and>
    (\<forall>b < 64 * bp_word_count p. bit_at bits' b \<longleftrightarrow> bit_at bits b \<or> b \<in> bit_index p hash ` set is)"
  using assms(2)
proof (induction "is" arbitrary: bits)
  case Nil
  then show ?case by simp
next
  case (Cons i "is")
  let ?b = "bit_index p hash i"
  let ?bits = "bits[?b div 64 := bits ! (?b div 64) OR push_bit (?b mod 64) 1]"
  have lt: "?b div 64 < length bits" using bit_index_less(2) [OF assms(1)] Cons.prems by simp
  have "length ?bits = bp_word_count p" using Cons.prems by simp
  from Cons.IH [OF this] obtain bits' where
    b': "insert_masks p hash is ?bits = Some bits'" "length bits' = bp_word_count p"
      "\<forall>b < 64 * bp_word_count p. bit_at bits' b \<longleftrightarrow> bit_at ?bits b \<or> b \<in> bit_index p hash ` set is" by blast
  have "bit_at ?bits b \<longleftrightarrow> bit_at bits b \<or> b = ?b" if "b < 64 * bp_word_count p" for b
  proof (cases "b div 64 = ?b div 64")
    case True
    then have "b = ?b \<longleftrightarrow> b mod 64 = ?b mod 64" by (metis div_mod_decomp)
    with True lt show ?thesis by (auto simp: bit_at_def bit_simps)
  next
    case False
    then show ?thesis by (auto simp: bit_at_def)
  qed
  with b' lt show ?case by (auto simp: word_mask_def Let_def)
qed

lemma probe_masks_eq:
  assumes "params_ok p" and "length bits = bp_word_count p"
  shows "probe_masks p hash is bits = Some (\<forall>i \<in> set is. bit_at bits (bit_index p hash i))"
proof (induction "is")
  case (Cons i "is")
  have "bit_index p hash i div 64 < length bits" using bit_index_less(2) [OF assms(1)] assms(2) by simp
  with Cons show ?case by (auto simp: word_mask_def Let_def and_exp_eq_0_iff_not_bit bit_at_def)
qed simp

lemma might_contain_eq:
  "params_ok p \<Longrightarrow> length bits = bp_word_count p \<Longrightarrow>
     might_contain_hash p hash bits = Some (\<forall>i < bp_hash_count p. bit_at bits (bit_index p hash i))"
  by (auto simp: might_contain_hash_def probe_masks_eq)

text \<open>A filter that holds a set of hashes: all their bits are set.\<close>

definition bloom_holds :: "bloom_params \<Rightarrow> u64 list \<Rightarrow> u64 set \<Rightarrow> bool" where
  "bloom_holds p bits H \<longleftrightarrow> length bits = bp_word_count p \<and>
     (\<forall>h \<in> H. \<forall>i < bp_hash_count p. bit_at bits (bit_index p h i))"

lemma bloom_holds_insert:
  assumes "params_ok p" and "bloom_holds p bits H"
  obtains bits' where "insert_hash p hash bits = Some bits'" "bloom_holds p bits' (insert hash H)"
proof -
  from insert_masks_effect [OF assms(1), of bits hash "[0..<bp_hash_count p]"] assms(2) obtain bits' where
    b: "insert_hash p hash bits = Some bits'" "length bits' = bp_word_count p"
      "\<forall>b < 64 * bp_word_count p. bit_at bits' b \<longleftrightarrow> bit_at bits b \<or> b \<in> bit_index p hash ` {0..<bp_hash_count p}"
    by (auto simp: bloom_holds_def insert_hash_def)
  have lt: "bit_index p h i < 64 * bp_word_count p" for h i
    using bit_index_less(1) [OF assms(1), of h i] assms(1) by (simp add: params_ok_def)
  have "bloom_holds p bits' (insert hash H)" using b(2,3) lt assms(2) by (auto simp: bloom_holds_def)
  with b(1) show thesis by (rule that)
qed

lemma bloom_holds_probe:
  "params_ok p \<Longrightarrow> bloom_holds p bits H \<Longrightarrow> h \<in> H \<Longrightarrow> might_contain_hash p h bits = Some True"
  by (simp add: bloom_holds_def might_contain_eq)

section \<open>Canonical decimals\<close>

lemma strip_zeros_canonical:
  assumes "0 \<le> s" and "strip_zeros v s = (a, t)"
  shows "0 \<le> t \<and> t \<le> s \<and> v = a * 10 ^ nat (s - t) \<and> (t = 0 \<or> a mod 10 \<noteq> 0)"
  using assms
proof (induction v s rule: strip_zeros.induct)
  case (1 v s)
  show ?case
  proof (cases "0 < s \<and> v mod 10 = 0")
    case True
    with 1 have ih: "0 \<le> t" "t \<le> s - 1" "v div 10 = a * 10 ^ nat (s - 1 - t)" "t = 0 \<or> a mod 10 \<noteq> 0"
      by (simp_all add: strip_zeros.simps [of v s])
    have "nat (s - t) = Suc (nat (s - 1 - t))" using ih(2) by simp
    moreover have "v = v div 10 * 10" using True by (simp add: dvd_eq_mod_eq_0)
    ultimately have "v = a * 10 ^ nat (s - t)" using ih(3) by simp
    with ih show ?thesis by simp
  next
    case False
    with 1 show ?thesis by (auto simp: strip_zeros.simps [of v s])
  qed
qed

lemma canonical_unique:
  assumes "0 \<le> t" "t \<le> u" and "(a :: int) * 10 ^ nat u = b * 10 ^ nat t" and "u = 0 \<or> b mod 10 \<noteq> 0"
  shows "t = u"
proof (rule ccontr)
  assume "t \<noteq> u"
  then have "nat u = nat t + Suc (nat (u - t - 1))" using assms(1,2) by simp
  then have "a * (10 * 10 ^ nat (u - t - 1)) * 10 ^ nat t = b * 10 ^ nat t" using assms(3) by (simp add: power_add mult.assoc mult.left_commute)
  then have "b = 10 * (a * 10 ^ nat (u - t - 1))" by simp
  with assms(1,2,4) \<open>t \<noteq> u\<close> show False by simp
qed

lemma strip_zeros_equal:
  assumes s: "0 \<le> s" "0 \<le> s'" and eq: "v * 10 ^ nat s' = v' * 10 ^ nat s"
  shows "strip_zeros v s = strip_zeros v' s'"
proof -
  obtain a t b u where r: "strip_zeros v s = (a, t)" "strip_zeros v' s' = (b, u)" by (metis surj_pair)
  note x = strip_zeros_canonical [OF s(1) r(1)] and y = strip_zeros_canonical [OF s(2) r(2)]
  have b: "0 \<le> t" "t \<le> s" "0 \<le> u" "u \<le> s'" and v: "v = a * 10 ^ nat (s - t)" "v' = b * 10 ^ nat (s' - u)"
    using x y by blast+
  have n: "nat s = nat (s - t) + nat t" "nat s' = nat (s' - u) + nat u" using b by linarith+
  have "a * 10 ^ nat u * (10 ^ nat (s - t) * 10 ^ nat (s' - u)) = b * 10 ^ nat t * (10 ^ nat (s - t) * 10 ^ nat (s' - u))"
    using eq unfolding v n power_add by (simp add: mult_ac)
  then have e: "a * 10 ^ nat u = b * 10 ^ nat t" by simp
  have "t = u"
  proof (cases "t \<le> u")
    case True
    with canonical_unique [of t u a b] x y e show ?thesis by simp
  next
    case False
    with canonical_unique [of u t b a] x y e show ?thesis by simp
  qed
  with e r show ?thesis by simp
qed

lemma strip_zeros_value:
  assumes s: "0 \<le> s" "0 \<le> s'" and eq: "strip_zeros v s = strip_zeros v' s'"
  shows "v * 10 ^ nat s' = v' * 10 ^ nat s"
proof -
  obtain a t where r: "strip_zeros v s = (a, t)" "strip_zeros v' s' = (a, t)" using eq by (metis surj_pair)
  note x = strip_zeros_canonical [OF s(1) r(1)] and y = strip_zeros_canonical [OF s(2) r(2)]
  have n: "nat s = nat (s - t) + nat t" "nat s' = nat (s' - t) + nat t" using x y by linarith+
  have v: "v = a * 10 ^ nat (s - t)" "v' = a * 10 ^ nat (s' - t)" using x y by blast+
  show ?thesis unfolding v n power_add by (simp add: mult_ac)
qed

text \<open>The loop stops at the scale 0: a decimal of negative scale is hashed as it is written.\<close>

lemma negative_scale_hashed_as_written:
  "(10 :: int) * 10 ^ 0 = 1 * 10 ^ 1 \<and> hash_decimal128_key 10 0 \<noteq> hash_decimal128_key 1 (- 1)"
  by code_simp

section \<open>Properties\<close>

text \<open>C35: Runtime filters hash what decimals and floating-point numbers stand for and not how they are written. For decimals of
  non-negative scales, the canonical form that is hashed is the same exactly when the two numbers are equal, so equal numbers
  have one hash; two floating-point keys that have the same bits, are both zeros or are both NaNs have one hash.\<close>

theorem equal_keys_hash_equal:
  assumes "0 \<le> s" and "0 \<le> s'"
  shows "(strip_zeros v s = strip_zeros v' s' \<longleftrightarrow> v * 10 ^ nat s' = v' * 10 ^ nat s) \<and>
    (v * 10 ^ nat s' = v' * 10 ^ nat s \<longrightarrow> hash_decimal128_key v s = hash_decimal128_key v' s') \<and>
    (x = y \<or> f64_is_zero x \<and> f64_is_zero y \<or> f64_is_nan x \<and> f64_is_nan y \<longrightarrow> hash_float64_key x = hash_float64_key y) \<and>
    (z = w \<or> f32_is_zero z \<and> f32_is_zero w \<or> f32_is_nan z \<and> f32_is_nan w \<longrightarrow> hash_float32_key z = hash_float32_key w)"
proof -
  have "\<not> (f64_is_zero u \<and> f64_is_nan u)" "\<not> (f32_is_zero u' \<and> f32_is_nan u')" for u u'
    by (simp_all add: f64_is_zero_def f64_is_nan_def f32_is_zero_def f32_is_nan_def)
  then have "hash_float64_key x = hash_float64_key y" if "x = y \<or> f64_is_zero x \<and> f64_is_zero y \<or> f64_is_nan x \<and> f64_is_nan y"
    using that by (auto simp: hash_float64_key_def canonical_f64_bits_def)
  moreover have "hash_float32_key z = hash_float32_key w" if "z = w \<or> f32_is_zero z \<and> f32_is_zero w \<or> f32_is_nan z \<and> f32_is_nan w"
    using that \<open>\<And>u'. \<not> (f32_is_zero u' \<and> f32_is_nan u')\<close> by (auto simp: hash_float32_key_def canonical_f32_bits_def)
  moreover have "strip_zeros v s = strip_zeros v' s' \<longleftrightarrow> v * 10 ^ nat s' = v' * 10 ^ nat s"
    using strip_zeros_equal [OF assms] strip_zeros_value [OF assms] by blast
  moreover from this have "v * 10 ^ nat s' = v' * 10 ^ nat s \<longrightarrow> hash_decimal128_key v s = hash_decimal128_key v' s'"
    by (metis hash_decimal128_key_def)
  ultimately show ?thesis by blast
qed

theorem equal_keys_hash_equal_witness:
  "hash_decimal128_key 1500 3 = hash_decimal128_key 15 1 \<and> hash_float64_key 0x8000000000000000 = hash_float64_key 0 \<and>
    hash_float32_key 0x7FC00001 = hash_float32_key 0xFFC00000"
  using equal_keys_hash_equal [of 3 1 1500 15 "0x8000000000000000" 0 "0x7FC00001" "0xFFC00000"]
  by (simp add: f64_is_zero_def f32_is_nan_def del: strip_zeros.simps)

end
