(* ===== verification/Runtime_Filter.thy ===== *)
theory Runtime_Filter
  imports Bloom_Filter
begin

text \<open>
  One runtime-filter slot, \<^verbatim>\<open>src/runtime/filter/src/shared.rs\<close>: the lifecycle word that packs a generation and a
  state, and the builders and probes of a slot. The first part runs each operation alone; the second splits the
  operations into their atomic accesses (sequentially consistent) and interleaves any number of threads.

  Shown: under every interleaving there is at most one builder, no access leaves the bits, and a probe never rejects a
  key that the builder of its generation has inserted, provided a ready generation is retired only while no probe
  of it is inside \<open>decision_for_hash\<close>, which is what \<open>retire_ready_after_quiescence\<close> asks of its caller.
\<close>

section \<open>The lifecycle word\<close>

definition max_filter_generation :: u64 where
  "max_filter_generation = drop_bit 2 (- 1)"

datatype runtime_filter_state = Filter_Free | Filter_Building | Filter_Ready | Filter_Disabled

text \<open>\<open>state as u64\<close> and back; the last arm of \<open>from_bits\<close> is \<open>unreachable!\<close>.\<close>

fun filter_state_bits :: "runtime_filter_state \<Rightarrow> u64" where
  "filter_state_bits Filter_Free = 0"
| "filter_state_bits Filter_Building = 1"
| "filter_state_bits Filter_Ready = 2"
| "filter_state_bits Filter_Disabled = 3"

definition filter_state_from_bits :: "u64 \<Rightarrow> runtime_filter_state option" where
  "filter_state_from_bits b =
     (if b = 0 then Some Filter_Free else if b = 1 then Some Filter_Building
      else if b = 2 then Some Filter_Ready else if b = 3 then Some Filter_Disabled else None)"

record lifecycle_snapshot =
  ls_generation :: u64
  ls_state :: runtime_filter_state

datatype probe_decision = PassUnfiltered | MaybePresent | DefinitelyAbsent

datatype lifecycle_error =
    GenerationExhausted u64
  | Lifecycle_Busy lifecycle_snapshot
  | InvalidTransition lifecycle_snapshot lifecycle_snapshot

definition pack_lifecycle_word :: "u64 \<Rightarrow> runtime_filter_state \<Rightarrow> lifecycle_error + u64" where
  "pack_lifecycle_word g st =
     (if max_filter_generation < g then Inl (GenerationExhausted g)
      else Inr (push_bit 2 g OR filter_state_bits st))"

definition unpack_lifecycle_word :: "u64 \<Rightarrow> lifecycle_snapshot option" where
  "unpack_lifecycle_word w = do {
     st \<leftarrow> filter_state_from_bits (w AND 3);
     Some \<lparr>ls_generation = drop_bit 2 w, ls_state = st\<rparr>
   }"

section \<open>Operations of a slot, each run alone\<close>

record filter_slot =
  fs_lifecycle :: u64
  fs_bits :: "u64 list"

record filter_builder =
  fb_generation :: u64
  fb_active :: bool

text \<open>\<open>AtomicU64::compare_exchange\<close>: the word afterwards, and the word found.\<close>

definition compare_exchange :: "u64 \<Rightarrow> u64 \<Rightarrow> u64 \<Rightarrow> u64 \<times> (u64 + u64)" where
  "compare_exchange current expected desired =
     (if current = expected then (desired, Inr current) else (current, Inl current))"

definition filter_slot_new :: "u64 \<Rightarrow> u64 list \<Rightarrow> bloom_params \<Rightarrow> bloom_attach_error + filter_slot" where
  "filter_slot_new lifecycle bits p =
     try_bind (bloom_attach bits p) (\<lambda>bs. Inr \<lparr>fs_lifecycle = lifecycle, fs_bits = bs\<rparr>)"

text \<open>What the loop of \<open>try_acquire_builder\<close> makes of the word it has loaded: an error, or the next generation and
  the word to exchange it for.\<close>

definition acquire_next :: "u64 \<Rightarrow> (lifecycle_error + u64 \<times> u64) option" where
  "acquire_next current_word = do {
     current \<leftarrow> unpack_lifecycle_word current_word;
     if ls_state current = Filter_Building \<or> ls_state current = Filter_Ready
     then Some (Inl (Lifecycle_Busy current))
     else if ls_generation current = - 1 then Some (Inl (GenerationExhausted (ls_generation current)))
     else let next_generation = ls_generation current + 1 in
       if max_filter_generation < next_generation then Some (Inl (GenerationExhausted (ls_generation current)))
       else (case pack_lifecycle_word next_generation Filter_Building of
           Inl _ \<Rightarrow> None
         | Inr desired \<Rightarrow> Some (Inr (next_generation, desired)))
   }"

text \<open>Run alone, the exchange succeeds in the first round of the loop.\<close>

definition try_acquire_builder :: "filter_slot \<Rightarrow> (filter_slot \<times> (lifecycle_error + filter_builder)) option" where
  "try_acquire_builder s = do {
     res \<leftarrow> acquire_next (fs_lifecycle s);
     Some (case res of
        Inl e \<Rightarrow> (s, Inl e)
      | Inr (g, desired) \<Rightarrow> (s\<lparr>fs_lifecycle := desired, fs_bits := bloom_clear (fs_bits s)\<rparr>,
          Inr \<lparr>fb_generation = g, fb_active = True\<rparr>))
   }"

definition transition_build ::
  "u64 \<Rightarrow> runtime_filter_state \<Rightarrow> filter_slot \<Rightarrow> (filter_slot \<times> (lifecycle_error + unit)) option" where
  "transition_build g nxt s =
     (case (pack_lifecycle_word g Filter_Building, pack_lifecycle_word g nxt) of
        (Inr expected_word, Inr desired) \<Rightarrow>
          (case compare_exchange (fs_lifecycle s) expected_word desired of
             (w, Inr _) \<Rightarrow> Some (s\<lparr>fs_lifecycle := w\<rparr>, Inr ())
           | (w, Inl actual_word) \<Rightarrow> do {
               actual \<leftarrow> unpack_lifecycle_word actual_word;
               Some (s, Inl (InvalidTransition \<lparr>ls_generation = g, ls_state = Filter_Building\<rparr> actual))
             })
      | _ \<Rightarrow> None)"

text \<open>A probe is the generation it expects.\<close>

definition publish_build :: "u64 \<Rightarrow> filter_slot \<Rightarrow> (filter_slot \<times> (lifecycle_error + u64)) option" where
  "publish_build g s = do {
     (s1, res) \<leftarrow> transition_build g Filter_Ready s;
     Some (s1, try_bind res (\<lambda>_. Inr g))
   }"

definition slot_disable_build :: "u64 \<Rightarrow> filter_slot \<Rightarrow> (filter_slot \<times> (lifecycle_error + unit)) option" where
  "slot_disable_build g s = transition_build g Filter_Disabled s"

definition retire_ready_after_quiescence ::
  "u64 \<Rightarrow> filter_slot \<Rightarrow> (filter_slot \<times> (lifecycle_error + unit)) option" where
  "retire_ready_after_quiescence g s =
     (case (pack_lifecycle_word g Filter_Ready, pack_lifecycle_word g Filter_Disabled) of
        (Inl e, _) \<Rightarrow> Some (s, Inl e)
      | (_, Inl e) \<Rightarrow> Some (s, Inl e)
      | (Inr expected_word, Inr desired) \<Rightarrow>
          (case compare_exchange (fs_lifecycle s) expected_word desired of
             (w, Inr _) \<Rightarrow> Some (s\<lparr>fs_lifecycle := w\<rparr>, Inr ())
           | (w, Inl actual_word) \<Rightarrow> do {
               actual \<leftarrow> unpack_lifecycle_word actual_word;
               Some (s, Inl (InvalidTransition \<lparr>ls_generation = g, ls_state = Filter_Ready\<rparr> actual))
             }))"

definition builder_drop :: "filter_builder \<Rightarrow> filter_slot \<Rightarrow> filter_slot option" where
  "builder_drop b s =
     (if fb_active b then do { (s1, _) \<leftarrow> transition_build (fb_generation b) Filter_Disabled s; Some s1 } else Some s)"

definition builder_detach :: "filter_builder \<Rightarrow> filter_slot \<Rightarrow> (filter_slot \<times> u64) option" where
  "builder_detach b s = do {
     s1 \<leftarrow> builder_drop (b\<lparr>fb_active := False\<rparr>) s;
     Some (s1, fb_generation b)
   }"

definition builder_insert_hash :: "bloom_params \<Rightarrow> u64 \<Rightarrow> filter_slot \<Rightarrow> filter_slot option" where
  "builder_insert_hash p hash s = do {
     bits \<leftarrow> insert_hash p hash (fs_bits s);
     Some (s\<lparr>fs_bits := bits\<rparr>)
   }"

text \<open>The two calls that consume a builder drop it, still active when the transition has failed.\<close>

definition builder_finish ::
  "runtime_filter_state \<Rightarrow> filter_builder \<Rightarrow> filter_slot \<Rightarrow> (filter_slot \<times> (lifecycle_error + unit)) option" where
  "builder_finish nxt b s = do {
     (s1, res) \<leftarrow> transition_build (fb_generation b) nxt s;
     s2 \<leftarrow> builder_drop (case res of Inl _ \<Rightarrow> b | Inr _ \<Rightarrow> b\<lparr>fb_active := False\<rparr>) s1;
     Some (s2, res)
   }"

definition builder_publish_ready :: "filter_builder \<Rightarrow> filter_slot \<Rightarrow> (filter_slot \<times> (lifecycle_error + u64)) option" where
  "builder_publish_ready b s = do {
     (s1, res) \<leftarrow> builder_finish Filter_Ready b s;
     Some (s1, try_bind res (\<lambda>_. Inr (fb_generation b)))
   }"

definition builder_disable :: "filter_builder \<Rightarrow> filter_slot \<Rightarrow> (filter_slot \<times> (lifecycle_error + unit)) option" where
  "builder_disable b s = builder_finish Filter_Disabled b s"

definition decision_for_hash :: "bloom_params \<Rightarrow> u64 \<Rightarrow> u64 \<Rightarrow> filter_slot \<Rightarrow> probe_decision option" where
  "decision_for_hash p g hash s = do {
     snapshot \<leftarrow> unpack_lifecycle_word (fs_lifecycle s);
     if ls_generation snapshot \<noteq> g \<or> ls_state snapshot \<noteq> Filter_Ready then Some PassUnfiltered
     else do {
       present \<leftarrow> might_contain_hash p hash (fs_bits s);
       Some (if present then MaybePresent else DefinitelyAbsent)
     }
   }"

definition decision_for_null :: "u64 \<Rightarrow> filter_slot \<Rightarrow> probe_decision option" where
  "decision_for_null g s = do {
     snapshot \<leftarrow> unpack_lifecycle_word (fs_lifecycle s);
     Some (if ls_generation snapshot = g \<and> ls_state snapshot = Filter_Ready then DefinitelyAbsent else PassUnfiltered)
   }"

section \<open>Words and snapshots\<close>

text \<open>A word holds a generation and a state.\<close>

definition lifecycle_is :: "u64 \<Rightarrow> u64 \<Rightarrow> runtime_filter_state \<Rightarrow> bool" where
  "lifecycle_is w g st \<longleftrightarrow> unpack_lifecycle_word w = Some \<lparr>ls_generation = g, ls_state = st\<rparr>"

lemma max_filter_generation_eq: "max_filter_generation = mask 62"
  by (simp add: max_filter_generation_def mask_eq_exp_minus_1)

lemma filter_state_bits_round:
  "filter_state_from_bits (filter_state_bits st) = Some st" "filter_state_bits st AND 3 = filter_state_bits st"
  "drop_bit 2 (filter_state_bits st) = 0"
  by (cases st; simp add: filter_state_from_bits_def)+

lemma filter_state_from_bits_Some:
  "filter_state_from_bits b = Some st \<Longrightarrow> filter_state_bits st = b"
  by (auto simp: filter_state_from_bits_def split: if_splits)

lemma and_3_cases: "(w :: u64) AND 3 = 0 \<or> w AND 3 = 1 \<or> w AND 3 = 2 \<or> w AND 3 = 3"
proof -
  have "w AND 3 = take_bit 2 w" by (simp add: take_bit_eq_mask mask_eq_exp_minus_1)
  then have "unat (w AND 3) = take_bit 2 (unat w)" by (simp add: unsigned_take_bit_eq)
  then have "unat (w AND 3) < 4" using take_bit_nat_less_exp [of 2 "unat w"] by simp
  then have "unat (w AND 3) = 0 \<or> unat (w AND 3) = 1 \<or> unat (w AND 3) = 2 \<or> unat (w AND 3) = 3" by linarith
  then show ?thesis by (auto simp: word_unat_eq_iff)
qed

text \<open>Every word is a snapshot, and packing and unpacking are inverse to each other.\<close>

lemma lifecycle_total: obtains g st where "lifecycle_is w g st"
  using and_3_cases [of w] by (auto simp: lifecycle_is_def unpack_lifecycle_word_def filter_state_from_bits_def)

lemma lifecycle_unique: "lifecycle_is w g st \<Longrightarrow> lifecycle_is w g' st' \<Longrightarrow> g = g' \<and> st = st'"
  by (simp add: lifecycle_is_def)

lemma pack_lifecycle_is:
  assumes "pack_lifecycle_word g st = Inr w"
  shows "lifecycle_is w g st"
proof -
  have le: "g \<le> mask 62" and w: "w = push_bit 2 g OR filter_state_bits st"
    using assms by (auto simp: pack_lifecycle_word_def max_filter_generation_eq split: if_splits)
  have "take_bit 62 g = g"
    using le by (simp add: word_le_nat_alt word_unat_eq_iff unsigned_take_bit_eq take_bit_nat_eq_self mask_eq_exp_minus_1)
  moreover have "drop_bit 2 (push_bit 2 g) = take_bit 62 g" by (rule bit_word_eqI) (auto simp: bit_simps)
  ultimately have "drop_bit 2 (push_bit 2 g) = g" by simp
  then have "drop_bit 2 w = g" using filter_state_bits_round(3) [of st] by (simp add: w)
  moreover have "push_bit 2 g AND 3 = 0"
    using take_bit_push_bit [of 2 2 g] by (simp add: take_bit_eq_mask mask_eq_exp_minus_1)
  then have "w AND 3 = filter_state_bits st"
    using filter_state_bits_round(2) [of st] by (simp add: w bit.conj_disj_distrib2)
  ultimately show ?thesis using filter_state_bits_round(1) [of st]
    by (simp add: lifecycle_is_def unpack_lifecycle_word_def)
qed

lemma lifecycle_is_pack:
  assumes "lifecycle_is w g st"
  shows "pack_lifecycle_word g st = Inr w"
proof -
  have g: "g = drop_bit 2 w" and st: "filter_state_bits st = w AND 3"
    using assms filter_state_from_bits_Some
    by (auto simp: lifecycle_is_def unpack_lifecycle_word_def split: Option.bind_splits)
  have "drop_bit 2 w \<le> mask 62" using unat_u64_less [of w]
    by (simp add: drop_bit_eq_div word_le_nat_alt unat_div mask_eq_exp_minus_1)
  moreover have "push_bit 2 (drop_bit 2 w) OR take_bit 2 w = w"
    by (rule bit_word_eqI) (auto simp: bit_simps not_less simp flip: add_2_eq_Suc)
  then have "push_bit 2 (drop_bit 2 w) OR (w AND 3) = w" by (simp add: take_bit_eq_mask mask_eq_exp_minus_1)
  ultimately show ?thesis by (simp add: pack_lifecycle_word_def max_filter_generation_eq g st not_less)
qed

lemma acquire_next_total: "acquire_next w \<noteq> None"
proof -
  obtain g st where "lifecycle_is w g st" by (rule lifecycle_total)
  then show ?thesis by (auto simp: acquire_next_def lifecycle_is_def Let_def pack_lifecycle_word_def)
qed

lemma acquire_next_Inr:
  assumes "acquire_next w = Some (Inr (g, d))"
  obtains g0 st where "lifecycle_is w g0 st" "st = Filter_Free \<or> st = Filter_Disabled" "g0 < g" "lifecycle_is d g Filter_Building"
proof -
  obtain g0 st where w: "lifecycle_is w g0 st" by (rule lifecycle_total)
  with assms have st: "st \<noteq> Filter_Building" "st \<noteq> Filter_Ready" and g0: "g0 \<noteq> - 1" and g: "g = g0 + 1"
    and d: "pack_lifecycle_word g Filter_Building = Inr d"
    by (auto simp: acquire_next_def lifecycle_is_def Let_def split: if_splits sum.splits)
  have "g0 < g" using g0 unfolding g word_less_nat_alt by (simp add: saturating_add_u64_one)
  with w st pack_lifecycle_is [OF d] show thesis by (intro that [of g0 st]) (cases st; simp)+
qed

section \<open>Interleaved threads\<close>

text \<open>
  Where a thread stands. \<open>A_\<close> is \<open>try_acquire_builder\<close>, \<open>B_\<close> a thread that owns an active builder (between calls,
  or inside one), \<open>P_\<close> is \<open>decision_for_hash\<close>.
\<close>

datatype filter_pc =
    F_Idle
  | A_Load
  | A_Exchange u64 u64 u64        \<comment> \<open>the word loaded, the next generation, the word wanted\<close>
  | A_Clear u64 nat               \<comment> \<open>the generation, the next word to clear\<close>
  | A_Failed lifecycle_error
  | B_Own u64
  | B_Insert u64 u64 nat          \<comment> \<open>the generation, the hash, the next bit to set\<close>
  | B_Finish u64 runtime_filter_state
  | P_Load u64 u64                \<comment> \<open>the generation and the hash of the probe\<close>
  | P_Bits u64 u64 nat
  | P_Done u64 u64 probe_decision

text \<open>\<open>fy_inserted\<close> remembers, for each generation, the hashes whose insertion has returned.\<close>

record filter_sys =
  fy_slot :: filter_slot
  fy_pc :: "nat \<Rightarrow> filter_pc"
  fy_inserted :: "u64 \<Rightarrow> u64 set"

definition set_fpc :: "nat \<Rightarrow> filter_pc \<Rightarrow> filter_sys \<Rightarrow> filter_sys" where
  "set_fpc t pc s = s\<lparr>fy_pc := (fy_pc s)(t := pc)\<rparr>"

text \<open>The steps of \<open>try_acquire_builder\<close>.\<close>

fun acquire_step :: "filter_slot \<Rightarrow> filter_pc \<Rightarrow> (filter_slot \<times> filter_pc) option" where
  "acquire_step s A_Load = do {
     res \<leftarrow> acquire_next (fs_lifecycle s);
     Some (s, case res of Inl e \<Rightarrow> A_Failed e | Inr (g, desired) \<Rightarrow> A_Exchange (fs_lifecycle s) g desired)
   }"
| "acquire_step s (A_Exchange current_word g desired) =
     (case compare_exchange (fs_lifecycle s) current_word desired of
        (w, Inr _) \<Rightarrow> Some (s\<lparr>fs_lifecycle := w\<rparr>, A_Clear g 0)
      | (w, Inl _) \<Rightarrow> Some (s, A_Load))"
| "acquire_step s (A_Clear g i) =
     Some (if i < length (fs_bits s) then (s\<lparr>fs_bits := (fs_bits s)[i := 0]\<rparr>, A_Clear g (Suc i)) else (s, B_Own g))"
| "acquire_step s (A_Failed e) = Some (s, F_Idle)"
| "acquire_step s _ = None"

text \<open>The steps of the builder's \<open>insert_hash\<close>; and \<open>publish_ready\<close> and \<open>disable\<close>, whose one exchange is a step (the
  second one, of the drop after a failure, is part of it).\<close>

fun builder_step :: "bloom_params \<Rightarrow> filter_slot \<Rightarrow> filter_pc \<Rightarrow> (filter_slot \<times> filter_pc) option" where
  "builder_step p s (B_Insert g hash i) =
     (if i < bp_hash_count p
      then (case word_mask p hash i of (w, msk) \<Rightarrow> do {
          old \<leftarrow> index_opt (fs_bits s) w;
          Some (s\<lparr>fs_bits := (fs_bits s)[w := old OR msk]\<rparr>, B_Insert g hash (Suc i))
        })
      else Some (s, B_Own g))"
| "builder_step p s (B_Finish g nxt) = do {
     (s1, _) \<leftarrow> builder_finish nxt \<lparr>fb_generation = g, fb_active = True\<rparr> s;
     Some (s1, F_Idle)
   }"
| "builder_step p s _ = None"

text \<open>The steps of \<open>decision_for_hash\<close>.\<close>

fun probe_step :: "bloom_params \<Rightarrow> filter_slot \<Rightarrow> filter_pc \<Rightarrow> filter_pc option" where
  "probe_step p s (P_Load g hash) = do {
     snapshot \<leftarrow> unpack_lifecycle_word (fs_lifecycle s);
     Some (if ls_generation snapshot \<noteq> g \<or> ls_state snapshot \<noteq> Filter_Ready then P_Done g hash PassUnfiltered
           else P_Bits g hash 0)
   }"
| "probe_step p s (P_Bits g hash i) =
     (if i < bp_hash_count p
      then (case word_mask p hash i of (w, msk) \<Rightarrow> do {
          v \<leftarrow> index_opt (fs_bits s) w;
          Some (if v AND msk = 0 then P_Done g hash DefinitelyAbsent else P_Bits g hash (Suc i))
        })
      else Some (P_Done g hash MaybePresent))"
| "probe_step p s (P_Done g hash d) = Some F_Idle"
| "probe_step p s _ = None"

text \<open>The contract of \<open>retire_ready_after_quiescence\<close>.\<close>

definition quiescent :: "(nat \<Rightarrow> filter_pc) \<Rightarrow> u64 \<Rightarrow> bool" where
  "quiescent pcs g \<longleftrightarrow> (\<forall>t hash i. pcs t \<noteq> P_Load g hash \<and> pcs t \<noteq> P_Bits g hash i)"

text \<open>What a thread between two calls may do.\<close>

inductive filter_call :: "filter_sys \<Rightarrow> nat \<Rightarrow> filter_sys \<Rightarrow> bool" for s t where
  call_acquire: "fy_pc s t = F_Idle \<Longrightarrow> filter_call s t (set_fpc t A_Load s)"
| call_probe: "fy_pc s t = F_Idle \<Longrightarrow> filter_call s t (set_fpc t (P_Load g hash) s)"
| call_insert: "fy_pc s t = B_Own g \<Longrightarrow> filter_call s t (set_fpc t (B_Insert g hash 0) s)"
| call_publish: "fy_pc s t = B_Own g \<Longrightarrow> filter_call s t (set_fpc t (B_Finish g Filter_Ready) s)"
| call_disable: "fy_pc s t = B_Own g \<Longrightarrow> filter_call s t (set_fpc t (B_Finish g Filter_Disabled) s)"
| call_retire: "fy_pc s t = F_Idle \<Longrightarrow> quiescent (fy_pc s) g \<Longrightarrow>
    retire_ready_after_quiescence g (fy_slot s) = Some (slot, res) \<Longrightarrow> filter_call s t (s\<lparr>fy_slot := slot\<rparr>)"

definition filter_move :: "bloom_params \<Rightarrow> nat \<Rightarrow> filter_sys \<Rightarrow> filter_sys option" where
  "filter_move p t s =
     (let pc = fy_pc s t in case pc of
        B_Insert g hash i \<Rightarrow> do {
          (slot, pc1) \<leftarrow> builder_step p (fy_slot s) pc;
          let log = (if pc1 = B_Own g then (fy_inserted s)(g := insert hash (fy_inserted s g)) else fy_inserted s);
          Some (set_fpc t pc1 (s\<lparr>fy_slot := slot, fy_inserted := log\<rparr>))
        }
      | B_Finish g nxt \<Rightarrow> do { (slot, pc1) \<leftarrow> builder_step p (fy_slot s) pc; Some (set_fpc t pc1 (s\<lparr>fy_slot := slot\<rparr>)) }
      | P_Load g hash \<Rightarrow> do { pc1 \<leftarrow> probe_step p (fy_slot s) pc; Some (set_fpc t pc1 s) }
      | P_Bits g hash i \<Rightarrow> do { pc1 \<leftarrow> probe_step p (fy_slot s) pc; Some (set_fpc t pc1 s) }
      | P_Done g hash d \<Rightarrow> do { pc1 \<leftarrow> probe_step p (fy_slot s) pc; Some (set_fpc t pc1 s) }
      | _ \<Rightarrow> do { (slot, pc1) \<leftarrow> acquire_step (fy_slot s) pc; Some (set_fpc t pc1 (s\<lparr>fy_slot := slot\<rparr>)) })"

definition filter_start :: "u64 list \<Rightarrow> filter_sys" where
  "filter_start bits = \<lparr>fy_slot = \<lparr>fs_lifecycle = 0, fs_bits = bits\<rparr>, fy_pc = (\<lambda>_. F_Idle), fy_inserted = (\<lambda>_. {})\<rparr>"

inductive filter_reach :: "bloom_params \<Rightarrow> filter_sys \<Rightarrow> bool" for p where
  reach_start: "bloom_attach bits0 p = Inr bits \<Longrightarrow> filter_reach p (filter_start bits)"
| reach_call: "filter_reach p s \<Longrightarrow> filter_call s t s' \<Longrightarrow> filter_reach p s'"
| reach_move: "filter_reach p s \<Longrightarrow> filter_move p t s = Some s' \<Longrightarrow> filter_reach p s'"

section \<open>Invariant\<close>

fun builder_gen :: "filter_pc \<Rightarrow> u64 option" where
  "builder_gen (A_Clear g _) = Some g"
| "builder_gen (B_Own g) = Some g"
| "builder_gen (B_Insert g _ _) = Some g"
| "builder_gen (B_Finish g _) = Some g"
| "builder_gen _ = None"

text \<open>A generation whose builder is gone for good.\<close>

definition settled :: "u64 \<Rightarrow> u64 \<Rightarrow> bool" where
  "settled w g \<longleftrightarrow> (\<forall>g' st. lifecycle_is w g' st \<longrightarrow> g \<le> g' \<and> (g = g' \<longrightarrow> st \<noteq> Filter_Building))"

fun fpc_ok :: "bloom_params \<Rightarrow> filter_slot \<Rightarrow> (u64 \<Rightarrow> u64 set) \<Rightarrow> filter_pc \<Rightarrow> bool" where
  "fpc_ok p s log (A_Exchange w g d) \<longleftrightarrow> acquire_next w = Some (Inr (g, d))"
| "fpc_ok p s log (A_Clear g i) \<longleftrightarrow> lifecycle_is (fs_lifecycle s) g Filter_Building \<and> log g = {}"
| "fpc_ok p s log (B_Own g) \<longleftrightarrow> lifecycle_is (fs_lifecycle s) g Filter_Building \<and> bloom_holds p (fs_bits s) (log g)"
| "fpc_ok p s log (B_Insert g h i) \<longleftrightarrow> lifecycle_is (fs_lifecycle s) g Filter_Building \<and>
     bloom_holds p (fs_bits s) (log g) \<and> (\<forall>j < min i (bp_hash_count p). bit_at (fs_bits s) (bit_index p h j))"
| "fpc_ok p s log (B_Finish g nxt) \<longleftrightarrow> lifecycle_is (fs_lifecycle s) g Filter_Building \<and>
     bloom_holds p (fs_bits s) (log g) \<and> nxt \<in> {Filter_Ready, Filter_Disabled}"
| "fpc_ok p s log (P_Bits g h i) \<longleftrightarrow> lifecycle_is (fs_lifecycle s) g Filter_Ready"
| "fpc_ok p s log (P_Done g h d) \<longleftrightarrow> d = DefinitelyAbsent \<longrightarrow> h \<notin> log g \<and> settled (fs_lifecycle s) g"
| "fpc_ok p s log _ \<longleftrightarrow> True"

definition slot_ok :: "bloom_params \<Rightarrow> filter_slot \<Rightarrow> (u64 \<Rightarrow> u64 set) \<Rightarrow> bool" where
  "slot_ok p s log \<longleftrightarrow> length (fs_bits s) = bp_word_count p \<and>
     (\<forall>g. lifecycle_is (fs_lifecycle s) g Filter_Ready \<longrightarrow> bloom_holds p (fs_bits s) (log g)) \<and>
     (\<forall>g st h. lifecycle_is (fs_lifecycle s) g st \<longrightarrow> g < h \<longrightarrow> log h = {})"

definition filter_inv :: "bloom_params \<Rightarrow> filter_sys \<Rightarrow> bool" where
  "filter_inv p s \<longleftrightarrow> slot_ok p (fy_slot s) (fy_inserted s) \<and>
     (\<forall>t. fpc_ok p (fy_slot s) (fy_inserted s) (fy_pc s t)) \<and>
     (\<forall>t u. builder_gen (fy_pc s t) \<noteq> None \<longrightarrow> builder_gen (fy_pc s u) \<noteq> None \<longrightarrow> t = u)"

lemma filter_inv_at:
  "filter_inv p s \<Longrightarrow> fy_pc s t = pc \<Longrightarrow> slot_ok p (fy_slot s) (fy_inserted s)"
  "filter_inv p s \<Longrightarrow> fy_pc s t = pc \<Longrightarrow> fpc_ok p (fy_slot s) (fy_inserted s) pc"
  by (auto simp: filter_inv_def)

lemma builder_gen_building:
  "fpc_ok p s log pc \<Longrightarrow> builder_gen pc = Some g \<Longrightarrow> lifecycle_is (fs_lifecycle s) g Filter_Building"
  by (cases pc) auto

text \<open>A step that changes neither the slot nor the log.\<close>

lemma filter_inv_local:
  assumes "filter_inv p s" and "fpc_ok p (fy_slot s) (fy_inserted s) pc"
    and "builder_gen pc \<noteq> None \<Longrightarrow> builder_gen (fy_pc s t) \<noteq> None"
  shows "filter_inv p (set_fpc t pc s)"
proof -
  have "builder_gen (((fy_pc s)(t := pc)) u) \<noteq> None \<Longrightarrow> builder_gen (fy_pc s u) \<noteq> None" for u using assms(3) by (cases "u = t") auto
  then have "v = u" if "builder_gen (((fy_pc s)(t := pc)) v) \<noteq> None" "builder_gen (((fy_pc s)(t := pc)) u) \<noteq> None" for u v
    using that assms(1) unfolding filter_inv_def by blast
  moreover have "fpc_ok p (fy_slot s) (fy_inserted s) (((fy_pc s)(t := pc)) u)" for u
    using assms(1,2) by (simp add: filter_inv_def)
  ultimately show ?thesis
    using assms(1) unfolding filter_inv_def set_fpc_def by (simp del: not_None_eq fun_upd_apply)
qed

text \<open>A step that changes the slot or the log while no other thread builds or reads the bits.\<close>

lemma filter_inv_update:
  assumes inv: "filter_inv p s" and l: "lifecycle_is (fs_lifecycle (fy_slot s)) g st" and st: "st \<noteq> Filter_Ready"
    and b: "st = Filter_Building \<Longrightarrow> builder_gen (fy_pc s t) \<noteq> None"
    and ok: "slot_ok p slot log" "fpc_ok p slot log pc"
    and settled: "\<And>h g'. h \<notin> fy_inserted s g' \<Longrightarrow> settled (fs_lifecycle (fy_slot s)) g' \<Longrightarrow>
      h \<notin> log g' \<and> settled (fs_lifecycle slot) g'"
  shows "filter_inv p (set_fpc t pc (s\<lparr>fy_slot := slot, fy_inserted := log\<rparr>))"
proof -
  have none: "builder_gen (fy_pc s u) = None" if "u \<noteq> t" for u
  proof (rule ccontr)
    assume n: "builder_gen (fy_pc s u) \<noteq> None"
    with inv that have "builder_gen (fy_pc s t) = None" unfolding filter_inv_def by blast
    moreover from n inv have "\<exists>g'. lifecycle_is (fs_lifecycle (fy_slot s)) g' Filter_Building"
      by (auto simp: filter_inv_def intro: builder_gen_building)
    with l have "st = Filter_Building" using lifecycle_unique by blast
    ultimately show False using b by simp
  qed
  have "fpc_ok p slot log (fy_pc s u)" if "u \<noteq> t" for u
  proof -
    have "fpc_ok p (fy_slot s) (fy_inserted s) (fy_pc s u)" using inv by (simp add: filter_inv_def)
    with none [OF that] settled l st show ?thesis
      by (cases "fy_pc s u") (auto dest: lifecycle_unique)
  qed
  then have pcs: "fpc_ok p slot log (((fy_pc s)(t := pc)) u)" for u using ok(2) by simp
  have one: "u = t" if "builder_gen (((fy_pc s)(t := pc)) u) \<noteq> None" for u using that none by (cases "u = t") simp_all
  have "v = u" if "builder_gen (((fy_pc s)(t := pc)) v) \<noteq> None" "builder_gen (((fy_pc s)(t := pc)) u) \<noteq> None" for u v
    using that [THEN one] by simp
  with ok(1) pcs show ?thesis unfolding filter_inv_def set_fpc_def by (simp del: not_None_eq fun_upd_apply)
qed

lemma settled_later:
  assumes "settled w g" and "lifecycle_is w g0 st0" and "lifecycle_is w' g' st'"
    and "g0 < g' \<or> g0 = g' \<and> st' \<noteq> Filter_Building"
  shows "settled w' g"
  unfolding settled_def
proof (intro allI impI)
  fix k st assume "lifecycle_is w' k st"
  with assms(3) have "k = g'" "st = st'" using lifecycle_unique by blast+
  moreover have "g \<le> g0" using assms(1,2) by (auto simp: settled_def)
  ultimately show "g \<le> k \<and> (g = k \<longrightarrow> st \<noteq> Filter_Building)" using assms(4) by auto
qed

section \<open>Every step keeps the invariant\<close>

lemma pack_other:
  assumes "lifecycle_is w g st"
  obtains w' where "pack_lifecycle_word g st' = Inr w'" "lifecycle_is w' g st'"
proof -
  from lifecycle_is_pack [OF assms] have "\<not> max_filter_generation < g" by (auto simp: pack_lifecycle_word_def split: if_splits)
  then have "pack_lifecycle_word g st' = Inr (push_bit 2 g OR filter_state_bits st')" by (simp add: pack_lifecycle_word_def)
  then show thesis by (rule that) (rule pack_lifecycle_is [OF \<open>pack_lifecycle_word g st' = _\<close>])
qed

lemma transition_build_building:
  assumes "lifecycle_is (fs_lifecycle s) g Filter_Building"
  obtains w where "transition_build g nxt s = Some (s\<lparr>fs_lifecycle := w\<rparr>, Inr ())" "lifecycle_is w g nxt"
proof -
  obtain w where w: "pack_lifecycle_word g nxt = Inr w" "lifecycle_is w g nxt" by (rule pack_other [OF assms])
  from w(1) lifecycle_is_pack [OF assms] have "transition_build g nxt s = Some (s\<lparr>fs_lifecycle := w\<rparr>, Inr ())"
    by (simp add: transition_build_def compare_exchange_def)
  then show thesis using w(2) by (rule that)
qed

lemma bit_set_effect:
  assumes "params_ok p" and "length bits = bp_word_count p" and "word_mask p hash i = (w, msk)"
  shows "w < length bits"
    and "b < 64 * bp_word_count p \<Longrightarrow> bit_at (bits[w := bits ! w OR msk]) b \<longleftrightarrow> bit_at bits b \<or> b = bit_index p hash i"
proof -
  show w: "w < length bits"
    using assms bit_index_less(2) [OF assms(1), of hash i] by (simp add: word_mask_def Let_def)
  assume "b < 64 * bp_word_count p"
  with insert_masks_effect [OF assms(1,2), of hash "[i]"] assms(3) w
  show "bit_at (bits[w := bits ! w OR msk]) b \<longleftrightarrow> bit_at bits b \<or> b = bit_index p hash i" by auto
qed

lemma bit_index_in_words: "params_ok p \<Longrightarrow> bit_index p hash i < 64 * bp_word_count p"
  using bit_index_less(1) [of p hash i] by (simp add: params_ok_def)

lemma bloom_holds_bit_set:
  assumes "params_ok p" and "bloom_holds p bits H" and "word_mask p hash i = (w, msk)"
  shows "bloom_holds p (bits[w := bits ! w OR msk]) H"
  using assms bit_set_effect(2) [OF assms(1) _ assms(3)] bit_index_in_words [OF assms(1)] by (auto simp: bloom_holds_def)

lemma acquire_step_inv:
  assumes p: "params_ok p" and inv: "filter_inv p s" and pc: "fy_pc s t = pc"
    and step: "acquire_step (fy_slot s) pc = Some (slot, pc')"
  shows "filter_inv p (set_fpc t pc' (s\<lparr>fy_slot := slot\<rparr>))"
proof -
  note ok = filter_inv_at [OF inv pc]
  have local: "filter_inv p (set_fpc t pc' (s\<lparr>fy_slot := fy_slot s\<rparr>))"
    if "fpc_ok p (fy_slot s) (fy_inserted s) pc'" "builder_gen pc' \<noteq> None \<Longrightarrow> builder_gen pc \<noteq> None"
    using filter_inv_local [OF inv that(1), of t] that(2) pc by simp
  show ?thesis
  proof (cases pc)
    case A_Load
    with step local show ?thesis by (auto split: Option.bind_splits sum.splits)
  next
    case (A_Exchange cur g d)
    show ?thesis
    proof (cases "fs_lifecycle (fy_slot s) = cur")
      case True
      obtain g0 st where n: "lifecycle_is cur g0 st" "st = Filter_Free \<or> st = Filter_Disabled" "g0 < g" "lifecycle_is d g Filter_Building"
        using ok(2) unfolding A_Exchange by (auto elim: acquire_next_Inr)
      have slot: "slot = (fy_slot s)\<lparr>fs_lifecycle := d\<rparr>" "pc' = A_Clear g 0"
        using step True by (auto simp: A_Exchange compare_exchange_def)
      have l: "lifecycle_is (fs_lifecycle (fy_slot s)) g0 st" using n(1) True by simp
      have "fy_inserted s h = {}" if "g \<le> h" for h using ok(1) l n(3) that by (auto simp: slot_ok_def)
      then have ok': "slot_ok p slot (fy_inserted s)" "fpc_ok p slot (fy_inserted s) pc'"
        using ok(1) n(4) by (auto simp: slot_ok_def slot dest: lifecycle_unique)
      have "settled (fs_lifecycle slot) k" if "settled (fs_lifecycle (fy_slot s)) k" for k
        using settled_later [OF that l n(4)] n(3) by (simp add: slot)
      then have "filter_inv p (set_fpc t pc' (s\<lparr>fy_slot := slot, fy_inserted := fy_inserted s\<rparr>))"
        by (intro filter_inv_update [OF inv l _ _ ok']) (use n(2) in auto)
      then show ?thesis by simp
    next
      case False
      with step local show ?thesis by (auto simp: A_Exchange compare_exchange_def)
    qed
  next
    case (A_Clear g i)
    have l: "lifecycle_is (fs_lifecycle (fy_slot s)) g Filter_Building" and e: "fy_inserted s g = {}" using ok(2) A_Clear by auto
    show ?thesis
    proof (cases "i < length (fs_bits (fy_slot s))")
      case True
      then have slot: "slot = (fy_slot s)\<lparr>fs_bits := (fs_bits (fy_slot s))[i := 0]\<rparr>" "pc' = A_Clear g (Suc i)"
        using step A_Clear by auto
      have "slot_ok p slot (fy_inserted s)" "fpc_ok p slot (fy_inserted s) pc'"
        using ok(1) l e by (auto simp: slot_ok_def slot dest: lifecycle_unique)
      with filter_inv_update [OF inv l, of t slot "fy_inserted s" pc'] pc slot show ?thesis by (simp add: A_Clear)
    next
      case False
      with step have slot: "slot = fy_slot s" "pc' = B_Own g" using A_Clear by auto
      have "fpc_ok p (fy_slot s) (fy_inserted s) pc'" using l e ok(1) slot by (simp add: bloom_holds_def slot_ok_def)
      with local show ?thesis by (simp add: slot A_Clear)
    qed
  qed (use step local in auto)
qed

lemma insert_step_inv:
  assumes p: "params_ok p" and inv: "filter_inv p s" and pc: "fy_pc s t = B_Insert g hash i"
    and step: "builder_step p (fy_slot s) (B_Insert g hash i) = Some (slot, pc')"
    and log: "log = (if pc' = B_Own g then (fy_inserted s)(g := insert hash (fy_inserted s g)) else fy_inserted s)"
  shows "filter_inv p (set_fpc t pc' (s\<lparr>fy_slot := slot, fy_inserted := log\<rparr>))"
proof -
  note ok = filter_inv_at [OF inv pc]
  have l: "lifecycle_is (fs_lifecycle (fy_slot s)) g Filter_Building"
    and h: "bloom_holds p (fs_bits (fy_slot s)) (fy_inserted s g)"
    and b: "\<forall>j < min i (bp_hash_count p). bit_at (fs_bits (fy_slot s)) (bit_index p hash j)"
    and len: "length (fs_bits (fy_slot s)) = bp_word_count p" using ok by (auto simp: slot_ok_def)
  show ?thesis
  proof (cases "i < bp_hash_count p")
    case True
    obtain w msk where wm: "word_mask p hash i = (w, msk)" by (cases "word_mask p hash i")
    note e = bit_set_effect [OF p len wm]
    have slot: "slot = (fy_slot s)\<lparr>fs_bits := (fs_bits (fy_slot s))[w := fs_bits (fy_slot s) ! w OR msk]\<rparr>"
      "pc' = B_Insert g hash (Suc i)" "log = fy_inserted s"
      using step log True wm e(1) by auto
    have "bit_at (fs_bits slot) (bit_index p hash j)" if "j < Suc i" for j
      using b that True e(2) [OF bit_index_in_words [OF p]] by (auto simp: slot less_Suc_eq)
    then have ok': "slot_ok p slot log" "fpc_ok p slot log pc'"
      using ok(1) l h bloom_holds_bit_set [OF p _ wm] by (auto simp: slot_ok_def slot dest: lifecycle_unique)
    show ?thesis by (rule filter_inv_update [OF inv l _ _ ok']) (simp_all add: pc slot)
  next
    case False
    then have slot: "slot = fy_slot s" "pc' = B_Own g" "log = (fy_inserted s)(g := insert hash (fy_inserted s g))"
      using step log by auto
    have ok': "slot_ok p slot log" "fpc_ok p slot log pc'"
      using ok(1) l h b False by (auto simp: slot_ok_def slot bloom_holds_def dest: lifecycle_unique)
    show ?thesis
      by (rule filter_inv_update [OF inv l _ _ ok']) (use l in \<open>auto simp: pc slot settled_def\<close>)
  qed
qed

lemma slot_ok_relabel:
  assumes "slot_ok p s log" "lifecycle_is (fs_lifecycle s) g st0" "lifecycle_is w g st"
    and "st = Filter_Ready \<Longrightarrow> bloom_holds p (fs_bits s) (log g)"
  shows "slot_ok p (s\<lparr>fs_lifecycle := w\<rparr>) log"
proof -
  have "k = g \<and> st' = st" if "lifecycle_is w k st'" for k st' using that assms(3) lifecycle_unique by blast
  moreover have "log h = {}" if "g < h" for h using assms(1,2) that unfolding slot_ok_def by blast
  ultimately show ?thesis using assms(1,4) unfolding slot_ok_def by auto
qed

lemma finish_step_inv:
  assumes inv: "filter_inv p s" and pc: "fy_pc s t = B_Finish g nxt"
    and step: "builder_step p (fy_slot s) (B_Finish g nxt) = Some (slot, pc')"
  shows "filter_inv p (set_fpc t pc' (s\<lparr>fy_slot := slot\<rparr>))"
proof -
  note ok = filter_inv_at [OF inv pc]
  have l: "lifecycle_is (fs_lifecycle (fy_slot s)) g Filter_Building"
    and h: "bloom_holds p (fs_bits (fy_slot s)) (fy_inserted s g)"
    and n: "nxt \<in> {Filter_Ready, Filter_Disabled}" using ok(2) by auto
  obtain w where w: "transition_build g nxt (fy_slot s) = Some ((fy_slot s)\<lparr>fs_lifecycle := w\<rparr>, Inr ())" "lifecycle_is w g nxt"
    by (rule transition_build_building [OF l])
  have slot: "slot = (fy_slot s)\<lparr>fs_lifecycle := w\<rparr>" "pc' = F_Idle"
    using step w(1) by (auto simp: builder_finish_def builder_drop_def)
  have ok': "slot_ok p slot (fy_inserted s)" "fpc_ok p slot (fy_inserted s) pc'"
    using slot_ok_relabel [OF ok(1) l w(2) h] by (auto simp: slot)
  have "settled (fs_lifecycle slot) k" if "settled (fs_lifecycle (fy_slot s)) k" for k
    using settled_later [OF that l w(2)] n by (auto simp: slot)
  then have "filter_inv p (set_fpc t pc' (s\<lparr>fy_slot := slot, fy_inserted := fy_inserted s\<rparr>))"
    by (intro filter_inv_update [OF inv l _ _ ok']) (auto simp: pc)
  then show ?thesis by simp
qed

lemma probe_step_inv:
  assumes p: "params_ok p" and inv: "filter_inv p s" and pc: "fy_pc s t = pc"
    and step: "probe_step p (fy_slot s) pc = Some pc'"
  shows "filter_inv p (set_fpc t pc' s)"
proof -
  note ok = filter_inv_at [OF inv pc]
  have "fpc_ok p (fy_slot s) (fy_inserted s) pc' \<and> builder_gen pc' = None"
  proof (cases pc)
    case (P_Load g hash)
    with step show ?thesis by (auto simp: lifecycle_is_def split: Option.bind_splits if_splits)
  next
    case (P_Bits g hash i)
    then have l: "lifecycle_is (fs_lifecycle (fy_slot s)) g Filter_Ready" using ok(2) by simp
    then have h: "bloom_holds p (fs_bits (fy_slot s)) (fy_inserted s g)" using ok(1) by (simp add: slot_ok_def)
    have "hash \<notin> fy_inserted s g" if "i < bp_hash_count p" "\<not> bit_at (fs_bits (fy_slot s)) (bit_index p hash i)"
      using h that by (auto simp: bloom_holds_def)
    moreover have "settled (fs_lifecycle (fy_slot s)) g" using l by (auto simp: settled_def dest: lifecycle_unique)
    ultimately show ?thesis using step l unfolding P_Bits
      by (auto simp: word_mask_def Let_def bit_at_def and_exp_eq_0_iff_not_bit split: if_splits Option.bind_splits)
  qed (use step in auto)
  then show ?thesis by (intro filter_inv_local [OF inv]) simp_all
qed

lemma filter_call_inv:
  assumes inv: "filter_inv p s" and "filter_call s t s'"
  shows "filter_inv p s'"
  using assms(2)
proof cases
  case (call_retire g slot res)
  show ?thesis
  proof (cases "lifecycle_is (fs_lifecycle (fy_slot s)) g Filter_Ready")
    case True
    obtain w where w: "pack_lifecycle_word g Filter_Disabled = Inr w" "lifecycle_is w g Filter_Disabled"
      by (rule pack_other [OF True])
    have slot: "slot = (fy_slot s)\<lparr>fs_lifecycle := w\<rparr>"
      using call_retire(4) w(1) lifecycle_is_pack [OF True] by (simp add: retire_ready_after_quiescence_def compare_exchange_def)
    have "fpc_ok p slot (fy_inserted s) (fy_pc s u)" for u
    proof -
      have "fpc_ok p (fy_slot s) (fy_inserted s) (fy_pc s u)" using inv by (simp add: filter_inv_def)
      with True call_retire(3) settled_later [OF _ True w(2)] show ?thesis
        by (cases "fy_pc s u") (auto simp: slot quiescent_def dest: lifecycle_unique)
    qed
    moreover have "slot_ok p slot (fy_inserted s)"
      using slot_ok_relabel [OF filter_inv_at(1) [OF inv refl] True w(2)] by (simp add: slot)
    ultimately show ?thesis using inv call_retire(1) by (simp add: filter_inv_def)
  next
    case False
    then have "slot = fy_slot s"
      using call_retire(4) pack_lifecycle_is
      by (auto simp: retire_ready_after_quiescence_def compare_exchange_def split: sum.splits if_splits Option.bind_splits)
    with inv call_retire(1) show ?thesis by simp
  qed
qed (use filter_inv_at(2) [OF inv, of t] in \<open>auto intro!: filter_inv_local [OF inv]\<close>)

lemma filter_move_inv:
  assumes p: "params_ok p" and inv: "filter_inv p s" and move: "filter_move p t s = Some s'"
  shows "filter_inv p s'"
proof (cases "fy_pc s t")
  case (B_Insert g hash i)
  with move insert_step_inv [OF p inv B_Insert] show ?thesis
    by (auto simp: filter_move_def Let_def simp del: builder_step.simps split: Option.bind_splits)
next
  case (B_Finish g nxt)
  with move finish_step_inv [OF inv B_Finish] show ?thesis
    by (auto simp: filter_move_def Let_def simp del: builder_step.simps split: Option.bind_splits)
qed (use move probe_step_inv [OF p inv] acquire_step_inv [OF p inv] in
    \<open>auto simp: filter_move_def Let_def simp del: probe_step.simps acquire_step.simps split: Option.bind_splits\<close>)

lemma filter_reach_inv:
  assumes "filter_reach p s" and p: "params_ok p"
  shows "filter_inv p s"
  using assms(1)
proof induction
  case (reach_start bits0 bits)
  have l: "lifecycle_is 0 0 Filter_Free" by (simp add: lifecycle_is_def unpack_lifecycle_word_def filter_state_from_bits_def)
  have len: "length bits = bp_word_count p" using reach_start by (auto simp: bloom_attach_def split: if_splits)
  then have "slot_ok p \<lparr>fs_lifecycle = 0, fs_bits = bits\<rparr> (\<lambda>_. {})"
    using lifecycle_unique [OF l] by (auto simp: slot_ok_def bloom_holds_def)
  then show ?case by (simp add: filter_start_def filter_inv_def)
next
  case (reach_call s t s')
  then show ?case by (auto intro: filter_call_inv)
next
  case (reach_move s t s')
  with p show ?case by (auto intro: filter_move_inv)
qed

text \<open>A thread inside a call always has a next step: no panic, no access outside the bits.\<close>

lemma filter_move_defined:
  assumes p: "params_ok p" and inv: "filter_inv p s"
    and pc: "fy_pc s t \<noteq> F_Idle" "builder_gen (fy_pc s t) = None \<or> (\<forall>g. fy_pc s t \<noteq> B_Own g)"
  shows "filter_move p t s \<noteq> None"
proof (cases "fy_pc s t")
  case A_Load
  then show ?thesis using acquire_next_total [of "fs_lifecycle (fy_slot s)"] by (auto simp: filter_move_def)
next
  case (A_Exchange w g d)
  then show ?thesis by (simp add: filter_move_def compare_exchange_def)
next
  case (B_Insert g hash i)
  then show ?thesis
    using bit_set_effect(1) [OF p, of "fs_bits (fy_slot s)" hash i] filter_inv_at(1) [OF inv refl]
    by (auto simp: filter_move_def Let_def slot_ok_def split: prod.splits)
next
  case (B_Finish g nxt)
  then have "lifecycle_is (fs_lifecycle (fy_slot s)) g Filter_Building" using filter_inv_at(2) [OF inv, of t] by simp
  then obtain w where "transition_build g nxt (fy_slot s) = Some ((fy_slot s)\<lparr>fs_lifecycle := w\<rparr>, Inr ())"
    by (rule transition_build_building)
  then show ?thesis by (simp add: filter_move_def B_Finish builder_finish_def builder_drop_def)
next
  case (P_Load g hash)
  obtain g' st where "lifecycle_is (fs_lifecycle (fy_slot s)) g' st" by (rule lifecycle_total)
  then show ?thesis by (auto simp: filter_move_def P_Load lifecycle_is_def)
next
  case (P_Bits g hash i)
  then show ?thesis
    using bit_set_effect(1) [OF p, of "fs_bits (fy_slot s)" hash i] filter_inv_at(1) [OF inv refl]
    by (auto simp: filter_move_def Let_def slot_ok_def split: prod.splits)
qed (use pc in \<open>auto simp: filter_move_def\<close>)

section \<open>Schedules\<close>

lemma case_option_Some: "(case x of None \<Rightarrow> False | Some y \<Rightarrow> P y) \<longleftrightarrow> (\<exists>y. x = Some y \<and> P y)"
  by (cases x) auto

text \<open>Runs of a given schedule, to exhibit reachable states: a call that a thread starts, or its next step.\<close>

fun filter_may_call :: "filter_pc \<Rightarrow> filter_pc \<Rightarrow> bool" where
  "filter_may_call F_Idle A_Load \<longleftrightarrow> True"
| "filter_may_call F_Idle (P_Load g hash) \<longleftrightarrow> True"
| "filter_may_call (B_Own g) (B_Insert g' hash i) \<longleftrightarrow> g = g' \<and> i = 0"
| "filter_may_call (B_Own g) (B_Finish g' nxt) \<longleftrightarrow> g = g' \<and> nxt \<in> {Filter_Ready, Filter_Disabled}"
| "filter_may_call _ _ \<longleftrightarrow> False"

fun filter_schedule :: "bloom_params \<Rightarrow> (nat \<times> filter_pc option) list \<Rightarrow> filter_sys \<Rightarrow> filter_sys option" where
  "filter_schedule p [] s = Some s"
| "filter_schedule p ((t, None) # sch) s = do { s1 \<leftarrow> filter_move p t s; filter_schedule p sch s1 }"
| "filter_schedule p ((t, Some pc) # sch) s =
     (if filter_may_call (fy_pc s t) pc then filter_schedule p sch (set_fpc t pc s) else None)"

lemma filter_may_call_call: "filter_may_call (fy_pc s t) pc \<Longrightarrow> filter_call s t (set_fpc t pc s)"
  by (cases "(fy_pc s t, pc)" rule: filter_may_call.cases) (auto intro: filter_call.intros)

lemma filter_schedule_reach:
  "filter_schedule p sch s = Some s' \<Longrightarrow> filter_reach p s \<Longrightarrow> filter_reach p s'"
proof (induction p sch s rule: filter_schedule.induct)
  case (2 p t sch s)
  then show ?case by (auto split: Option.bind_splits intro: reach_move)
next
  case (3 p t pc sch s)
  then show ?case by (auto split: if_splits intro: reach_call filter_may_call_call)
qed simp

section \<open>Properties\<close>

text \<open>C36: However builders and probes of one slot are interleaved, and as long as a ready generation is retired only
  while no probe of it is inside \<open>decision_for_hash\<close>: a probe that answers \<open>DefinitelyAbsent\<close> is right (its hash was
  not inserted by the builder of its generation), there is never more than one active builder, and a thread inside
  a call can always move on.\<close>

theorem filter_never_rejects_joinable:
  assumes "bloom_params_new bit_count hash_count seed = Inr p" and "filter_reach p s"
  shows "(fy_pc s t = P_Done g h DefinitelyAbsent \<longrightarrow> h \<notin> fy_inserted s g) \<and>
    (builder_gen (fy_pc s t) \<noteq> None \<longrightarrow> builder_gen (fy_pc s u) \<noteq> None \<longrightarrow> t = u) \<and>
    (fy_pc s t = F_Idle \<or> (\<exists>k. fy_pc s t = B_Own k) \<or> filter_move p t s \<noteq> None)"
proof -
  note p = bloom_params_new_ok [OF assms(1)]
  note inv = filter_reach_inv [OF assms(2) p]
  have "h \<notin> fy_inserted s g" if "fy_pc s t = P_Done g h DefinitelyAbsent"
    using filter_inv_at(2) [OF inv that] by simp
  moreover have "builder_gen (fy_pc s t) \<noteq> None \<longrightarrow> builder_gen (fy_pc s u) \<noteq> None \<longrightarrow> t = u"
    using inv unfolding filter_inv_def by blast
  ultimately show ?thesis using filter_move_defined [OF p inv, of t] by blast
qed

text \<open>Thread 0 builds a filter with the hash 5 in it, and thread 1 asks for the hash 6.\<close>

definition filter_example_params :: bloom_params where
  "filter_example_params = \<lparr>bp_bit_count = 64, bp_word_count = 1, bp_hash_count = 1, bp_seed = 0\<rparr>"

definition filter_example :: "filter_sys option" where
  "filter_example = filter_schedule filter_example_params
     ([(0, Some A_Load), (0, None), (0, None), (0, None), (0, None), (0, Some (B_Insert 1 5 0)), (0, None), (0, None),
       (0, Some (B_Finish 1 Filter_Ready)), (0, None), (1, Some (P_Load 1 6)), (1, None), (1, None)]) (filter_start [7])"

lemma filter_example_runs:
  obtains s where "filter_example = Some s" "fy_pc s 1 = P_Done 1 6 DefinitelyAbsent" "fy_inserted s 1 = {5}"
proof -
  have "case filter_example of None \<Rightarrow> False
    | Some s \<Rightarrow> fy_pc s 1 = P_Done 1 6 DefinitelyAbsent \<and> fy_inserted s 1 = {5}" by code_simp
  then show thesis unfolding case_option_Some by (elim exE conjE) (rule that)
qed

theorem filter_never_rejects_joinable_witness:
  "\<exists>s. filter_reach filter_example_params s \<and> fy_pc s 1 = P_Done 1 6 DefinitelyAbsent \<and> fy_inserted s 1 = {5} \<and> 6 \<notin> fy_inserted s 1"
proof -
  obtain s where s: "filter_example = Some s" "fy_pc s 1 = P_Done 1 6 DefinitelyAbsent" "fy_inserted s 1 = {5}"
    by (rule filter_example_runs)
  have "filter_reach filter_example_params (filter_start [7])"
    by (rule reach_start [of "[7]"]) (simp add: bloom_attach_def filter_example_params_def)
  with s(1) have r: "filter_reach filter_example_params s" unfolding filter_example_def by (rule filter_schedule_reach)
  have "bloom_params_new 64 1 0 = Inr filter_example_params"
    by (simp add: bloom_params_new_def filter_example_params_def checked_add_usize_def usize_max_def)
  from filter_never_rejects_joinable [OF this r, of 1 1 6 1] s(2) have "6 \<notin> fy_inserted s 1" by blast
  with r s(2,3) show ?thesis by blast
qed

end
