(* ===== verification/Filter_Pool.thy ===== *)
theory Filter_Pool
  imports Runtime_Filter "HOL-Library.Code_Target_Nat"
begin

text \<open>
  The shared-memory pool of runtime filters, \<^verbatim>\<open>src/runtime/filter/src/pool.rs\<close>: layout, initialisation and
  attachment of the region, slots with their reference counts, and the build and probe handles. Each operation runs
  alone. A handle names its slot and generation; the pool it belongs to is an argument of its operations.

  Shown: as long as calls do not overlap, whatever clients do with their handles, no operation panics, a slot counts exactly the handles that are
  alive, it is free exactly when there are none, and no probe rejects a hash that was inserted while its generation was
  being built.
\<close>

section \<open>Configuration and region\<close>

datatype filter_key_type =
    Key_Int16 | Key_Int32 | Key_Int64 | Key_Boolean | Key_Float32 | Key_Float64 | Key_Utf8View | Key_Uuid
  | Key_BinaryView | Key_Date32 | Key_Time64Microsecond | Key_TimestampMicrosecond | Key_Decimal128
  | Key_IntervalMonthDayNano

fun key_type_raw :: "filter_key_type \<Rightarrow> u32" where
  "key_type_raw Key_Int16 = 1"
| "key_type_raw Key_Int32 = 2"
| "key_type_raw Key_Int64 = 3"
| "key_type_raw Key_Boolean = 4"
| "key_type_raw Key_Float32 = 5"
| "key_type_raw Key_Float64 = 6"
| "key_type_raw Key_Utf8View = 7"
| "key_type_raw Key_Uuid = 8"
| "key_type_raw Key_BinaryView = 9"
| "key_type_raw Key_Date32 = 10"
| "key_type_raw Key_Time64Microsecond = 11"
| "key_type_raw Key_TimestampMicrosecond = 12"
| "key_type_raw Key_Decimal128 = 13"
| "key_type_raw Key_IntervalMonthDayNano = 14"

definition key_type_from_raw :: "u32 \<Rightarrow> filter_key_type option" where
  "key_type_from_raw v = map_of
     [(1, Key_Int16), (2, Key_Int32), (3, Key_Int64), (4, Key_Boolean), (5, Key_Float32), (6, Key_Float64),
      (7, Key_Utf8View), (8, Key_Uuid), (9, Key_BinaryView), (10, Key_Date32), (11, Key_Time64Microsecond),
      (12, Key_TimestampMicrosecond), (13, Key_Decimal128), (14, Key_IntervalMonthDayNano)] v"

record filter_target =
  ft_session_epoch :: u64
  ft_scan_id :: u64
  ft_output_column :: u32
  ft_key_type :: filter_key_type

record filter_pool_config =
  fc_slot_count :: u32
  fc_params :: bloom_params

datatype filter_attach_error =
    Fpa_NullBase
  | Fpa_Layout
  | Fpa_LayoutOverflow
  | Fpa_Misaligned nat nat
  | Fpa_TooSmall nat nat
  | Fpa_InvalidMagic u64
  | Fpa_InvalidVersion u32 u32
  | Fpa_ConfigMismatch
  | Fpa_Bloom bloom_attach_error
  | Fpa_Lifecycle lifecycle_error

definition filter_pool_magic :: u64 where
  "filter_pool_magic = 0x5047465552465031"

definition runtime_filter_pool_version :: u32 where
  "runtime_filter_pool_version = 1"

definition slot_free :: u32 where
  "slot_free = 0"

definition slot_allocated :: u32 where
  "slot_allocated = 1"

definition slot_retiring :: u32 where
  "slot_retiring = 2"

record filter_pool_header =
  fh_magic :: u64
  fh_version :: u32
  fh_slot_count :: u32
  fh_bit_count :: u64
  fh_hash_count :: u32
  fh_seed :: u64
  fh_word_count :: u64
  fh_region_size :: u64

record filter_pool_slot =
  sl_state :: u32
  sl_refs :: u32
  sl_generation :: u64
  sl_session_epoch :: u64
  sl_scan_id :: u64
  sl_output_column :: u32
  sl_key_type :: u32
  sl_lifecycle :: u64

definition pool_slot_new :: filter_pool_slot where
  "pool_slot_new = \<lparr>sl_state = slot_free, sl_refs = 0, sl_generation = 0, sl_session_epoch = 0, sl_scan_id = 0,
     sl_output_column = 0, sl_key_type = 0, sl_lifecycle = 0\<rparr>"

record filter_region =
  fr_header :: filter_pool_header
  fr_slots :: "filter_pool_slot list"
  fr_bits :: "u64 list"

record filter_layout =
  fl_layout :: layout
  fl_slots_offset :: nat
  fl_bits_offset :: nat

text \<open>\<open>PoolHeader\<close> occupies 56 bytes and \<open>PoolSlot\<close> 48, both aligned to 8.\<close>

definition filter_computed_layout :: "filter_pool_config \<Rightarrow> filter_attach_error + filter_layout" where
  "filter_computed_layout cfg =
     try_bind (ok_or Fpa_Layout (layout_array 48 8 (unat (fc_slot_count cfg)))) (\<lambda>slots.
     try_bind (ok_or Fpa_Layout (layout_extend \<lparr>lsize = 56, lalign = 8\<rparr> slots)) (\<lambda>(l1, slots_offset).
     try_bind (ok_or Fpa_LayoutOverflow (checked_mul_usize (unat (fc_slot_count cfg)) (bp_word_count (fc_params cfg))))
       (\<lambda>total_words.
     try_bind (ok_or Fpa_Layout (layout_array 8 8 total_words)) (\<lambda>bits.
     try_bind (ok_or Fpa_Layout (layout_extend l1 bits)) (\<lambda>(l2, bits_offset).
     Inr \<lparr>fl_layout = pad_to_align l2, fl_slots_offset = slots_offset, fl_bits_offset = bits_offset\<rparr>)))))"

definition filter_pool_layout :: "filter_pool_config \<Rightarrow> filter_attach_error + (nat \<times> nat)" where
  "filter_pool_layout cfg =
     try_bind (filter_computed_layout cfg) (\<lambda>l. Inr (lsize (fl_layout l), lalign (fl_layout l)))"

text \<open>A region starts at an address; the null pointer is 0.\<close>

definition filter_validate_region :: "nat \<Rightarrow> nat \<Rightarrow> layout \<Rightarrow> filter_attach_error + unit" where
  "filter_validate_region base len l =
     (if base = 0 then Inl Fpa_NullBase
      else let actual_align = base AND (lalign l - 1) in
        if actual_align \<noteq> 0 then Inl (Fpa_Misaligned (lalign l) actual_align)
        else if len < lsize l then Inl (Fpa_TooSmall (lsize l) len)
        else Inr ())"

definition total_word_count :: "filter_pool_config \<Rightarrow> nat" where
  "total_word_count cfg = unat (fc_slot_count cfg) * bp_word_count (fc_params cfg)"

text \<open>A pool handle: the three pointers are there together or not at all.\<close>

record filter_pool =
  fp_attached :: bool
  fp_config :: filter_pool_config

definition filter_pool_default :: "filter_pool option" where
  "filter_pool_default = (case bloom_params_new 1 1 0 of
     Inl _ \<Rightarrow> None
   | Inr p \<Rightarrow> Some \<lparr>fp_attached = False, fp_config = \<lparr>fc_slot_count = 0, fc_params = p\<rparr>\<rparr>)"

definition filter_header_for :: "filter_pool_config \<Rightarrow> filter_layout \<Rightarrow> filter_pool_header" where
  "filter_header_for cfg l =
     \<lparr>fh_magic = filter_pool_magic, fh_version = runtime_filter_pool_version, fh_slot_count = fc_slot_count cfg,
      fh_bit_count = of_nat (bp_bit_count (fc_params cfg)), fh_hash_count = of_nat (bp_hash_count (fc_params cfg)),
      fh_seed = bp_seed (fc_params cfg), fh_word_count = of_nat (bp_word_count (fc_params cfg)),
      fh_region_size = of_nat (lsize (fl_layout l))\<rparr>"

definition filter_init_in_place ::
  "nat \<Rightarrow> nat \<Rightarrow> filter_pool_config \<Rightarrow> filter_attach_error + (filter_region \<times> filter_pool)" where
  "filter_init_in_place base len cfg =
     try_bind (filter_computed_layout cfg) (\<lambda>l.
     try_bind (filter_validate_region base len (fl_layout l)) (\<lambda>_.
     Inr (\<lparr>fr_header = filter_header_for cfg l,
           fr_slots = replicate (unat (fc_slot_count cfg)) pool_slot_new,
           fr_bits = replicate (total_word_count cfg) 0\<rparr>,
          \<lparr>fp_attached = True, fp_config = cfg\<rparr>)))"

definition filter_attach :: "nat \<Rightarrow> nat \<Rightarrow> filter_pool_config \<Rightarrow> filter_region \<Rightarrow> filter_attach_error + filter_pool" where
  "filter_attach base len cfg r =
     try_bind (filter_computed_layout cfg) (\<lambda>l.
     try_bind (filter_validate_region base len (fl_layout l)) (\<lambda>_.
     let h = fr_header r; p = fc_params cfg in
     if fh_magic h \<noteq> filter_pool_magic then Inl (Fpa_InvalidMagic (fh_magic h))
     else if fh_version h \<noteq> runtime_filter_pool_version
       then Inl (Fpa_InvalidVersion runtime_filter_pool_version (fh_version h))
     else if fh_slot_count h \<noteq> fc_slot_count cfg \<or> fh_bit_count h \<noteq> of_nat (bp_bit_count p)
         \<or> fh_hash_count h \<noteq> of_nat (bp_hash_count p) \<or> fh_seed h \<noteq> bp_seed p
         \<or> fh_word_count h \<noteq> of_nat (bp_word_count p) \<or> fh_region_size h \<noteq> of_nat (lsize (fl_layout l))
       then Inl Fpa_ConfigMismatch
     else Inr \<lparr>fp_attached = True, fp_config = cfg\<rparr>))"

section \<open>Slots\<close>

definition pool_slot_at :: "filter_pool \<Rightarrow> filter_region \<Rightarrow> nat \<Rightarrow> filter_pool_slot option" where
  "pool_slot_at pl r i = (if fp_attached pl then index_opt (fr_slots r) i else None)"

definition put_pool_slot :: "nat \<Rightarrow> filter_pool_slot \<Rightarrow> filter_region \<Rightarrow> filter_region" where
  "put_pool_slot i slot r = r\<lparr>fr_slots := (fr_slots r)[i := slot]\<rparr>"

definition bits_for_slot :: "filter_pool \<Rightarrow> filter_region \<Rightarrow> nat \<Rightarrow> u64 list option" where
  "bits_for_slot pl r i =
     (let wc = bp_word_count (fc_params (fp_config pl)); offset = i * wc in
      if fp_attached pl \<and> offset + wc \<le> length (fr_bits r) then Some (take wc (drop offset (fr_bits r))) else None)"

definition filter_runtime_slot :: "filter_pool \<Rightarrow> filter_region \<Rightarrow> nat \<Rightarrow> (filter_attach_error + filter_slot) option" where
  "filter_runtime_slot pl r i = do {
     slot \<leftarrow> pool_slot_at pl r i;
     bits \<leftarrow> bits_for_slot pl r i;
     Some (map_err Fpa_Bloom (filter_slot_new (sl_lifecycle slot) bits (fc_params (fp_config pl))))
   }"

text \<open>A runtime slot refers to the lifecycle word and the bits of the region: writing them back.\<close>

definition put_bits :: "filter_pool \<Rightarrow> nat \<Rightarrow> u64 list \<Rightarrow> filter_region \<Rightarrow> filter_region" where
  "put_bits pl i bits r =
     (let offset = i * bp_word_count (fc_params (fp_config pl)) in
      r\<lparr>fr_bits := take offset (fr_bits r) @ bits @ drop (offset + length bits) (fr_bits r)\<rparr>)"

definition put_runtime_slot :: "filter_pool \<Rightarrow> nat \<Rightarrow> filter_slot \<Rightarrow> filter_region \<Rightarrow> filter_region option" where
  "put_runtime_slot pl i s r = do {
     slot \<leftarrow> pool_slot_at pl r i;
     Some (put_bits pl i (fs_bits s) (put_pool_slot i (slot\<lparr>sl_lifecycle := fs_lifecycle s\<rparr>) r))
   }"

section \<open>Handles\<close>

record filter_build_handle =
  bh_slot :: nat
  bh_generation :: u64
  bh_released :: bool

record filter_probe_handle =
  ph_slot :: nat
  ph_generation :: u64
  ph_output_column :: u32
  ph_key_type :: filter_key_type
  ph_released :: bool

fun allocate_from ::
  "filter_pool \<Rightarrow> filter_target \<Rightarrow> nat list \<Rightarrow> filter_region \<Rightarrow>
     (filter_region \<times> (filter_attach_error + filter_build_handle option)) option" where
  "allocate_from pl target [] r = Some (r, Inr None)"
| "allocate_from pl target (i # is) r = do {
     slot \<leftarrow> pool_slot_at pl r i;
     if sl_state slot \<noteq> slot_free then allocate_from pl target is r
     else do {
       let slot1 = slot\<lparr>sl_state := slot_allocated, sl_refs := 1, sl_session_epoch := ft_session_epoch target,
                        sl_scan_id := ft_scan_id target, sl_output_column := ft_output_column target,
                        sl_key_type := key_type_raw (ft_key_type target)\<rparr>;
       let r1 = put_pool_slot i slot1 r;
       attached \<leftarrow> filter_runtime_slot pl r1 i;
       (case attached of
          Inl e \<Rightarrow> Some (r1, Inl e)
        | Inr s \<Rightarrow> do {
            (s1, acquired) \<leftarrow> try_acquire_builder s;
            (case acquired of
               Inl e \<Rightarrow> Some (put_pool_slot i (slot1\<lparr>sl_refs := 0, sl_state := slot_free\<rparr>) r1, Inl (Fpa_Lifecycle e))
             | Inr builder \<Rightarrow> do {
                 (s2, g) \<leftarrow> builder_detach builder s1;
                 r2 \<leftarrow> put_runtime_slot pl i s2 r1;
                 slot2 \<leftarrow> pool_slot_at pl r2 i;
                 Some (put_pool_slot i (slot2\<lparr>sl_generation := g\<rparr>) r2,
                   Inr (Some \<lparr>bh_slot = i, bh_generation = g, bh_released = False\<rparr>))
               })
          })
     }
   }"

definition allocate_build ::
  "filter_pool \<Rightarrow> filter_target \<Rightarrow> filter_region \<Rightarrow>
     (filter_region \<times> (filter_attach_error + filter_build_handle option)) option" where
  "allocate_build pl target r =
     (if \<not> fp_attached pl \<or> fc_slot_count (fp_config pl) = 0 then Some (r, Inr None)
      else allocate_from pl target [0..<unat (fc_slot_count (fp_config pl))] r)"

text \<open>What the last release of a retiring slot does to its lifecycle.\<close>

definition retire_lifecycle :: "u64 \<Rightarrow> filter_slot \<Rightarrow> filter_slot option" where
  "retire_lifecycle generation s = do {
     snapshot \<leftarrow> unpack_lifecycle_word (fs_lifecycle s);
     (case ls_state snapshot of
        Filter_Ready \<Rightarrow> do { (s1, _) \<leftarrow> retire_ready_after_quiescence generation s; Some s1 }
      | Filter_Building \<Rightarrow> do { (s1, _) \<leftarrow> slot_disable_build generation s; Some s1 }
      | _ \<Rightarrow> Some s)
   }"

text \<open>The counter wraps; \<open>debug_assert!(old_refs > 0)\<close> is not part of a release build.\<close>

definition release_ref :: "filter_pool \<Rightarrow> nat \<Rightarrow> filter_region \<Rightarrow> filter_region option" where
  "release_ref pl i r = do {
     slot \<leftarrow> pool_slot_at pl r i;
     let old_refs = sl_refs slot;
     let r1 = put_pool_slot i (slot\<lparr>sl_refs := old_refs - 1\<rparr>) r;
     if old_refs = 1 \<and> sl_state slot = slot_retiring
     then do {
       attached \<leftarrow> filter_runtime_slot pl r1 i;
       r2 \<leftarrow> (case attached of
          Inl _ \<Rightarrow> Some r1
        | Inr s \<Rightarrow> do { s1 \<leftarrow> retire_lifecycle (sl_generation slot) s; put_runtime_slot pl i s1 r1 });
       slot2 \<leftarrow> pool_slot_at pl r2 i;
       Some (put_pool_slot i (slot2\<lparr>sl_session_epoch := 0, sl_scan_id := 0, sl_output_column := 0, sl_key_type := 0,
               sl_generation := 0, sl_state := slot_free\<rparr>) r2)
     }
     else Some r1
   }"

definition release_owner :: "filter_pool \<Rightarrow> nat \<Rightarrow> filter_region \<Rightarrow> filter_region option" where
  "release_owner pl i r = do {
     slot \<leftarrow> pool_slot_at pl r i;
     release_ref pl i (if sl_state slot = slot_allocated then put_pool_slot i (slot\<lparr>sl_state := slot_retiring\<rparr>) r else r)
   }"

fun lookup_from ::
  "filter_pool \<Rightarrow> u64 \<Rightarrow> u64 \<Rightarrow> nat list \<Rightarrow> filter_region \<Rightarrow> filter_probe_handle list \<Rightarrow>
     (filter_region \<times> filter_probe_handle list) option" where
  "lookup_from pl epoch scan [] r probes = Some (r, probes)"
| "lookup_from pl epoch scan (i # is) r probes = do {
     slot \<leftarrow> pool_slot_at pl r i;
     if sl_state slot \<noteq> slot_allocated then lookup_from pl epoch scan is r probes
     else do {
       let slot1 = slot\<lparr>sl_refs := sl_refs slot + 1\<rparr>;
       let r1 = put_pool_slot i slot1 r;
       if \<not> (sl_state slot1 = slot_allocated \<and> sl_session_epoch slot1 = epoch \<and> sl_scan_id slot1 = scan)
       then do { r2 \<leftarrow> release_ref pl i r1; lookup_from pl epoch scan is r2 probes }
       else (case key_type_from_raw (sl_key_type slot1) of
           None \<Rightarrow> do { r2 \<leftarrow> release_ref pl i r1; lookup_from pl epoch scan is r2 probes }
         | Some key_type \<Rightarrow> lookup_from pl epoch scan is r1 (probes @ [
             \<lparr>ph_slot = i, ph_generation = sl_generation slot1, ph_output_column = sl_output_column slot1,
              ph_key_type = key_type, ph_released = False\<rparr>]))
     }
   }"

definition lookup_probes ::
  "filter_pool \<Rightarrow> u64 \<Rightarrow> u64 \<Rightarrow> filter_region \<Rightarrow> filter_probe_handle list \<Rightarrow> (filter_region \<times> filter_probe_handle list) option" where
  "lookup_probes pl epoch scan r probes =
     (if \<not> fp_attached pl then Some (r, probes)
      else lookup_from pl epoch scan [0..<unat (fc_slot_count (fp_config pl))] r probes)"

definition build_insert_hash ::
  "filter_pool \<Rightarrow> filter_build_handle \<Rightarrow> u64 \<Rightarrow> filter_region \<Rightarrow> (filter_region \<times> (filter_attach_error + unit)) option" where
  "build_insert_hash pl h hash r = do {
     slot \<leftarrow> pool_slot_at pl r (bh_slot h);
     snapshot \<leftarrow> unpack_lifecycle_word (sl_lifecycle slot);
     if ls_generation snapshot = bh_generation h \<and> ls_state snapshot = Filter_Building
     then do {
       bits \<leftarrow> bits_for_slot pl r (bh_slot h);
       (case bloom_attach bits (fc_params (fp_config pl)) of
          Inl e \<Rightarrow> Some (r, Inl (Fpa_Bloom e))
        | Inr bloom \<Rightarrow> do {
            bits1 \<leftarrow> insert_hash (fc_params (fp_config pl)) hash bloom;
            Some (put_bits pl (bh_slot h) bits1 r, Inr ())
          })
     }
     else Some (r, Inr ())
   }"

text \<open>\<open>publish_ready\<close> and \<open>disable_build\<close> of a build handle.\<close>

definition build_transition ::
  "(u64 \<Rightarrow> filter_slot \<Rightarrow> (filter_slot \<times> (lifecycle_error + 'a)) option) \<Rightarrow> filter_pool \<Rightarrow> filter_build_handle \<Rightarrow> filter_region \<Rightarrow>
     (filter_region \<times> (filter_attach_error + unit)) option" where
  "build_transition f pl h r = do {
     attached \<leftarrow> filter_runtime_slot pl r (bh_slot h);
     (case attached of
        Inl e \<Rightarrow> Some (r, Inl e)
      | Inr s \<Rightarrow> do {
          (s1, res) \<leftarrow> f (bh_generation h) s;
          r1 \<leftarrow> put_runtime_slot pl (bh_slot h) s1 r;
          Some (r1, try_bind (map_err Fpa_Lifecycle res) (\<lambda>_. Inr ()))
        })
   }"

definition build_publish_ready ::
  "filter_pool \<Rightarrow> filter_build_handle \<Rightarrow> filter_region \<Rightarrow> (filter_region \<times> (filter_attach_error + unit)) option" where
  "build_publish_ready = build_transition publish_build"

definition build_disable ::
  "filter_pool \<Rightarrow> filter_build_handle \<Rightarrow> filter_region \<Rightarrow> (filter_region \<times> (filter_attach_error + unit)) option" where
  "build_disable = build_transition slot_disable_build"

text \<open>Releasing a handle, explicitly or by dropping it, counts once.\<close>

definition build_release :: "filter_pool \<Rightarrow> filter_build_handle \<Rightarrow> filter_region \<Rightarrow> (filter_region \<times> filter_build_handle) option" where
  "build_release pl h r =
     (if bh_released h then Some (r, h)
      else do { r1 \<leftarrow> release_owner pl (bh_slot h) r; Some (r1, h\<lparr>bh_released := True\<rparr>) })"

definition probe_release :: "filter_pool \<Rightarrow> filter_probe_handle \<Rightarrow> filter_region \<Rightarrow> (filter_region \<times> filter_probe_handle) option" where
  "probe_release pl h r =
     (if ph_released h then Some (r, h)
      else do { r1 \<leftarrow> release_ref pl (ph_slot h) r; Some (r1, h\<lparr>ph_released := True\<rparr>) })"

definition probe_decision_for_hash :: "filter_pool \<Rightarrow> filter_probe_handle \<Rightarrow> u64 \<Rightarrow> filter_region \<Rightarrow> probe_decision option" where
  "probe_decision_for_hash pl h hash r = do {
     attached \<leftarrow> filter_runtime_slot pl r (ph_slot h);
     (case attached of
        Inl _ \<Rightarrow> Some PassUnfiltered
      | Inr s \<Rightarrow> decision_for_hash (fc_params (fp_config pl)) (ph_generation h) hash s)
   }"

definition probe_decision_for_null :: "filter_pool \<Rightarrow> filter_probe_handle \<Rightarrow> filter_region \<Rightarrow> probe_decision option" where
  "probe_decision_for_null pl h r = do {
     attached \<leftarrow> filter_runtime_slot pl r (ph_slot h);
     (case attached of
        Inl _ \<Rightarrow> Some PassUnfiltered
      | Inr s \<Rightarrow> decision_for_null (ph_generation h) s)
   }"

section \<open>Slots of a region\<close>

abbreviation pool_params :: "filter_pool \<Rightarrow> bloom_params" where
  "pool_params pl \<equiv> fc_params (fp_config pl)"

abbreviation pool_slots :: "filter_pool \<Rightarrow> nat" where
  "pool_slots pl \<equiv> unat (fc_slot_count (fp_config pl))"

definition region_ok :: "filter_pool \<Rightarrow> filter_region \<Rightarrow> bool" where
  "region_ok pl r \<longleftrightarrow> fp_attached pl \<and> length (fr_slots r) = pool_slots pl \<and>
     length (fr_bits r) = pool_slots pl * bp_word_count (pool_params pl)"

definition slot_bits :: "filter_pool \<Rightarrow> filter_region \<Rightarrow> nat \<Rightarrow> u64 list" where
  "slot_bits pl r i = take (bp_word_count (pool_params pl)) (drop (i * bp_word_count (pool_params pl)) (fr_bits r))"

text \<open>The region after a step that touches slot \<open>i\<close> only.\<close>

definition region_upd ::
  "filter_pool \<Rightarrow> nat \<Rightarrow> filter_pool_slot \<Rightarrow> u64 list \<Rightarrow> filter_region \<Rightarrow> filter_region \<Rightarrow> bool" where
  "region_upd pl i slot bits r r' \<longleftrightarrow> region_ok pl r' \<and> fr_slots r' = (fr_slots r)[i := slot] \<and>
     (\<forall>j < pool_slots pl. slot_bits pl r' j = (if j = i then bits else slot_bits pl r j))"

lemma slot_chunk_bound: "i < n \<Longrightarrow> i * wc + wc \<le> n * (wc :: nat)"
  using mult_le_mono1 [of "Suc i" n wc] by simp

lemma region_ok_read:
  assumes "region_ok pl r" and "i < pool_slots pl"
  shows "pool_slot_at pl r i = Some (fr_slots r ! i)" "bits_for_slot pl r i = Some (slot_bits pl r i)"
    "length (slot_bits pl r i) = bp_word_count (pool_params pl)"
    "filter_runtime_slot pl r i = Some (Inr \<lparr>fs_lifecycle = sl_lifecycle (fr_slots r ! i), fs_bits = slot_bits pl r i\<rparr>)"
proof -
  note b = slot_chunk_bound [OF assms(2), of "bp_word_count (pool_params pl)"]
  show 1: "pool_slot_at pl r i = Some (fr_slots r ! i)" using assms by (simp add: pool_slot_at_def region_ok_def)
  show 2: "bits_for_slot pl r i = Some (slot_bits pl r i)"
    using assms b by (simp add: bits_for_slot_def region_ok_def slot_bits_def Let_def)
  show 3: "length (slot_bits pl r i) = bp_word_count (pool_params pl)"
    using assms b by (simp add: region_ok_def slot_bits_def)
  show "filter_runtime_slot pl r i = Some (Inr \<lparr>fs_lifecycle = sl_lifecycle (fr_slots r ! i), fs_bits = slot_bits pl r i\<rparr>)"
    using 1 2 3 by (simp add: filter_runtime_slot_def filter_slot_new_def bloom_attach_def)
qed

lemma region_upd_slot:
  assumes "region_ok pl r" and "i < pool_slots pl"
  shows "region_upd pl i slot (slot_bits pl r i) r (put_pool_slot i slot r)"
  using assms by (simp add: region_upd_def region_ok_def put_pool_slot_def slot_bits_def)

text \<open>Replacing one chunk leaves the others.\<close>

lemma take_drop_before: "b + n \<le> a \<Longrightarrow> a \<le> length xs \<Longrightarrow> take n (drop b (take a xs @ zs)) = take n (drop b xs)"
  by (simp add: drop_take min_def) linarith

lemma chunk_replace:
  assumes "i < n" "j < n" "length xs = n * wc" "length ys = wc"
  shows "take wc (drop (j * wc) (take (i * wc) xs @ ys @ drop (i * wc + wc) xs)) =
    (if j = i then ys else take wc (drop (j * wc) xs))"
proof -
  note bi = slot_chunk_bound [OF assms(1), of wc] and bj = slot_chunk_bound [OF assms(2), of wc]
  consider "j = i" | "j < i" | "i < j" by linarith
  then show ?thesis
  proof cases
    case 2
    then have "j * wc + wc \<le> i * wc" by (rule slot_chunk_bound)
    moreover have "i * wc \<le> length xs" using bi assms(3) by linarith
    ultimately show ?thesis using 2 take_drop_before [of "j * wc" wc "i * wc" xs "ys @ drop (i * wc + wc) xs"] by simp
  next
    case 3
    then have "i * wc + wc \<le> j * wc" by (rule slot_chunk_bound)
    moreover have "min (n * wc) (i * wc) = i * wc" using bi by linarith
    ultimately show ?thesis using 3 assms(3,4) by simp
  qed (use bi assms in simp)
qed

lemma region_upd_bits:
  assumes "region_ok pl r" and "i < pool_slots pl" and "length bits = bp_word_count (pool_params pl)"
  shows "region_upd pl i (fr_slots r ! i) bits r (put_bits pl i bits r)"
proof -
  note b = slot_chunk_bound [OF assms(2), of "bp_word_count (pool_params pl)"]
  have "slot_bits pl (put_bits pl i bits r) j = (if j = i then bits else slot_bits pl r j)" if "j < pool_slots pl" for j
    using chunk_replace [OF assms(2) that _ assms(3), of "fr_bits r"] assms(1,3)
    by (simp add: slot_bits_def put_bits_def Let_def region_ok_def)
  moreover have "region_ok pl (put_bits pl i bits r)" using assms b by (simp add: region_ok_def put_bits_def Let_def)
  ultimately show ?thesis by (simp add: region_upd_def put_bits_def Let_def)
qed

lemma region_upd_ok: "region_upd pl i slot bits r r' \<Longrightarrow> region_ok pl r'"
  by (simp add: region_upd_def)

lemma region_upd_trans:
  assumes "region_upd pl i slot bits r r'" and "region_upd pl i slot' bits' r' r''"
  shows "region_upd pl i slot' bits' r r''"
  using assms by (simp add: region_upd_def)

lemma region_upd_at:
  assumes "region_upd pl i slot bits r r'" and "i < pool_slots pl"
  shows "fr_slots r' ! i = slot" "slot_bits pl r' i = bits"
proof -
  have "length (fr_slots r) = pool_slots pl" using assms(1) by (metis length_list_update region_ok_def region_upd_def)
  with assms show "fr_slots r' ! i = slot" "slot_bits pl r' i = bits" by (simp_all add: region_upd_def)
qed

lemma put_runtime_slot_upd:
  assumes "region_ok pl r" and "i < pool_slots pl" and "length (fs_bits s) = bp_word_count (pool_params pl)"
  obtains r' where "put_runtime_slot pl i s r = Some r'"
    "region_upd pl i ((fr_slots r ! i)\<lparr>sl_lifecycle := fs_lifecycle s\<rparr>) (fs_bits s) r r'"
proof -
  let ?slot = "(fr_slots r ! i)\<lparr>sl_lifecycle := fs_lifecycle s\<rparr>"
  note u = region_upd_slot [OF assms(1,2), of ?slot]
  note v = region_upd_bits [OF region_upd_ok [OF u] assms(2,3)]
  have "put_runtime_slot pl i s r = Some (put_bits pl i (fs_bits s) (put_pool_slot i ?slot r))"
    by (simp add: put_runtime_slot_def region_ok_read [OF assms(1,2)])
  then show thesis using region_upd_trans [OF u v] region_upd_at(1) [OF u assms(2)] by (intro that) simp_all
qed

section \<open>What a release does to its slot\<close>

definition freed_slot :: "filter_pool_slot \<Rightarrow> u64 \<Rightarrow> filter_pool_slot" where
  "freed_slot slot w = slot\<lparr>sl_refs := 0, sl_lifecycle := w, sl_session_epoch := 0, sl_scan_id := 0, sl_output_column := 0,
     sl_key_type := 0, sl_generation := 0, sl_state := slot_free\<rparr>"

lemma retire_lifecycle_disabled:
  assumes "lifecycle_is w g st" and "st \<noteq> Filter_Free"
  obtains w' where "retire_lifecycle g \<lparr>fs_lifecycle = w, fs_bits = bits\<rparr> = Some \<lparr>fs_lifecycle = w', fs_bits = bits\<rparr>"
    "lifecycle_is w' g Filter_Disabled"
proof -
  obtain w' where w': "pack_lifecycle_word g Filter_Disabled = Inr w'" "lifecycle_is w' g Filter_Disabled"
    by (rule pack_other [OF assms(1)])
  show thesis
  proof (cases st)
    case Filter_Disabled
    with assms show thesis by (intro that [of w]) (simp_all add: retire_lifecycle_def lifecycle_is_def)
  qed (use assms w' lifecycle_is_pack [OF assms(1)] in \<open>auto intro!: that [of w'] simp: retire_lifecycle_def lifecycle_is_def
      retire_ready_after_quiescence_def slot_disable_build_def transition_build_def compare_exchange_def\<close>)
qed

lemma release_ref_keeps:
  assumes "region_ok pl r" and "i < pool_slots pl"
    and "\<not> (sl_refs (fr_slots r ! i) = 1 \<and> sl_state (fr_slots r ! i) = slot_retiring)"
  obtains r' where "release_ref pl i r = Some r'"
    "region_upd pl i ((fr_slots r ! i)\<lparr>sl_refs := sl_refs (fr_slots r ! i) - 1\<rparr>) (slot_bits pl r i) r r'"
  using assms region_upd_slot [OF assms(1,2)] by (auto simp: release_ref_def region_ok_read Let_def intro!: that)

lemma release_ref_frees:
  assumes ok: "region_ok pl r" "i < pool_slots pl"
    and slot: "sl_refs (fr_slots r ! i) = 1" "sl_state (fr_slots r ! i) = slot_retiring"
    and l: "lifecycle_is (sl_lifecycle (fr_slots r ! i)) (sl_generation (fr_slots r ! i)) st" "st \<noteq> Filter_Free"
  obtains r' w where "release_ref pl i r = Some r'" "region_upd pl i (freed_slot (fr_slots r ! i) w) (slot_bits pl r i) r r'"
    "lifecycle_is w (sl_generation (fr_slots r ! i)) Filter_Disabled"
proof -
  let ?slot = "fr_slots r ! i" and ?bits = "slot_bits pl r i"
  let ?slot1 = "?slot\<lparr>sl_refs := 0\<rparr>"
  define r1 where "r1 = put_pool_slot i ?slot1 r"
  have u: "region_upd pl i ?slot1 ?bits r r1" unfolding r1_def by (rule region_upd_slot [OF ok])
  note at = region_upd_at [OF u ok(2)]
  note read = region_ok_read [OF region_upd_ok [OF u] ok(2), unfolded at]
  obtain w where w: "retire_lifecycle (sl_generation ?slot) \<lparr>fs_lifecycle = sl_lifecycle ?slot, fs_bits = ?bits\<rparr> =
      Some \<lparr>fs_lifecycle = w, fs_bits = ?bits\<rparr>" "lifecycle_is w (sl_generation ?slot) Filter_Disabled"
    by (rule retire_lifecycle_disabled [OF l])
  obtain r2 where r2: "put_runtime_slot pl i \<lparr>fs_lifecycle = w, fs_bits = ?bits\<rparr> r1 = Some r2"
    "region_upd pl i (?slot1\<lparr>sl_lifecycle := w\<rparr>) ?bits r1 r2"
    using put_runtime_slot_upd [OF region_upd_ok [OF u] ok(2), of "\<lparr>fs_lifecycle = w, fs_bits = ?bits\<rparr>"] read(3) at by auto
  note v = region_upd_trans [OF u r2(2)] and at2 = region_upd_at [OF r2(2) ok(2)]
  let ?r' = "put_pool_slot i (freed_slot ?slot w) r2"
  have "release_ref pl i r = Some ?r'"
    using w(1) r2(1) at2 region_ok_read(1) [OF region_upd_ok [OF v] ok(2)] read(4) region_ok_read(1) [OF ok] slot
    by (simp add: release_ref_def r1_def [symmetric] freed_slot_def)
  moreover have "region_upd pl i (freed_slot ?slot w) ?bits r ?r'"
    using region_upd_trans [OF v region_upd_slot [OF region_upd_ok [OF v] ok(2)]] at2(2) by simp
  ultimately show thesis using w(2) by (rule that)
qed

section \<open>Clients\<close>

text \<open>The handles that are alive, and the hashes inserted under each slot and generation while it was being built.\<close>

record filter_clients =
  cl_region :: filter_region
  cl_builds :: "filter_build_handle list"
  cl_probes :: "filter_probe_handle list"
  cl_log :: "nat \<Rightarrow> u64 \<Rightarrow> u64 set"

datatype filter_op =
    Op_allocate filter_target
  | Op_lookup u64 u64
  | Op_insert nat u64
  | Op_publish nat
  | Op_disable nat
  | Op_drop_build nat
  | Op_drop_probe nat

definition drop_nth :: "nat \<Rightarrow> 'a list \<Rightarrow> 'a list" where
  "drop_nth k xs = take k xs @ drop (Suc k) xs"

definition handle_building :: "filter_pool \<Rightarrow> filter_region \<Rightarrow> filter_build_handle \<Rightarrow> bool" where
  "handle_building pl r h \<longleftrightarrow> (case pool_slot_at pl r (bh_slot h) of
     None \<Rightarrow> False
   | Some slot \<Rightarrow> lifecycle_is (sl_lifecycle slot) (bh_generation h) Filter_Building)"

text \<open>One call of a client; a handle is named by its place in the list.\<close>

fun filter_client_step :: "filter_pool \<Rightarrow> filter_op \<Rightarrow> filter_clients \<Rightarrow> filter_clients option" where
  "filter_client_step pl (Op_allocate target) c = do {
     (r, res) \<leftarrow> allocate_build pl target (cl_region c);
     Some (c\<lparr>cl_region := r, cl_builds := cl_builds c @ (case res of Inr (Some h) \<Rightarrow> [h] | _ \<Rightarrow> [])\<rparr>)
   }"
| "filter_client_step pl (Op_lookup epoch scan) c = do {
     (r, probes) \<leftarrow> lookup_probes pl epoch scan (cl_region c) (cl_probes c);
     Some (c\<lparr>cl_region := r, cl_probes := probes\<rparr>)
   }"
| "filter_client_step pl (Op_insert k hash) c =
     (if k < length (cl_builds c)
      then let h = cl_builds c ! k; log = cl_log c in do {
        (r, _) \<leftarrow> build_insert_hash pl h hash (cl_region c);
        Some (c\<lparr>cl_region := r, cl_log := (if handle_building pl (cl_region c) h
          then log(bh_slot h := (log (bh_slot h))(bh_generation h := insert hash (log (bh_slot h) (bh_generation h)))) else log)\<rparr>)
      }
      else Some c)"
| "filter_client_step pl (Op_publish k) c =
     (if k < length (cl_builds c)
      then do { (r, _) \<leftarrow> build_publish_ready pl (cl_builds c ! k) (cl_region c); Some (c\<lparr>cl_region := r\<rparr>) }
      else Some c)"
| "filter_client_step pl (Op_disable k) c =
     (if k < length (cl_builds c)
      then do { (r, _) \<leftarrow> build_disable pl (cl_builds c ! k) (cl_region c); Some (c\<lparr>cl_region := r\<rparr>) }
      else Some c)"
| "filter_client_step pl (Op_drop_build k) c =
     (if k < length (cl_builds c)
      then do { (r, _) \<leftarrow> build_release pl (cl_builds c ! k) (cl_region c);
                Some (c\<lparr>cl_region := r, cl_builds := drop_nth k (cl_builds c)\<rparr>) }
      else Some c)"
| "filter_client_step pl (Op_drop_probe k) c =
     (if k < length (cl_probes c)
      then do { (r, _) \<leftarrow> probe_release pl (cl_probes c ! k) (cl_region c);
                Some (c\<lparr>cl_region := r, cl_probes := drop_nth k (cl_probes c)\<rparr>) }
      else Some c)"

fun filter_client_run :: "filter_pool \<Rightarrow> filter_op list \<Rightarrow> filter_clients \<Rightarrow> filter_clients option" where
  "filter_client_run pl [] c = Some c"
| "filter_client_run pl (op # ops) c = do { c1 \<leftarrow> filter_client_step pl op c; filter_client_run pl ops c1 }"

definition filter_clients_start :: "filter_region \<Rightarrow> filter_clients" where
  "filter_clients_start r = \<lparr>cl_region = r, cl_builds = [], cl_probes = [], cl_log = (\<lambda>_ _. {})\<rparr>"

section \<open>Invariant\<close>

definition build_gens :: "filter_clients \<Rightarrow> nat \<Rightarrow> u64 list" where
  "build_gens c i = map bh_generation (filter (\<lambda>h. bh_slot h = i) (cl_builds c))"

definition probe_gens :: "filter_clients \<Rightarrow> nat \<Rightarrow> u64 list" where
  "probe_gens c i = map ph_generation (filter (\<lambda>h. ph_slot h = i) (cl_probes c))"

text \<open>A slot with handles: all are of its generation, and unless that is disabled the bits hold what was inserted.\<close>

definition slot_live :: "bloom_params \<Rightarrow> filter_pool_slot \<Rightarrow> u64 list \<Rightarrow> u64 list \<Rightarrow> (u64 \<Rightarrow> u64 set) \<Rightarrow> bool" where
  "slot_live p slot bits gens log \<longleftrightarrow> set gens \<subseteq> {sl_generation slot} \<and>
     (\<exists>st. lifecycle_is (sl_lifecycle slot) (sl_generation slot) st \<and> st \<noteq> Filter_Free \<and>
       (st \<noteq> Filter_Disabled \<longrightarrow> bloom_holds p bits (log (sl_generation slot)))) \<and>
     (\<forall>g > sl_generation slot. log g = {})"

definition slot_idle :: "filter_pool_slot \<Rightarrow> (u64 \<Rightarrow> u64 set) \<Rightarrow> bool" where
  "slot_idle slot log \<longleftrightarrow> (\<exists>g st. lifecycle_is (sl_lifecycle slot) g st \<and> st \<in> {Filter_Free, Filter_Disabled} \<and>
     (\<forall>g' > g. log g' = {}))"

definition pool_slot_inv ::
  "bloom_params \<Rightarrow> filter_pool_slot \<Rightarrow> u64 list \<Rightarrow> u64 list \<Rightarrow> u64 list \<Rightarrow> (u64 \<Rightarrow> u64 set) \<Rightarrow> bool" where
  "pool_slot_inv p slot bits bs ps log \<longleftrightarrow> length bits = bp_word_count p \<and> unat (sl_refs slot) = length bs + length ps \<and>
     (sl_state slot = slot_free \<and> bs = [] \<and> ps = [] \<and> slot_idle slot log \<or>
      sl_state slot = slot_allocated \<and> length bs = 1 \<and> slot_live p slot bits (bs @ ps) log \<or>
      sl_state slot = slot_retiring \<and> bs = [] \<and> ps \<noteq> [] \<and> slot_live p slot bits ps log)"

definition filter_pool_inv :: "filter_pool \<Rightarrow> filter_clients \<Rightarrow> bool" where
  "filter_pool_inv pl c \<longleftrightarrow> region_ok pl (cl_region c) \<and>
     (\<forall>i < pool_slots pl. pool_slot_inv (pool_params pl) (fr_slots (cl_region c) ! i) (slot_bits pl (cl_region c) i)
        (build_gens c i) (probe_gens c i) (cl_log c i)) \<and>
     (\<forall>h \<in> set (cl_builds c). bh_slot h < pool_slots pl \<and> \<not> bh_released h) \<and>
     (\<forall>h \<in> set (cl_probes c). ph_slot h < pool_slots pl \<and> \<not> ph_released h)"

lemma slot_state_distinct [simp]:
  "slot_free \<noteq> slot_allocated" "slot_free \<noteq> slot_retiring" "slot_allocated \<noteq> slot_retiring"
  "slot_allocated \<noteq> slot_free" "slot_retiring \<noteq> slot_free" "slot_retiring \<noteq> slot_allocated"
  by (simp_all add: slot_free_def slot_allocated_def slot_retiring_def)

lemma filter_pool_invD:
  assumes "filter_pool_inv pl c"
  shows "region_ok pl (cl_region c)"
    and "i < pool_slots pl \<Longrightarrow> pool_slot_inv (pool_params pl) (fr_slots (cl_region c) ! i) (slot_bits pl (cl_region c) i)
      (build_gens c i) (probe_gens c i) (cl_log c i)"
    and "h \<in> set (cl_builds c) \<Longrightarrow> bh_slot h < pool_slots pl \<and> \<not> bh_released h"
    and "h' \<in> set (cl_probes c) \<Longrightarrow> ph_slot h' < pool_slots pl \<and> \<not> ph_released h'"
  using assms by (auto simp: filter_pool_inv_def)

text \<open>A step that touches the slot, the handles and the log of \<open>i\<close> only.\<close>

lemma filter_pool_inv_upd:
  assumes inv: "filter_pool_inv pl c" and i: "i < pool_slots pl" and u: "region_upd pl i slot bits (cl_region c) r"
    and c': "cl_region c' = r" "\<And>j. j \<noteq> i \<Longrightarrow> build_gens c' j = build_gens c j" "\<And>j. j \<noteq> i \<Longrightarrow> probe_gens c' j = probe_gens c j"
      "\<And>j. j \<noteq> i \<Longrightarrow> cl_log c' j = cl_log c j"
    and slot: "pool_slot_inv (pool_params pl) slot bits (build_gens c' i) (probe_gens c' i) (cl_log c' i)"
    and h: "\<And>h. h \<in> set (cl_builds c') \<Longrightarrow> bh_slot h < pool_slots pl \<and> \<not> bh_released h"
      "\<And>h. h \<in> set (cl_probes c') \<Longrightarrow> ph_slot h < pool_slots pl \<and> \<not> ph_released h"
  shows "filter_pool_inv pl c'"
proof -
  have "pool_slot_inv (pool_params pl) (fr_slots r ! j) (slot_bits pl r j) (build_gens c' j) (probe_gens c' j) (cl_log c' j)"
    if j: "j < pool_slots pl" for j
  proof (cases "j = i")
    case True
    with region_upd_at [OF u i] slot show ?thesis by simp
  next
    case False
    with u j have "fr_slots r ! j = fr_slots (cl_region c) ! j" "slot_bits pl r j = slot_bits pl (cl_region c) j"
      by (simp_all add: region_upd_def)
    with filter_pool_invD(2) [OF inv j] c' False show ?thesis by simp
  qed
  with region_upd_ok [OF u] c'(1) h show ?thesis by (simp add: filter_pool_inv_def)
qed

text \<open>Handles in a list and what is left when one goes.\<close>

lemma drop_nth_simps:
  assumes "k < length xs"
  shows "P (xs ! k) \<Longrightarrow> length (filter P xs) = Suc (length (filter P (drop_nth k xs)))"
    and "\<not> P (xs ! k) \<Longrightarrow> filter P (drop_nth k xs) = filter P xs" and "set (drop_nth k xs) \<subseteq> set xs"
proof -
  have "xs = take k xs @ xs ! k # drop (Suc k) xs" using assms by (rule id_take_nth_drop)
  then have "filter P xs = filter P (take k xs) @ filter P [xs ! k] @ filter P (drop (Suc k) xs)"
    by (metis append_Cons append_Nil filter_append)
  then show "P (xs ! k) \<Longrightarrow> length (filter P xs) = Suc (length (filter P (drop_nth k xs)))"
    "\<not> P (xs ! k) \<Longrightarrow> filter P (drop_nth k xs) = filter P xs" by (simp_all add: drop_nth_def)
  show "set (drop_nth k xs) \<subseteq> set xs" by (auto simp: drop_nth_def dest: in_set_takeD in_set_dropD)
qed

section \<open>Every call keeps the invariant\<close>

lemma slot_live_live: "slot_live p slot bits gens log \<Longrightarrow>
  \<exists>st. lifecycle_is (sl_lifecycle slot) (sl_generation slot) st \<and> st \<noteq> Filter_Free"
  by (auto simp: slot_live_def)

lemma unat_pred: "unat (x :: u32) = Suc n \<Longrightarrow> unat (x - 1) = n"
  by (simp add: unat_sub word_le_nat_alt)

lemma unat_succ: "Suc (unat (x :: u32)) < 2 ^ 32 \<Longrightarrow> unat (x + 1) = Suc (unat x)"
  using unat_add_lem [of x 1] by simp

lemma unat_eq_one: "unat (x :: u32) = 1 \<longleftrightarrow> x = 1"
  by (simp add: word_unat_eq_iff)

text \<open>One reference fewer, of a probe or of the owner who has just left.\<close>

lemma release_ref_inv:
  assumes ok: "region_ok pl r" "i < pool_slots pl" and len: "length (slot_bits pl r i) = bp_word_count p"
    and refs: "unat (sl_refs (fr_slots r ! i)) = Suc (length bs + length ps)"
    and live: "slot_live p (fr_slots r ! i) (slot_bits pl r i) (bs @ ps) log"
    and st: "sl_state (fr_slots r ! i) = slot_allocated \<and> length bs = 1 \<or> sl_state (fr_slots r ! i) = slot_retiring \<and> bs = []"
  obtains r' slot where "release_ref pl i r = Some r'" "region_upd pl i slot (slot_bits pl r i) r r'"
    "pool_slot_inv p slot (slot_bits pl r i) bs ps log"
proof (cases "sl_refs (fr_slots r ! i) = 1 \<and> sl_state (fr_slots r ! i) = slot_retiring")
  case True
  from slot_live_live [OF live] obtain lst where
    l: "lifecycle_is (sl_lifecycle (fr_slots r ! i)) (sl_generation (fr_slots r ! i)) lst" "lst \<noteq> Filter_Free" by blast
  obtain r' w where r': "release_ref pl i r = Some r'"
    "region_upd pl i (freed_slot (fr_slots r ! i) w) (slot_bits pl r i) r r'"
    "lifecycle_is w (sl_generation (fr_slots r ! i)) Filter_Disabled"
    by (rule release_ref_frees [OF ok True [THEN conjunct1] True [THEN conjunct2] l])
  have "bs = []" "ps = []" using True refs st by auto
  moreover have "slot_idle (freed_slot (fr_slots r ! i) w) log"
    using live r'(3) by (auto simp: slot_idle_def slot_live_def freed_slot_def)
  ultimately have "pool_slot_inv p (freed_slot (fr_slots r ! i) w) (slot_bits pl r i) bs ps log"
    using len by (simp add: pool_slot_inv_def freed_slot_def)
  with r'(1,2) show thesis by (rule that)
next
  case False
  obtain r' where r': "release_ref pl i r = Some r'"
    "region_upd pl i ((fr_slots r ! i)\<lparr>sl_refs := sl_refs (fr_slots r ! i) - 1\<rparr>) (slot_bits pl r i) r r'"
    by (rule release_ref_keeps [OF ok False])
  have "ps \<noteq> []" if r: "sl_state (fr_slots r ! i) = slot_retiring"
  proof
    assume "ps = []"
    with refs st r have "unat (sl_refs (fr_slots r ! i)) = 1" by auto
    with False r show False by (simp only: unat_eq_one simp_thms)
  qed
  then have "pool_slot_inv p ((fr_slots r ! i)\<lparr>sl_refs := sl_refs (fr_slots r ! i) - 1\<rparr>) (slot_bits pl r i) bs ps log"
    using len live st unat_pred [OF refs] by (auto simp: pool_slot_inv_def slot_live_def)
  with r' show thesis by (rule that)
qed

lemma probe_gens_drop:
  assumes "k < length (cl_probes c)" and "c' = c\<lparr>cl_region := r, cl_probes := drop_nth k (cl_probes c)\<rparr>"
  shows "j \<noteq> ph_slot (cl_probes c ! k) \<Longrightarrow> probe_gens c' j = probe_gens c j"
    and "length (probe_gens c (ph_slot (cl_probes c ! k))) = Suc (length (probe_gens c' (ph_slot (cl_probes c ! k))))"
    and "set (probe_gens c' j) \<subseteq> set (probe_gens c j)" and "build_gens c' j = build_gens c j"
  using drop_nth_simps [OF assms(1)] assms(2) by (auto simp: probe_gens_def build_gens_def)

lemma build_gens_drop:
  assumes "k < length (cl_builds c)" and "c' = c\<lparr>cl_region := r, cl_builds := drop_nth k (cl_builds c)\<rparr>"
  shows "j \<noteq> bh_slot (cl_builds c ! k) \<Longrightarrow> build_gens c' j = build_gens c j"
    and "length (build_gens c (bh_slot (cl_builds c ! k))) = Suc (length (build_gens c' (bh_slot (cl_builds c ! k))))"
    and "probe_gens c' j = probe_gens c j"
  using drop_nth_simps [OF assms(1)] assms(2) by (auto simp: probe_gens_def build_gens_def)

lemma slot_live_mono: "slot_live p slot bits gens log \<Longrightarrow> set gens' \<subseteq> set gens \<Longrightarrow> slot_live p slot bits gens' log"
  by (auto simp: slot_live_def)

lemma drop_probe_inv:
  assumes inv: "filter_pool_inv pl c" and k: "k < length (cl_probes c)"
  obtains c' where "filter_client_step pl (Op_drop_probe k) c = Some c'" "filter_pool_inv pl c'"
proof -
  let ?h = "cl_probes c ! k"
  let ?i = "ph_slot ?h"
  have h: "?i < pool_slots pl" "\<not> ph_released ?h" using filter_pool_invD(4) [OF inv, of ?h] k by auto
  note ok = filter_pool_invD(1) [OF inv] and si = filter_pool_invD(2) [OF inv h(1)]
  define c0 where "c0 r = c\<lparr>cl_region := r, cl_probes := drop_nth k (cl_probes c)\<rparr>" for r
  note g = probe_gens_drop [OF k c0_def]
  have ne: "probe_gens c ?i \<noteq> []" using g(2) by auto
  let ?r = "cl_region c"
  have len: "length (slot_bits pl ?r ?i) = bp_word_count (pool_params pl)" using si by (simp add: pool_slot_inv_def)
  have refs: "unat (sl_refs (fr_slots ?r ! ?i)) = Suc (length (build_gens c ?i) + length (probe_gens (c0 ?r) ?i))"
    using si g(2) [of ?r] by (simp add: pool_slot_inv_def)
  have live: "slot_live (pool_params pl) (fr_slots ?r ! ?i) (slot_bits pl ?r ?i) (build_gens c ?i @ probe_gens (c0 ?r) ?i) (cl_log c ?i)"
    using si ne g(3) [of ?r ?i] by (auto simp: pool_slot_inv_def elim!: slot_live_mono)
  have st: "sl_state (fr_slots ?r ! ?i) = slot_allocated \<and> length (build_gens c ?i) = 1 \<or>
      sl_state (fr_slots ?r ! ?i) = slot_retiring \<and> build_gens c ?i = []"
    using si ne by (auto simp: pool_slot_inv_def)
  obtain r' slot where r': "release_ref pl ?i ?r = Some r'" "region_upd pl ?i slot (slot_bits pl ?r ?i) ?r r'"
    "pool_slot_inv (pool_params pl) slot (slot_bits pl ?r ?i) (build_gens c ?i) (probe_gens (c0 ?r) ?i) (cl_log c ?i)"
    by (rule release_ref_inv [OF ok h(1) len refs live st])
  have "probe_gens (c0 r') ?i = probe_gens (c0 ?r) ?i" by (simp add: probe_gens_def c0_def)
  then have "filter_pool_inv pl (c0 r')"
    using r'(3) g(1,4) filter_pool_invD(3,4) [OF inv] drop_nth_simps(3) [OF k]
    by (intro filter_pool_inv_upd [OF inv h(1) r'(2)]) (auto simp: c0_def)
  moreover have "filter_client_step pl (Op_drop_probe k) c = Some (c0 r')"
    using k h(2) r'(1) by (simp add: probe_release_def c0_def)
  ultimately show thesis by (intro that)
qed

lemma drop_build_inv:
  assumes inv: "filter_pool_inv pl c" and k: "k < length (cl_builds c)"
  obtains c' where "filter_client_step pl (Op_drop_build k) c = Some c'" "filter_pool_inv pl c'"
proof -
  let ?h = "cl_builds c ! k"
  let ?i = "bh_slot ?h" and ?r = "cl_region c"
  have h: "?i < pool_slots pl" "\<not> bh_released ?h" using filter_pool_invD(3) [OF inv, of ?h] k by auto
  note ok = filter_pool_invD(1) [OF inv] and si = filter_pool_invD(2) [OF inv h(1)]
  define c0 where "c0 r = c\<lparr>cl_region := r, cl_builds := drop_nth k (cl_builds c)\<rparr>" for r
  note g = build_gens_drop [OF k c0_def]
  have al: "sl_state (fr_slots ?r ! ?i) = slot_allocated" "build_gens (c0 r) ?i = []" for r
    using si g(2) [of r] by (auto simp: pool_slot_inv_def)
  let ?slot = "(fr_slots ?r ! ?i)\<lparr>sl_state := slot_retiring\<rparr>"
  let ?r1 = "put_pool_slot ?i ?slot ?r"
  note u = region_upd_slot [OF ok h(1), of ?slot]
  note at = region_upd_at [OF u h(1)]
  obtain r' slot where r': "release_ref pl ?i ?r1 = Some r'" "region_upd pl ?i slot (slot_bits pl ?r1 ?i) ?r1 r'"
    "pool_slot_inv (pool_params pl) slot (slot_bits pl ?r1 ?i) [] (probe_gens c ?i) (cl_log c ?i)"
  proof (rule release_ref_inv [OF region_upd_ok [OF u] h(1)])
    show "length (slot_bits pl ?r1 ?i) = bp_word_count (pool_params pl)" using si at(2) by (simp add: pool_slot_inv_def)
    show "unat (sl_refs (fr_slots ?r1 ! ?i)) = Suc (length [] + length (probe_gens c ?i))"
      using si al(1) at(1) by (auto simp: pool_slot_inv_def)
    show "slot_live (pool_params pl) (fr_slots ?r1 ! ?i) (slot_bits pl ?r1 ?i) ([] @ probe_gens c ?i) (cl_log c ?i)"
      using si al(1) unfolding at by (auto simp: pool_slot_inv_def slot_live_def)
  qed (use at(1) in auto)
  have "region_upd pl ?i slot (slot_bits pl ?r ?i) ?r r'" using region_upd_trans [OF u r'(2)] at(2) by simp
  then have "filter_pool_inv pl (c0 r')"
    using r'(3) at(2) al(2) g filter_pool_invD(3,4) [OF inv] drop_nth_simps(3) [OF k]
    by (intro filter_pool_inv_upd [OF inv h(1)]) (auto simp: c0_def)
  moreover have "filter_client_step pl (Op_drop_build k) c = Some (c0 r')"
    using k h(2) r'(1) al(1) by (simp add: build_release_def release_owner_def region_ok_read(1) [OF ok h(1)] c0_def)
  ultimately show thesis by (intro that)
qed

lemma build_at:
  assumes inv: "filter_pool_inv pl c" and k: "k < length (cl_builds c)" and h: "cl_builds c ! k = h"
  shows "bh_slot h < pool_slots pl" "sl_state (fr_slots (cl_region c) ! bh_slot h) = slot_allocated"
    "bh_generation h = sl_generation (fr_slots (cl_region c) ! bh_slot h)"
    "slot_live (pool_params pl) (fr_slots (cl_region c) ! bh_slot h) (slot_bits pl (cl_region c) (bh_slot h))
      (build_gens c (bh_slot h) @ probe_gens c (bh_slot h)) (cl_log c (bh_slot h))"
proof -
  have h': "h \<in> set (cl_builds c)" using k h by auto
  then show i: "bh_slot h < pool_slots pl" using filter_pool_invD(3) [OF inv] by blast
  have "bh_generation h \<in> set (build_gens c (bh_slot h))" using h' by (auto simp: build_gens_def)
  with filter_pool_invD(2) [OF inv i]
  show "sl_state (fr_slots (cl_region c) ! bh_slot h) = slot_allocated"
    "bh_generation h = sl_generation (fr_slots (cl_region c) ! bh_slot h)"
    "slot_live (pool_params pl) (fr_slots (cl_region c) ! bh_slot h) (slot_bits pl (cl_region c) (bh_slot h))
      (build_gens c (bh_slot h) @ probe_gens c (bh_slot h)) (cl_log c (bh_slot h))"
    by (auto simp: pool_slot_inv_def slot_live_def)
qed

text \<open>A step of the owner that leaves the handles alone: the word, the bits and the log of the slot may change.\<close>

lemma owner_step_inv:
  assumes inv: "filter_pool_inv pl c" and k: "k < length (cl_builds c)" and h: "cl_builds c ! k = h"
    and u: "region_upd pl (bh_slot h) ((fr_slots (cl_region c) ! bh_slot h)\<lparr>sl_lifecycle := w\<rparr>) bits (cl_region c) r"
    and len: "length bits = bp_word_count (pool_params pl)"
    and l: "lifecycle_is w (bh_generation h) st" "st \<noteq> Filter_Free"
      "st \<noteq> Filter_Disabled \<Longrightarrow> bloom_holds (pool_params pl) bits (log (bh_generation h))"
    and log: "\<And>g. g \<noteq> bh_generation h \<Longrightarrow> log g = cl_log c (bh_slot h) g"
  shows "filter_pool_inv pl (c\<lparr>cl_region := r, cl_log := (cl_log c)(bh_slot h := log)\<rparr>)"
proof (rule filter_pool_inv_upd [OF inv _ u])
  note b = build_at [OF inv k h]
  let ?c = "c\<lparr>cl_region := r, cl_log := (cl_log c)(bh_slot h := log)\<rparr>"
  show "bh_slot h < pool_slots pl" by (rule b(1))
  have g: "build_gens ?c j = build_gens c j" "probe_gens ?c j = probe_gens c j" for j
    by (simp_all add: build_gens_def probe_gens_def)
  show "pool_slot_inv (pool_params pl) ((fr_slots (cl_region c) ! bh_slot h)\<lparr>sl_lifecycle := w\<rparr>) bits
      (build_gens ?c (bh_slot h)) (probe_gens ?c (bh_slot h)) (cl_log ?c (bh_slot h))"
    using filter_pool_invD(2) [OF inv b(1)] b(2-4) len l log by (auto simp: pool_slot_inv_def slot_live_def g)
qed (use filter_pool_invD(3,4) [OF inv] in \<open>auto simp: build_gens_def probe_gens_def\<close>)

lemma transition_build_cases:
  assumes "lifecycle_is w g st0" and "st0 \<noteq> Filter_Free"
  obtains s res st where "transition_build g nxt \<lparr>fs_lifecycle = w, fs_bits = bits\<rparr> = Some (s, res)"
    "fs_bits s = bits" "lifecycle_is (fs_lifecycle s) g st" "st = (if st0 = Filter_Building then nxt else st0)"
proof (cases "st0 = Filter_Building")
  case True
  then have "lifecycle_is (fs_lifecycle \<lparr>fs_lifecycle = w, fs_bits = bits\<rparr>) g Filter_Building" using assms by simp
  then obtain w' where "transition_build g nxt \<lparr>fs_lifecycle = w, fs_bits = bits\<rparr> =
      Some (\<lparr>fs_lifecycle = w, fs_bits = bits\<rparr>\<lparr>fs_lifecycle := w'\<rparr>, Inr ())" "lifecycle_is w' g nxt"
    by (rule transition_build_building)
  with True show thesis by (intro that [of "\<lparr>fs_lifecycle = w', fs_bits = bits\<rparr>" "Inr ()" nxt]) simp_all
next
  case False
  obtain b where b: "pack_lifecycle_word g Filter_Building = Inr b" "lifecycle_is b g Filter_Building"
    by (rule pack_other [OF assms(1)])
  obtain d where d: "pack_lifecycle_word g nxt = Inr d" "lifecycle_is d g nxt" by (rule pack_other [OF assms(1)])
  have "w \<noteq> b" using False b(2) assms(1) lifecycle_unique by blast
  with b(1) d(1) assms(1) have "transition_build g nxt \<lparr>fs_lifecycle = w, fs_bits = bits\<rparr> =
      Some (\<lparr>fs_lifecycle = w, fs_bits = bits\<rparr>, Inl (InvalidTransition \<lparr>ls_generation = g, ls_state = Filter_Building\<rparr> \<lparr>ls_generation = g, ls_state = st0\<rparr>))"
    by (simp add: transition_build_def compare_exchange_def lifecycle_is_def)
  with False assms(1) show thesis by (intro that [of "\<lparr>fs_lifecycle = w, fs_bits = bits\<rparr>" _ st0]) simp_all
qed

lemma build_transition_inv:
  assumes inv: "filter_pool_inv pl c" and k: "k < length (cl_builds c)" and nxt: "nxt = Filter_Ready \<or> nxt = Filter_Disabled"
    and f: "\<And>g s s1 res. transition_build g nxt s = Some (s1, res) \<Longrightarrow> \<exists>res'. f g s = Some (s1, res')"
  obtains r res where "build_transition f pl (cl_builds c ! k) (cl_region c) = Some (r, res)"
    "filter_pool_inv pl (c\<lparr>cl_region := r\<rparr>)"
proof -
  let ?h = "cl_builds c ! k" and ?r = "cl_region c"
  let ?i = "bh_slot ?h" and ?slot = "fr_slots (cl_region c) ! bh_slot (cl_builds c ! k)"
  note b = build_at [OF inv k refl] and ok = filter_pool_invD(1) [OF inv]
  obtain st0 where st0: "lifecycle_is (sl_lifecycle ?slot) (bh_generation ?h) st0" "st0 \<noteq> Filter_Free"
    "st0 \<noteq> Filter_Disabled \<longrightarrow> bloom_holds (pool_params pl) (slot_bits pl ?r ?i) (cl_log c ?i (bh_generation ?h))"
    using b(3,4) by (auto simp: slot_live_def)
  obtain s res st where s: "transition_build (bh_generation ?h) nxt \<lparr>fs_lifecycle = sl_lifecycle ?slot, fs_bits = slot_bits pl ?r ?i\<rparr> =
      Some (s, res)" "fs_bits s = slot_bits pl ?r ?i" "lifecycle_is (fs_lifecycle s) (bh_generation ?h) st"
    "st = (if st0 = Filter_Building then nxt else st0)"
    by (rule transition_build_cases [OF st0(1,2)])
  obtain res' where f': "f (bh_generation ?h) \<lparr>fs_lifecycle = sl_lifecycle ?slot, fs_bits = slot_bits pl ?r ?i\<rparr> = Some (s, res')"
    using f [OF s(1)] by blast
  have len: "length (fs_bits s) = bp_word_count (pool_params pl)" using region_ok_read(3) [OF ok b(1)] s(2) by simp
  obtain r' where r': "put_runtime_slot pl ?i s ?r = Some r'"
    "region_upd pl ?i (?slot\<lparr>sl_lifecycle := fs_lifecycle s\<rparr>) (fs_bits s) ?r r'"
    by (rule put_runtime_slot_upd [OF ok b(1) len])
  have "filter_pool_inv pl (c\<lparr>cl_region := r', cl_log := (cl_log c)(?i := cl_log c ?i)\<rparr>)"
    by (rule owner_step_inv [OF inv k refl r'(2) len s(3)]) (use s(2,4) st0(2,3) nxt in \<open>auto split: if_splits\<close>)
  then have "filter_pool_inv pl (c\<lparr>cl_region := r'\<rparr>)" by simp
  moreover have "build_transition f pl ?h ?r = Some (r', try_bind (map_err Fpa_Lifecycle res') (\<lambda>_. Inr ()))"
    using f' r'(1) by (simp add: build_transition_def region_ok_read(4) [OF ok b(1)])
  ultimately show thesis by (intro that)
qed

lemma insert_inv:
  assumes p: "params_ok (pool_params pl)" and inv: "filter_pool_inv pl c" and k: "k < length (cl_builds c)"
  obtains c' where "filter_client_step pl (Op_insert k hash) c = Some c'" "filter_pool_inv pl c'"
    "cl_builds c' = cl_builds c" "cl_probes c' = cl_probes c"
proof -
  let ?h = "cl_builds c ! k" and ?r = "cl_region c"
  let ?i = "bh_slot ?h" and ?slot = "fr_slots (cl_region c) ! bh_slot (cl_builds c ! k)" and ?g = "bh_generation (cl_builds c ! k)"
  note b = build_at [OF inv k refl] and ok = filter_pool_invD(1) [OF inv]
  note read = region_ok_read [OF ok b(1)]
  obtain st where st: "lifecycle_is (sl_lifecycle ?slot) ?g st" "st \<noteq> Filter_Free"
    "st \<noteq> Filter_Disabled \<longrightarrow> bloom_holds (pool_params pl) (slot_bits pl ?r ?i) (cl_log c ?i ?g)"
    using b(3,4) by (auto simp: slot_live_def)
  show thesis
  proof (cases "st = Filter_Building")
    case True
    then have "bloom_holds (pool_params pl) (slot_bits pl ?r ?i) (cl_log c ?i ?g)" using st(3) by simp
    then obtain bits where bits: "insert_hash (pool_params pl) hash (slot_bits pl ?r ?i) = Some bits"
      "bloom_holds (pool_params pl) bits (insert hash (cl_log c ?i ?g))" by (rule bloom_holds_insert [OF p])
    have len: "length bits = bp_word_count (pool_params pl)" using bits(2) by (simp add: bloom_holds_def)
    have u: "region_upd pl ?i (?slot\<lparr>sl_lifecycle := sl_lifecycle ?slot\<rparr>) bits ?r (put_bits pl ?i bits ?r)"
      using region_upd_bits [OF ok b(1) len] by simp
    let ?log = "(cl_log c ?i)(?g := insert hash (cl_log c ?i ?g))"
    have new: "filter_pool_inv pl (c\<lparr>cl_region := put_bits pl ?i bits ?r, cl_log := (cl_log c)(?i := ?log)\<rparr>)"
      by (rule owner_step_inv [OF inv k refl u len st(1,2)]) (use bits(2) in auto)
    have "build_insert_hash pl ?h hash ?r = Some (put_bits pl ?i bits ?r, Inr ())"
      using st(1) True bits(1) read(3) by (simp add: build_insert_hash_def read(1,2) bloom_attach_def lifecycle_is_def)
    then have "filter_client_step pl (Op_insert k hash) c = Some (c\<lparr>cl_region := put_bits pl ?i bits ?r, cl_log := (cl_log c)(?i := ?log)\<rparr>)"
      using k st(1) True by (simp add: handle_building_def read(1) Let_def)
    then show thesis using new by (rule that) simp_all
  next
    case False
    then have "\<not> lifecycle_is (sl_lifecycle ?slot) ?g Filter_Building" using st(1) lifecycle_unique by blast
    then have "\<not> handle_building pl ?r ?h" by (simp add: handle_building_def read(1))
    moreover have "build_insert_hash pl ?h hash ?r = Some (?r, Inr ())"
      using False st(1) by (simp add: build_insert_hash_def read(1) lifecycle_is_def)
    ultimately have "filter_client_step pl (Op_insert k hash) c = Some (c\<lparr>cl_region := ?r, cl_log := cl_log c\<rparr>)"
      using k by (simp add: Let_def)
    then have "filter_client_step pl (Op_insert k hash) c = Some c" by simp
    then show thesis using inv by (rule that) simp_all
  qed
qed

section \<open>Allocation and lookup\<close>

lemma try_acquire_cases:
  assumes "lifecycle_is w g0 st0"
  obtains e where "try_acquire_builder \<lparr>fs_lifecycle = w, fs_bits = bits\<rparr> = Some (\<lparr>fs_lifecycle = w, fs_bits = bits\<rparr>, Inl e)"
  | w' g where "try_acquire_builder \<lparr>fs_lifecycle = w, fs_bits = bits\<rparr> =
      Some (\<lparr>fs_lifecycle = w', fs_bits = bloom_clear bits\<rparr>, Inr \<lparr>fb_generation = g, fb_active = True\<rparr>)"
    "g0 < g" "lifecycle_is w' g Filter_Building"
proof -
  obtain res where res: "acquire_next w = Some res" using acquire_next_total by blast
  show thesis
  proof (cases res)
    case (Inl e)
    with res show thesis by (intro that(1)) (simp add: try_acquire_builder_def)
  next
    case (Inr gd)
    then obtain g d where gd: "acquire_next w = Some (Inr (g, d))" using res by (cases gd) simp
    then obtain g1 st1 where "lifecycle_is w g1 st1" "g1 < g" "lifecycle_is d g Filter_Building" by (rule acquire_next_Inr)
    with assms have "g0 < g" "lifecycle_is d g Filter_Building" using lifecycle_unique by blast+
    with gd show thesis by (intro that(2) [of d g]) (simp_all add: try_acquire_builder_def)
  qed
qed

lemma allocate_from_inv:
  assumes inv: "filter_pool_inv pl c" and "set is \<subseteq> {..<pool_slots pl}"
  obtains r res where "allocate_from pl target is (cl_region c) = Some (r, res)"
    "filter_pool_inv pl (c\<lparr>cl_region := r, cl_builds := cl_builds c @ (case res of Inr (Some h) \<Rightarrow> [h] | _ \<Rightarrow> [])\<rparr>)"
  using assms(2)
proof (induction "is" arbitrary: thesis)
  case Nil
  then show ?case using inv by (intro Nil.prems(1) [of "cl_region c" "Inr None"]) simp_all
next
  case (Cons i "is")
  let ?r = "cl_region c" and ?slot = "fr_slots (cl_region c) ! i"
  have i: "i < pool_slots pl" using Cons.prems(2) by simp
  note ok = filter_pool_invD(1) [OF inv] and si = filter_pool_invD(2) [OF inv i]
  note read = region_ok_read [OF ok i]
  show ?case
  proof (cases "sl_state ?slot = slot_free")
    case False
    obtain r res where "allocate_from pl target is ?r = Some (r, res)"
      "filter_pool_inv pl (c\<lparr>cl_region := r, cl_builds := cl_builds c @ (case res of Inr (Some h) \<Rightarrow> [h] | _ \<Rightarrow> [])\<rparr>)"
      using Cons.IH Cons.prems(2) by auto
    with False show ?thesis by (intro Cons.prems(1) [of r res]) (simp_all add: read(1))
  next
    case True
    define slot1 where "slot1 = ?slot\<lparr>sl_state := slot_allocated, sl_refs := 1, sl_session_epoch := ft_session_epoch target,
      sl_scan_id := ft_scan_id target, sl_output_column := ft_output_column target, sl_key_type := key_type_raw (ft_key_type target)\<rparr>"
    note u = region_upd_slot [OF ok i, of slot1]
    note ok1 = region_upd_ok [OF u] and at = region_upd_at [OF u i]
    note read1 = region_ok_read [OF ok1 i, unfolded at]
    have none: "build_gens c i = []" "probe_gens c i = []" and idle: "slot_idle ?slot (cl_log c i)"
      using si True by (auto simp: pool_slot_inv_def)
    obtain g0 st0 where l0: "lifecycle_is (sl_lifecycle ?slot) g0 st0" "\<forall>g > g0. cl_log c i g = {}"
      using idle by (auto simp: slot_idle_def)
    have lc: "sl_lifecycle slot1 = sl_lifecycle ?slot" by (simp add: slot1_def)
    from l0(1) show ?thesis
    proof (cases rule: try_acquire_cases [where bits = "slot_bits pl ?r i"])
      case (1 e)
      let ?slot2 = "slot1\<lparr>sl_refs := 0, sl_state := slot_free\<rparr>"
      let ?r2 = "put_pool_slot i ?slot2 (put_pool_slot i slot1 ?r)"
      have v: "region_upd pl i ?slot2 (slot_bits pl ?r i) ?r ?r2"
        using region_upd_trans [OF u region_upd_slot [OF ok1 i]] at(2) by simp
      have "pool_slot_inv (pool_params pl) ?slot2 (slot_bits pl ?r i) [] [] (cl_log c i)"
        using si idle by (simp add: pool_slot_inv_def slot_idle_def slot1_def)
      then have new: "filter_pool_inv pl (c\<lparr>cl_region := ?r2\<rparr>)"
        using none filter_pool_invD(3,4) [OF inv]
        by (intro filter_pool_inv_upd [OF inv i v]) (auto simp: build_gens_def probe_gens_def)
      have "allocate_from pl target (i # is) ?r = Some (?r2, Inl (Fpa_Lifecycle e))"
        using True 1 read1(4) by (simp add: read(1) Let_def slot1_def [symmetric] lc)
      then show ?thesis by (rule Cons.prems(1)) (use new in simp)
    next
      case (2 w g)
      have len: "length (bloom_clear (slot_bits pl ?r i)) = bp_word_count (pool_params pl)"
        using read(3) by (simp add: bloom_clear_def)
      let ?s = "\<lparr>fs_lifecycle = w, fs_bits = bloom_clear (slot_bits pl ?r i)\<rparr>"
      obtain r2 where r2: "put_runtime_slot pl i ?s (put_pool_slot i slot1 ?r) = Some r2"
        "region_upd pl i (slot1\<lparr>sl_lifecycle := w\<rparr>) (bloom_clear (slot_bits pl ?r i)) (put_pool_slot i slot1 ?r) r2"
        using put_runtime_slot_upd [OF ok1 i, of ?s] len at(1) by auto
      note ok2 = region_upd_ok [OF r2(2)] and at2 = region_upd_at [OF r2(2) i]
      let ?slot3 = "slot1\<lparr>sl_lifecycle := w, sl_generation := g\<rparr>"
      let ?r3 = "put_pool_slot i ?slot3 r2" and ?h = "\<lparr>bh_slot = i, bh_generation = g, bh_released = False\<rparr>"
      have v: "region_upd pl i ?slot3 (bloom_clear (slot_bits pl ?r i)) ?r ?r3"
        using region_upd_trans [OF u region_upd_trans [OF r2(2) region_upd_slot [OF ok2 i]]] at2(2) by simp
      have "cl_log c i g' = {}" if "g \<le> g'" for g' using l0(2) 2(2) that by auto
      then have "pool_slot_inv (pool_params pl) ?slot3 (bloom_clear (slot_bits pl ?r i)) [g] [] (cl_log c i)"
        using 2(3) len by (auto simp: pool_slot_inv_def slot_live_def slot1_def bloom_holds_def)
      then have new: "filter_pool_inv pl (c\<lparr>cl_region := ?r3, cl_builds := cl_builds c @ [?h]\<rparr>)"
        using none filter_pool_invD(3,4) [OF inv] i
        by (intro filter_pool_inv_upd [OF inv i v]) (auto simp: build_gens_def probe_gens_def)
      have "allocate_from pl target (i # is) ?r = Some (?r3, Inr (Some ?h))"
        using True 2(1) read1(4) r2(1) region_ok_read(1) [OF ok2 i] at2(1)
        by (simp add: read(1) Let_def slot1_def [symmetric] lc builder_detach_def builder_drop_def)
      then show ?thesis by (rule Cons.prems(1)) (use new in simp)
    qed
  qed
qed

definition crowd :: "filter_clients \<Rightarrow> nat \<Rightarrow> nat" where
  "crowd c i = length (build_gens c i) + length (probe_gens c i)"

text \<open>Looking at one slot: nothing changes, or one probe is added.\<close>

lemma lookup_one:
  assumes inv: "filter_pool_inv pl c" and i: "i < pool_slots pl" and small: "Suc (crowd c i) < 2 ^ 32"
  obtains (skipped) "lookup_from pl epoch scan (i # js) (cl_region c) (cl_probes c) = lookup_from pl epoch scan js (cl_region c) (cl_probes c)"
  | (added) r h where "lookup_from pl epoch scan (i # js) (cl_region c) (cl_probes c) = lookup_from pl epoch scan js r (cl_probes c @ [h])"
    "ph_slot h = i" "filter_pool_inv pl (c\<lparr>cl_region := r, cl_probes := cl_probes c @ [h]\<rparr>)"
proof (cases "sl_state (fr_slots (cl_region c) ! i) = slot_allocated")
  case False
  then show thesis using region_ok_read(1) [OF filter_pool_invD(1) [OF inv] i] by (intro that(1)) simp
next
  case True
  let ?r = "cl_region c" and ?slot = "fr_slots (cl_region c) ! i"
  note ok = filter_pool_invD(1) [OF inv] and si = filter_pool_invD(2) [OF inv i]
  note read = region_ok_read [OF ok i]
  define slot1 where "slot1 = ?slot\<lparr>sl_refs := sl_refs ?slot + 1\<rparr>"
  define r1 where "r1 = put_pool_slot i slot1 ?r"
  have u: "region_upd pl i slot1 (slot_bits pl ?r i) ?r r1" unfolding r1_def by (rule region_upd_slot [OF ok i])
  note at = region_upd_at [OF u i]
  have sf: "sl_state slot1 = slot_allocated" "sl_session_epoch slot1 = sl_session_epoch ?slot" "sl_scan_id slot1 = sl_scan_id ?slot"
    "sl_key_type slot1 = sl_key_type ?slot" "sl_generation slot1 = sl_generation ?slot"
    using True by (simp_all add: slot1_def)
  have undo: "release_ref pl i r1 = Some ?r"
    using True region_ok_read(1) [OF region_upd_ok [OF u] i] at(1) ok i
    by (simp add: release_ref_def slot1_def r1_def put_pool_slot_def region_ok_def)
  show thesis
  proof (cases "sl_session_epoch ?slot = epoch \<and> sl_scan_id ?slot = scan \<and> key_type_from_raw (sl_key_type ?slot) \<noteq> None")
    case False
    then show thesis using True undo sf
      by (intro that(1)) (auto simp: read(1) slot1_def [symmetric] r1_def [symmetric] Let_def split: option.split)
  next
    case m: True
    then obtain kt where kt: "key_type_from_raw (sl_key_type ?slot) = Some kt" by blast
    let ?h = "\<lparr>ph_slot = i, ph_generation = sl_generation ?slot, ph_output_column = sl_output_column slot1, ph_key_type = kt,
      ph_released = False\<rparr>"
    have "unat (sl_refs slot1) = Suc (unat (sl_refs ?slot))"
      using si small unat_succ [of "sl_refs ?slot"] by (simp add: slot1_def pool_slot_inv_def crowd_def del: One_nat_def)
    then have "pool_slot_inv (pool_params pl) slot1 (slot_bits pl ?r i) (build_gens c i) (probe_gens c i @ [sl_generation ?slot]) (cl_log c i)"
      using si True by (auto simp: pool_slot_inv_def slot_live_def slot1_def)
    then have "filter_pool_inv pl (c\<lparr>cl_region := r1, cl_probes := cl_probes c @ [?h]\<rparr>)"
      using filter_pool_invD(3,4) [OF inv] i
      by (intro filter_pool_inv_upd [OF inv i u]) (auto simp: build_gens_def probe_gens_def)
    moreover have "lookup_from pl epoch scan (i # js) ?r (cl_probes c) = lookup_from pl epoch scan js r1 (cl_probes c @ [?h])"
      using True m kt sf by (simp add: read(1) slot1_def [symmetric] r1_def [symmetric] Let_def)
    ultimately show thesis by (intro that(2)) simp_all
  qed
qed

lemma lookup_from_inv:
  assumes "filter_pool_inv pl c" and "set is \<subseteq> {..<pool_slots pl}" and "distinct is"
    and "\<And>i. i \<in> set is \<Longrightarrow> crowd c i \<le> n" and "\<And>i. crowd c i \<le> Suc n" and "Suc n < 2 ^ 32"
  shows "\<exists>r probes. lookup_from pl epoch scan is (cl_region c) (cl_probes c) = Some (r, probes) \<and>
    filter_pool_inv pl (c\<lparr>cl_region := r, cl_probes := probes\<rparr>) \<and>
    (\<forall>i. crowd (c\<lparr>cl_region := r, cl_probes := probes\<rparr>) i \<le> Suc n)"
  using assms(1-5)
proof (induction "is" arbitrary: c)
  case Nil
  then show ?case by (simp add: crowd_def build_gens_def probe_gens_def)
next
  case (Cons i "is")
  have i: "i < pool_slots pl" "Suc (crowd c i) < 2 ^ 32" using Cons.prems(2) Cons.prems(4) [of i] assms(6) by auto
  from Cons.prems(1) i show ?case
  proof (cases rule: lookup_one [where epoch = epoch and scan = scan and js = "is"])
    case skipped
    with Cons.IH [OF Cons.prems(1)] Cons.prems show ?thesis by auto
  next
    case (added r h)
    let ?c = "c\<lparr>cl_region := r, cl_probes := cl_probes c @ [h]\<rparr>"
    have cr: "crowd ?c j = crowd c j + (if j = i then 1 else 0)" for j
      using added(2) by (simp add: crowd_def build_gens_def probe_gens_def)
    have "\<exists>r' probes. lookup_from pl epoch scan is (cl_region ?c) (cl_probes ?c) = Some (r', probes) \<and>
      filter_pool_inv pl (?c\<lparr>cl_region := r', cl_probes := probes\<rparr>) \<and>
      (\<forall>i. crowd (?c\<lparr>cl_region := r', cl_probes := probes\<rparr>) i \<le> Suc n)"
    proof (rule Cons.IH [OF added(3)])
      show "set is \<subseteq> {..<pool_slots pl}" "distinct is" using Cons.prems(2,3) by auto
      show "crowd ?c j \<le> n" if "j \<in> set is" for j using that Cons.prems(3) Cons.prems(4) [of j] by (auto simp: cr)
      show "crowd ?c j \<le> Suc n" for j using Cons.prems(4) [of i] Cons.prems(5) [of j] by (auto simp: cr)
    qed
    with added(1) show ?thesis by simp
  qed
qed

section \<open>Runs of clients\<close>

lemma filter_client_step_inv:
  assumes p: "params_ok (pool_params pl)" and inv: "filter_pool_inv pl c" and n: "\<And>i. crowd c i \<le> n" "Suc n < 2 ^ 32"
  shows "\<exists>c'. filter_client_step pl op c = Some c' \<and> filter_pool_inv pl c' \<and> (\<forall>i. crowd c' i \<le> Suc n)"
proof -
  have at: "fp_attached pl" using filter_pool_invD(1) [OF inv] by (simp add: region_ok_def)
  have le: "crowd c i \<le> Suc n" for i using n(1) [of i] by simp
  show ?thesis
  proof (cases op)
    case (Op_allocate target)
    obtain r res where r: "allocate_from pl target [0..<pool_slots pl] (cl_region c) = Some (r, res)"
      "filter_pool_inv pl (c\<lparr>cl_region := r, cl_builds := cl_builds c @ (case res of Inr (Some h) \<Rightarrow> [h] | _ \<Rightarrow> [])\<rparr>)"
      by (rule allocate_from_inv [OF inv]) auto
    have "allocate_build pl target (cl_region c) = Some (r, res)"
      using at r(1) by (auto simp: allocate_build_def)
    moreover have "crowd (c\<lparr>cl_region := r, cl_builds := cl_builds c @ (case res of Inr (Some h) \<Rightarrow> [h] | _ \<Rightarrow> [])\<rparr>) i \<le> Suc n" for i
      using n(1) [of i] by (auto simp: crowd_def build_gens_def probe_gens_def split: sum.split option.split)
    ultimately show ?thesis using r(2) by (simp add: Op_allocate)
  next
    case (Op_lookup epoch scan)
    have "set [0..<pool_slots pl] \<subseteq> {..<pool_slots pl}" "distinct [0..<pool_slots pl]" by auto
    from lookup_from_inv [OF inv this n(1) le n(2), of epoch scan] at show ?thesis
      by (auto simp: lookup_probes_def Op_lookup)
  next
    case (Op_insert k hash)
    show ?thesis
    proof (cases "k < length (cl_builds c)")
      case True
      obtain c' where c': "filter_client_step pl (Op_insert k hash) c = Some c'" "filter_pool_inv pl c'"
        "cl_builds c' = cl_builds c" "cl_probes c' = cl_probes c" by (rule insert_inv [OF p inv True])
      then have "crowd c' i = crowd c i" for i by (simp add: crowd_def build_gens_def probe_gens_def)
      with c' le show ?thesis by (auto simp del: filter_client_step.simps simp: Op_insert)
    qed (use inv le Op_insert in auto)
  next
    case (Op_publish k)
    have f: "\<exists>res'. publish_build g s = Some (s1, res')" if "transition_build g Filter_Ready s = Some (s1, res)" for g s s1 res
      using that by (simp add: publish_build_def)
    show ?thesis
    proof (cases "k < length (cl_builds c)")
      case True
      obtain r res where "build_transition publish_build pl (cl_builds c ! k) (cl_region c) = Some (r, res)"
        "filter_pool_inv pl (c\<lparr>cl_region := r\<rparr>)"
        by (rule build_transition_inv [OF inv True, where nxt = Filter_Ready and f = publish_build]) (use f in auto)
      with True le show ?thesis
        by (auto simp: Op_publish build_publish_ready_def crowd_def build_gens_def probe_gens_def)
    qed (use inv le Op_publish in auto)
  next
    case (Op_disable k)
    have f: "\<exists>res'. slot_disable_build g s = Some (s1, res')" if "transition_build g Filter_Disabled s = Some (s1, res)" for g s s1 res
      using that by (simp add: slot_disable_build_def)
    show ?thesis
    proof (cases "k < length (cl_builds c)")
      case True
      obtain r res where "build_transition slot_disable_build pl (cl_builds c ! k) (cl_region c) = Some (r, res)"
        "filter_pool_inv pl (c\<lparr>cl_region := r\<rparr>)"
        by (rule build_transition_inv [OF inv True, where nxt = Filter_Disabled and f = slot_disable_build]) (use f in auto)
      with True le show ?thesis
        by (auto simp: Op_disable build_disable_def crowd_def build_gens_def probe_gens_def)
    qed (use inv le Op_disable in auto)
  next
    case (Op_drop_build k)
    show ?thesis
    proof (cases "k < length (cl_builds c)")
      case True
      obtain c' where c': "filter_client_step pl (Op_drop_build k) c = Some c'" "filter_pool_inv pl c'"
        by (rule drop_build_inv [OF inv True])
      obtain r where eq: "c' = c\<lparr>cl_region := r, cl_builds := drop_nth k (cl_builds c)\<rparr>"
        using c'(1) True by (auto split: Option.bind_splits)
      have "crowd c' i \<le> crowd c i" for i
        using build_gens_drop [OF True eq] by (cases "i = bh_slot (cl_builds c ! k)") (auto simp: crowd_def)
      with c' le show ?thesis by (metis Op_drop_build order_trans)
    qed (use inv le Op_drop_build in auto)
  next
    case (Op_drop_probe k)
    show ?thesis
    proof (cases "k < length (cl_probes c)")
      case True
      obtain c' where c': "filter_client_step pl (Op_drop_probe k) c = Some c'" "filter_pool_inv pl c'"
        by (rule drop_probe_inv [OF inv True])
      obtain r where eq: "c' = c\<lparr>cl_region := r, cl_probes := drop_nth k (cl_probes c)\<rparr>"
        using c'(1) True by (auto split: Option.bind_splits)
      have "crowd c' i \<le> crowd c i" for i
        using probe_gens_drop [OF True eq] by (cases "i = ph_slot (cl_probes c ! k)") (auto simp: crowd_def)
      with c' le show ?thesis by (metis Op_drop_probe order_trans)
    qed (use inv le Op_drop_probe in auto)
  qed
qed

lemma filter_client_run_inv:
  assumes "params_ok (pool_params pl)" and "filter_pool_inv pl c" and "\<And>i. crowd c i \<le> n" and "n + length ops < 2 ^ 32"
  shows "\<exists>c'. filter_client_run pl ops c = Some c' \<and> filter_pool_inv pl c'"
  using assms(2-4)
proof (induction ops arbitrary: c n)
  case (Cons op ops)
  from Cons.prems(3) have "Suc n < 2 ^ 32" by simp
  from filter_client_step_inv [OF assms(1) Cons.prems(1,2) this] obtain c1 where
    c1: "filter_client_step pl op c = Some c1" "filter_pool_inv pl c1" "\<And>i. crowd c1 i \<le> Suc n" by blast
  from Cons.IH [OF c1(2,3)] Cons.prems(3) c1(1) show ?case by simp
qed simp

lemma filter_pool_inv_start:
  assumes "filter_init_in_place base len cfg = Inr (r, pl)"
  shows "filter_pool_inv pl (filter_clients_start r) \<and> fp_config pl = cfg"
proof -
  have "fp_attached pl" "fp_config pl = cfg" "fr_slots r = replicate (unat (fc_slot_count cfg)) pool_slot_new"
    "fr_bits r = replicate (unat (fc_slot_count cfg) * bp_word_count (fc_params cfg)) 0"
    using assms by (auto simp: filter_init_in_place_def try_bind_eq_Inr total_word_count_def)
  moreover from this have ok: "region_ok pl r" by (simp add: region_ok_def)
  moreover have "slot_idle pool_slot_new (\<lambda>_. {})"
    by (auto simp: slot_idle_def pool_slot_new_def lifecycle_is_def unpack_lifecycle_word_def filter_state_from_bits_def)
  then have "pool_slot_inv (pool_params pl) pool_slot_new (slot_bits pl r i) [] [] (\<lambda>_. {})" if "i < pool_slots pl" for i
    using region_ok_read(3) [OF ok that] by (simp add: pool_slot_inv_def) (simp add: pool_slot_new_def)
  ultimately show ?thesis
    by (auto simp: filter_pool_inv_def filter_clients_start_def build_gens_def probe_gens_def)
qed

section \<open>Properties\<close>

text \<open>C37: For calls that do not overlap. The pool is used by a sequence of fewer than \<open>2 ^ 32\<close> calls, each of which returns before
  the next one begins, by any number of clients in any order. Then no call panics; after each of them every slot counts exactly
  the build and probe handles that are alive on it, and it is free exactly when there are none; and a probe that answers
  \<open>DefinitelyAbsent\<close> is right: its hash was not inserted while its generation was being built. For calls that overlap
  the last part fails, which \<open>Filter_Pool_Race\<close> shows.\<close>

theorem filter_pool_clients_safe:
  assumes "bloom_params_new bit_count hash_count seed = Inr (fc_params cfg)"
    and "filter_init_in_place base len cfg = Inr (r, pl)" and "length ops < 2 ^ 32"
  shows "\<exists>c. filter_client_run pl ops (filter_clients_start r) = Some c \<and>
    (\<forall>i < unat (fc_slot_count cfg). let slot = fr_slots (cl_region c) ! i;
        handles = length (filter (\<lambda>h. bh_slot h = i) (cl_builds c)) + length (filter (\<lambda>h. ph_slot h = i) (cl_probes c)) in
      unat (sl_refs slot) = handles \<and> (sl_state slot = slot_free \<longleftrightarrow> handles = 0)) \<and>
    (\<forall>h \<in> set (cl_probes c). \<forall>hash. probe_decision_for_hash pl h hash (cl_region c) = Some DefinitelyAbsent \<longrightarrow>
      hash \<notin> cl_log c (ph_slot h) (ph_generation h))"
proof -
  note start = filter_pool_inv_start [OF assms(2)]
  have p: "params_ok (pool_params pl)" using bloom_params_new_ok [OF assms(1)] start by simp
  have "crowd (filter_clients_start r) i \<le> 0" for i by (simp add: crowd_def build_gens_def probe_gens_def filter_clients_start_def)
  from filter_client_run_inv [OF p conjunct1 [OF start] this, of ops] assms(3) obtain c where
    c: "filter_client_run pl ops (filter_clients_start r) = Some c" "filter_pool_inv pl c" by auto
  have "hash \<notin> cl_log c (ph_slot h) (ph_generation h)"
    if h: "h \<in> set (cl_probes c)" and d: "probe_decision_for_hash pl h hash (cl_region c) = Some DefinitelyAbsent" for h hash
  proof
    assume ins: "hash \<in> cl_log c (ph_slot h) (ph_generation h)"
    have i: "ph_slot h < pool_slots pl" using filter_pool_invD(4) [OF c(2) h] by simp
    have "ph_generation h \<in> set (probe_gens c (ph_slot h))" using h by (auto simp: probe_gens_def)
    with filter_pool_invD(2) [OF c(2) i] have g: "ph_generation h = sl_generation (fr_slots (cl_region c) ! ph_slot h)"
      and "slot_live (pool_params pl) (fr_slots (cl_region c) ! ph_slot h) (slot_bits pl (cl_region c) (ph_slot h)) [] (cl_log c (ph_slot h))"
      by (auto simp: pool_slot_inv_def slot_live_def)
    then obtain st where "lifecycle_is (sl_lifecycle (fr_slots (cl_region c) ! ph_slot h)) (ph_generation h) st"
      "st \<noteq> Filter_Disabled \<longrightarrow> bloom_holds (pool_params pl) (slot_bits pl (cl_region c) (ph_slot h)) (cl_log c (ph_slot h) (ph_generation h))"
      by (auto simp: slot_live_def)
    with d ins bloom_holds_probe [OF p] show False
      by (auto simp: probe_decision_for_hash_def region_ok_read(4) [OF filter_pool_invD(1) [OF c(2)] i] decision_for_hash_def
          lifecycle_is_def split: if_splits Option.bind_splits)
  qed
  moreover have "unat (sl_refs (fr_slots (cl_region c) ! i)) = crowd c i \<and>
      (sl_state (fr_slots (cl_region c) ! i) = slot_free \<longleftrightarrow> crowd c i = 0)" if "i < unat (fc_slot_count cfg)" for i
    using filter_pool_invD(2) [OF c(2), of i] that start by (auto simp: pool_slot_inv_def crowd_def)
  ultimately show ?thesis using c(1) by (auto simp: Let_def crowd_def build_gens_def probe_gens_def)
qed

text \<open>Two slots of one word: a filter with the hash 5 is built for a scan, and the scan asks for the hash 6.\<close>

definition demo_filter_config :: filter_pool_config where
  "demo_filter_config = \<lparr>fc_slot_count = 2, fc_params = filter_example_params\<rparr>"

definition demo_filter_run :: "(filter_pool \<times> filter_clients) option" where
  "demo_filter_run = (case filter_init_in_place 4096 4096 demo_filter_config of
     Inl _ \<Rightarrow> None
   | Inr (r, pl) \<Rightarrow> map_option (Pair pl) (filter_client_run pl
       [Op_allocate \<lparr>ft_session_epoch = 7, ft_scan_id = 42, ft_output_column = 3, ft_key_type = Key_Int64\<rparr>,
        Op_insert 0 5, Op_publish 0, Op_lookup 7 42] (filter_clients_start r)))"

lemma demo_filter_runs:
  "case demo_filter_run of None \<Rightarrow> False
   | Some (pl, c) \<Rightarrow> cl_log c 0 1 = {5} \<and> length (cl_probes c) = 1 \<and>
       probe_decision_for_hash pl (hd (cl_probes c)) 6 (cl_region c) = Some DefinitelyAbsent"
  by code_simp

theorem filter_pool_clients_safe_witness:
  "\<exists>r pl (c :: filter_clients) (h :: filter_probe_handle). filter_init_in_place 4096 4096 demo_filter_config = Inr (r, pl) \<and> cl_probes c = [h] \<and>
    probe_decision_for_hash pl h 6 (cl_region c) = Some DefinitelyAbsent \<and> 6 \<notin> cl_log c (ph_slot h) (ph_generation h) \<and>
    unat (sl_refs (fr_slots (cl_region c) ! 0)) = length (filter (\<lambda>h. bh_slot h = 0) (cl_builds c)) + length (filter (\<lambda>h. ph_slot h = 0) [h])"
proof -
  let ?ops = "[Op_allocate \<lparr>ft_session_epoch = 7, ft_scan_id = 42, ft_output_column = 3, ft_key_type = Key_Int64\<rparr>,
    Op_insert 0 5, Op_publish 0, Op_lookup 7 42]"
  obtain pl c where d0: "demo_filter_run = Some (pl, c)" "length (cl_probes c) = 1"
    "probe_decision_for_hash pl (hd (cl_probes c)) 6 (cl_region c) = Some DefinitelyAbsent"
    using demo_filter_runs by (auto split: option.splits)
  then obtain h where d: "demo_filter_run = Some (pl, c)" "cl_probes c = [h]"
    "probe_decision_for_hash pl h 6 (cl_region c) = Some DefinitelyAbsent"
    by (cases "cl_probes c") auto
  then obtain r where r: "filter_init_in_place 4096 4096 demo_filter_config = Inr (r, pl)"
    "filter_client_run pl ?ops (filter_clients_start r) = Some c"
    by (auto simp: demo_filter_run_def simp del: filter_client_run.simps split: sum.splits)
  have p: "bloom_params_new 64 1 0 = Inr (fc_params demo_filter_config)"
    by (simp add: bloom_params_new_def filter_example_params_def demo_filter_config_def checked_add_usize_def usize_max_def)
  have n: "length ?ops < 2 ^ 32" "0 < unat (fc_slot_count demo_filter_config)" by (simp_all add: demo_filter_config_def)
  from filter_pool_clients_safe [OF p r(1) n(1)] r(2) n(2) d(2,3)
  have "6 \<notin> cl_log c (ph_slot h) (ph_generation h)" "unat (sl_refs (fr_slots (cl_region c) ! 0)) =
      length (filter (\<lambda>h. bh_slot h = 0) (cl_builds c)) + length (filter (\<lambda>h. ph_slot h = 0) [h])"
    by (auto simp: Let_def simp del: filter_client_run.simps)
  with r(1) d(2,3) show ?thesis by blast
qed

end
