(* ===== verification/Filter_Pool_Race.thy ===== *)
theory Filter_Pool_Race
  imports Filter_Pool
begin

text \<open>
  The operations of \<^verbatim>\<open>src/runtime/filter/src/pool.rs\<close> split into their atomic accesses, on any number of threads.
  \<open>allocate_build\<close> stores 1 into the reference count after its exchange has already made the slot look allocated, so a
  lookup that saw the slot's previous owner can have its reference overwritten.

  Shown: a schedule of one builder and one scan in which a probe, holding a handle, rejects a key that was inserted
  before its generation was published.
\<close>

section \<open>Threads\<close>

record pool_lookup =
  lk_epoch :: u64
  lk_scan :: u64
  lk_slot :: nat
  lk_probes :: "filter_probe_handle list"

text \<open>
  Where a thread stands: \<open>Al_\<close> in \<open>allocate_build\<close>, \<open>Lk_\<close> in \<open>lookup_probes\<close>, \<open>Ow_\<close> in \<open>release_owner\<close>, \<open>Rl_\<close> in
  \<open>release_ref\<close> (with what comes after it), \<open>In_\<close> in \<open>insert_hash\<close>, \<open>Pb_\<close> in \<open>publish_ready\<close>, \<open>Dc_\<close> in
  \<open>decision_for_hash\<close>. Each constructor stands before the access it is named after.
\<close>

datatype pool_pc =
    Pp_Idle
  | Al_Exchange filter_target nat
  | Al_Refs filter_target nat
  | Al_Epoch filter_target nat
  | Al_Scan filter_target nat
  | Al_Column filter_target nat
  | Al_Key filter_target nat
  | Al_Acquire nat filter_pc
  | Al_Generation nat u64
  | Al_UndoRefs nat lifecycle_error
  | Al_UndoState nat lifecycle_error
  | Al_Done "filter_attach_error + filter_build_handle option"
  | Lk_State pool_lookup
  | Lk_Add pool_lookup
  | Lk_Recheck pool_lookup
  | Lk_Epoch pool_lookup
  | Lk_Scan pool_lookup
  | Lk_Key pool_lookup
  | Lk_Generation pool_lookup filter_key_type
  | Lk_Column pool_lookup filter_key_type u64
  | Lk_Done "filter_probe_handle list"
  | Ow_Exchange nat
  | Rl_Sub nat pool_pc
  | Rl_State nat pool_pc
  | Rl_Generation nat pool_pc
  | Rl_Snapshot nat u64 pool_pc
  | Rl_Word nat u64 runtime_filter_state pool_pc
  | Rl_ClearEpoch nat pool_pc
  | Rl_ClearScan nat pool_pc
  | Rl_ClearColumn nat pool_pc
  | Rl_ClearKey nat pool_pc
  | Rl_ClearGeneration nat pool_pc
  | Rl_Free nat pool_pc
  | In_Load filter_build_handle u64
  | In_Bits nat filter_pc
  | Pb_Exchange filter_build_handle
  | Dc_Slot nat filter_pc

text \<open>An access to slot \<open>i\<close>: what it leaves in the slot, and where the thread goes.\<close>

definition on_slot ::
  "filter_pool \<Rightarrow> filter_region \<Rightarrow> nat \<Rightarrow> (filter_pool_slot \<Rightarrow> filter_pool_slot \<times> pool_pc) \<Rightarrow> (filter_region \<times> pool_pc) option" where
  "on_slot pl r i f = do {
     slot \<leftarrow> pool_slot_at pl r i;
     Some (case f slot of (slot1, pc) \<Rightarrow> (put_pool_slot i slot1 r, pc))
   }"

text \<open>The steps of \<open>allocate_build\<close>. Acquiring the builder runs the steps of the slot's own operation.\<close>

fun allocate_step :: "filter_pool \<Rightarrow> filter_region \<Rightarrow> pool_pc \<Rightarrow> (filter_region \<times> pool_pc) option" where
  "allocate_step pl r (Al_Exchange t i) =
     (if pool_slots pl \<le> i then Some (r, Al_Done (Inr None))
      else on_slot pl r i (\<lambda>s. if sl_state s = slot_free then (s\<lparr>sl_state := slot_allocated\<rparr>, Al_Refs t i)
                               else (s, Al_Exchange t (Suc i))))"
| "allocate_step pl r (Al_Refs t i) = on_slot pl r i (\<lambda>s. (s\<lparr>sl_refs := 1\<rparr>, Al_Epoch t i))"
| "allocate_step pl r (Al_Epoch t i) = on_slot pl r i (\<lambda>s. (s\<lparr>sl_session_epoch := ft_session_epoch t\<rparr>, Al_Scan t i))"
| "allocate_step pl r (Al_Scan t i) = on_slot pl r i (\<lambda>s. (s\<lparr>sl_scan_id := ft_scan_id t\<rparr>, Al_Column t i))"
| "allocate_step pl r (Al_Column t i) = on_slot pl r i (\<lambda>s. (s\<lparr>sl_output_column := ft_output_column t\<rparr>, Al_Key t i))"
| "allocate_step pl r (Al_Key t i) = on_slot pl r i (\<lambda>s. (s\<lparr>sl_key_type := key_type_raw (ft_key_type t)\<rparr>, Al_Acquire i A_Load))"
| "allocate_step pl r (Al_Acquire i pc) = do {
     attached \<leftarrow> filter_runtime_slot pl r i;
     (case attached of
        Inl e \<Rightarrow> Some (r, Al_Done (Inl e))
      | Inr s \<Rightarrow> do {
          (s1, pc1) \<leftarrow> acquire_step s pc;
          r1 \<leftarrow> put_runtime_slot pl i s1 r;
          Some (r1, case pc1 of B_Own g \<Rightarrow> Al_Generation i g | A_Failed e \<Rightarrow> Al_UndoRefs i e | _ \<Rightarrow> Al_Acquire i pc1)
        })
   }"
| "allocate_step pl r (Al_Generation i g) = on_slot pl r i (\<lambda>s. (s\<lparr>sl_generation := g\<rparr>,
     Al_Done (Inr (Some \<lparr>bh_slot = i, bh_generation = g, bh_released = False\<rparr>))))"
| "allocate_step pl r (Al_UndoRefs i e) = on_slot pl r i (\<lambda>s. (s\<lparr>sl_refs := 0\<rparr>, Al_UndoState i e))"
| "allocate_step pl r (Al_UndoState i e) = on_slot pl r i (\<lambda>s. (s\<lparr>sl_state := slot_free\<rparr>, Al_Done (Inl (Fpa_Lifecycle e))))"
| "allocate_step pl r _ = None"

definition next_slot :: "pool_lookup \<Rightarrow> pool_pc" where
  "next_slot l = Lk_State (l\<lparr>lk_slot := Suc (lk_slot l)\<rparr>)"

text \<open>The steps of \<open>lookup_probes\<close>.\<close>

fun lookup_step :: "filter_pool \<Rightarrow> filter_region \<Rightarrow> pool_pc \<Rightarrow> (filter_region \<times> pool_pc) option" where
  "lookup_step pl r (Lk_State l) =
     (if pool_slots pl \<le> lk_slot l then Some (r, Lk_Done (lk_probes l))
      else on_slot pl r (lk_slot l) (\<lambda>s. (s, if sl_state s \<noteq> slot_allocated then next_slot l else Lk_Add l)))"
| "lookup_step pl r (Lk_Add l) = on_slot pl r (lk_slot l) (\<lambda>s. (s\<lparr>sl_refs := sl_refs s + 1\<rparr>, Lk_Recheck l))"
| "lookup_step pl r (Lk_Recheck l) = on_slot pl r (lk_slot l) (\<lambda>s.
     (s, if sl_state s = slot_allocated then Lk_Epoch l else Rl_Sub (lk_slot l) (next_slot l)))"
| "lookup_step pl r (Lk_Epoch l) = on_slot pl r (lk_slot l) (\<lambda>s.
     (s, if sl_session_epoch s = lk_epoch l then Lk_Scan l else Rl_Sub (lk_slot l) (next_slot l)))"
| "lookup_step pl r (Lk_Scan l) = on_slot pl r (lk_slot l) (\<lambda>s.
     (s, if sl_scan_id s = lk_scan l then Lk_Key l else Rl_Sub (lk_slot l) (next_slot l)))"
| "lookup_step pl r (Lk_Key l) = on_slot pl r (lk_slot l) (\<lambda>s.
     (s, case key_type_from_raw (sl_key_type s) of None \<Rightarrow> Rl_Sub (lk_slot l) (next_slot l) | Some kt \<Rightarrow> Lk_Generation l kt))"
| "lookup_step pl r (Lk_Generation l kt) = on_slot pl r (lk_slot l) (\<lambda>s. (s, Lk_Column l kt (sl_generation s)))"
| "lookup_step pl r (Lk_Column l kt g) = on_slot pl r (lk_slot l) (\<lambda>s. (s, next_slot (l\<lparr>lk_probes := lk_probes l @
     [\<lparr>ph_slot = lk_slot l, ph_generation = g, ph_output_column = sl_output_column s, ph_key_type = kt, ph_released = False\<rparr>]\<rparr>)))"
| "lookup_step pl r _ = None"

text \<open>The steps of \<open>release_owner\<close> and \<open>release_ref\<close>.\<close>

fun pool_release_step :: "filter_pool \<Rightarrow> filter_region \<Rightarrow> pool_pc \<Rightarrow> (filter_region \<times> pool_pc) option" where
  "pool_release_step pl r (Ow_Exchange i) = on_slot pl r i (\<lambda>s.
     (if sl_state s = slot_allocated then s\<lparr>sl_state := slot_retiring\<rparr> else s, Rl_Sub i Pp_Idle))"
| "pool_release_step pl r (Rl_Sub i k) = on_slot pl r i (\<lambda>s.
     (s\<lparr>sl_refs := sl_refs s - 1\<rparr>, if sl_refs s = 1 then Rl_State i k else k))"
| "pool_release_step pl r (Rl_State i k) = on_slot pl r i (\<lambda>s.
     (s, if sl_state s = slot_retiring then Rl_Generation i k else k))"
| "pool_release_step pl r (Rl_Generation i k) = on_slot pl r i (\<lambda>s. (s, Rl_Snapshot i (sl_generation s) k))"
| "pool_release_step pl r (Rl_Snapshot i g k) = do {
     attached \<leftarrow> filter_runtime_slot pl r i;
     (case attached of
        Inl _ \<Rightarrow> Some (r, Rl_ClearEpoch i k)
      | Inr s \<Rightarrow> do {
          snapshot \<leftarrow> unpack_lifecycle_word (fs_lifecycle s);
          Some (r, if ls_state snapshot = Filter_Ready \<or> ls_state snapshot = Filter_Building
                   then Rl_Word i g (ls_state snapshot) k else Rl_ClearEpoch i k)
        })
   }"
| "pool_release_step pl r (Rl_Word i g st k) = do {
     attached \<leftarrow> filter_runtime_slot pl r i;
     (case attached of
        Inl _ \<Rightarrow> Some (r, Rl_ClearEpoch i k)
      | Inr s \<Rightarrow> do {
          (s1, _) \<leftarrow> (if st = Filter_Ready then retire_ready_after_quiescence g s else slot_disable_build g s);
          r1 \<leftarrow> put_runtime_slot pl i s1 r;
          Some (r1, Rl_ClearEpoch i k)
        })
   }"
| "pool_release_step pl r (Rl_ClearEpoch i k) = on_slot pl r i (\<lambda>s. (s\<lparr>sl_session_epoch := 0\<rparr>, Rl_ClearScan i k))"
| "pool_release_step pl r (Rl_ClearScan i k) = on_slot pl r i (\<lambda>s. (s\<lparr>sl_scan_id := 0\<rparr>, Rl_ClearColumn i k))"
| "pool_release_step pl r (Rl_ClearColumn i k) = on_slot pl r i (\<lambda>s. (s\<lparr>sl_output_column := 0\<rparr>, Rl_ClearKey i k))"
| "pool_release_step pl r (Rl_ClearKey i k) = on_slot pl r i (\<lambda>s. (s\<lparr>sl_key_type := 0\<rparr>, Rl_ClearGeneration i k))"
| "pool_release_step pl r (Rl_ClearGeneration i k) = on_slot pl r i (\<lambda>s. (s\<lparr>sl_generation := 0\<rparr>, Rl_Free i k))"
| "pool_release_step pl r (Rl_Free i k) = on_slot pl r i (\<lambda>s. (s\<lparr>sl_state := slot_free\<rparr>, k))"
| "pool_release_step pl r _ = None"

text \<open>The steps of the handles' \<open>insert_hash\<close>, \<open>publish_ready\<close> and \<open>decision_for_hash\<close>.\<close>

fun handle_step :: "filter_pool \<Rightarrow> filter_region \<Rightarrow> pool_pc \<Rightarrow> (filter_region \<times> pool_pc) option" where
  "handle_step pl r (In_Load h hash) = do {
     slot \<leftarrow> pool_slot_at pl r (bh_slot h);
     snapshot \<leftarrow> unpack_lifecycle_word (sl_lifecycle slot);
     Some (r, if ls_generation snapshot = bh_generation h \<and> ls_state snapshot = Filter_Building
              then In_Bits (bh_slot h) (B_Insert (bh_generation h) hash 0) else Pp_Idle)
   }"
| "handle_step pl r (In_Bits i pc) = do {
     attached \<leftarrow> filter_runtime_slot pl r i;
     (case attached of
        Inl _ \<Rightarrow> Some (r, Pp_Idle)
      | Inr s \<Rightarrow> do {
          (s1, pc1) \<leftarrow> builder_step (pool_params pl) s pc;
          r1 \<leftarrow> put_runtime_slot pl i s1 r;
          Some (r1, case pc1 of B_Insert g hash j \<Rightarrow> In_Bits i pc1 | _ \<Rightarrow> Pp_Idle)
        })
   }"
| "handle_step pl r (Pb_Exchange h) = do {
     attached \<leftarrow> filter_runtime_slot pl r (bh_slot h);
     (case attached of
        Inl _ \<Rightarrow> Some (r, Pp_Idle)
      | Inr s \<Rightarrow> do {
          (s1, _) \<leftarrow> publish_build (bh_generation h) s;
          r1 \<leftarrow> put_runtime_slot pl (bh_slot h) s1 r;
          Some (r1, Pp_Idle)
        })
   }"
| "handle_step pl r (Dc_Slot i pc) = do {
     attached \<leftarrow> filter_runtime_slot pl r i;
     (case (attached, pc) of
        (Inl _, P_Load g hash) \<Rightarrow> Some (r, Dc_Slot i (P_Done g hash PassUnfiltered))
      | (Inl _, _) \<Rightarrow> None
      | (Inr s, _) \<Rightarrow> do {
          pc1 \<leftarrow> probe_step (pool_params pl) s pc;
          Some (r, if pc1 = F_Idle then Pp_Idle else Dc_Slot i pc1)
        })
   }"
| "handle_step pl r _ = None"

definition pool_move :: "filter_pool \<Rightarrow> filter_region \<Rightarrow> pool_pc \<Rightarrow> (filter_region \<times> pool_pc) option" where
  "pool_move pl r pc =
     (case allocate_step pl r pc of Some x \<Rightarrow> Some x | None \<Rightarrow>
      (case lookup_step pl r pc of Some x \<Rightarrow> Some x | None \<Rightarrow>
       (case pool_release_step pl r pc of Some x \<Rightarrow> Some x | None \<Rightarrow> handle_step pl r pc)))"

section \<open>A system of threads\<close>

text \<open>A thread works with the handles it has been given; its newest ones come first.\<close>

record pool_thread =
  pt_pc :: pool_pc
  pt_builds :: "filter_build_handle list"
  pt_probes :: "filter_probe_handle list"

record pool_sys =
  py_region :: filter_region
  py_threads :: "nat \<Rightarrow> pool_thread"
  py_log :: "nat \<Rightarrow> u64 \<Rightarrow> u64 set"

datatype pool_cmd =
    Call_allocate filter_target
  | Call_lookup u64 u64
  | Call_insert u64
  | Call_publish
  | Call_drop_build
  | Call_decide u64
  | Call_drop_probe
  | Next

text \<open>A thread between two calls starts one, on its newest handle.\<close>

definition pool_call :: "pool_cmd \<Rightarrow> pool_thread \<Rightarrow> pool_thread option" where
  "pool_call cmd t =
     (case (cmd, pt_builds t, pt_probes t) of
        (Call_allocate target, _, _) \<Rightarrow> Some (t\<lparr>pt_pc := Al_Exchange target 0\<rparr>)
      | (Call_lookup epoch scan, _, _) \<Rightarrow> Some (t\<lparr>pt_pc := Lk_State \<lparr>lk_epoch = epoch, lk_scan = scan, lk_slot = 0, lk_probes = []\<rparr>\<rparr>)
      | (Call_insert hash, h # _, _) \<Rightarrow> Some (t\<lparr>pt_pc := In_Load h hash\<rparr>)
      | (Call_publish, h # _, _) \<Rightarrow> Some (t\<lparr>pt_pc := Pb_Exchange h\<rparr>)
      | (Call_drop_build, h # hs, _) \<Rightarrow> Some (t\<lparr>pt_pc := Ow_Exchange (bh_slot h), pt_builds := hs\<rparr>)
      | (Call_decide hash, _, h # _) \<Rightarrow> Some (t\<lparr>pt_pc := Dc_Slot (ph_slot h) (P_Load (ph_generation h) hash)\<rparr>)
      | (Call_drop_probe, _, h # hs) \<Rightarrow> Some (t\<lparr>pt_pc := Rl_Sub (ph_slot h) Pp_Idle, pt_probes := hs\<rparr>)
      | _ \<Rightarrow> None)"

text \<open>The log remembers the hashes whose insertion has returned.\<close>

definition log_insert :: "pool_pc \<Rightarrow> pool_pc \<Rightarrow> (nat \<Rightarrow> u64 \<Rightarrow> u64 set) \<Rightarrow> nat \<Rightarrow> u64 \<Rightarrow> u64 set" where
  "log_insert pc pc' log = (case (pc, pc') of
     (In_Bits i (B_Insert g hash j), Pp_Idle) \<Rightarrow> log(i := (log i)(g := insert hash (log i g)))
   | _ \<Rightarrow> log)"

definition pool_sys_step :: "filter_pool \<Rightarrow> nat \<times> pool_cmd \<Rightarrow> pool_sys \<Rightarrow> pool_sys option" where
  "pool_sys_step pl tc s = (case tc of (t, cmd) \<Rightarrow> let th = py_threads s t in
     case pt_pc th of
       Pp_Idle \<Rightarrow> do { th1 \<leftarrow> pool_call cmd th; Some (s\<lparr>py_threads := (py_threads s)(t := th1)\<rparr>) }
     | Al_Done res \<Rightarrow> Some (s\<lparr>py_threads := (py_threads s)(t := th\<lparr>pt_pc := Pp_Idle,
         pt_builds := (case res of Inr (Some h) \<Rightarrow> h # pt_builds th | _ \<Rightarrow> pt_builds th)\<rparr>)\<rparr>)
     | Lk_Done probes \<Rightarrow> Some (s\<lparr>py_threads := (py_threads s)(t := th\<lparr>pt_pc := Pp_Idle, pt_probes := probes @ pt_probes th\<rparr>)\<rparr>)
     | pc \<Rightarrow> do {
         (r, pc1) \<leftarrow> pool_move pl (py_region s) pc;
         Some (s\<lparr>py_region := r, py_threads := (py_threads s)(t := th\<lparr>pt_pc := pc1\<rparr>), py_log := log_insert pc pc1 (py_log s)\<rparr>)
       })"

fun pool_sys_run :: "filter_pool \<Rightarrow> (nat \<times> pool_cmd) list \<Rightarrow> pool_sys \<Rightarrow> pool_sys option" where
  "pool_sys_run pl [] s = Some s"
| "pool_sys_run pl (tc # tcs) s = do { s1 \<leftarrow> pool_sys_step pl tc s; pool_sys_run pl tcs s1 }"

definition pool_sys_start :: "filter_region \<Rightarrow> pool_sys" where
  "pool_sys_start r = \<lparr>py_region = r, py_threads = (\<lambda>_. \<lparr>pt_pc = Pp_Idle, pt_builds = [], pt_probes = []\<rparr>), py_log = (\<lambda>_ _. {})\<rparr>"

section \<open>Property\<close>

text \<open>A pool of one slot with one word of bits.\<close>

definition race_config :: filter_pool_config where
  "race_config = \<lparr>fc_slot_count = 1, fc_params = filter_example_params\<rparr>"

definition race_target :: filter_target where
  "race_target = \<lparr>ft_session_epoch = 7, ft_scan_id = 42, ft_output_column = 3, ft_key_type = Key_Int64\<rparr>"

text \<open>
  Thread 0 builds, thread 1 scans. The scan's lookup has seen the first filter's slot allocated; the slot is freed and
  taken for a second filter of the same scan, whose allocation overwrites the reference the lookup adds.
\<close>

definition race_schedule :: "(nat \<times> pool_cmd) list" where
  "race_schedule = (let run = (\<lambda>t n. replicate n (t, Next)) in
     (0, Call_allocate race_target) # run 0 12 @ (1, Call_lookup 7 42) # run 1 1 @
     (0, Call_drop_build) # run 0 12 @ (0, Call_allocate race_target) # run 0 1 @
     run 1 1 @ run 0 11 @ run 1 8 @
     (0, Call_insert 5) # run 0 3 @ (0, Call_publish) # run 0 1 @
     (1, Call_decide 5) # run 1 1 @
     (0, Call_drop_build) # run 0 12 @ (0, Call_allocate race_target) # run 0 12 @
     run 1 1)"

definition race_result :: "pool_sys option" where
  "race_result = (case filter_init_in_place 4096 4096 race_config of
     Inl _ \<Rightarrow> None
   | Inr (r, pl) \<Rightarrow> pool_sys_run pl race_schedule (pool_sys_start r))"

lemma race_runs:
  "case race_result of None \<Rightarrow> False
   | Some s \<Rightarrow> pt_pc (py_threads s 1) = Dc_Slot 0 (P_Done 2 5 DefinitelyAbsent) \<and> 5 \<in> py_log s 0 2 \<and>
       map ph_generation (pt_probes (py_threads s 1)) = [2]"
  by code_simp

text \<open>C38: With the pool's accesses interleaved, a probe can reject a key that joins. There is a schedule of one builder and
  one scan, each using only the handles it was given, after which the scan, holding a probe of generation 2, is told
  that the hash 5 is definitely absent although the builder of generation 2 had inserted it before publishing.\<close>

theorem filter_probe_can_reject_joinable:
  "\<exists>r pl schedule s. filter_init_in_place 4096 4096 race_config = Inr (r, pl) \<and>
    pool_sys_run pl schedule (pool_sys_start r) = Some s \<and>
    pt_pc (py_threads s 1) = Dc_Slot 0 (P_Done 2 5 DefinitelyAbsent) \<and> 5 \<in> py_log s 0 2 \<and>
    map ph_generation (pt_probes (py_threads s 1)) = [2]"
proof -
  from race_runs obtain s where s: "race_result = Some s \<and> pt_pc (py_threads s 1) = Dc_Slot 0 (P_Done 2 5 DefinitelyAbsent) \<and>
      5 \<in> py_log s 0 2 \<and> map ph_generation (pt_probes (py_threads s 1)) = [2]"
    unfolding case_option_Some ..
  then have "\<exists>r pl. filter_init_in_place 4096 4096 race_config = Inr (r, pl) \<and>
      pool_sys_run pl race_schedule (pool_sys_start r) = Some s"
    unfolding race_result_def by (auto split: sum.splits)
  with s show ?thesis by (elim exE conjE) (intro exI conjI)
qed

end
