(* ===== verification/Spec2Isabelle.thy ===== *)
theory Spec2Isabelle
  imports Treiber_Concurrent Scan_Transfer Ring_Concurrent Filter_Pool_Race
begin

text \<open>
  A verification library for \<^verbatim>\<open>pg_fusion\<close>, a PostgreSQL extension that has queries executed by DataFusion in worker
  processes. Backends and workers share memory and nothing else. This theory imports the whole library; the properties stand
  in the theories of the components they are about, each behind a text block with its number.

  \<^bold>\<open>The program and its parts.\<close>
  Pages of a fixed size live in a shared pool (\<^verbatim>\<open>src/page/pool\<close>), whose free list is a lock-free stack of indices
  (\<^verbatim>\<open>src/lockfree\<close>). A sender leases a page, fills it behind a header, detaches it and hands a frame with its
  descriptor to a carrier; the receiver reads the page in place and gives it back (\<^verbatim>\<open>src/page/transfer\<close>). A second pool, of
  permits, bounds the pages a sender may have under way (\<^verbatim>\<open>src/page/issuance\<close>). On top of these two layers, a backend ships
  a logical plan to a worker (\<^verbatim>\<open>src/page/plan_codec\<close>, \<^verbatim>\<open>src/page/plan_flow\<close>), and producers ship the pages of
  a table scan (\<^verbatim>\<open>src/page/scan_flow\<close>). Control messages go through byte rings (\<^verbatim>\<open>src/runtime/control_transport\<close>).
  Join filters are Bloom filters in a shared pool of slots (\<^verbatim>\<open>src/runtime/filter\<close>).

  \<^bold>\<open>Conventions.\<close>
  A struct is a record, an enum a datatype, a machine integer that may wrap or is stored in memory a word, a length a natural
  number. A \<^verbatim>\<open>Result\<close> is a sum with the error on the left. A panic, a failed \<^verbatim>\<open>expect\<close> and an access out of range
  are \<open>None\<close>, so that a theorem with a result \<open>Some\<close> says that there is none of them. Shared memory (a \<open>region\<close>) is a
  value that operations take and return beside a process's handle on it. A \<^verbatim>\<open>Drop\<close> is a function of its own, called where the
  code lets the value go. \<open>Rust_Base\<close> holds this prelude, the parts of the Rust library the crates use and the shared lemmas.

  \<^bold>\<open>Which theory models what.\<close>
  \<^item> \<open>Treiber_Stack\<close>: \<^verbatim>\<open>src/lockfree/src/lib.rs\<close>, each operation of \<^verbatim>\<open>TreiberStack\<close> run alone. They refine
    push and pop on a list; this contract is the locale \<open>freelist\<close>, which both pools use. \<open>Treiber_Concurrent\<close>: the same
    operations split at every atomic access, any number of threads (C1 to C4).
  \<^item> \<open>Pool_Layout\<close>, \<open>Page_Pool\<close>, \<open>Page_Pool_Proofs\<close>, \<open>Page_Pool_Props\<close>: \<^verbatim>\<open>layout.rs\<close>, \<^verbatim>\<open>types.rs\<close>,
    \<^verbatim>\<open>shm.rs\<close>, \<^verbatim>\<open>pool.rs\<close> and \<^verbatim>\<open>lease.rs\<close> of \<^verbatim>\<open>src/page/pool/src\<close>. A page's state word packs a lease state and a
    generation; \<open>pool_inv\<close> is the invariant that every client sequence keeps (C5 to C11).
  \<^item> \<open>Rmp\<close>: what the crate \<^verbatim>\<open>rmp\<close> promises (\<open>rmp_ok\<close>), and \<open>msgpack\<close>, which keeps the promise.
  \<^item> \<open>Transfer_Wire\<close>, \<open>Transfer_Wire_Proofs\<close>, \<open>Page_Transfer\<close>, \<open>Page_Transfer_Proofs\<close>, \<open>Transfer_Stream\<close>:
    \<^verbatim>\<open>page.rs\<close>, \<^verbatim>\<open>wire.rs\<close>, \<^verbatim>\<open>codec.rs\<close>, \<^verbatim>\<open>tx.rs\<close> and \<^verbatim>\<open>rx.rs\<close> of \<^verbatim>\<open>src/page/transfer/src\<close>. The
    incremental decoder is proved once for the frames of both layers, in the locale \<open>frame_source\<close> (C12 to C16).
  \<^item> \<open>Issuance_Pool\<close>, \<open>Issuance_Wire\<close>, \<open>Issuance_Transfer\<close>, \<open>Issuance_Stream\<close>: \<^verbatim>\<open>src/page/issuance/src\<close>, the
    permit pool, its frames, and the permit-aware ends. The stream with permits refines the one without (C17 to C22).
  \<^item> \<open>Byte_Source\<close>, \<open>Plan_Wire\<close>, \<open>Plan_Wire_Proofs\<close>, \<open>Plan_Extension\<close>, \<open>Plan_Codec\<close>, \<open>Plan_Encode\<close>,
    \<open>Plan_Decode\<close>, \<open>Plan_Props\<close>: \<^verbatim>\<open>src/page/plan_codec/src\<close>, the bytes of scan specifications, the extension codecs,
    and the sessions that write and read a plan in slices and chunks of any size (C23 to C27). The locale \<open>buf\<close> is the
    contract of a byte source.
  \<^item> \<open>Plan_Flow\<close>, \<open>Plan_Transfer\<close>: \<^verbatim>\<open>src/page/plan_flow/src\<close>, the two roles of a plan transfer, and the roles at work
    against each other over an issued stream (C28, C29).
  \<^item> \<open>Framed_Ring\<close>, \<open>Ring_Concurrent\<close>: \<^verbatim>\<open>src/runtime/control_transport/src/ring.rs\<close>, each operation alone, where the
    ring is a bounded queue of frames, and sender and receiver at the same time (C30 to C34).
  \<^item> \<open>Bloom_Filter\<close>, \<open>Runtime_Filter\<close>, \<open>Filter_Pool\<close>, \<open>Filter_Pool_Race\<close>: \<^verbatim>\<open>bloom.rs\<close>, \<^verbatim>\<open>lib.rs\<close>,
    \<^verbatim>\<open>shared.rs\<close> and \<^verbatim>\<open>pool.rs\<close> of \<^verbatim>\<open>src/runtime/filter/src\<close> (C35 to C38).
  \<^item> \<open>Scan_Flow\<close>, \<open>Scan_Steps\<close>, \<open>Scan_Transfer\<close>: \<^verbatim>\<open>src/page/scan_flow/src\<close>, producer, coordinator and worker of a
    scan. The locale \<open>fan_in\<close> is the contract coordinator and worker share (C39); C40 runs a producer and a worker over an
    issued stream.

  \<^bold>\<open>What is shown.\<close>
  Of the pools: any client sequence runs without a panic and with exact accounting, and a released descriptor never
  becomes valid again. Of the stack: an index has one owner under every interleaving. Of the encodings: round trips, and
  that nothing but an encoding is accepted. Of the streams: messages arrive in order, once each and intact, while
  pages and permits go back to their pools. Of the plan: it arrives whole or not at all, and it does arrive. Of a scan: the worker
  gets the pages the source filled and then the end the source came to. Of the ring: frames arrive in order, alone, interleaved, and
  with store buffers. Of the filters: a probe does not reject what was inserted, within the bounds below.
  C4, C31, C34 and C38 show runs in which the code does not do what it means to.

  \<^bold>\<open>Bounds and assumptions.\<close>
  \<^item> Memory. Interleavings are of sequentially consistent accesses, but for C33 and C34, which have store buffers (what the
    release stores and acquire loads of the ring come down to on x86). The flag of the ring is reliable without such
    buffers only (\<open>ring_flagged_without_reordering\<close>, C34).
  \<^item> Tags. The head of the stack carries a 32-bit tag. C1 assumes that no thread sleeps through \<open>2^32\<close> exchanges between its
    load and its exchange (\<open>no_tag_wrap\<close>), in every state of the run; C2 does not need this.
  \<^item> Ring size. C30, C32 and C33 are about rings of at most \<open>2^31\<close> bytes; C31 shows that larger ones, which the layout
    admits, fail.
  \<^item> Pools. Operations of the page pool, of the permit pool and in C37 of the filter pool run alone: a call returns before the
    next one begins. C38 shows what calls of the filter pool that overlap can do. C36 interleaves the operations of
    one filter slot, and assumes the quiescence before a retirement that the code's documentation asks for.
  \<^item> Decimals. C35 is about non-negative scales; \<open>negative_scale_hashed_as_written\<close> shows the others.
  \<^item> Loops. The two loops of the plan sessions and the copy out of a byte source are partial functions into \<open>option\<close>, whose
    results are shown to be \<open>Some\<close>; every other loop of the model is total. No fuel is used. C29 bounds the rounds by the bytes of the plan that are left.
  \<^item> Crates. \<open>rmp_ok\<close>, \<open>mpk_ok\<close> and \<open>df_ok\<close> state what is relied on of \<^verbatim>\<open>rmp\<close> and of DataFusion with \<^verbatim>\<open>prost\<close>;
    \<open>keeps_length\<close> says that a page source writes in the slice it is given. Each has an instance in a witness.

  \<^bold>\<open>What is not modelled.\<close>
  The texts of error messages are tags. The region of the control transport with its leases and generations rests on probing
  processes for life; the control protocol is a further codec; the worker runtime, the extension and the service drive
  DataFusion, Tokio and PostgreSQL; the plan builder, the encoders of Arrow pages and the join order search compute with
  types and floating-point costs of those systems. The sizing of a Bloom filter takes floating-point logarithms. Several
  producers of one scan with a stream each are covered in their ends (C39), not in their pages.
\<close>

end
